(* ===== verification/Prelude.thy ===== *)
theory Prelude
  imports Main "HOL-Library.Word" "HOL-Library.Sublist" "HOL-Library.Code_Target_Nat"
begin

text \<open>
  Shared ground of the development: the machine-integer types of the Rust sources, the named
  collections the component theories extend, and the generic facts on lists, options and words
  that more than one component uses.  Nothing in this theory models a particular source file.
\<close>

unbundle bit_operations_syntax

section \<open>Machine integers\<close>

type_synonym u8 = "8 word"
type_synonym u16 = "16 word"
type_synonym u32 = "32 word"
type_synonym u64 = "64 word"

text \<open>
  \<open>usize\<close> values that only count and index are \<open>nat\<close>.  Signed and checked arithmetic is
  written on \<open>int\<close> with the bound spelled out: \<open>i128_range\<close> is what \<open>checked_add\<close> and
  \<open>checked_mul\<close> on \<open>i128\<close> test, \<open>u64_max\<close> the largest \<open>u64\<close>.
\<close>

definition u64_max :: nat where
  "u64_max = 18446744073709551615"

definition i128_range :: "int \<Rightarrow> bool" where
  "i128_range n \<longleftrightarrow> - (2 ^ 127) \<le> n \<and> n < 2 ^ 127"

definition checked_i128 :: "int \<Rightarrow> int option" where
  "checked_i128 n = (if i128_range n then Some n else None)"

lemma checked_i128_Some [simp]: "i128_range n \<Longrightarrow> checked_i128 n = Some n"
  by (simp add: checked_i128_def)

lemma u64_max_eq: "u64_max = 2 ^ 64 - 1"
  by (simp add: u64_max_def)

lemma unat_of_nat_small: "n < 2 ^ LENGTH('a) \<Longrightarrow> unat (of_nat n :: 'a :: len word) = n"
  by (simp add: unsigned_of_nat take_bit_nat_eq_self)

section \<open>Collections of facts\<close>

text \<open>
  \<open>str_simps\<close> gathers the rewrite rules on Rust string operations, \<open>wf_intros\<close> the
  preservation lemmas of the well-formedness invariants.
\<close>

named_theorems str_simps
named_theorems wf_intros

section \<open>Lists\<close>

text \<open>\<open>Iterator::position\<close>: the index of the first element that satisfies a predicate.\<close>

fun position :: "('a \<Rightarrow> bool) \<Rightarrow> 'a list \<Rightarrow> nat option" where
  "position P [] = None"
| "position P (x # xs) = (if P x then Some 0 else map_option Suc (position P xs))"

lemma position_None: "position P xs = None \<longleftrightarrow> (\<forall>x \<in> set xs. \<not> P x)"
  by (induction xs) auto

lemma position_Some:
  "position P xs = Some i \<longleftrightarrow> i < length xs \<and> P (xs ! i) \<and> (\<forall>j < i. \<not> P (xs ! j))"
proof (induction xs arbitrary: i)
  case Nil
  then show ?case by simp
next
  case (Cons x xs)
  show ?case
    by (cases i) (auto simp: Cons.IH less_Suc_eq_0_disj)
qed

lemma filter_nth_map:
  "filter P xs = map ((!) xs) (filter (\<lambda>i. P (xs ! i)) [0..<length xs])"
proof -
  have "filter P xs = filter P (map ((!) xs) [0..<length xs])"
    by (simp add: map_nth)
  then show ?thesis
    by (simp add: filter_map comp_def)
qed

lemma list_all_in_set: "list_all P xs \<longleftrightarrow> (\<forall>x \<in> set xs. P x)"
  by (simp add: list_all_iff)

section \<open>Association lists in insertion order\<close>

text \<open>
  A Rust hash map is an association list with distinct keys; no definition of the development
  depends on the order of the pairs unless it says so.
\<close>

fun al_insert :: "'k \<Rightarrow> 'v \<Rightarrow> ('k \<times> 'v) list \<Rightarrow> ('k \<times> 'v) list" where
  "al_insert k v [] = [(k, v)]"
| "al_insert k v ((k', v') # m) =
     (if k = k' then (k, v) # m else (k', v') # al_insert k v m)"

definition al_remove :: "'k \<Rightarrow> ('k \<times> 'v) list \<Rightarrow> ('k \<times> 'v) list" where
  "al_remove k m = filter (\<lambda>p. fst p \<noteq> k) m"

lemma map_of_al_insert [simp]: "map_of (al_insert k v m) = (map_of m)(k \<mapsto> v)"
  by (induction k v m rule: al_insert.induct) auto

lemma fst_set_al_insert [simp]: "fst ` set (al_insert k v m) = insert k (fst ` set m)"
  by (induction k v m rule: al_insert.induct) auto

lemma distinct_al_insert [simp]:
  "distinct (map fst m) \<Longrightarrow> distinct (map fst (al_insert k v m))"
  by (induction k v m rule: al_insert.induct) auto

lemma map_of_al_remove [simp]: "map_of (al_remove k m) = (map_of m)(k := None)"
  by (induction m) (auto simp: al_remove_def)

lemma distinct_al_remove [simp]:
  "distinct (map fst m) \<Longrightarrow> distinct (map fst (al_remove k m))"
  by (simp add: al_remove_def distinct_map_filter)

lemma set_al_remove [simp]: "set (al_remove k m) = {p \<in> set m. fst p \<noteq> k}"
  by (auto simp: al_remove_def)

lemma al_remove_absent: "map_of m k = None \<Longrightarrow> al_remove k m = m"
  by (auto simp: al_remove_def map_of_eq_None_iff intro!: filter_True)

section \<open>Masks of a power of two\<close>

lemma and_mask_mod: "(n :: nat) AND (2 ^ k - 1) = n mod 2 ^ k"
  using take_bit_eq_mask [of k n] by (simp add: mask_eq_exp_minus_1 take_bit_eq_mod)

section \<open>Maxima and filtered maps\<close>

lemma foldl_max_bound: "z \<in> set (x # ys) \<Longrightarrow> z \<le> foldl max x ys" for x :: "'a :: linorder"
proof (induction ys arbitrary: x z)
  case (Cons y ys)
  have "max x y \<le> foldl max (max x y) ys" by (rule Cons.IH) simp
  then show ?case using Cons.IH [of z "max x y"] Cons.prems by auto
qed simp

lemma foldl_max_in: "foldl max x ys \<in> set (x # ys)" for x :: "'a :: linorder"
proof (induction ys arbitrary: x)
  case (Cons y ys)
  show ?case using Cons.IH [of "max x y"] by (auto simp: max_def split: if_splits)
qed simp

lemma foldl_max_eq:
  "w \<in> set (x # ys) \<Longrightarrow> w = foldl max x ys \<longleftrightarrow> (\<forall>z \<in> set (x # ys). z \<le> w)" for x :: "'a :: linorder"
  using foldl_max_bound [of _ x ys] foldl_max_in [of x ys] by (meson order.antisym)

lemma map_filter_append: "List.map_filter f (xs @ ys) = List.map_filter f xs @ List.map_filter f ys"
  by (induction xs) (auto split: option.splits)

lemma map_filter_nth:
  assumes "k < length (List.map_filter f xs)"
  shows "\<exists>i < length xs. f (xs ! i) = Some (List.map_filter f xs ! k) \<and>
    k = length (List.map_filter f (take i xs))"
  using assms
proof (induction xs rule: rev_induct)
  case (snoc x xs)
  show ?case
  proof (cases "k < length (List.map_filter f xs)")
    case True
    with snoc.IH obtain i where "i < length xs" "f (xs ! i) = Some (List.map_filter f xs ! k)"
      "k = length (List.map_filter f (take i xs))" by blast
    with True show ?thesis by (intro exI [of _ i]) (auto simp: map_filter_append nth_append)
  next
    case False
    with snoc.prems obtain y where "f x = Some y" "k = length (List.map_filter f xs)"
      by (auto simp: map_filter_append map_filter_simps split: option.splits)
    then show ?thesis by (intro exI [of _ "length xs"]) (auto simp: map_filter_append map_filter_simps)
  qed
qed (simp add: map_filter_simps)

lemma map_filter_index:
  assumes "i < length xs" "f (xs ! i) = Some y"
  defines "k \<equiv> length (List.map_filter f (take i xs))"
  shows "k < length (List.map_filter f xs) \<and> List.map_filter f xs ! k = y"
proof -
  have "xs = take i xs @ xs ! i # drop (Suc i) xs" using assms(1) by (simp add: id_take_nth_drop)
  then have "List.map_filter f xs = List.map_filter f (take i xs) @ y # List.map_filter f (drop (Suc i) xs)"
    using assms(2) map_filter_append [of f "take i xs" "xs ! i # drop (Suc i) xs"] by (simp add: map_filter_simps)
  then show ?thesis unfolding k_def by simp
qed

lemma map_filter_take_mono:
  "i \<le> j \<Longrightarrow> length (List.map_filter f (take i xs)) \<le> length (List.map_filter f (take j xs))"
  using take_add [of i "j - i" xs] by (simp add: map_filter_append)

end
