(* ===== verification/Rust_Str.thy ===== *)
theory Rust_Str
  imports Prelude
begin

text \<open>
  The part of Rust's \<open>str\<close>, \<open>char\<close> and integer parsing that the sources use.  A \<open>&str\<close> is its
  UTF-8 bytes, one HOL \<open>char\<close> per byte, so \<open>len\<close> is \<open>length\<close> and byte offsets are list
  offsets.  A test for an ASCII character means the same on a byte as on a character, because no
  byte of a multi-byte sequence is below 128.
\<close>

type_synonym str = string

section \<open>ASCII classes\<close>

abbreviation byte :: "char \<Rightarrow> nat" where
  "byte c \<equiv> of_char c"

definition is_ascii_digit :: "char \<Rightarrow> bool" where
  "is_ascii_digit c \<longleftrightarrow> 48 \<le> byte c \<and> byte c \<le> 57"

definition is_ascii_uppercase :: "char \<Rightarrow> bool" where
  "is_ascii_uppercase c \<longleftrightarrow> 65 \<le> byte c \<and> byte c \<le> 90"

definition is_ascii_lowercase :: "char \<Rightarrow> bool" where
  "is_ascii_lowercase c \<longleftrightarrow> 97 \<le> byte c \<and> byte c \<le> 122"

definition is_ascii_alphanumeric :: "char \<Rightarrow> bool" where
  "is_ascii_alphanumeric c \<longleftrightarrow> is_ascii_digit c \<or> is_ascii_uppercase c \<or> is_ascii_lowercase c"

text \<open>\<open>u8::is_ascii_whitespace\<close>: space, tab, line feed, form feed, carriage return.\<close>

definition is_ascii_whitespace :: "char \<Rightarrow> bool" where
  "is_ascii_whitespace c \<longleftrightarrow> byte c = 32 \<or> byte c = 9 \<or> byte c = 10 \<or> byte c = 12 \<or> byte c = 13"

lemmas ascii_defs = is_ascii_digit_def is_ascii_uppercase_def is_ascii_lowercase_def
  is_ascii_alphanumeric_def is_ascii_whitespace_def

definition to_ascii_lower :: "char \<Rightarrow> char" where
  "to_ascii_lower c = (if is_ascii_uppercase c then char_of (byte c + 32) else c)"

definition to_ascii_upper :: "char \<Rightarrow> char" where
  "to_ascii_upper c = (if is_ascii_lowercase c then char_of (byte c - 32) else c)"

definition to_ascii_lowercase :: "str \<Rightarrow> str" where
  "to_ascii_lowercase s = map to_ascii_lower s"

definition to_ascii_uppercase :: "str \<Rightarrow> str" where
  "to_ascii_uppercase s = map to_ascii_upper s"

definition eq_ignore_ascii_case :: "str \<Rightarrow> str \<Rightarrow> bool" where
  "eq_ignore_ascii_case a b \<longleftrightarrow> to_ascii_lowercase a = to_ascii_lowercase b"

lemma byte_char_of [simp]: "n < 256 \<Longrightarrow> byte (char_of n) = n"
  by (simp add: take_bit_eq_mod of_char_of)

lemma to_ascii_lower_byte:
  "byte (to_ascii_lower c) = (if is_ascii_uppercase c then byte c + 32 else byte c)"
  by (auto simp: to_ascii_lower_def is_ascii_uppercase_def)

lemma to_ascii_lower_not_upper [simp]: "\<not> is_ascii_uppercase (to_ascii_lower c)"
  by (auto simp: is_ascii_uppercase_def to_ascii_lower_byte)

lemma to_ascii_lower_idem [simp]: "to_ascii_lower (to_ascii_lower c) = to_ascii_lower c"
  by (simp add: to_ascii_lower_def [of "to_ascii_lower c"])

lemma to_ascii_lowercase_idem [simp]:
  "to_ascii_lowercase (to_ascii_lowercase s) = to_ascii_lowercase s"
  by (simp add: to_ascii_lowercase_def)

lemma length_to_ascii_lowercase [simp]: "length (to_ascii_lowercase s) = length s"
  by (simp add: to_ascii_lowercase_def)

lemma to_ascii_lowercase_append [simp]:
  "to_ascii_lowercase (a @ b) = to_ascii_lowercase a @ to_ascii_lowercase b"
  by (simp add: to_ascii_lowercase_def)

lemma to_ascii_lowercase_Nil [simp]: "to_ascii_lowercase [] = []"
  by (simp add: to_ascii_lowercase_def)

lemma to_ascii_lowercase_Cons [simp]:
  "to_ascii_lowercase (c # s) = to_ascii_lower c # to_ascii_lowercase s"
  by (simp add: to_ascii_lowercase_def)

section \<open>Prefixes, suffixes and substrings\<close>

definition starts_with :: "str \<Rightarrow> str \<Rightarrow> bool" where
  "starts_with s p \<longleftrightarrow> take (length p) s = p"

definition ends_with :: "str \<Rightarrow> str \<Rightarrow> bool" where
  "ends_with s p \<longleftrightarrow> length p \<le> length s \<and> drop (length s - length p) s = p"

definition strip_prefix :: "str \<Rightarrow> str \<Rightarrow> str option" where
  "strip_prefix p s = (if starts_with s p then Some (drop (length p) s) else None)"

definition strip_suffix :: "str \<Rightarrow> str \<Rightarrow> str option" where
  "strip_suffix p s = (if ends_with s p then Some (take (length s - length p) s) else None)"

fun contains_str :: "str \<Rightarrow> str \<Rightarrow> bool" where
  "contains_str [] p = (p = [])"
| "contains_str (c # s) p = (starts_with (c # s) p \<or> contains_str s p)"

lemma starts_with_iff: "starts_with s p \<longleftrightarrow> (\<exists>r. s = p @ r)"
  by (auto simp: starts_with_def) (metis append_take_drop_id)

lemma ends_with_iff: "ends_with s p \<longleftrightarrow> (\<exists>r. s = r @ p)"
  by (auto simp: ends_with_def) (metis append_take_drop_id)

lemma starts_with_append [simp]: "starts_with (p @ r) p"
  by (simp add: starts_with_def)

lemma strip_prefix_append [simp]: "strip_prefix p (p @ r) = Some r"
  by (simp add: strip_prefix_def)

lemma strip_prefix_Some: "strip_prefix p s = Some r \<longleftrightarrow> s = p @ r"
  by (auto simp: strip_prefix_def starts_with_iff)

lemma strip_suffix_Some: "strip_suffix p s = Some r \<longleftrightarrow> s = r @ p"
  by (auto simp: strip_suffix_def ends_with_iff)

lemma strip_suffix_append [simp]: "strip_suffix p (r @ p) = Some r"
  by (simp add: strip_suffix_Some)

lemma contains_str_iff: "contains_str s p \<longleftrightarrow> sublist p s"
proof (induction s)
  case Nil
  then show ?case by simp
next
  case (Cons c s)
  have "starts_with (c # s) p \<longleftrightarrow> prefix p (c # s)"
    by (auto simp: starts_with_iff prefix_def)
  then show ?case
    using Cons.IH by (simp add: sublist_Cons_right)
qed

section \<open>Searching and splitting\<close>

definition find_char :: "char \<Rightarrow> str \<Rightarrow> nat option" where
  "find_char c s = position (\<lambda>x. x = c) s"

definition rfind_char :: "char \<Rightarrow> str \<Rightarrow> nat option" where
  "rfind_char c s =
     map_option (\<lambda>i. length s - Suc i) (position (\<lambda>x. x = c) (rev s))"

definition split_once_by :: "(char \<Rightarrow> bool) \<Rightarrow> str \<Rightarrow> (str \<times> str) option" where
  "split_once_by P s =
     (case dropWhile (\<lambda>c. \<not> P c) s of
        [] \<Rightarrow> None
      | _ # r \<Rightarrow> Some (takeWhile (\<lambda>c. \<not> P c) s, r))"

abbreviation split_once :: "char \<Rightarrow> str \<Rightarrow> (str \<times> str) option" where
  "split_once c \<equiv> split_once_by (\<lambda>x. x = c)"

fun split_char :: "char \<Rightarrow> str \<Rightarrow> str list" where
  "split_char c [] = [[]]"
| "split_char c (x # xs) =
     (if x = c then [] # split_char c xs
      else (case split_char c xs of [] \<Rightarrow> [[x]] | p # ps \<Rightarrow> (x # p) # ps))"

text \<open>\<open>split_ascii_whitespace\<close>: the maximal runs of non-whitespace.\<close>

fun split_ws_acc :: "str \<Rightarrow> str \<Rightarrow> str list" where
  "split_ws_acc cur [] = (if cur = [] then [] else [rev cur])"
| "split_ws_acc cur (c # s) =
     (if is_ascii_whitespace c
      then (if cur = [] then split_ws_acc [] s else rev cur # split_ws_acc [] s)
      else split_ws_acc (c # cur) s)"

definition split_ascii_whitespace :: "str \<Rightarrow> str list" where
  "split_ascii_whitespace s = split_ws_acc [] s"

fun join :: "str \<Rightarrow> str list \<Rightarrow> str" where
  "join sep [] = []"
| "join sep [p] = p"
| "join sep (p # q # ps) = p @ sep @ join sep (q # ps)"

lemma split_char_nonempty [simp]: "split_char c s \<noteq> []"
  by (induction s) (auto split: list.splits)

lemma join_split_char [simp]: "join [c] (split_char c s) = s"
proof (induction s)
  case Nil
  then show ?case by simp
next
  case (Cons x xs)
  obtain p ps where "split_char c xs = p # ps"
    by (cases "split_char c xs") auto
  with Cons show ?case
    by (cases ps) auto
qed

lemma split_char_no_sep: "\<forall>p \<in> set (split_char c s). c \<notin> set p"
  by (induction s) (auto split: list.splits)

lemma split_char_absent: "c \<notin> set s \<Longrightarrow> split_char c s = [s]"
  by (induction s) auto

lemma split_once_by_Some:
  "split_once_by P s = Some (a, b) \<longleftrightarrow>
     (\<exists>c. s = a @ c # b \<and> P c \<and> (\<forall>x \<in> set a. \<not> P x))"
proof
  assume *: "split_once_by P s = Some (a, b)"
  then obtain c where d: "dropWhile (\<lambda>c. \<not> P c) s = c # b"
    and a: "a = takeWhile (\<lambda>c. \<not> P c) s"
    by (auto simp: split_once_by_def split: list.splits)
  then have "s = a @ c # b"
    by (metis takeWhile_dropWhile_id)
  moreover have "P c"
    using d by (metis dropWhile_eq_Cons_conv)
  moreover have "\<forall>x \<in> set a. \<not> P x"
    using a by (auto dest: set_takeWhileD)
  ultimately show "\<exists>c. s = a @ c # b \<and> P c \<and> (\<forall>x \<in> set a. \<not> P x)"
    by blast
next
  assume "\<exists>c. s = a @ c # b \<and> P c \<and> (\<forall>x \<in> set a. \<not> P x)"
  then show "split_once_by P s = Some (a, b)"
    by (auto simp: split_once_by_def dropWhile_append takeWhile_append)
qed

lemma split_once_by_None: "split_once_by P s = None \<longleftrightarrow> (\<forall>x \<in> set s. \<not> P x)"
proof (cases "dropWhile (\<lambda>c. \<not> P c) s")
  case Nil
  then have "\<forall>x \<in> set s. \<not> P x"
    by (metis dropWhile_eq_Nil_conv)
  with Nil show ?thesis
    by (simp add: split_once_by_def del: dropWhile_eq_Nil_conv)
next
  case (Cons a r)
  then have "P a" and "a \<in> set s"
    by (metis dropWhile_eq_Cons_conv, metis list.set_intros(1) set_dropWhileD)
  with Cons show ?thesis
    by (auto simp: split_once_by_def)
qed

section \<open>Trimming\<close>

text \<open>
  \<open>str::trim\<close> removes characters with the Unicode \<open>White_Space\<close> property.  On bytes that is
  stripping, at either end, the UTF-8 encoding of one of its twenty-five code points; a UTF-8
  encoding is never a proper suffix or prefix of another, so at most one of them applies.
\<close>

definition white_space :: "str list" where
  "white_space =
     [[CHR 0x09], [CHR 0x0A], [CHR 0x0B], [CHR 0x0C], [CHR 0x0D], [CHR 0x20],
      [CHR 0xC2, CHR 0x85], [CHR 0xC2, CHR 0xA0], [CHR 0xE1, CHR 0x9A, CHR 0x80],
      [CHR 0xE2, CHR 0x80, CHR 0x80], [CHR 0xE2, CHR 0x80, CHR 0x81],
      [CHR 0xE2, CHR 0x80, CHR 0x82], [CHR 0xE2, CHR 0x80, CHR 0x83],
      [CHR 0xE2, CHR 0x80, CHR 0x84], [CHR 0xE2, CHR 0x80, CHR 0x85],
      [CHR 0xE2, CHR 0x80, CHR 0x86], [CHR 0xE2, CHR 0x80, CHR 0x87],
      [CHR 0xE2, CHR 0x80, CHR 0x88], [CHR 0xE2, CHR 0x80, CHR 0x89],
      [CHR 0xE2, CHR 0x80, CHR 0x8A], [CHR 0xE2, CHR 0x80, CHR 0xA8],
      [CHR 0xE2, CHR 0x80, CHR 0xA9], [CHR 0xE2, CHR 0x80, CHR 0xAF],
      [CHR 0xE2, CHR 0x81, CHR 0x9F], [CHR 0xE3, CHR 0x80, CHR 0x80]]"

definition white_prefix :: "str list \<Rightarrow> str \<Rightarrow> nat" where
  "white_prefix ws s = (case find (\<lambda>w. starts_with s w) ws of None \<Rightarrow> 0 | Some w \<Rightarrow> length w)"

function trim_start_by :: "str list \<Rightarrow> str \<Rightarrow> str" where
  "trim_start_by ws s =
     (let n = white_prefix ws s in
      if s = [] \<or> n = 0 then s else trim_start_by ws (drop n s))"
  by pat_completeness auto
termination
  by (relation "measure (\<lambda>(ws, s). length s)") auto

declare trim_start_by.simps [simp del]

definition trim_start :: "str \<Rightarrow> str" where
  "trim_start s = trim_start_by white_space s"

definition trim_end :: "str \<Rightarrow> str" where
  "trim_end s = rev (trim_start_by (map rev white_space) (rev s))"

definition trim :: "str \<Rightarrow> str" where
  "trim s = trim_end (trim_start s)"

text \<open>\<open>trim_end_matches(c)\<close> for one ASCII character.\<close>

definition trim_end_matches :: "char \<Rightarrow> str \<Rightarrow> str" where
  "trim_end_matches c s = rev (dropWhile (\<lambda>x. x = c) (rev s))"

section \<open>Decimal numbers\<close>

definition digit_char :: "nat \<Rightarrow> char" where
  "digit_char d = char_of (48 + d)"

definition digit_val :: "char \<Rightarrow> nat" where
  "digit_val c = byte c - 48"

fun show_nat :: "nat \<Rightarrow> str" where
  "show_nat n = (if n < 10 then [digit_char n] else show_nat (n div 10) @ [digit_char (n mod 10)])"

declare show_nat.simps [simp del]

definition digits_val :: "str \<Rightarrow> nat" where
  "digits_val s = foldl (\<lambda>acc c. acc * 10 + digit_val c) 0 s"

text \<open>
  \<open>parse\<close> on an unsigned integer type: an optional \<open>+\<close>, at least one digit, nothing else, and a
  value of at most \<open>m\<close>.
\<close>

definition parse_uint :: "nat \<Rightarrow> str \<Rightarrow> nat option" where
  "parse_uint m s =
     (let d = (case strip_prefix ''+'' s of Some r \<Rightarrow> r | None \<Rightarrow> s) in
      if d \<noteq> [] \<and> list_all is_ascii_digit d \<and> digits_val d \<le> m then Some (digits_val d) else None)"

lemma byte_digit_char [simp]: "d < 10 \<Longrightarrow> byte (digit_char d) = 48 + d"
  by (simp add: digit_char_def)

lemma digit_char_digit [simp]: "d < 10 \<Longrightarrow> is_ascii_digit (digit_char d)"
  by (simp add: is_ascii_digit_def)

lemma digit_val_char [simp]: "d < 10 \<Longrightarrow> digit_val (digit_char d) = d"
  by (simp add: digit_val_def)

lemma digits_val_append: "digits_val (a @ [c]) = digits_val a * 10 + digit_val c"
  by (simp add: digits_val_def)

lemma show_nat_digits [simp]: "list_all is_ascii_digit (show_nat n)"
  by (induction n rule: show_nat.induct) (subst show_nat.simps, simp)

lemma show_nat_nonempty [simp]: "show_nat n \<noteq> []"
  by (subst show_nat.simps) simp

lemma digits_val_show_nat [simp]: "digits_val (show_nat n) = n"
proof (induction n rule: show_nat.induct)
  case (1 n)
  show ?case
  proof (cases "n < 10")
    case True
    then show ?thesis
      by (simp add: show_nat.simps [of n] digits_val_def)
  next
    case False
    with "1.IH" have "digits_val (show_nat (n div 10)) = n div 10"
      by simp
    with False show ?thesis
      by (simp add: show_nat.simps [of n] digits_val_append)
  qed
qed

lemma digit_not_plus: "is_ascii_digit c \<Longrightarrow> c \<noteq> CHR ''+''"
  by (auto simp: is_ascii_digit_def)

lemma parse_uint_show_nat [simp]: "n \<le> m \<Longrightarrow> parse_uint m (show_nat n) = Some n"
proof -
  assume "n \<le> m"
  have "strip_prefix ''+'' (show_nat n) = None"
    using show_nat_digits [of n] digit_not_plus
    by (cases "show_nat n") (auto simp: strip_prefix_def starts_with_def)
  with \<open>n \<le> m\<close> show ?thesis
    by (simp add: parse_uint_def)
qed

section \<open>Trimming leaves printable ends alone\<close>

definition graphic :: "char \<Rightarrow> bool" where
  "graphic c \<longleftrightarrow> 32 < byte c \<and> byte c < 127"

lemma starts_with_Cons: "starts_with (c # s) (w # ws) \<longleftrightarrow> c = w \<and> starts_with s ws"
  by (auto simp: starts_with_def)

lemma trim_start_by_graphic:
  assumes "\<forall>w \<in> set ws. w \<noteq> [] \<and> \<not> graphic (hd w)" and "s = [] \<or> graphic (hd s)"
  shows "trim_start_by ws s = s"
proof (cases s)
  case Nil
  then show ?thesis by (simp add: trim_start_by.simps)
next
  case (Cons c r)
  have "\<not> starts_with s w" if "w \<in> set ws" for w
    using assms that Cons by (cases w) (auto simp: starts_with_Cons)
  then have "find (\<lambda>w. starts_with s w) ws = None"
    by (auto simp: find_None_iff)
  then have "white_prefix ws s = 0"
    by (simp add: white_prefix_def)
  then show ?thesis
    by (simp add: trim_start_by.simps)
qed

lemma white_space_ends:
  "\<forall>w \<in> set white_space. w \<noteq> [] \<and> \<not> graphic (hd w)"
  "\<forall>w \<in> set (map rev white_space). w \<noteq> [] \<and> \<not> graphic (hd w)"
  by (simp_all add: white_space_def graphic_def)

lemma trim_graphic: "s = [] \<or> graphic (hd s) \<and> graphic (last s) \<Longrightarrow> trim s = s"
proof -
  assume *: "s = [] \<or> graphic (hd s) \<and> graphic (last s)"
  have "trim_start s = s"
    unfolding trim_start_def using * by (intro trim_start_by_graphic white_space_ends) auto
  moreover have "trim_end s = s"
    unfolding trim_end_def using *
    by (subst trim_start_by_graphic [OF white_space_ends(2)]) (auto simp: hd_rev)
  ultimately show ?thesis
    by (simp add: trim_def)
qed

lemma digit_graphic: "is_ascii_digit c \<Longrightarrow> graphic c"
  by (auto simp: is_ascii_digit_def graphic_def)

lemma hd_show_nat_graphic [simp]: "graphic (hd (show_nat n))"
  using show_nat_digits [of n] by (cases "show_nat n") (auto intro: digit_graphic)

lemma takeWhile_digits_append:
  "list_all is_ascii_digit d \<Longrightarrow> r = [] \<or> \<not> is_ascii_digit (hd r) \<Longrightarrow>
     takeWhile is_ascii_digit (d @ r) = d \<and> dropWhile is_ascii_digit (d @ r) = r"
  by (cases r) (auto simp: list_all_iff takeWhile_append dropWhile_append)

section \<open>Finding a string\<close>

text \<open>\<open>str::find\<close> with a string pattern.\<close>

fun find_str :: "str \<Rightarrow> str \<Rightarrow> nat option" where
  "find_str p [] = (if p = [] then Some 0 else None)"
| "find_str p (c # s) = (if starts_with (c # s) p then Some 0 else map_option Suc (find_str p s))"

lemma find_str_char: "c \<notin> set a \<Longrightarrow> find_str [c] (a @ c # b) = Some (length a)"
  by (induction a) (auto simp: starts_with_Cons starts_with_def)

lemma find_str_char_None: "c \<notin> set a \<Longrightarrow> find_str [c] a = None"
  by (induction a) (auto simp: starts_with_Cons)

lemma find_str_Some: "find_str p s = Some i \<Longrightarrow> take i s @ p @ drop (i + length p) s = s"
  by (induction p s arbitrary: i rule: find_str.induct) (auto simp: starts_with_iff split: if_splits)

lemma find_str_None: "find_str p s = None \<Longrightarrow> \<not> contains_str s p"
  by (induction p s rule: find_str.induct) (auto split: if_splits)

lemma find_str_first:
  assumes "p \<noteq> []" "hd p \<notin> set a"
  shows "find_str p (a @ p @ b) = Some (length a)"
  using assms(2)
proof (induction a)
  case Nil
  obtain x r where "p @ b = x # r" using assms(1) by (cases p) auto
  then show ?case using starts_with_append [of p b] by simp
next
  case (Cons x a)
  then have "\<not> starts_with (x # a @ p @ b) p" using assms(1) by (cases p) (auto simp: starts_with_Cons)
  then show ?case using Cons by simp
qed

text \<open>\<open>trim_matches\<close> with a character, \<open>str::lines\<close> and \<open>split_whitespace\<close>.\<close>

definition trim_matches :: "char \<Rightarrow> str \<Rightarrow> str" where
  "trim_matches c s = rev (dropWhile (\<lambda>x. x = c) (rev (dropWhile (\<lambda>x. x = c) s)))"

definition strip_cr :: "str \<Rightarrow> str" where
  "strip_cr l = (case strip_suffix [CHR 0x0D] l of Some x \<Rightarrow> x | None \<Rightarrow> l)"

definition str_lines :: "str \<Rightarrow> str list" where
  "str_lines s =
     (let ps = split_char (CHR 0x0A) s in map strip_cr (butlast ps) @ (if last ps = [] then [] else [last ps]))"

function split_white :: "str \<Rightarrow> str \<Rightarrow> str list" where
  "split_white acc s =
     (let done_acc = (if acc = [] then [] else [acc]) in
      case s of
        [] \<Rightarrow> done_acc
      | c # s' \<Rightarrow>
          let n = white_prefix white_space s in
          if n > 0 then done_acc @ split_white [] (drop n s) else split_white (acc @ [c]) s')"
  by pat_completeness auto
termination
  by (relation "measure (\<lambda>(acc, s). length s)") auto

declare split_white.simps [simp del]

definition split_whitespace :: "str \<Rightarrow> str list" where
  "split_whitespace s = split_white [] s"

end
