(* ===== verification/Bytesize.thy ===== *)
theory Bytesize
  imports Rust_Str
begin

text \<open>
  Byte sizes as the configuration file spells them: \<open>crates/sift-core/src/bytesize.rs\<close>.
\<close>

section \<open>Definitions\<close>

definition KB :: nat where "KB = 2 ^ 10"
definition MB :: nat where "MB = 2 ^ 20"
definition GB :: nat where "GB = 2 ^ 30"
definition TB :: nat where "TB = 2 ^ 40"
definition PB :: nat where "PB = 2 ^ 50"
definition EB :: nat where "EB = 2 ^ 60"

lemmas unit_defs = KB_def MB_def GB_def TB_def PB_def EB_def

datatype byte_size = ByteSize u64

text \<open>Release builds wrap the product; the model keeps the \<open>u64\<close> multiplication.\<close>

definition from_mb :: "u64 \<Rightarrow> byte_size" where
  "from_mb mb = ByteSize (mb * of_nat MB)"

fun size_bytes :: "byte_size \<Rightarrow> u64" where
  "size_bytes (ByteSize v) = v"

datatype byte_size_parse_error = ByteSizeParseError str

definition unit_mult :: "str \<Rightarrow> nat option" where
  "unit_mult u =
     (if u = [] \<or> u = ''B'' then Some 1
      else if u = ''K'' \<or> u = ''KB'' then Some KB
      else if u = ''M'' \<or> u = ''MB'' then Some MB
      else if u = ''G'' \<or> u = ''GB'' then Some GB
      else if u = ''T'' \<or> u = ''TB'' then Some TB
      else if u = ''P'' \<or> u = ''PB'' then Some PB
      else if u = ''E'' \<or> u = ''EB'' then Some EB
      else None)"

definition parse_size :: "str \<Rightarrow> byte_size_parse_error + byte_size" where
  "parse_size s =
     (let err = Inl (ByteSizeParseError s); t = trim s in
      if t = [] then err
      else
        let num = takeWhile is_ascii_digit t; unit = dropWhile is_ascii_digit t in
        if num = [] then err
        else
          (case parse_uint u64_max num of
             None \<Rightarrow> err
           | Some n \<Rightarrow>
               (case unit_mult (to_ascii_uppercase (trim unit)) of
                  None \<Rightarrow> err
                | Some mult \<Rightarrow>
                    if n * mult \<le> u64_max then Inr (ByteSize (of_nat (n * mult))) else err)))"

text \<open>\<open>Display\<close>: the largest unit that divides the value exactly.\<close>

fun show_units :: "(nat \<times> str) list \<Rightarrow> nat \<Rightarrow> str" where
  "show_units [] v = show_nat v @ ''B''"
| "show_units ((mult, sfx) # us) v =
     (if mult \<le> v \<and> v mod mult = 0 then show_nat (v div mult) @ sfx else show_units us v)"

definition size_units :: "(nat \<times> str) list" where
  "size_units = [(EB, ''EB''), (PB, ''PB''), (TB, ''TB''), (GB, ''GB''), (MB, ''MB''), (KB, ''KB'')]"

fun show_size :: "byte_size \<Rightarrow> str" where
  "show_size (ByteSize v) = show_units size_units (unat v)"

text \<open>\<open>Deserialize\<close>: a string is parsed, an integer is a byte count, a negative one is 0.\<close>

definition size_visit_str :: "str \<Rightarrow> byte_size_parse_error + byte_size" where
  "size_visit_str s = parse_size s"

definition size_visit_u64 :: "u64 \<Rightarrow> byte_size" where
  "size_visit_u64 v = ByteSize v"

definition size_visit_i64 :: "int \<Rightarrow> byte_size" where
  "size_visit_i64 v = ByteSize (of_int (max v 0))"

section \<open>Printing and parsing back\<close>

lemma show_units_shape:
  "\<exists>n mult u. show_units us v = show_nat n @ u \<and> n * mult = v \<and> (mult, u) \<in> set ((1, ''B'') # us)"
proof (induction us v rule: show_units.induct)
  case (1 v)
  then show ?case
    by (intro exI [of _ v] exI [of _ 1] exI [of _ "''B''"]) simp
next
  case (2 mult u us v)
  show ?case
  proof (cases "mult \<le> v \<and> v mod mult = 0")
    case True
    then have "v div mult * mult = v" by auto
    with True show ?thesis
      by (intro exI [of _ "v div mult"] exI [of _ mult] exI [of _ u]) simp
  next
    case False
    with 2 show ?thesis by auto
  qed
qed

lemma unit_suffix_table:
  "list_all (\<lambda>(mult, u). unit_mult (to_ascii_uppercase (trim u)) = Some mult \<and> u \<noteq> [] \<and>
     \<not> is_ascii_digit (hd u) \<and> graphic (last u) \<and> 0 < mult) ((1, ''B'') # size_units)"
  by code_simp

lemma unit_suffix_facts:
  assumes "(mult, u) \<in> set ((1, ''B'') # size_units)"
  shows "unit_mult (to_ascii_uppercase (trim u)) = Some mult \<and> u \<noteq> [] \<and>
    \<not> is_ascii_digit (hd u) \<and> graphic (last u) \<and> 0 < mult"
  using unit_suffix_table assms unfolding list_all_iff by blast

lemma parse_size_show_nat:
  assumes "(mult, u) \<in> set ((1, ''B'') # size_units)" and "n * mult \<le> u64_max"
  shows "parse_size (show_nat n @ u) = Inr (ByteSize (of_nat (n * mult)))"
proof -
  note f = unit_suffix_facts [OF assms(1)]
  have "trim (show_nat n @ u) = show_nat n @ u"
    using f by (intro trim_graphic) auto
  moreover have "takeWhile is_ascii_digit (show_nat n @ u) = show_nat n"
    and "dropWhile is_ascii_digit (show_nat n @ u) = u"
    using takeWhile_digits_append [OF show_nat_digits, of u] f by auto
  moreover have "n \<le> u64_max"
    using f assms(2) by (metis Suc_leI le_trans mult.right_neutral mult_le_mono2 One_nat_def)
  ultimately show ?thesis
    using f assms(2) by (simp add: parse_size_def Let_def)
qed

lemma parse_size_value:
  assumes "parse_size s = Inr (ByteSize v)"
  shows "\<exists>n mult. unat v = n * mult \<and>
    parse_uint u64_max (takeWhile is_ascii_digit (trim s)) = Some n \<and>
    unit_mult (to_ascii_uppercase (trim (dropWhile is_ascii_digit (trim s)))) = Some mult"
proof -
  from assms obtain n mult where
    "parse_uint u64_max (takeWhile is_ascii_digit (trim s)) = Some n"
    "unit_mult (to_ascii_uppercase (trim (dropWhile is_ascii_digit (trim s)))) = Some mult"
    and le: "n * mult \<le> u64_max" and v: "v = of_nat (n * mult)"
    by (auto simp: parse_size_def Let_def split: if_splits option.splits)
  moreover from le v have "unat v = n * mult"
    by (simp add: u64_max_def unat_of_nat_small del: of_nat_mult)
  ultimately show ?thesis by blast
qed

section \<open>Properties\<close>

text \<open>
  Every byte size survives the configuration file: what \<open>Display\<close> prints, \<open>parse\<close> reads back
  as the same number of bytes, whichever unit was chosen.
\<close>

theorem byte_size_roundtrip: "parse_size (show_size b) = Inr b"
proof (cases b)
  case (ByteSize v)
  obtain n mult u where s: "show_units size_units (unat v) = show_nat n @ u" and e: "n * mult = unat v"
    and m: "(mult, u) \<in> set ((1, ''B'') # size_units)"
    using show_units_shape by blast
  have "unat v \<le> u64_max"
    using unsigned_less [of v, where ?'a = nat] by (simp add: u64_max_def)
  with parse_size_show_nat [OF m, of n] s e ByteSize show ?thesis
    by (simp del: of_nat_mult)
qed

text \<open>
  A parsed size is the written number times the unit, computed without wrap-around: a product
  past \<open>u64::MAX\<close> is an error, never a small number.
\<close>

theorem parse_size_exact:
  assumes "parse_size s = Inr (ByteSize v)"
  shows "\<exists>n mult. unat v = n * mult \<and>
    parse_uint u64_max (takeWhile is_ascii_digit (trim s)) = Some n \<and>
    unit_mult (to_ascii_uppercase (trim (dropWhile is_ascii_digit (trim s)))) = Some mult"
  using assms by (rule parse_size_value)

theorem parse_size_exact_witness:
  "parse_size '' 3 kB'' = Inr (ByteSize 3072) \<and> (\<exists>n mult. unat (3072 :: u64) = n * mult) \<and>
   parse_size ''18446744073709551615K'' = Inl (ByteSizeParseError ''18446744073709551615K'')"
proof -
  have a: "parse_size '' 3 kB'' = Inr (ByteSize 3072)" by code_simp
  have b: "parse_size ''18446744073709551615K'' = Inl (ByteSizeParseError ''18446744073709551615K'')"
    by code_simp
  show ?thesis using a b parse_size_exact [OF a] by blast
qed

end
