(* ===== verification/Name.thy ===== *)
theory Name
  imports Rust_Str
begin

text \<open>
  Domain names: \<open>crates/sift-core/src/name.rs\<close>.  The iterator \<open>suffixes\<close> is the list it yields,
  and the backtracking loop of \<open>glob_match\<close> is kept as the loop it is, with \<open>None\<close> standing for a
  run that never returns.
\<close>

section \<open>Definitions\<close>

definition normalize :: "str \<Rightarrow> str" where
  "normalize host =
     (let trimmed = (case strip_suffix ''.'' host of Some r \<Rightarrow> r | None \<Rightarrow> host) in
      if list_ex is_ascii_uppercase trimmed then to_ascii_lowercase trimmed else trimmed)"

function suffixes :: "str \<Rightarrow> str list" where
  "suffixes c =
     c # (case split_once CHR ''.'' c of
            None \<Rightarrow> []
          | Some (_, rest) \<Rightarrow> if rest = [] then [] else suffixes rest)"
  by pat_completeness auto
termination
  by (relation "measure length") (auto simp: split_once_by_Some)

declare suffixes.simps [simp del]

definition is_subdomain_of :: "str \<Rightarrow> str \<Rightarrow> bool" where
  "is_subdomain_of host domain \<longleftrightarrow>
     host = domain \<or>
     (length host > length domain \<and> ends_with host domain \<and>
      host ! (length host - length domain - 1) = CHR ''.'')"

definition is_valid :: "str \<Rightarrow> bool" where
  "is_valid host \<longleftrightarrow>
     host \<noteq> [] \<and> length host \<le> 253 \<and>
     list_all (\<lambda>l. l \<noteq> [] \<and> length l \<le> 63) (split_char CHR ''.'' host)"

definition is_wildcard :: "str \<Rightarrow> bool" where
  "is_wildcard host \<longleftrightarrow> CHR ''*'' \<in> set host"

text \<open>The final loop of \<open>glob_match\<close>: skip the stars that are left.\<close>

function skip_stars :: "str \<Rightarrow> nat \<Rightarrow> nat" where
  "skip_stars pat p =
     (if p < length pat \<and> pat ! p = CHR ''*'' then skip_stars pat (p + 1) else p)"
  by pat_completeness auto
termination
  by (relation "measure (\<lambda>(pat, p). length pat - p)") auto

declare skip_stars.simps [simp del]

text \<open>The main loop; \<open>star = None\<close> is the sentinel \<open>usize::MAX\<close>.\<close>

partial_function (option) glob_loop ::
  "str \<Rightarrow> str \<Rightarrow> nat \<Rightarrow> nat \<Rightarrow> nat option \<Rightarrow> nat \<Rightarrow> bool option" where
  "glob_loop pat tx p t star mark =
     (if t < length tx then
        (if p < length pat \<and> (pat ! p = tx ! t \<or> pat ! p = CHR ''?'')
         then glob_loop pat tx (p + 1) (t + 1) star mark
         else if p < length pat \<and> pat ! p = CHR ''*''
         then glob_loop pat tx (p + 1) t (Some p) t
         else (case star of
                 Some st \<Rightarrow> glob_loop pat tx (st + 1) (mark + 1) star (mark + 1)
               | None \<Rightarrow> Some False))
      else Some (skip_stars pat p = length pat))"

definition glob_match :: "str \<Rightarrow> str \<Rightarrow> bool option" where
  "glob_match pat tx = glob_loop pat tx 0 0 None 0"

definition wildcard_match :: "str \<Rightarrow> str \<Rightarrow> bool option" where
  "wildcard_match pattern host =
     (case strip_prefix ''*.'' pattern of
        Some suf \<Rightarrow> Some (is_subdomain_of host suf)
      | None \<Rightarrow> glob_match pattern host)"

text \<open>
  What a \<open>*\<close>/\<open>?\<close> glob means, by recursion on the pattern and the text: the reference the loop is
  measured against.
\<close>

function glob_spec :: "str \<Rightarrow> str \<Rightarrow> bool" where
  "glob_spec [] tx = (tx = [])"
| "glob_spec (c # p) tx =
     (if c = CHR ''*''
      then glob_spec p tx \<or> (case tx of [] \<Rightarrow> False | _ # r \<Rightarrow> glob_spec (c # p) r)
      else (case tx of [] \<Rightarrow> False | x # r \<Rightarrow> (c = CHR ''?'' \<or> c = x) \<and> glob_spec p r))"
  by pat_completeness auto
termination
  by (relation "measures [\<lambda>(p, t). length p, \<lambda>(p, t). length t]") auto

section \<open>Parent domains\<close>

lemma is_subdomain_of_iff:
  "is_subdomain_of host d \<longleftrightarrow> host = d \<or> (\<exists>a. host = a @ ''.'' @ d)"
proof -
  have "\<exists>a. host = a @ ''.'' @ d"
    if "length host > length d" "ends_with host d"
      "host ! (length host - length d - 1) = CHR ''.''"
  proof -
    from that(2) obtain r where r: "host = r @ d"
      by (auto simp: ends_with_iff)
    with that(1) have ne: "r \<noteq> []" by auto
    with r that(3) have "last r = CHR ''.''"
      by (simp add: last_conv_nth nth_append)
    with ne have "r = butlast r @ ''.''"
      by (metis append_butlast_last_id)
    with r show ?thesis
      by (metis append.assoc)
  qed
  moreover have "is_subdomain_of (a @ ''.'' @ d) d" for a
    by (auto simp: is_subdomain_of_def ends_with_iff nth_append)
  ultimately show ?thesis
    by (auto simp: is_subdomain_of_def)
qed

lemma dot_suffix_split:
  assumes "host = a @ CHR ''.'' # d"
  obtains x rest where "split_once CHR ''.'' host = Some (x, rest)"
    and "rest = d \<or> (\<exists>b. rest = b @ CHR ''.'' # d)"
proof -
  have "split_once CHR ''.'' host \<noteq> None"
    using assms by (auto simp: split_once_by_None)
  then obtain x rest where sp: "split_once CHR ''.'' host = Some (x, rest)"
    by auto
  then have eq: "host = x @ CHR ''.'' # rest" and nx: "CHR ''.'' \<notin> set x"
    by (auto simp: split_once_by_Some)
  from eq assms have "x @ CHR ''.'' # rest = a @ CHR ''.'' # d"
    by simp
  then have "rest = d \<or> (\<exists>b. rest = b @ CHR ''.'' # d)"
    using nx by (auto simp: append_eq_append_conv2 Cons_eq_append_conv append_eq_Cons_conv)
  with sp show ?thesis
    using that by blast
qed

text \<open>
  The walk over parent domains visits exactly the domains the host is equal to or a subdomain of.
\<close>

lemma mem_suffixes: "d \<noteq> [] \<Longrightarrow> d \<in> set (suffixes host) \<longleftrightarrow> is_subdomain_of host d"
proof (induction host rule: suffixes.induct)
  case (1 host)
  show ?case
  proof (cases "split_once CHR ''.'' host")
    case None
    then have "CHR ''.'' \<notin> set host"
      by (auto simp: split_once_by_None)
    with None show ?thesis
      by (auto simp: suffixes.simps [of host] is_subdomain_of_iff)
  next
    case (Some xr)
    then obtain x rest where sp: "split_once CHR ''.'' host = Some (x, rest)"
      by (cases xr) auto
    then have host: "host = x @ CHR ''.'' # rest"
      by (auto simp: split_once_by_Some)
    have rec: "d \<in> set (suffixes host) \<longleftrightarrow> d = host \<or> rest \<noteq> [] \<and> is_subdomain_of rest d"
    proof (cases "rest = []")
      case True
      with sp show ?thesis
        by (simp add: suffixes.simps [of host])
    next
      case False
      from "1.IH" [OF sp refl False "1.prems"] sp False show ?thesis
        by (simp add: suffixes.simps [of host])
    qed
    have "rest \<noteq> [] \<and> is_subdomain_of rest d \<longleftrightarrow> (\<exists>a. host = a @ ''.'' @ d)"
    proof
      assume "rest \<noteq> [] \<and> is_subdomain_of rest d"
      then show "\<exists>a. host = a @ ''.'' @ d"
        using host by (auto simp: is_subdomain_of_iff)
    next
      assume "\<exists>a. host = a @ ''.'' @ d"
      then obtain a where "host = a @ CHR ''.'' # d" by auto
      then obtain x' rest' where "split_once CHR ''.'' host = Some (x', rest')"
        and "rest' = d \<or> (\<exists>b. rest' = b @ CHR ''.'' # d)"
        by (rule dot_suffix_split)
      with sp "1.prems" show "rest \<noteq> [] \<and> is_subdomain_of rest d"
        by (auto simp: is_subdomain_of_iff)
    qed
    with rec show ?thesis
      by (auto simp: is_subdomain_of_iff)
  qed
qed

lemma suffixes_hd: "\<exists>r. suffixes host = host # r"
  by (subst suffixes.simps) simp

lemma suffixes_length: "s \<in> set (suffixes host) \<Longrightarrow> length s \<le> length host"
proof (induction host rule: suffixes.induct)
  case (1 host)
  show ?case
  proof (cases "split_once CHR ''.'' host")
    case None
    with "1.prems" show ?thesis by (simp add: suffixes.simps [of host])
  next
    case (Some xr)
    then obtain x rest where sp: "split_once CHR ''.'' host = Some (x, rest)"
      by (cases xr) auto
    then have "length rest < length host"
      by (auto simp: split_once_by_Some)
    with "1.IH" [OF sp refl] "1.prems" sp show ?thesis
      by (fastforce simp: suffixes.simps [of host] split: if_splits)
  qed
qed

text \<open>The suffixes get strictly shorter, so none is visited twice.\<close>

lemma suffixes_distinct: "distinct (suffixes host)"
proof (induction host rule: suffixes.induct)
  case (1 host)
  show ?case
  proof (cases "split_once CHR ''.'' host")
    case None
    then show ?thesis by (simp add: suffixes.simps [of host])
  next
    case (Some xr)
    then obtain x rest where sp: "split_once CHR ''.'' host = Some (x, rest)"
      by (cases xr) auto
    then have "length rest < length host"
      by (auto simp: split_once_by_Some)
    then have "host \<notin> set (suffixes rest)"
      using suffixes_length [of host rest] by auto
    with "1.IH" sp show ?thesis
      by (simp add: suffixes.simps [of host])
  qed
qed

section \<open>The glob loop\<close>

declare glob_spec.simps(2) [simp del]

lemma glob_spec_char [simp]:
  "c \<noteq> CHR ''*'' \<Longrightarrow>
   glob_spec (c # p) tx = (case tx of [] \<Rightarrow> False | x # r \<Rightarrow> (c = CHR ''?'' \<or> c = x) \<and> glob_spec p r)"
  by (simp add: glob_spec.simps)

lemma glob_spec_star:
  "glob_spec (CHR ''*'' # p) tx \<longleftrightarrow> (\<exists>k \<le> length tx. glob_spec p (drop k tx))"
proof (induction tx)
  case Nil
  then show ?case by (simp add: glob_spec.simps)
next
  case (Cons x tx)
  have "(\<exists>k \<le> length (x # tx). glob_spec p (drop k (x # tx))) \<longleftrightarrow>
      glob_spec p (x # tx) \<or> (\<exists>k \<le> length tx. glob_spec p (drop k tx))"
  proof
    assume "\<exists>k \<le> length (x # tx). glob_spec p (drop k (x # tx))"
    then obtain k where "k \<le> length (x # tx)" "glob_spec p (drop k (x # tx))" by blast
    then show "glob_spec p (x # tx) \<or> (\<exists>k \<le> length tx. glob_spec p (drop k tx))"
      by (cases k) auto
  next
    assume "glob_spec p (x # tx) \<or> (\<exists>k \<le> length tx. glob_spec p (drop k tx))"
    then show "\<exists>k \<le> length (x # tx). glob_spec p (drop k (x # tx))"
      by (metis Suc_le_mono drop0 drop_Suc_Cons le0 length_Cons)
  qed
  with Cons show ?case by (simp add: glob_spec.simps(2) [of "CHR ''*''" p "x # tx"])
qed

definition seg_matches :: "str \<Rightarrow> str \<Rightarrow> bool" where
  "seg_matches seg tx \<longleftrightarrow>
     list_all2 (\<lambda>c x. c \<noteq> CHR ''*'' \<and> (c = CHR ''?'' \<or> c = x)) seg tx"

lemma glob_spec_seg:
  "CHR ''*'' \<notin> set seg \<Longrightarrow>
   glob_spec (seg @ p) tx \<longleftrightarrow>
     length seg \<le> length tx \<and> seg_matches seg (take (length seg) tx) \<and>
     glob_spec p (drop (length seg) tx)"
  by (induction seg arbitrary: tx) (auto simp: seg_matches_def split: list.splits)

lemma glob_spec_Nil: "glob_spec p [] \<longleftrightarrow> (\<forall>c \<in> set p. c = CHR ''*'')"
proof (induction p)
  case Nil
  then show ?case by simp
next
  case (Cons c p)
  then show ?case by (cases "c = CHR ''*''") (auto simp: glob_spec_star)
qed

lemma skip_stars_end:
  "p \<le> length pat \<Longrightarrow> skip_stars pat p = length pat \<longleftrightarrow> glob_spec (drop p pat) []"
proof (induction pat p rule: skip_stars.induct)
  case (1 pat p)
  show ?case
  proof (cases "p < length pat")
    case True
    then have "drop p pat = pat ! p # drop (Suc p) pat"
      by (simp add: Cons_nth_drop_Suc)
    with True "1.IH" show ?thesis
      by (auto simp: skip_stars.simps [of pat p] glob_spec_Nil)
  next
    case False
    with "1.prems" have "p = length pat" by simp
    with False show ?thesis
      by (simp add: skip_stars.simps [of pat "length pat"])
  qed
qed

text \<open>
  Between two iterations: the pattern read since the last star matches the text read since the
  mark, character by character.  The loop's answer is then a glob question about what is left.
\<close>

fun glob_inv :: "str \<Rightarrow> str \<Rightarrow> nat \<Rightarrow> nat \<Rightarrow> nat option \<Rightarrow> nat \<Rightarrow> bool" where
  "glob_inv pat tx p t None mark = (p \<le> length pat \<and> t \<le> length tx)"
| "glob_inv pat tx p t (Some st) mark =
     (st < p \<and> p \<le> length pat \<and> mark \<le> t \<and> t \<le> length tx \<and> p - Suc st = t - mark \<and>
      seg_matches (drop (Suc st) (take p pat)) (drop mark (take t tx)))"

fun glob_ans :: "str \<Rightarrow> str \<Rightarrow> nat \<Rightarrow> nat \<Rightarrow> nat option \<Rightarrow> nat \<Rightarrow> bool" where
  "glob_ans pat tx p t None mark = glob_spec (drop p pat) (drop t tx)"
| "glob_ans pat tx p t (Some st) mark =
     (\<exists>k. mark \<le> k \<and> k \<le> length tx \<and> glob_spec (drop (Suc st) pat) (drop k tx))"

lemma seg_matches_snoc:
  "seg_matches (seg @ [c]) (tx @ [x]) \<longleftrightarrow>
     seg_matches seg tx \<and> c \<noteq> CHR ''*'' \<and> (c = CHR ''?'' \<or> c = x)"
  if "length seg = length tx"
  using that by (simp add: seg_matches_def list_all2_append)

lemma drop_take_Suc: "i \<le> n \<Longrightarrow> n < length xs \<Longrightarrow> drop i (take (Suc n) xs) = drop i (take n xs) @ [xs ! n]"
  by (simp add: take_Suc_conv_app_nth)

lemma seg_matches_no_star: "seg_matches seg tx \<Longrightarrow> CHR ''*'' \<notin> set seg"
  by (auto simp: seg_matches_def list_all2_conv_all_nth in_set_conv_nth)

text \<open>The glob question with a matched segment in front.\<close>

lemma glob_ans_split:
  assumes "glob_inv pat tx p t (Some st) mark"
  shows "glob_spec (drop (Suc st) pat) (drop k tx) \<longleftrightarrow>
    t - mark \<le> length tx - k \<and>
    seg_matches (drop (Suc st) (take p pat)) (take (t - mark) (drop k tx)) \<and>
    glob_spec (drop p pat) (drop (t - mark + k) tx)"
proof -
  let ?seg = "drop (Suc st) (take p pat)"
  have eq: "drop (Suc st) pat = ?seg @ drop p pat"
    using assms by (simp add: drop_take [symmetric])
      (metis Suc_leI append_take_drop_id drop_drop drop_take le_add_diff_inverse2)
  have len: "length ?seg = t - mark"
    using assms by simp
  have ns: "CHR ''*'' \<notin> set ?seg"
    using assms seg_matches_no_star by auto
  show ?thesis
    unfolding eq using glob_spec_seg [OF ns, of "drop p pat" "drop k tx"] len
    by simp
qed

lemma glob_ans_mark:
  assumes "glob_inv pat tx p t (Some st) mark"
  shows "glob_spec (drop (Suc st) pat) (drop mark tx) \<longleftrightarrow> glob_spec (drop p pat) (drop t tx)"
proof -
  have "take (t - mark) (drop mark tx) = drop mark (take t tx)"
    using assms by (simp add: drop_take)
  with glob_ans_split [OF assms, of mark] assms show ?thesis
    by auto
qed

text \<open>Each branch of the loop keeps the invariant and the question.\<close>

lemma glob_step_char:
  assumes "glob_inv pat tx p t star mark" "CHR ''*'' \<notin> set tx"
    and "t < length tx" "p < length pat" "pat ! p = tx ! t \<or> pat ! p = CHR ''?''"
  shows "glob_inv pat tx (Suc p) (Suc t) star mark"
    and "glob_ans pat tx (Suc p) (Suc t) star mark = glob_ans pat tx p t star mark"
proof -
  from assms(2,3,5) have ns: "pat ! p \<noteq> CHR ''*''"
    by (auto dest: nth_mem)
  show "glob_inv pat tx (Suc p) (Suc t) star mark"
  proof (cases star)
    case (Some st)
    have "seg_matches (drop (Suc st) (take (Suc p) pat)) (drop mark (take (Suc t) tx))"
      using assms Some ns by (auto simp: drop_take_Suc seg_matches_snoc)
    with assms Some show ?thesis by auto
  qed (use assms in auto)
  show "glob_ans pat tx (Suc p) (Suc t) star mark = glob_ans pat tx p t star mark"
  proof (cases star)
    case None
    have "drop p pat = pat ! p # drop (Suc p) pat" "drop t tx = tx ! t # drop (Suc t) tx"
      using assms(3,4) by (simp_all add: Cons_nth_drop_Suc)
    with None ns assms(5) show ?thesis by auto
  qed simp
qed

lemma glob_step_star:
  assumes "glob_inv pat tx p t star mark" "t < length tx" "p < length pat" "pat ! p = CHR ''*''"
  shows "glob_inv pat tx (Suc p) t (Some p) t"
    and "glob_ans pat tx (Suc p) t (Some p) t = glob_ans pat tx p t star mark"
proof -
  show "glob_inv pat tx (Suc p) t (Some p) t"
    using assms by (simp add: seg_matches_def)
  have dp: "drop p pat = CHR ''*'' # drop (Suc p) pat"
    using assms(3,4) by (metis Cons_nth_drop_Suc)
  have rest: "glob_spec (drop p pat) (drop j tx) \<longleftrightarrow>
      (\<exists>k. j \<le> k \<and> k \<le> length tx \<and> glob_spec (drop (Suc p) pat) (drop k tx))" if "j \<le> length tx" for j
  proof
    assume "glob_spec (drop p pat) (drop j tx)"
    then obtain k where "k \<le> length tx - j" "glob_spec (drop (Suc p) pat) (drop (k + j) tx)"
      by (auto simp: dp glob_spec_star)
    with that show "\<exists>k. j \<le> k \<and> k \<le> length tx \<and> glob_spec (drop (Suc p) pat) (drop k tx)"
      by (intro exI [of _ "k + j"]) auto
  next
    assume "\<exists>k. j \<le> k \<and> k \<le> length tx \<and> glob_spec (drop (Suc p) pat) (drop k tx)"
    then obtain k where "j \<le> k" "k \<le> length tx" "glob_spec (drop (Suc p) pat) (drop k tx)" by blast
    then show "glob_spec (drop p pat) (drop j tx)"
      by (auto simp: dp glob_spec_star intro: exI [of _ "k - j"])
  qed
  show "glob_ans pat tx (Suc p) t (Some p) t = glob_ans pat tx p t star mark"
  proof (cases star)
    case None
    with rest [of t] assms show ?thesis by simp
  next
    case (Some st)
    then have inv: "glob_inv pat tx p t (Some st) mark" using assms by simp
    show ?thesis
    proof
      assume "glob_ans pat tx (Suc p) t (Some p) t"
      with rest [of t] assms(2) have "glob_spec (drop p pat) (drop t tx)" by simp
      with glob_ans_mark [OF inv] inv Some show "glob_ans pat tx p t star mark"
        by (auto intro: exI [of _ mark])
    next
      assume "glob_ans pat tx p t star mark"
      then obtain k where k: "mark \<le> k" "k \<le> length tx" "glob_spec (drop (Suc st) pat) (drop k tx)"
        using Some by auto
      with glob_ans_split [OF inv, of k] inv
      have "glob_spec (drop p pat) (drop (t - mark + k) tx)" "t - mark + k \<le> length tx" by auto
      with rest [of "t - mark + k"] obtain j where
        "t - mark + k \<le> j" "j \<le> length tx" "glob_spec (drop (Suc p) pat) (drop j tx)" by blast
      with k(1) inv show "glob_ans pat tx (Suc p) t (Some p) t"
        by (auto intro: exI [of _ j])
    qed
  qed
qed

lemma glob_stuck:
  assumes "t < length tx" "p \<le> length pat"
    and "\<not> (p < length pat \<and> (pat ! p = tx ! t \<or> pat ! p = CHR ''?''))"
    and "\<not> (p < length pat \<and> pat ! p = CHR ''*'')"
  shows "\<not> glob_spec (drop p pat) (drop t tx)"
proof (cases "p < length pat")
  case True
  have "drop p pat = pat ! p # drop (Suc p) pat" "drop t tx = tx ! t # drop (Suc t) tx"
    using assms(1) True by (simp_all add: Cons_nth_drop_Suc)
  with True assms(3,4) show ?thesis by auto
next
  case False
  with assms show ?thesis by auto
qed

lemma glob_step_back:
  assumes inv: "glob_inv pat tx p t (Some st) mark" and "t < length tx"
    and stuck: "\<not> glob_spec (drop p pat) (drop t tx)"
  shows "glob_inv pat tx (Suc st) (Suc mark) (Some st) (Suc mark)"
    and "glob_ans pat tx (Suc st) (Suc mark) (Some st) (Suc mark) = glob_ans pat tx p t (Some st) mark"
proof -
  show "glob_inv pat tx (Suc st) (Suc mark) (Some st) (Suc mark)"
    using assms by (simp add: seg_matches_def)
  have "\<not> glob_spec (drop (Suc st) pat) (drop mark tx)"
    using glob_ans_mark [OF inv] stuck by simp
  then show "glob_ans pat tx (Suc st) (Suc mark) (Some st) (Suc mark) = glob_ans pat tx p t (Some st) mark"
    unfolding glob_ans.simps by (metis Suc_le_eq le_neq_implies_less less_imp_le)
qed

lemma glob_finish:
  assumes inv: "glob_inv pat tx p t star mark" and t: "\<not> t < length tx"
  shows "(skip_stars pat p = length pat) = glob_ans pat tx p t star mark"
proof -
  have p: "p \<le> length pat" and tl: "t = length tx"
    using inv t by (cases star; auto)+
  show ?thesis
  proof (cases star)
    case None
    with skip_stars_end [OF p] tl show ?thesis by simp
  next
    case (Some st)
    with inv have inv': "glob_inv pat tx p t (Some st) mark" by simp
    have "k = mark" if "mark \<le> k" "k \<le> length tx" "glob_spec (drop (Suc st) pat) (drop k tx)" for k
      using glob_ans_split [OF inv', of k] that tl inv' by auto
    then have "glob_ans pat tx p t star mark \<longleftrightarrow> glob_spec (drop (Suc st) pat) (drop mark tx)"
      using Some inv' by auto
    with skip_stars_end [OF p] glob_ans_mark [OF inv'] tl show ?thesis by simp
  qed
qed

text \<open>
  What gets smaller in each iteration, most significant first: whether a star has been seen, the
  text behind the mark, the pattern behind the star, the text left to read.
\<close>

definition glob_rel :: "str \<Rightarrow> str \<Rightarrow> ((nat \<times> nat \<times> nat option \<times> nat) \<times> (nat \<times> nat \<times> nat option \<times> nat)) set" where
  "glob_rel pat tx = measures
     [\<lambda>(p, t, star, mark). if star = None then 1 else 0,
      \<lambda>(p, t, star, mark). if star = None then 0 else length tx - mark,
      \<lambda>(p, t, star, mark). case star of None \<Rightarrow> 0 | Some st \<Rightarrow> length pat - st,
      \<lambda>(p, t, star, mark). length tx - t]"

lemma wf_glob_rel: "wf (glob_rel pat tx)"
  by (simp add: glob_rel_def)

lemma glob_loop_total:
  assumes "CHR ''*'' \<notin> set tx"
  shows "glob_inv pat tx p t star mark \<Longrightarrow>
    glob_loop pat tx p t star mark = Some (glob_ans pat tx p t star mark)"
proof (induction "(p, t, star, mark)" arbitrary: p t star mark
    rule: wf_induct_rule [OF wf_glob_rel [of pat tx]])
  case 1
  note IH = 1(1) and inv = 1(2)
  let ?char = "p < length pat \<and> (pat ! p = tx ! t \<or> pat ! p = CHR ''?'')"
  let ?star = "p < length pat \<and> pat ! p = CHR ''*''"
  consider (finish) "\<not> t < length tx" | (char) "t < length tx" ?char
    | (star) "t < length tx" "\<not> ?char" ?star | (stuck) "t < length tx" "\<not> ?char" "\<not> ?star"
    by blast
  then show ?case
  proof cases
    case finish
    with glob_finish [OF inv] show ?thesis
      by (simp add: glob_loop.simps [of pat tx p])
  next
    case char
    note s = glob_step_char [OF inv assms char(1) conjunct1 [OF char(2)] conjunct2 [OF char(2)]]
    have "((Suc p, Suc t, star, mark), (p, t, star, mark)) \<in> glob_rel pat tx"
      using char by (auto simp: glob_rel_def)
    from IH [OF this s(1)] s(2) char show ?thesis
      by (simp add: glob_loop.simps [of pat tx p])
  next
    case star
    note s = glob_step_star [OF inv star(1) conjunct1 [OF star(3)] conjunct2 [OF star(3)]]
    have "((Suc p, t, Some p, t), (p, t, star, mark)) \<in> glob_rel pat tx"
      using star inv by (cases star) (auto simp: glob_rel_def)
    from IH [OF this s(1)] s(2) star show ?thesis
      by (simp add: glob_loop.simps [of pat tx p])
  next
    case stuck
    have p: "p \<le> length pat" using inv by (cases star) auto
    note ns = glob_stuck [OF stuck(1) p stuck(2,3)]
    show ?thesis
    proof (cases star)
      case None
      with stuck ns show ?thesis by (auto simp: glob_loop.simps [of pat tx p])
    next
      case (Some st)
      note s = glob_step_back [OF inv [unfolded Some] stuck(1) ns]
      have "((Suc st, Suc mark, Some st, Suc mark), (p, t, star, mark)) \<in> glob_rel pat tx"
        using inv stuck Some by (auto simp: glob_rel_def)
      from IH [OF this s(1)] s(2) stuck Some show ?thesis
        by (auto simp: glob_loop.simps [of pat tx p])
    qed
  qed
qed

text \<open>
  On a text with no \<open>*\<close> in it the loop returns, and returns what the glob means.
\<close>

lemma glob_match_spec: "CHR ''*'' \<notin> set tx \<Longrightarrow> glob_match pat tx = Some (glob_spec pat tx)"
  using glob_loop_total [of tx pat 0 0 None 0] by (simp add: glob_match_def)

text \<open>It returns on any text: the order needs only that the mark is behind the text position.\<close>

lemma glob_loop_returns:
  assumes "case star of None \<Rightarrow> True | Some st \<Rightarrow> st < p \<and> st < length pat \<and> mark \<le> t" "t \<le> length tx"
  shows "\<exists>b. glob_loop pat tx p t star mark = Some b"
  using assms
proof (induction "(p, t, star, mark)" arbitrary: p t star mark
    rule: wf_induct_rule [OF wf_glob_rel [of pat tx]])
  case 1
  note IH = 1(1) and inv = 1(2,3)
  have less: "((Suc p, Suc t, star, mark), (p, t, star, mark)) \<in> glob_rel pat tx" if "t < length tx"
    using that by (auto simp: glob_rel_def)
  have star: "((Suc p, t, Some p, t), (p, t, star, mark)) \<in> glob_rel pat tx" if "p < length pat" "t < length tx"
    using that inv by (cases star) (auto simp: glob_rel_def)
  have retry: "((Suc st, Suc mark, Some st, Suc mark), (p, t, star, mark)) \<in> glob_rel pat tx"
    if "star = Some st" "t < length tx" for st
    using that inv by (auto simp: glob_rel_def)
  show ?case
    using IH [OF less] IH [OF star] IH [OF retry] inv
    by (subst glob_loop.simps) (auto split: option.splits)
qed

lemma glob_match_returns: "\<exists>b. glob_match pat tx = Some b"
  unfolding glob_match_def by (rule glob_loop_returns) simp_all

text \<open>A pattern whose only wildcards are stars, with a run of bytes written for each star in turn.\<close>

fun fill_stars :: "str \<Rightarrow> str list \<Rightarrow> str" where
  "fill_stars [] fs = []"
| "fill_stars (c # p) fs =
     (if c = CHR ''*'' then (case fs of [] \<Rightarrow> [] | f # fs \<Rightarrow> f @ fill_stars p fs) else c # fill_stars p fs)"

lemma glob_spec_fill:
  "CHR ''?'' \<notin> set pat \<Longrightarrow>
   glob_spec pat tx \<longleftrightarrow> (\<exists>fs. length fs = count_list pat (CHR ''*'') \<and> tx = fill_stars pat fs)"
proof (induction pat arbitrary: tx)
  case (Cons c pat)
  have IH: "glob_spec pat tx \<longleftrightarrow> (\<exists>fs. length fs = count_list pat (CHR ''*'') \<and> tx = fill_stars pat fs)" for tx
    using Cons by simp
  show ?case
  proof (cases "c = CHR ''*''")
    case True
    have "(\<exists>k \<le> length tx. \<exists>fs. length fs = count_list pat (CHR ''*'') \<and> drop k tx = fill_stars pat fs) \<longleftrightarrow>
        (\<exists>f fs. length fs = count_list pat (CHR ''*'') \<and> tx = f @ fill_stars pat fs)" (is "?L \<longleftrightarrow> ?R")
    proof
      show "?L \<Longrightarrow> ?R" by (metis append_take_drop_id)
    next
      assume ?R
      then obtain f fs where "length fs = count_list pat (CHR ''*'')" "tx = f @ fill_stars pat fs" by blast
      then show ?L by (intro exI [of _ "length f"]) auto
    qed
    moreover have "(\<exists>fs. length fs = count_list (c # pat) (CHR ''*'') \<and> tx = fill_stars (c # pat) fs) \<longleftrightarrow> ?R"
      using True by (fastforce simp: length_Suc_conv)
    ultimately show ?thesis using True by (simp only: glob_spec_star IH)
  next
    case False
    then show ?thesis using Cons.prems by (cases tx) (auto simp: IH)
  qed
qed simp

section \<open>Valid names\<close>

lemma split_char_append_sep: "split_char c (a @ c # b) = split_char c a @ split_char c b"
  by (induction a) (auto split: list.splits)

lemma is_valid_parent: "is_valid (a @ CHR ''.'' # b) \<Longrightarrow> is_valid b"
  by (cases b) (auto simp: is_valid_def split_char_append_sep)

lemma is_valid_subdomain: "is_valid host \<Longrightarrow> is_subdomain_of host d \<Longrightarrow> is_valid d"
  by (auto simp: is_subdomain_of_iff dest: is_valid_parent)

section \<open>Properties\<close>

text \<open>
  C40. The iterative glob matcher returns on every pattern and every host.  On a host without a literal
  \<open>*\<close>, a pattern whose only wildcards are stars matches exactly the hosts that are obtained from it by
  writing some run of bytes, possibly empty, for each star.
\<close>

theorem glob_match_correct:
  "(\<exists>b. glob_match pat host = Some b) \<and>
   (CHR ''*'' \<notin> set host \<and> CHR ''?'' \<notin> set pat \<longrightarrow>
      (glob_match pat host = Some True \<longleftrightarrow>
       (\<exists>fs. length fs = count_list pat (CHR ''*'') \<and> host = fill_stars pat fs)))"
  using glob_match_returns [of pat host] glob_match_spec [of host pat] glob_spec_fill [of pat host] by simp

theorem glob_match_correct_witness: "glob_match ''a*.example.*g'' ''ads.example.org'' = Some True"
proof -
  have "''ads.example.org'' = fill_stars ''a*.example.*g'' [''ds'', ''or'']"
    "length [''ds'', ''or''] = count_list ''a*.example.*g'' (CHR ''*'')"
    "CHR ''*'' \<notin> set ''ads.example.org''" "CHR ''?'' \<notin> set ''a*.example.*g''" by code_simp+
  then show ?thesis using glob_match_correct [of "''a*.example.*g''" "''ads.example.org''"] by blast
qed

text \<open>
  The parent domains a query walks are exactly the non-empty domains it is equal to or a
  subdomain of; none is visited twice, and if the query is a valid DNS name each of them is one.
\<close>

theorem suffixes_are_parents:
  assumes "d \<noteq> []"
  shows "(d \<in> set (suffixes host) \<longleftrightarrow> is_subdomain_of host d) \<and> distinct (suffixes host) \<and>
    (is_valid host \<and> d \<in> set (suffixes host) \<longrightarrow> is_valid d)"
  using assms by (auto simp: mem_suffixes suffixes_distinct dest: is_valid_subdomain)

theorem suffixes_are_parents_witness:
  "''b.org'' \<in> set (suffixes ''a.b.org'') \<and> is_subdomain_of ''a.b.org'' ''b.org'' \<and>
   distinct (suffixes ''a.b.org'') \<and> is_valid ''b.org''"
proof -
  have h: "''b.org'' \<noteq> ([] :: str)" by simp
  have m: "''b.org'' \<in> set (suffixes ''a.b.org'')" by code_simp
  have v: "is_valid ''a.b.org''" by code_simp
  show ?thesis using suffixes_are_parents [OF h, of "''a.b.org''"] m v by blast
qed

text \<open>
  The pattern of a rewrite: \<open>*.domain\<close> means the domain and what ends in \<open>.domain\<close>, any other pattern is
  a glob.
\<close>

lemma wildcard_match_spec:
  assumes "CHR ''*'' \<notin> set host"
  shows "wildcard_match pattern host =
    Some (if starts_with pattern ''*.''
          then host = drop 2 pattern \<or> (\<exists>sub. host = sub @ CHR ''.'' # drop 2 pattern)
          else glob_spec pattern host)"
  using glob_match_spec [OF assms]
  by (simp add: wildcard_match_def strip_prefix_def numeral_2_eq_2 is_subdomain_of_iff)

end
