(* ===== verification/Ipaddr.thy ===== *)
theory Ipaddr
  imports Rust_Str
begin

text \<open>
  Rust's \<open>std::net::IpAddr\<close>: parsing, printing and the predicates the sources use.  The parser is
  the recursive-descent parser of the standard library, one definition per reader; a reader takes
  the text that is left and gives back the value and the text after it.
\<close>

type_synonym u128 = "128 word"

datatype ip_addr = V4 u32 | V6 u128

fun is_unspecified :: "ip_addr \<Rightarrow> bool" where
  "is_unspecified (V4 a) = (a = 0)"
| "is_unspecified (V6 a) = (a = 0)"

fun is_ipv4 :: "ip_addr \<Rightarrow> bool" where
  "is_ipv4 (V4 _) = True"
| "is_ipv4 (V6 _) = False"

section \<open>Octets and segments\<close>

text \<open>The big-endian base-\<open>b\<close> digits of a number, \<open>n\<close> of them, and back.\<close>

fun be_digits :: "nat \<Rightarrow> nat \<Rightarrow> nat \<Rightarrow> nat list" where
  "be_digits b 0 v = []"
| "be_digits b (Suc n) v = be_digits b n (v div b) @ [v mod b]"

definition be_value :: "nat \<Rightarrow> nat list \<Rightarrow> nat" where
  "be_value b ds = foldl (\<lambda>acc d. acc * b + d) 0 ds"

definition v4_octets :: "u32 \<Rightarrow> nat list" where
  "v4_octets a = be_digits 256 4 (unat a)"

definition v6_segments :: "u128 \<Rightarrow> nat list" where
  "v6_segments a = be_digits 65536 8 (unat a)"

section \<open>Parsing\<close>

definition hex_val :: "char \<Rightarrow> nat option" where
  "hex_val c =
     (if is_ascii_digit c then Some (byte c - 48)
      else if 97 \<le> byte c \<and> byte c \<le> 102 then Some (byte c - 87)
      else if 65 \<le> byte c \<and> byte c \<le> 70 then Some (byte c - 55)
      else None)"

definition to_digit :: "nat \<Rightarrow> char \<Rightarrow> nat option" where
  "to_digit radix c =
     (case hex_val c of None \<Rightarrow> None | Some d \<Rightarrow> if d < radix then Some d else None)"

text \<open>
  The digit loop of \<open>read_number\<close>: it gives up as soon as the value or the digit count is too
  large, and otherwise stops at the first non-digit.
\<close>

fun read_digits :: "nat \<Rightarrow> nat \<Rightarrow> nat \<Rightarrow> nat \<Rightarrow> nat \<Rightarrow> str \<Rightarrow> (nat \<times> nat \<times> str) option" where
  "read_digits radix maxd maxv n v [] = Some (v, n, [])"
| "read_digits radix maxd maxv n v (c # s) =
     (case to_digit radix c of
        None \<Rightarrow> Some (v, n, c # s)
      | Some d \<Rightarrow>
          if v * radix + d > maxv \<or> Suc n > maxd then None
          else read_digits radix maxd maxv (Suc n) (v * radix + d) s)"

definition read_number :: "nat \<Rightarrow> nat \<Rightarrow> bool \<Rightarrow> nat \<Rightarrow> str \<Rightarrow> (nat \<times> str) option" where
  "read_number radix maxd allow_zero_prefix maxv s =
     (case read_digits radix maxd maxv 0 0 s of
        None \<Rightarrow> None
      | Some (v, n, r) \<Rightarrow>
          if n = 0 then None
          else if \<not> allow_zero_prefix \<and> starts_with s ''0'' \<and> n > 1 then None
          else Some (v, r))"

definition read_sep :: "char \<Rightarrow> nat \<Rightarrow> (str \<Rightarrow> ('a \<times> str) option) \<Rightarrow> str \<Rightarrow> ('a \<times> str) option" where
  "read_sep sep i inner s =
     (if i = 0 then inner s
      else (case s of [] \<Rightarrow> None | c # r \<Rightarrow> if c = sep then inner r else None))"

fun read_octets :: "nat \<Rightarrow> nat \<Rightarrow> str \<Rightarrow> (nat list \<times> str) option" where
  "read_octets 0 i s = Some ([], s)"
| "read_octets (Suc n) i s =
     (case read_sep CHR ''.'' i (read_number 10 3 False 255) s of
        None \<Rightarrow> None
      | Some (v, r) \<Rightarrow> (case read_octets n (Suc i) r of None \<Rightarrow> None | Some (vs, r') \<Rightarrow> Some (v # vs, r')))"

definition read_ipv4 :: "str \<Rightarrow> (nat list \<times> str) option" where
  "read_ipv4 s = read_octets 4 0 s"

text \<open>\<open>read_groups\<close> with \<open>n\<close> slots left of a limit; the flag says the last two came from an IPv4 tail.\<close>

fun read_groups :: "nat \<Rightarrow> nat \<Rightarrow> str \<Rightarrow> nat list \<times> bool \<times> str" where
  "read_groups 0 i s = ([], False, s)"
| "read_groups (Suc n) i s =
     (case (if n > 0 then read_sep CHR '':'' i read_ipv4 s else None) of
        Some ([a, b, c, d], r) \<Rightarrow> ([a * 256 + b, c * 256 + d], True, r)
      | _ \<Rightarrow>
          (case read_sep CHR '':'' i (read_number 16 4 True 65535) s of
             None \<Rightarrow> ([], False, s)
           | Some (g, r) \<Rightarrow> (case read_groups n (Suc i) r of (gs, v4, r') \<Rightarrow> (g # gs, v4, r'))))"

definition read_ipv6 :: "str \<Rightarrow> (nat list \<times> str) option" where
  "read_ipv6 s =
     (case read_groups 8 0 s of
        (head, v4, r) \<Rightarrow>
          if length head = 8 then Some (head, r)
          else if v4 then None
          else
            (case strip_prefix ''::'' r of
               None \<Rightarrow> None
             | Some r' \<Rightarrow>
                 (case read_groups (8 - (length head + 1)) 0 r' of
                    (tail, _, r'') \<Rightarrow> Some (head @ replicate (8 - length head - length tail) 0 @ tail, r''))))"

definition parse_ip :: "str \<Rightarrow> ip_addr option" where
  "parse_ip s =
     (case read_ipv4 s of
        Some (os, r) \<Rightarrow> if r = [] then Some (V4 (of_nat (be_value 256 os))) else None
      | None \<Rightarrow>
          (case read_ipv6 s of
             Some (gs, r) \<Rightarrow> if r = [] then Some (V6 (of_nat (be_value 65536 gs))) else None
           | None \<Rightarrow> None))"

section \<open>Printing\<close>

definition hex_char :: "nat \<Rightarrow> char" where
  "hex_char d = (if d < 10 then char_of (48 + d) else char_of (87 + d))"

fun show_hex :: "nat \<Rightarrow> str" where
  "show_hex n = (if n < 16 then [hex_char n] else show_hex (n div 16) @ [hex_char (n mod 16)])"

declare show_hex.simps [simp del]

text \<open>The first longest run of zero segments: its start and its length.\<close>

fun zero_run :: "nat list \<Rightarrow> nat \<Rightarrow> nat \<times> nat \<Rightarrow> nat \<times> nat \<Rightarrow> nat \<times> nat" where
  "zero_run [] i cur longest = longest"
| "zero_run (g # gs) i (cs, cl) (ls, ll) =
     (if g = 0 then
        let cs' = (if cl = 0 then i else cs); cl' = Suc cl
        in zero_run gs (Suc i) (cs', cl') (if cl' > ll then (cs', cl') else (ls, ll))
      else zero_run gs (Suc i) (0, 0) (ls, ll))"

definition show_v4 :: "nat list \<Rightarrow> str" where
  "show_v4 os = join ''.'' (map show_nat os)"

definition show_v6 :: "nat list \<Rightarrow> str" where
  "show_v6 gs =
     (if take 6 gs = [0, 0, 0, 0, 0, 65535]
      then ''::ffff:'' @ show_v4 [gs ! 6 div 256, gs ! 6 mod 256, gs ! 7 div 256, gs ! 7 mod 256]
      else
        (case zero_run gs 0 (0, 0) (0, 0) of
           (s, l) \<Rightarrow>
             if l > 1 then join '':'' (map show_hex (take s gs)) @ ''::'' @
                           join '':'' (map show_hex (drop (s + l) gs))
             else join '':'' (map show_hex gs)))"

fun show_ip :: "ip_addr \<Rightarrow> str" where
  "show_ip (V4 a) = show_v4 (v4_octets a)"
| "show_ip (V6 a) = show_v6 (v6_segments a)"

section \<open>Sanity of the base-\<open>b\<close> digits\<close>

lemma length_be_digits [simp]: "length (be_digits b n v) = n"
  by (induction b n v rule: be_digits.induct) auto

lemma be_value_snoc: "be_value b (ds @ [d]) = be_value b ds * b + d"
  by (simp add: be_value_def)

lemma be_value_digits: "v < b ^ n \<Longrightarrow> be_value b (be_digits b n v) = v"
proof (induction b n v rule: be_digits.induct)
  case (1 b v)
  then show ?case by (simp add: be_value_def)
next
  case (2 b n v)
  then have "v div b < b ^ n" by (simp add: less_mult_imp_div_less mult.commute)
  with 2 show ?case by (simp add: be_value_snoc)
qed

lemma be_digits_bound: "0 < b \<Longrightarrow> d \<in> set (be_digits b n v) \<Longrightarrow> d < b"
  by (induction b n v rule: be_digits.induct) auto

section \<open>Hexadecimal bytes\<close>

text \<open>\<open>u8::from_str_radix(n, 16)\<close>.\<close>

definition parse_hex_u8 :: "str \<Rightarrow> nat option" where
  "parse_hex_u8 s =
     (let d = (case strip_prefix ''+'' s of Some r \<Rightarrow> r | None \<Rightarrow> s) in
      if d \<noteq> [] \<and> list_all (\<lambda>c. hex_val c \<noteq> None) d
      then (let v = be_value 16 (map (\<lambda>c. the (hex_val c)) d) in if v \<le> 255 then Some v else None)
      else None)"

lemma hex_char_facts:
  assumes "d < 16"
  shows "hex_val (hex_char d) = Some d" "to_ascii_lower (hex_char d) = hex_char d" "hex_char d \<noteq> CHR ''.''"
    "hex_char d \<noteq> CHR ''+''"
proof -
  have "d \<in> set [0..<16]" using assms by simp
  moreover have "\<forall>d \<in> set [0..<16]. hex_val (hex_char d) = Some d \<and> to_ascii_lower (hex_char d) = hex_char d \<and>
      hex_char d \<noteq> CHR ''.'' \<and> hex_char d \<noteq> CHR ''+''" by code_simp
  ultimately show "hex_val (hex_char d) = Some d" "to_ascii_lower (hex_char d) = hex_char d" "hex_char d \<noteq> CHR ''.''"
    "hex_char d \<noteq> CHR ''+''" by auto
qed

end
