(* ===== verification/Pattern.thy ===== *)
theory Pattern
  imports Rust_Str
begin

text \<open>
  Adblock patterns and the regular expressions they become:
  \<open>crates/sift-filter/src/pattern.rs\<close>.
\<close>

section \<open>Definitions\<close>

definition REGEX_START_URL :: str where
  "REGEX_START_URL = ''^(http|https|ws|wss)://([a-z0-9_.-]+'' @ [CHR 0x5C] @ ''.)?''"

definition REGEX_SEPARATOR :: str where
  "REGEX_SEPARATOR = ''([^ a-zA-Z0-9.%_-]|$)''"

definition MIN_PATTERN_LEN :: nat where
  "MIN_PATTERN_LEN = 4"

datatype target = Url | Hostname

definition has_url_prefix :: "str \<Rightarrow> bool" where
  "has_url_prefix p \<longleftrightarrow>
     starts_with p ''||'' \<or> starts_with p ''http://'' \<or> starts_with p ''https://'' \<or> starts_with p ''://''"

definition target_for :: "str \<Rightarrow> target" where
  "target_for pattern =
     (if has_url_prefix pattern then Url
      else if MIN_PATTERN_LEN \<le> length pattern \<and> pattern ! 0 = CHR ''/'' \<and>
              pattern ! (length pattern - 1) = CHR ''.''
      then Url
      else Hostname)"

definition is_regex_pattern :: "str \<Rightarrow> bool" where
  "is_regex_pattern p \<longleftrightarrow> length p > 2 \<and> starts_with p ''/'' \<and> ends_with p ''/''"

definition matches_all :: "str \<Rightarrow> bool" where
  "matches_all p \<longleftrightarrow> p = ''||'' \<or> p = ''|'' \<or> p = ''*'' \<or> p = []"

definition regex_meta :: "char \<Rightarrow> bool" where
  "regex_meta c \<longleftrightarrow> c \<in> set (''.+?${}()[]/'' @ [CHR 0x5C])"

definition escape_special_chars :: "str \<Rightarrow> str" where
  "escape_special_chars p = concat (map (\<lambda>c. if regex_meta c then [CHR 0x5C, c] else [c]) p)"

text \<open>
  The byte lengths of the first and the last character of a UTF-8 string: one byte, and the
  continuation bytes that go with it.
\<close>

definition utf8_cont :: "char \<Rightarrow> bool" where
  "utf8_cont c \<longleftrightarrow> 128 \<le> byte c \<and> byte c < 192"

definition first_len_utf8 :: "str \<Rightarrow> nat" where
  "first_len_utf8 s = Suc (length (takeWhile utf8_cont (tl s)))"

definition last_len_utf8 :: "str \<Rightarrow> nat" where
  "last_len_utf8 s = Suc (length (takeWhile utf8_cont (rev s)))"

definition escape_pipes :: "str \<Rightarrow> str" where
  "escape_pipes s = concat (map (\<lambda>c. if c = CHR ''|'' then [CHR 0x5C, c] else [c]) s)"

definition escape_inner_pipes :: "str \<Rightarrow> str" where
  "escape_inner_pipes s =
     (if s = [] then s
      else
        let prefix_len = (if starts_with s ''||'' then 2 else first_len_utf8 s);
            tail_start = length s - last_len_utf8 s
        in if prefix_len \<ge> tail_start then s
           else take prefix_len s @
                escape_pipes (drop prefix_len (take tail_start s)) @
                drop tail_start s)"

definition expand_masks :: "str \<Rightarrow> str" where
  "expand_masks s =
     concat (map (\<lambda>c. if c = CHR ''*'' then ''.*'' else if c = CHR ''^'' then REGEX_SEPARATOR else [c]) s)"

definition replace_prefix :: "str \<Rightarrow> str" where
  "replace_prefix s =
     (case strip_prefix ''||'' s of
        Some rest \<Rightarrow> REGEX_START_URL @ rest
      | None \<Rightarrow> (case strip_prefix ''|'' s of Some rest \<Rightarrow> ''^'' @ rest | None \<Rightarrow> s))"

definition replace_suffix :: "str \<Rightarrow> str" where
  "replace_suffix s = (case strip_suffix ''|'' s of Some head \<Rightarrow> head @ ''$'' | None \<Rightarrow> s)"

definition to_regex :: "str \<Rightarrow> str" where
  "to_regex pattern =
     (if matches_all pattern then ''.*''
      else if is_regex_pattern pattern
      then ''(?i)'' @ take (length pattern - 2) (drop 1 pattern)
      else ''(?i)'' @ replace_suffix (replace_prefix (expand_masks
             (escape_inner_pipes (escape_special_chars pattern)))))"

definition is_literal :: "char \<Rightarrow> bool" where
  "is_literal b \<longleftrightarrow> is_ascii_alphanumeric b \<or> b = CHR ''.'' \<or> b = CHR ''-'' \<or> b = CHR ''_'' \<or> b = CHR ''%''"

text \<open>
  The scan of \<open>shortcut\<close>: \<open>cur\<close> is the run \<open>src[start..i]\<close>, \<open>best\<close> the longest one closed so far.
\<close>

fun shortcut_scan :: "str \<Rightarrow> str \<Rightarrow> str \<Rightarrow> str" where
  "shortcut_scan [] cur best = (if length cur > length best then cur else best)"
| "shortcut_scan (b # bs) cur best =
     (if is_literal b then shortcut_scan bs (cur @ [b]) best
      else shortcut_scan bs [] (if length cur > length best then cur else best))"

definition shortcut_src :: "str \<Rightarrow> str" where
  "shortcut_src pattern =
     (if is_regex_pattern pattern then take (length pattern - 2) (drop 1 pattern) else pattern)"

definition shortcut :: "str \<Rightarrow> nat \<Rightarrow> str option" where
  "shortcut pattern min_len =
     (let best = shortcut_scan (shortcut_src pattern) [] [] in
      if length best \<ge> min_len then Some (to_ascii_lowercase best) else None)"

section \<open>The longest literal run\<close>

lemma sublist_avoids:
  assumes "sublist x (a @ b # c)" "b \<notin> set x"
  shows "sublist x a \<or> sublist x c"
proof -
  consider "sublist x a" | "sublist x (b # c)"
    | x1 x2 where "x = x1 @ x2" "suffix x1 a" "prefix x2 (b # c)"
    using assms(1) by (auto simp: sublist_append)
  then show ?thesis
  proof cases
    case 2
    with assms(2) show ?thesis
      by (auto simp: sublist_Cons_right prefix_Cons)
  next
    case 3
    with assms(2) have "x2 = []"
      by (cases x2) auto
    with 3 show ?thesis by auto
  qed auto
qed

lemma shortcut_scan_longest:
  assumes "list_all is_literal cur"
  shows "(shortcut_scan bs cur best = best \<or>
      sublist (shortcut_scan bs cur best) (cur @ bs) \<and> list_all is_literal (shortcut_scan bs cur best)) \<and>
    length best \<le> length (shortcut_scan bs cur best) \<and>
    (\<forall>run. sublist run (cur @ bs) \<and> list_all is_literal run \<longrightarrow>
       length run \<le> length (shortcut_scan bs cur best))"
  using assms
proof (induction bs cur best rule: shortcut_scan.induct)
  case (1 cur best)
  then show ?case by (auto dest: sublist_length_le)
next
  case (2 b bs cur best)
  show ?case
  proof (cases "is_literal b")
    case True
    with 2 show ?thesis by simp
  next
    case False
    define best' where "best' = (if length cur > length best then cur else best)"
    define r where "r = shortcut_scan bs [] best'"
    have IH: "r = best' \<or> sublist r bs \<and> list_all is_literal r" "length best' \<le> length r"
      "\<And>run. sublist run bs \<Longrightarrow> list_all is_literal run \<Longrightarrow> length run \<le> length r"
      using 2(2) [OF False] by (auto simp: r_def best'_def)
    have r: "shortcut_scan (b # bs) cur best = r"
      using False by (simp add: r_def best'_def)
    have "length run \<le> length r" if "sublist run (cur @ b # bs)" "list_all is_literal run" for run
    proof -
      have "b \<notin> set run" using that(2) False by (auto simp: list_all_iff)
      with that(1) have "sublist run cur \<or> sublist run bs" by (rule sublist_avoids)
      then show ?thesis
        using IH(2,3) that(2) sublist_length_le [of run cur]
        by (auto simp: best'_def split: if_splits)
    qed
    moreover have "sublist cur (cur @ b # bs)"
      by (simp add: sublist_append)
    moreover have "sublist r (cur @ b # bs)" if "sublist r bs"
      using that by (simp add: sublist_append sublist_Cons_right)
    moreover have "length best \<le> length r"
      using IH(2) by (simp add: best'_def split: if_splits)
    moreover have "best' = best \<or> best' = cur"
      by (simp add: best'_def)
    ultimately show ?thesis
      unfolding r using IH(1) "2.prems" by metis
  qed
qed

section \<open>The domain-anchor translation\<close>

lemma escape_pipes_absent: "CHR ''|'' \<notin> set s \<Longrightarrow> escape_pipes s = s"
  by (induction s) (auto simp: escape_pipes_def)

lemma expand_masks_absent: "CHR ''*'' \<notin> set s \<Longrightarrow> CHR ''^'' \<notin> set s \<Longrightarrow> expand_masks s = s"
  by (induction s) (auto simp: expand_masks_def)

lemma expand_masks_append: "expand_masks (a @ b) = expand_masks a @ expand_masks b"
  by (simp add: expand_masks_def)

lemma escape_special_append:
  "escape_special_chars (a @ b) = escape_special_chars a @ escape_special_chars b"
  by (simp add: escape_special_chars_def)

lemma escape_special_set:
  "set (escape_special_chars s) \<subseteq> insert (CHR 0x5C) (set s)"
  by (auto simp: escape_special_chars_def split: if_splits)

lemma escape_inner_pipes_noop:
  assumes "starts_with s ''||''" "CHR ''|'' \<notin> set (drop 2 s)"
  shows "escape_inner_pipes s = s"
proof -
  let ?t = "length s - last_len_utf8 s"
  have "escape_pipes (drop 2 (take ?t s)) = drop 2 (take ?t s)"
    using assms(2) by (intro escape_pipes_absent) (metis drop_take in_set_takeD)
  moreover have "take 2 s @ drop 2 (take ?t s) @ drop ?t s = s" if "2 < ?t"
    using that by (metis append.assoc append_take_drop_id drop_take le_add_diff_inverse
        less_imp_le take_add)
  ultimately show ?thesis
    using assms(1) by (simp add: escape_inner_pipes_def Let_def)
qed

definition plain_domain :: "str \<Rightarrow> bool" where
  "plain_domain d \<longleftrightarrow> list_all (\<lambda>b. is_ascii_alphanumeric b \<or> b = CHR ''.'' \<or> b = CHR ''-'' \<or> b = CHR ''_'') d"

lemma plain_domain_avoids:
  assumes "plain_domain d" "c \<in> set ''|*^/$''"
  shows "c \<notin> set d"
  using assms by (auto simp: plain_domain_def list_all_iff is_ascii_alphanumeric_def
      is_ascii_digit_def is_ascii_uppercase_def is_ascii_lowercase_def)

section \<open>Properties\<close>

text \<open>
  The prefilter shortcut of a pattern is a longest run of literal bytes in it, lowercased; when
  there is no shortcut, every literal run of the pattern is shorter than the minimum.
\<close>

theorem shortcut_longest_run:
  "(\<forall>s. shortcut p m = Some s \<longrightarrow>
      (\<exists>run. s = to_ascii_lowercase run \<and> sublist run (shortcut_src p) \<and> list_all is_literal run \<and>
         m \<le> length run \<and>
         (\<forall>run'. sublist run' (shortcut_src p) \<and> list_all is_literal run' \<longrightarrow> length run' \<le> length run))) \<and>
   (shortcut p m = None \<longrightarrow>
      (\<forall>run. sublist run (shortcut_src p) \<and> list_all is_literal run \<longrightarrow> length run < m))"
proof -
  define best where "best = shortcut_scan (shortcut_src p) [] []"
  have b: "sublist best (shortcut_src p) \<and> list_all is_literal best"
    "\<And>run. sublist run (shortcut_src p) \<Longrightarrow> list_all is_literal run \<Longrightarrow> length run \<le> length best"
    using shortcut_scan_longest [of "[]" "shortcut_src p" "[]"] by (auto simp: best_def)
  show ?thesis
    using b by (fastforce simp: shortcut_def best_def [symmetric] Let_def split: if_splits)
qed

theorem shortcut_longest_run_witness:
  "shortcut ''||ads.Example*^banner'' 3 = Some ''ads.example'' \<and>
   (\<exists>run. ''ads.example'' = to_ascii_lowercase run \<and> list_all is_literal run)"
proof -
  have h: "shortcut ''||ads.Example*^banner'' 3 = Some ''ads.example''" by code_simp
  show ?thesis using h shortcut_longest_run [of "''||ads.Example*^banner''" 3] by blast
qed

text \<open>
  For a plain domain the translation of \<open>||domain^\<close> is the fixed URL prefix, the domain with its
  dots escaped, and the separator class; it is matched against the URL.  This is the expression the
  domain index stands in for.
\<close>

theorem to_regex_domain_anchor:
  assumes "plain_domain d"
  shows "to_regex (''||'' @ d @ ''^'') =
      ''(?i)'' @ REGEX_START_URL @ escape_special_chars d @ REGEX_SEPARATOR \<and>
    target_for (''||'' @ d @ ''^'') = Url"
proof -
  let ?p = "''||'' @ d @ ''^''" and ?e = "escape_special_chars d"
  have na: "CHR ''|'' \<notin> set d" "CHR ''*'' \<notin> set d" "CHR ''^'' \<notin> set d"
    using plain_domain_avoids [OF assms] by auto
  then have ne: "CHR ''|'' \<notin> set ?e" "CHR ''*'' \<notin> set ?e" "CHR ''^'' \<notin> set ?e"
    using escape_special_set [of d] by auto
  have esc: "escape_special_chars ?p = ''||'' @ ?e @ ''^''"
    by (simp add: escape_special_append) (simp add: escape_special_chars_def regex_meta_def)
  have pipes: "escape_inner_pipes (''||'' @ ?e @ ''^'') = ''||'' @ ?e @ ''^''"
    using ne by (intro escape_inner_pipes_noop) (auto simp: starts_with_def)
  have "expand_masks (''||'' @ ?e @ ''^'') = expand_masks ''||'' @ ?e @ expand_masks ''^''"
    using expand_masks_absent [OF ne(2,3)] by (simp only: expand_masks_append)
  then have masks: "expand_masks (''||'' @ ?e @ ''^'') = ''||'' @ ?e @ REGEX_SEPARATOR"
    by (simp add: expand_masks_def)
  have pre: "replace_prefix (''||'' @ ?e @ REGEX_SEPARATOR) = REGEX_START_URL @ ?e @ REGEX_SEPARATOR"
    unfolding replace_prefix_def strip_prefix_append by simp
  have suf: "replace_suffix (REGEX_START_URL @ ?e @ REGEX_SEPARATOR) = REGEX_START_URL @ ?e @ REGEX_SEPARATOR"
    by (simp add: replace_suffix_def strip_suffix_def ends_with_def REGEX_SEPARATOR_def)
  have "\<not> matches_all ?p" "\<not> is_regex_pattern ?p"
    by (auto simp: matches_all_def is_regex_pattern_def starts_with_def)
  then have "to_regex ?p = ''(?i)'' @ REGEX_START_URL @ ?e @ REGEX_SEPARATOR"
    unfolding to_regex_def esc pipes masks pre suf by simp
  moreover have "target_for ?p = Url"
    by (simp add: target_for_def has_url_prefix_def starts_with_def)
  ultimately show ?thesis by simp
qed

theorem to_regex_domain_anchor_witness:
  "to_regex ''||a-1.org^'' =
     ''(?i)'' @ REGEX_START_URL @ ''a-1'' @ [CHR 0x5C] @ ''.org'' @ REGEX_SEPARATOR"
proof -
  have h: "plain_domain ''a-1.org''" by code_simp
  have e: "escape_special_chars ''a-1.org'' = ''a-1'' @ [CHR 0x5C] @ ''.org''" by code_simp
  show ?thesis using to_regex_domain_anchor [OF h] e by simp
qed

end
