(* ===== verification/Lazy_Regex.thy ===== *)
theory Lazy_Regex
  imports Rust_Str
begin

text \<open>
  The expressions of network rules, compiled on first use and kept under a ceiling: \<open>LazyRegex\<close>
  and the \<open>COMPILED\<close> queue of \<open>crates/sift-filter/src/rule.rs\<close>.

  The \<open>regex\<close> crate is a parameter: \<open>rx_new\<close> is \<open>Regex::new\<close> (\<open>None\<close> for a source it refuses)
  and \<open>rx_match\<close> is \<open>Regex::is_match\<close>.  Expressions live in a heap, since the queue refers to
  them by weak reference: an address that is no longer in the heap is a reference that does not
  upgrade.  Each operation runs as one step; a match takes its own reference to the compiled form
  before it lets go of the lock, so what another thread evicts does not change its answer.
\<close>

section \<open>Definitions\<close>

datatype 'rx slot = Empty | Failed | Built 'rx

record 'rx lazy_regex =
  src :: str
  slot :: "'rx slot"
  used :: bool

record 'rx rx_state =
  heap :: "nat \<Rightarrow> 'rx lazy_regex option"
  compiled :: "nat list"

definition MAX_COMPILED :: nat where
  "MAX_COMPILED = 2000"

definition HARD_CEILING :: nat where
  "HARD_CEILING = MAX_COMPILED + MAX_COMPILED div 8"

definition lr_new :: "str \<Rightarrow> 'rx lazy_regex" where
  "lr_new s = \<lparr>src = s, slot = Empty, used = False\<rparr>"

definition lr_compiled :: "str \<Rightarrow> 'rx \<Rightarrow> 'rx lazy_regex" where
  "lr_compiled s re = \<lparr>src = s, slot = Built re, used = False\<rparr>"

fun is_built_slot :: "'rx slot \<Rightarrow> bool" where
  "is_built_slot (Built _) = True"
| "is_built_slot _ = False"

definition update_lr :: "nat \<Rightarrow> ('rx lazy_regex \<Rightarrow> 'rx lazy_regex) \<Rightarrow> 'rx rx_state \<Rightarrow> 'rx rx_state" where
  "update_lr i f st = st\<lparr>heap := (heap st)(i := map_option f (heap st i))\<rparr>"

text \<open>
  The body of the eviction loop for the entry \<open>old\<close> popped off the queue: a dead reference leaves,
  a used expression below the hard ceiling goes to the back with its mark cleared, any other is
  dropped.  (\<open>swap\<close> on an expression that was not used leaves the mark as it is.)
\<close>

definition evict_one :: "nat \<Rightarrow> nat list \<Rightarrow> 'rx rx_state \<Rightarrow> 'rx rx_state" where
  "evict_one old rest st =
     (case heap st old of
        None \<Rightarrow> st\<lparr>compiled := rest\<rparr>
      | Some lr \<Rightarrow>
          if length rest \<le> HARD_CEILING \<and> used lr
          then update_lr old (\<lambda>l. l\<lparr>used := False\<rparr>) (st\<lparr>compiled := rest @ [old]\<rparr>)
          else update_lr old (\<lambda>l. if is_built_slot (slot l) then l\<lparr>slot := Empty\<rparr> else l)
                 (st\<lparr>compiled := rest\<rparr>))"

text \<open>The loop itself, at most one pass over the queue.\<close>

fun evict :: "nat \<Rightarrow> 'rx rx_state \<Rightarrow> 'rx rx_state" where
  "evict 0 st = st"
| "evict (Suc passes) st =
     (if length (compiled st) > MAX_COMPILED then
        (case compiled st of [] \<Rightarrow> st | old # rest \<Rightarrow> evict passes (evict_one old rest st))
      else st)"

definition build :: "(str \<Rightarrow> 'rx option) \<Rightarrow> nat \<Rightarrow> 'rx lazy_regex \<Rightarrow> 'rx rx_state \<Rightarrow> 'rx option \<times> 'rx rx_state" where
  "build rx_new i lr st =
     (case rx_new (src lr) of
        None \<Rightarrow> (None, update_lr i (\<lambda>l. l\<lparr>slot := Failed\<rparr>) st)
      | Some re \<Rightarrow>
          let st1 = update_lr i (\<lambda>l. l\<lparr>slot := Built re\<rparr>) st;
              st2 = st1\<lparr>compiled := compiled st1 @ [i]\<rparr>
          in (Some re, evict (length (compiled st2)) st2))"

definition is_match ::
  "(str \<Rightarrow> 'rx option) \<Rightarrow> ('rx \<Rightarrow> str \<Rightarrow> bool) \<Rightarrow> nat \<Rightarrow> 'rx lazy_regex \<Rightarrow> str \<Rightarrow> 'rx rx_state \<Rightarrow> bool \<times> 'rx rx_state" where
  "is_match rx_new rx_match i lr haystack st =
     (case slot lr of
        Built re \<Rightarrow> (rx_match re haystack, update_lr i (\<lambda>l. l\<lparr>used := True\<rparr>) st)
      | Failed \<Rightarrow> (False, st)
      | Empty \<Rightarrow>
          (case build rx_new i lr st of
             (None, st') \<Rightarrow> (False, st')
           | (Some re, st') \<Rightarrow> (rx_match re haystack, st')))"

text \<open>What matching means: compile the source and run it.\<close>

definition rx_meaning :: "(str \<Rightarrow> 'rx option) \<Rightarrow> ('rx \<Rightarrow> str \<Rightarrow> bool) \<Rightarrow> str \<Rightarrow> str \<Rightarrow> bool" where
  "rx_meaning rx_new rx_match s haystack =
     (case rx_new s of None \<Rightarrow> False | Some re \<Rightarrow> rx_match re haystack)"

section \<open>The machine\<close>

text \<open>
  What happens to the expressions over the life of the process: a rule set is loaded, creating
  lazy expressions and the hand-written ones that are compiled at load (\<open>pinned\<close>, never queued); a
  query is matched; an engine is rebuilt and its old rules go away.
\<close>

inductive rx_step ::
  "(str \<Rightarrow> 'rx option) \<Rightarrow> ('rx \<Rightarrow> str \<Rightarrow> bool) \<Rightarrow> nat set \<times> 'rx rx_state \<Rightarrow> nat set \<times> 'rx rx_state \<Rightarrow> bool"
  for rx_new rx_match where
  load_lazy: "heap st i = None \<Longrightarrow> i \<notin> set (compiled st) \<Longrightarrow> i \<notin> pinned \<Longrightarrow>
    rx_step rx_new rx_match (pinned, st) (pinned, st\<lparr>heap := (heap st)(i \<mapsto> lr_new s)\<rparr>)"
| load_compiled: "heap st i = None \<Longrightarrow> i \<notin> set (compiled st) \<Longrightarrow> rx_new s = Some re \<Longrightarrow>
    rx_step rx_new rx_match (pinned, st) (insert i pinned, st\<lparr>heap := (heap st)(i \<mapsto> lr_compiled s re)\<rparr>)"
| match: "heap st i = Some lr \<Longrightarrow>
    rx_step rx_new rx_match (pinned, st) (pinned, snd (is_match rx_new rx_match i lr haystack st))"
| unload: "rx_step rx_new rx_match (pinned, st) (pinned, st\<lparr>heap := (heap st)(i := None)\<rparr>)"

inductive rx_reachable ::
  "(str \<Rightarrow> 'rx option) \<Rightarrow> ('rx \<Rightarrow> str \<Rightarrow> bool) \<Rightarrow> nat set \<times> 'rx rx_state \<Rightarrow> bool"
  for rx_new rx_match where
  start: "rx_reachable rx_new rx_match ({}, \<lparr>heap = (\<lambda>_. None), compiled = []\<rparr>)"
| step: "rx_reachable rx_new rx_match a \<Longrightarrow> rx_step rx_new rx_match a b \<Longrightarrow> rx_reachable rx_new rx_match b"

section \<open>The invariant\<close>

text \<open>
  Slots agree with the regex crate; an expression is queued once, and exactly while it is built and
  not pinned.
\<close>

definition slot_ok :: "(str \<Rightarrow> 'rx option) \<Rightarrow> 'rx lazy_regex \<Rightarrow> bool" where
  "slot_ok rx_new lr \<longleftrightarrow>
     (slot lr = Failed \<longrightarrow> rx_new (src lr) = None) \<and> (\<forall>re. slot lr = Built re \<longrightarrow> rx_new (src lr) = Some re)"

definition slots_agree :: "(str \<Rightarrow> 'rx option) \<Rightarrow> 'rx rx_state \<Rightarrow> bool" where
  "slots_agree rx_new st \<longleftrightarrow> (\<forall>i lr. heap st i = Some lr \<longrightarrow> slot_ok rx_new lr)"

definition queue_ok :: "nat set \<Rightarrow> 'rx rx_state \<Rightarrow> bool" where
  "queue_ok pinned st \<longleftrightarrow>
     distinct (compiled st) \<and> set (compiled st) \<inter> pinned = {} \<and>
     (\<forall>i lr. heap st i = Some lr \<longrightarrow> i \<notin> pinned \<longrightarrow>
        (is_built_slot (slot lr) \<longleftrightarrow> i \<in> set (compiled st)))"

definition rx_inv :: "(str \<Rightarrow> 'rx option) \<Rightarrow> nat set \<times> 'rx rx_state \<Rightarrow> bool" where
  "rx_inv rx_new = (\<lambda>(pinned, st). slots_agree rx_new st \<and> queue_ok pinned st \<and>
     length (compiled st) \<le> HARD_CEILING + 1)"

lemmas update_lr_simps = update_lr_def slot_ok_def

lemma compiled_update_lr [simp]: "compiled (update_lr i f st) = compiled st"
  by (simp add: update_lr_def)

lemma slots_agreeD: "slots_agree rx_new st \<Longrightarrow> heap st i = Some lr \<Longrightarrow> slot_ok rx_new lr"
  by (auto simp: slots_agree_def)

lemma queue_okD:
  "queue_ok pinned st \<Longrightarrow> heap st i = Some lr \<Longrightarrow> i \<notin> pinned \<Longrightarrow> is_built_slot (slot lr) \<longleftrightarrow> i \<in> set (compiled st)"
  by (auto simp: queue_ok_def)

lemma is_built_slot_iff: "is_built_slot sl \<longleftrightarrow> (\<exists>re. sl = Built re)"
  by (cases sl) auto

lemma evict_induct:
  assumes "P st" and "\<And>st old rest. compiled st = old # rest \<Longrightarrow> P st \<Longrightarrow> P (evict_one old rest st)"
  shows "P (evict n st)"
  using assms(1)
  by (induction n st rule: evict.induct) (auto intro: assms(2) split: list.splits)

lemma evict_one_slots_agree: "slots_agree rx_new st \<Longrightarrow> slots_agree rx_new (evict_one old rest st)"
  by (auto simp: slots_agree_def evict_one_def update_lr_simps split: option.splits)

lemma evict_slots_agree: "slots_agree rx_new st \<Longrightarrow> slots_agree rx_new (evict n st)"
  by (rule evict_induct) (auto intro: evict_one_slots_agree)

lemma evict_one_queue_ok:
  assumes "compiled st = old # rest" "queue_ok pinned st"
  shows "queue_ok pinned (evict_one old rest st)"
  using assms by (auto simp: queue_ok_def evict_one_def update_lr_simps split: option.splits)

lemma evict_queue_ok: "queue_ok pinned st \<Longrightarrow> queue_ok pinned (evict n st)"
  by (rule evict_induct) (auto intro: evict_one_queue_ok)

lemma evict_one_length: "length (compiled (evict_one old rest st)) \<le> Suc (length rest)"
  by (auto simp: evict_one_def update_lr_def split: option.splits)

lemma evict_length: "length (compiled (evict n st)) \<le> length (compiled st)"
  by (rule evict_induct) (auto intro: order_trans [OF evict_one_length])

text \<open>Past the hard ceiling the first pass discards without asking.\<close>

lemma evict_ceiling:
  assumes "length (compiled st) \<le> HARD_CEILING + 2" "0 < n"
  shows "length (compiled (evict n st)) \<le> HARD_CEILING + 1"
proof (cases "length (compiled st) > HARD_CEILING + 1")
  case True
  then obtain old rest m where q: "compiled st = old # rest" and n: "n = Suc m"
    using assms(2) by (cases "compiled st"; cases n) auto
  have big: "length (compiled st) > MAX_COMPILED" and nr: "\<not> length rest \<le> HARD_CEILING"
    using True q by (auto simp: HARD_CEILING_def)
  have "compiled (evict_one old rest st) = rest"
    using nr by (auto simp: evict_one_def update_lr_def split: option.splits)
  then have "length (compiled (evict n st)) \<le> length rest"
    using evict_length [of m "evict_one old rest st"] big q n by simp
  with assms(1) q show ?thesis by simp
next
  case False
  then show ?thesis using evict_length [of n st] by simp
qed

declare evict.simps(2) [simp del]

lemma build_inv:
  assumes inv: "rx_inv rx_new (pinned, st)" and lr: "heap st i = Some lr" "slot lr = Empty"
    and new: "i \<notin> pinned"
  shows "rx_inv rx_new (pinned, snd (build rx_new i lr st))"
proof (cases "rx_new (src lr)")
  case None
  have "slots_agree rx_new st" "queue_ok pinned st" using inv by (auto simp: rx_inv_def)
  from slots_agreeD [OF this(1) lr(1)] queue_okD [OF this(2) lr(1) new] None inv lr show ?thesis
    by (auto simp: build_def rx_inv_def slots_agree_def queue_ok_def update_lr_def slot_ok_def)
next
  case (Some re)
  define st2 where "st2 = (update_lr i (\<lambda>l. l\<lparr>slot := Built re\<rparr>) st)\<lparr>compiled := compiled st @ [i]\<rparr>"
  have eq: "snd (build rx_new i lr st) = evict (length (compiled st2)) st2"
    using Some by (simp add: build_def st2_def Let_def)
  have "slots_agree rx_new st2"
    using inv lr Some by (auto simp: rx_inv_def slots_agree_def st2_def update_lr_simps)
  moreover have "i \<notin> set (compiled st)"
    using inv lr new queue_okD [of pinned st i lr] by (auto simp: rx_inv_def)
  then have "queue_ok pinned st2"
    using inv lr new by (auto simp: rx_inv_def queue_ok_def st2_def update_lr_simps)
  moreover have "length (compiled st2) \<le> HARD_CEILING + 2" "0 < length (compiled st2)"
    using inv by (simp_all add: rx_inv_def st2_def)
  ultimately show ?thesis
    unfolding eq rx_inv_def using evict_slots_agree evict_queue_ok evict_ceiling by blast
qed

lemma is_match_inv:
  assumes inv: "rx_inv rx_new (pinned, st)" and lr: "heap st i = Some lr"
    and pin: "i \<in> pinned \<Longrightarrow> is_built_slot (slot lr)"
  shows "rx_inv rx_new (pinned, snd (is_match rx_new rx_match i lr haystack st))"
proof (cases "slot lr")
  case Empty
  with pin have "i \<notin> pinned" by (auto simp:)
  with build_inv [OF inv lr Empty] Empty show ?thesis
    by (auto simp: is_match_def split: prod.splits option.splits)
next
  case Failed
  with inv show ?thesis by (simp add: is_match_def)
next
  case (Built re)
  have "slots_agree rx_new st" "queue_ok pinned st" using inv by (auto simp: rx_inv_def)
  from slots_agreeD [OF this(1) lr] queue_okD [OF this(2) lr] Built inv lr show ?thesis
    by (auto simp: is_match_def rx_inv_def slots_agree_def queue_ok_def update_lr_simps)
qed

text \<open>
  A pinned expression stays built.
\<close>

definition pinned_built :: "nat set \<Rightarrow> 'rx rx_state \<Rightarrow> bool" where
  "pinned_built pinned st \<longleftrightarrow>
     (\<forall>i \<in> pinned. \<forall>lr. heap st i = Some lr \<longrightarrow> is_built_slot (slot lr))"

lemma evict_one_pinned:
  assumes "compiled st = old # rest" "queue_ok pinned st" "pinned_built pinned st"
  shows "pinned_built pinned (evict_one old rest st)"
proof -
  have "old \<notin> pinned" using assms(1,2) by (auto simp: queue_ok_def)
  with assms(3) show ?thesis
    by (auto simp: pinned_built_def evict_one_def update_lr_def split: option.splits)
qed

lemma evict_pinned:
  assumes "queue_ok pinned st" "pinned_built pinned st"
  shows "pinned_built pinned (evict n st)"
  using evict_induct [of "\<lambda>st. queue_ok pinned st \<and> pinned_built pinned st" st n] assms
    evict_one_queue_ok evict_one_pinned by metis

lemma is_match_pinned:
  assumes "rx_inv rx_new (pinned, st)" "pinned_built pinned st" "heap st i = Some lr"
  shows "pinned_built pinned (snd (is_match rx_new rx_match i lr haystack st))"
proof (cases "slot lr")
  case Empty
  with assms(2,3) have i: "i \<notin> pinned"
    by (auto simp: pinned_built_def)
  with Empty assms(1,3) have ic: "i \<notin> set (compiled st)"
    using queue_okD [of pinned st i lr] by (auto simp: rx_inv_def)
  show ?thesis
  proof (cases "rx_new (src lr)")
    case None
    with assms i Empty show ?thesis
      by (auto simp: is_match_def build_def pinned_built_def update_lr_def)
  next
    case (Some re)
    define st2 where "st2 = (update_lr i (\<lambda>l. l\<lparr>slot := Built re\<rparr>) st)\<lparr>compiled := compiled st @ [i]\<rparr>"
    have "queue_ok pinned st2" "pinned_built pinned st2"
      using assms i ic by (auto simp: st2_def rx_inv_def queue_ok_def pinned_built_def update_lr_simps)
    then have "pinned_built pinned (evict (length (compiled st2)) st2)" by (rule evict_pinned)
    with Some Empty show ?thesis
      by (simp add: is_match_def build_def Let_def st2_def)
  qed
qed (use assms in \<open>auto simp: is_match_def pinned_built_def update_lr_def\<close>)

lemma rx_step_inv:
  assumes "rx_step rx_new rx_match a b" "rx_inv rx_new a" "pinned_built (fst a) (snd a)"
  shows "rx_inv rx_new b \<and> pinned_built (fst b) (snd b)"
  using assms
proof (induction rule: rx_step.induct)
  case (load_lazy st i pinned s)
  then show ?case
    by (auto simp: rx_inv_def slots_agree_def queue_ok_def pinned_built_def lr_new_def slot_ok_def)
next
  case (load_compiled st i s re pinned)
  then show ?case
    by (auto simp: rx_inv_def slots_agree_def queue_ok_def pinned_built_def lr_compiled_def slot_ok_def)
next
  case (match st i lr pinned haystack)
  then show ?case
    using is_match_inv [of rx_new pinned st i lr] is_match_pinned [of rx_new pinned st i lr]
    by (auto simp: pinned_built_def)
next
  case (unload pinned st i)
  then show ?case
    by (auto simp: rx_inv_def slots_agree_def queue_ok_def pinned_built_def)
qed

lemma rx_reachable_inv: "rx_reachable rx_new rx_match a \<Longrightarrow> rx_inv rx_new a \<and> pinned_built (fst a) (snd a)"
proof (induction rule: rx_reachable.induct)
  case start
  then show ?case by (simp add: rx_inv_def slots_agree_def queue_ok_def pinned_built_def)
next
  case (step a b)
  then show ?case using rx_step_inv by blast
qed

lemma is_match_meaning:
  assumes "slots_agree rx_new st" "heap st i = Some lr"
  shows "fst (is_match rx_new rx_match i lr haystack st) = rx_meaning rx_new rx_match (src lr) haystack"
  using slots_agreeD [OF assms]
  by (cases "slot lr") (auto simp: slot_ok_def is_match_def rx_meaning_def build_def Let_def split: option.splits)

section \<open>Properties\<close>

text \<open>
  C39. Compiling on first use and evicting under a ceiling are invisible: in every state the process
  can reach, matching a live expression answers what compiling its source and running it would.
\<close>

theorem lazy_match_transparent:
  assumes "rx_reachable rx_new rx_match (pinned, st)" "heap st i = Some lr"
  shows "fst (is_match rx_new rx_match i lr haystack st) = rx_meaning rx_new rx_match (src lr) haystack"
proof -
  have "slots_agree rx_new st"
    using rx_reachable_inv [OF assms(1)] by (simp add: rx_inv_def)
  then show ?thesis using assms(2) by (rule is_match_meaning)
qed

theorem lazy_match_transparent_witness:
  "fst (is_match Some (\<lambda>re h. re = h) 7 (lr_new ''ad'') ''ad''
     \<lparr>heap = [7 \<mapsto> lr_new ''ad''], compiled = []\<rparr>) = rx_meaning Some (\<lambda>re h. re = h) ''ad'' ''ad''"
proof -
  let ?st = "\<lparr>heap = [7 \<mapsto> lr_new ''ad''], compiled = []\<rparr> :: str rx_state"
  have r: "rx_reachable Some (\<lambda>re h. re = h) ({}, ?st)"
    using rx_reachable.step [OF rx_reachable.start rx_step.load_lazy [of _ 7 "{}" Some "\<lambda>re h. re = h" "''ad''"]]
    by simp
  have h: "heap ?st 7 = Some (lr_new ''ad'')" by simp
  show ?thesis using lazy_match_transparent [OF r h] by (simp add: lr_new_def)
qed

text \<open>
  The ceiling holds: in every reachable state the lazily compiled expressions being kept, those
  that are built and were not compiled at load, number at most \<open>HARD_CEILING + 1\<close>.
\<close>

theorem lazy_compiled_bounded:
  assumes "rx_reachable rx_new rx_match (pinned, st)"
  shows "card {i. i \<notin> pinned \<and> (\<exists>lr. heap st i = Some lr \<and> is_built_slot (slot lr))} \<le> HARD_CEILING + 1"
proof -
  have inv: "queue_ok pinned st" "length (compiled st) \<le> HARD_CEILING + 1"
    using rx_reachable_inv [OF assms] by (auto simp: rx_inv_def)
  have "{i. i \<notin> pinned \<and> (\<exists>lr. heap st i = Some lr \<and> is_built_slot (slot lr))} \<subseteq> set (compiled st)"
    using inv(1) by (auto simp: queue_ok_def)
  then have "card {i. i \<notin> pinned \<and> (\<exists>lr. heap st i = Some lr \<and> is_built_slot (slot lr))} \<le> length (compiled st)"
    by (meson List.finite_set card_length card_mono le_trans)
  with inv(2) show ?thesis by simp
qed

theorem lazy_compiled_bounded_witness:
  "card {i. i \<notin> {} \<and> (\<exists>lr :: str lazy_regex. heap \<lparr>heap = (\<lambda>_. None), compiled = []\<rparr> i = Some lr \<and>
     is_built_slot (slot lr))} \<le> HARD_CEILING + 1"
proof -
  have r: "rx_reachable Some (\<lambda>re h. re = h) ({}, \<lparr>heap = (\<lambda>_. None :: str lazy_regex option), compiled = []\<rparr>)"
    by (rule rx_reachable.start)
  show ?thesis by (rule lazy_compiled_bounded [OF r])
qed

end
