(* ===== verification/Rule.thy ===== *)
theory Rule
  imports Name Ipaddr Pattern Lazy_Regex
begin

text \<open>
  Filter rules and their parser: \<open>crates/sift-filter/src/rule.rs\<close> (the expression cache of the same
  file is in \<open>Lazy_Regex\<close>).  The parser takes \<open>rx_new\<close>, the \<open>regex\<close> crate's compiler, because a
  hand-written \<open>/regex/\<close> is compiled, and refused if malformed, at load.  The wording of an
  \<open>Invalid\<close> error is not modelled, only that it is one.
\<close>

section \<open>Data\<close>

record host_rule =
  h_text :: str
  h_ip :: ip_addr
  h_hostnames :: "str list"
  h_list_id :: int

definition is_blocking :: "host_rule \<Rightarrow> bool" where
  "is_blocking h = is_unspecified (h_ip h)"

record str_list =
  s_included :: "str list"
  s_excluded :: "str list"

record type_list =
  t_included :: "u16 list"
  t_excluded :: "u16 list"

datatype dns_rewrite =
    RCode u16
  | Addr ip_addr
  | CName str
  | Record u16 str
  | Exclude

record options =
  important :: bool
  badfilter :: bool
  dnstype :: "type_list option"
  client :: "str_list option"
  ctag :: "str_list option"
  denyallow :: "str list"
  dnsrewrite :: "dns_rewrite option"

definition default_options :: options where
  "default_options =
     \<lparr>important = False, badfilter = False, dnstype = None, client = None, ctag = None,
      denyallow = [], dnsrewrite = None\<rparr>"

datatype 'rx rule_pattern =
    DomainAnchor
  | Rx "'rx lazy_regex" target
  | AnyHost

record 'rx network_rule =
  pattern :: "'rx rule_pattern"
  opts :: "options option"
  list_id :: int
  allowlist :: bool

record 'rx parsed_network =
  pn_rule :: "'rx network_rule"
  pn_shortcut :: "str option"

datatype 'rx rule = Host host_rule | Network "'rx parsed_network"

datatype parse_error = NotARule | Cosmetic | Invalid | UnsupportedModifier str

section \<open>Rule attributes\<close>

definition opt_flag :: "(options \<Rightarrow> bool) \<Rightarrow> 'rx network_rule \<Rightarrow> bool" where
  "opt_flag f r = (case opts r of None \<Rightarrow> False | Some o' \<Rightarrow> f o')"

definition rule_important :: "'rx network_rule \<Rightarrow> bool" where
  "rule_important r = opt_flag important r"

definition rule_badfilter :: "'rx network_rule \<Rightarrow> bool" where
  "rule_badfilter r = opt_flag badfilter r"

definition rule_dnsrewrite :: "'rx network_rule \<Rightarrow> dns_rewrite option" where
  "rule_dnsrewrite r = (case opts r of None \<Rightarrow> None | Some o' \<Rightarrow> dnsrewrite o')"

definition specificity :: "'rx network_rule \<Rightarrow> nat" where
  "specificity r =
     (case opts r of
        None \<Rightarrow> 0
      | Some o' \<Rightarrow>
          of_bool (important o') + of_bool (badfilter o') + of_bool (dnstype o' \<noteq> None) +
          of_bool (client o' \<noteq> None) + of_bool (ctag o' \<noteq> None) + of_bool (denyallow o' \<noteq> []) +
          of_bool (dnsrewrite o' \<noteq> None))"

definition is_plain :: "options \<Rightarrow> bool" where
  "is_plain o' \<longleftrightarrow>
     dnstype o' = None \<and> client o' = None \<and> ctag o' = None \<and> denyallow o' = [] \<and> dnsrewrite o' = None"

definition sl_matches :: "str_list \<Rightarrow> str \<Rightarrow> bool" where
  "sl_matches l v =
     (if list_ex (\<lambda>e. eq_ignore_ascii_case e v) (s_excluded l) then False
      else if s_included l = [] then True
      else list_ex (\<lambda>i. eq_ignore_ascii_case i v) (s_included l))"

definition sl_matches_any :: "str_list \<Rightarrow> str list \<Rightarrow> bool" where
  "sl_matches_any l vs =
     (if list_ex (\<lambda>v. list_ex (\<lambda>e. eq_ignore_ascii_case e v) (s_excluded l)) vs then False
      else if s_included l = [] then True
      else list_ex (\<lambda>v. list_ex (\<lambda>i. eq_ignore_ascii_case i v) (s_included l)) vs)"

definition tl_matches :: "type_list \<Rightarrow> u16 \<Rightarrow> bool" where
  "tl_matches l t =
     (if List.member (t_excluded l) t then False
      else if t_included l = [] then True
      else List.member (t_included l) t)"

section \<open>Names of types and response codes\<close>

definition rr_types :: "(str \<times> u16) list" where
  "rr_types =
     [(''A'', 1), (''NS'', 2), (''CNAME'', 5), (''SOA'', 6), (''PTR'', 12), (''HINFO'', 13),
      (''MX'', 15), (''TXT'', 16), (''AAAA'', 28), (''SRV'', 33), (''NAPTR'', 35), (''DS'', 43),
      (''SSHFP'', 44), (''RRSIG'', 46), (''NSEC'', 47), (''DNSKEY'', 48), (''TLSA'', 52),
      (''SVCB'', 64), (''HTTPS'', 65), (''CAA'', 257), (''ANY'', 255)]"

definition rr_type_from_str :: "str \<Rightarrow> u16 option" where
  "rr_type_from_str s = map_of rr_types (to_ascii_uppercase s)"

definition rcodes :: "(str \<times> u16) list" where
  "rcodes =
     [(''NOERROR'', 0), (''FORMERR'', 1), (''SERVFAIL'', 2), (''NXDOMAIN'', 3), (''NOTIMP'', 4),
      (''REFUSED'', 5)]"

definition rcode_from_str :: "str \<Rightarrow> u16 option" where
  "rcode_from_str s = map_of rcodes (to_ascii_uppercase s)"

section \<open>Modifiers\<close>

text \<open>\<open>split_unescaped\<close>: \<open>cur\<close> is the piece \<open>s[start..i]\<close>.\<close>

fun split_unescaped_go :: "char \<Rightarrow> str \<Rightarrow> str \<Rightarrow> str list" where
  "split_unescaped_go sep cur [] = [cur]"
| "split_unescaped_go sep cur [b] =
     (if b = CHR 0x5C then [cur @ [b]] else if b = sep then [cur, []] else [cur @ [b]])"
| "split_unescaped_go sep cur (b # c # s) =
     (if b = CHR 0x5C then split_unescaped_go sep (cur @ [b, c]) s
      else if b = sep then cur # split_unescaped_go sep [] (c # s)
      else split_unescaped_go sep (cur @ [b]) (c # s))"

definition split_unescaped :: "str \<Rightarrow> char \<Rightarrow> str list" where
  "split_unescaped s sep = split_unescaped_go sep [] s"

fun add_str_value :: "str_list \<Rightarrow> str \<Rightarrow> str_list" where
  "add_str_value l raw =
     (let v = trim raw in
      if v = [] then l
      else
        (case strip_prefix ''~'' v of
           Some neg \<Rightarrow> l\<lparr>s_excluded := s_excluded l @ [neg]\<rparr>
         | None \<Rightarrow> l\<lparr>s_included := s_included l @ [v]\<rparr>))"

definition parse_str_list :: "str \<Rightarrow> str_list" where
  "parse_str_list s = foldl add_str_value \<lparr>s_included = [], s_excluded = []\<rparr> (split_char CHR ''|'' s)"

fun parse_type_values :: "type_list \<Rightarrow> str list \<Rightarrow> parse_error + type_list" where
  "parse_type_values l [] = Inr l"
| "parse_type_values l (raw # vs) =
     (let v = trim raw in
      if v = [] then parse_type_values l vs
      else
        let (neg, name) = (case strip_prefix ''~'' v of Some n \<Rightarrow> (True, n) | None \<Rightarrow> (False, v)) in
        (case rr_type_from_str name of
           None \<Rightarrow> Inl Invalid
         | Some t \<Rightarrow>
             parse_type_values
               (if neg then l\<lparr>t_excluded := t_excluded l @ [t]\<rparr> else l\<lparr>t_included := t_included l @ [t]\<rparr>) vs))"

definition parse_type_list :: "str \<Rightarrow> parse_error + type_list" where
  "parse_type_list s = parse_type_values \<lparr>t_included = [], t_excluded = []\<rparr> (split_char CHR ''|'' s)"

definition parse_dnsrewrite :: "str \<Rightarrow> parse_error + dns_rewrite" where
  "parse_dnsrewrite s =
     (if s = [] then Inr Exclude
      else
        (case split_char CHR '';'' s of
           [one] \<Rightarrow>
             (case rcode_from_str one of
                Some rc \<Rightarrow> Inr (if rc = 0 then Exclude else RCode rc)
              | None \<Rightarrow>
                  (case parse_ip one of
                     Some ip \<Rightarrow> Inr (Addr ip)
                   | None \<Rightarrow> if is_valid one then Inr (CName (to_ascii_lowercase one)) else Inl Invalid))
         | [rcode, rtype, val] \<Rightarrow>
             (case rcode_from_str rcode of
                None \<Rightarrow> Inl Invalid
              | Some rc \<Rightarrow>
                  if rc \<noteq> 0 then Inr (RCode rc)
                  else
                    (case rr_type_from_str rtype of
                       None \<Rightarrow> Inl Invalid
                     | Some t \<Rightarrow>
                         if t = 1 \<or> t = 28
                         then (case parse_ip val of Some ip \<Rightarrow> Inr (Addr ip) | None \<Rightarrow> Inl Invalid)
                         else if t = 5 then Inr (CName (to_ascii_lowercase val))
                         else Inr (Record t val)))
         | [rcode, _] \<Rightarrow>
             (case rcode_from_str rcode of None \<Rightarrow> Inl Invalid | Some rc \<Rightarrow> Inr (RCode rc))
         | _ \<Rightarrow> Inl Invalid))"

definition inert_modifiers :: "str list" where
  "inert_modifiers =
     [''domain'', ''third-party'', ''~third-party'', ''3p'', ''~3p'', ''first-party'',
      ''~first-party'', ''app'', ''network'', ''popup'', ''document'', ''doc'', ''all'',
      ''method'', ''to'', ''extension'', ''~extension'']"

text \<open>One modifier, by name; \<open>v\<close> is its value, empty when there is none.\<close>

definition apply_modifier :: "options \<Rightarrow> str \<Rightarrow> str \<Rightarrow> parse_error + options" where
  "apply_modifier o' name v =
     (if name = ''important'' then Inr (o'\<lparr>important := True\<rparr>)
      else if name = ''badfilter'' then Inr (o'\<lparr>badfilter := True\<rparr>)
      else if name = ''dnstype''
      then map_sum id (\<lambda>l. o'\<lparr>dnstype := Some l\<rparr>) (parse_type_list v)
      else if name = ''client'' then Inr (o'\<lparr>client := Some (parse_str_list v)\<rparr>)
      else if name = ''ctag'' then Inr (o'\<lparr>ctag := Some (parse_str_list v)\<rparr>)
      else if name = ''denyallow''
      then Inr (o'\<lparr>denyallow := map to_ascii_lowercase (filter (\<lambda>x. x \<noteq> []) (split_char CHR ''|'' v))\<rparr>)
      else if name = ''dnsrewrite''
      then map_sum id (\<lambda>r. o'\<lparr>dnsrewrite := Some r\<rparr>) (parse_dnsrewrite v)
      else if List.member inert_modifiers name then Inr o'
      else Inl (UnsupportedModifier name))"

fun parse_modifiers :: "options \<Rightarrow> str list \<Rightarrow> parse_error + options" where
  "parse_modifiers o' [] = Inr o'"
| "parse_modifiers o' (raw # parts) =
     (let part = trim raw in
      if part = [] then parse_modifiers o' parts
      else
        let (name, v) = (case split_once CHR ''='' part of Some (n, v) \<Rightarrow> (n, v) | None \<Rightarrow> (part, [])) in
        (case apply_modifier o' name v of
           Inl e \<Rightarrow> Inl e
         | Inr o'' \<Rightarrow> parse_modifiers o'' parts))"

definition parse_options :: "str \<Rightarrow> parse_error + options" where
  "parse_options s = parse_modifiers default_options (split_unescaped s CHR '','')"

text \<open>The scan for the \<open>$\<close> that starts the modifiers: the last unescaped one outside a regex.\<close>

fun find_dollar :: "bool \<Rightarrow> str \<Rightarrow> nat \<Rightarrow> bool \<Rightarrow> nat option \<Rightarrow> nat option" where
  "find_dollar in_regex [] i closed idx = idx"
| "find_dollar in_regex [b] i closed idx =
     (if b = CHR 0x5C then idx
      else if b = CHR ''/'' \<and> in_regex \<and> i > 0 then idx
      else if b = CHR ''$'' \<and> closed then Some i
      else idx)"
| "find_dollar in_regex (b # c # s) i closed idx =
     (if b = CHR 0x5C then find_dollar in_regex s (i + 2) closed idx
      else if b = CHR ''/'' \<and> in_regex \<and> i > 0 then find_dollar in_regex (c # s) (i + 1) True idx
      else if b = CHR ''$'' \<and> closed then find_dollar in_regex (c # s) (i + 1) closed (Some i)
      else find_dollar in_regex (c # s) (i + 1) closed idx)"

definition split_options :: "str \<Rightarrow> parse_error + (str \<times> options)" where
  "split_options s =
     (let in_regex = starts_with s ''/'' \<and> length s > 1 in
      case find_dollar in_regex s 0 (\<not> in_regex) None of
        None \<Rightarrow> Inr (s, default_options)
      | Some i \<Rightarrow> map_sum id (\<lambda>o'. (take i s, o')) (parse_options (drop (i + 1) s)))"

section \<open>Rules\<close>

definition MIN_SHORTCUT_LEN :: nat where
  "MIN_SHORTCUT_LEN = 3"

definition domain_anchor_of :: "str \<Rightarrow> str option" where
  "domain_anchor_of s =
     (case strip_prefix ''||'' s of
        None \<Rightarrow> None
      | Some body \<Rightarrow>
          (case strip_suffix ''^'' body of
             None \<Rightarrow> None
           | Some dmn \<Rightarrow>
               if dmn \<noteq> [] \<and> is_valid dmn \<and> plain_domain dmn
               then Some (to_ascii_lowercase dmn) else None))"

definition parse_pattern ::
  "(str \<Rightarrow> 'rx option) \<Rightarrow> str \<Rightarrow> parse_error + ('rx rule_pattern \<times> str option)" where
  "parse_pattern rx_new s =
     (if matches_all s then Inr (AnyHost, None)
      else
        (case domain_anchor_of s of
           Some dmn \<Rightarrow> Inr (DomainAnchor, Some dmn)
         | None \<Rightarrow>
             let src' = to_regex s in
             if is_regex_pattern s
             then (case rx_new src' of
                     None \<Rightarrow> Inl Invalid
                   | Some re \<Rightarrow> Inr (Rx (lr_compiled src' re) (target_for s), None))
             else Inr (Rx (lr_new src') (target_for s), None)))"

definition parse_network_rule ::
  "(str \<Rightarrow> 'rx option) \<Rightarrow> str \<Rightarrow> int \<Rightarrow> parse_error + 'rx parsed_network" where
  "parse_network_rule rx_new t lid =
     (let (allow, s) = (case strip_prefix ''@@'' t of Some rest \<Rightarrow> (True, rest) | None \<Rightarrow> (False, t)) in
      case split_options s of
        Inl e \<Rightarrow> Inl e
      | Inr (pattern_str, o') \<Rightarrow>
          (case parse_pattern rx_new pattern_str of
             Inl e \<Rightarrow> Inl e
           | Inr (pat, dmn) \<Rightarrow>
               let sc = (case pat of DomainAnchor \<Rightarrow> dmn | _ \<Rightarrow> shortcut pattern_str MIN_SHORTCUT_LEN);
                   os = (if is_plain o' \<and> \<not> important o' \<and> \<not> badfilter o' then None else Some o')
               in Inr \<lparr>pn_rule = \<lparr>pattern = pat, opts = os, list_id = lid, allowlist = allow\<rparr>,
                       pn_shortcut = sc\<rparr>))"

definition parse_host_rule :: "str \<Rightarrow> int \<Rightarrow> host_rule option" where
  "parse_host_rule t lid =
     (case split_once_by is_ascii_whitespace t of
        None \<Rightarrow> None
      | Some (first, rest) \<Rightarrow>
          (case parse_ip first of
             None \<Rightarrow> None
           | Some ip \<Rightarrow>
               let hostnames =
                 filter (\<lambda>h. h \<noteq> [] \<and> is_valid h)
                   (map (\<lambda>h. to_ascii_lowercase (trim_end_matches CHR ''.'' h))
                      (split_ascii_whitespace (takeWhile (\<lambda>c. c \<noteq> CHR ''#'') rest)))
               in if hostnames = [] then None
                  else Some \<lparr>h_text = t, h_ip = ip, h_hostnames = hostnames, h_list_id = lid\<rparr>))"

definition parse :: "(str \<Rightarrow> 'rx option) \<Rightarrow> str \<Rightarrow> int \<Rightarrow> parse_error + 'rx rule" where
  "parse rx_new line lid =
     (let t = trim line in
      if t = [] \<or> starts_with t ''!'' \<or> starts_with t ''# '' \<or> t = ''#'' then Inl NotARule
      else if contains_str t ''##'' \<or> contains_str t ''#@#'' \<or> contains_str t ''#%#'' \<or> contains_str t ''#$#''
      then Inl Cosmetic
      else
        (case parse_host_rule t lid of
           Some h \<Rightarrow> Inr (Host h)
         | None \<Rightarrow> map_sum id Network (parse_network_rule rx_new t lid)))"

section \<open>Splitting on unescaped separators\<close>

lemma split_unescaped_go_nonempty [simp]: "split_unescaped_go sep cur s \<noteq> []"
  by (induction sep cur s rule: split_unescaped_go.induct) auto

lemma join_Cons: "ps \<noteq> [] \<Longrightarrow> join sep (p # ps) = p @ sep @ join sep ps"
  by (cases ps) auto

lemma join_split_unescaped_go: "join [sep] (split_unescaped_go sep cur s) = cur @ s"
  by (induction sep cur s rule: split_unescaped_go.induct) (auto simp: join_Cons)

section \<open>Domain-anchored rules\<close>

lemma domain_anchor_of_Some:
  assumes "domain_anchor_of s = Some d"
  obtains dmn where "s = ''||'' @ dmn @ ''^''" "d = to_ascii_lowercase dmn" "plain_domain dmn"
    "is_valid dmn" "dmn \<noteq> []"
  using assms by (auto simp: domain_anchor_of_def strip_prefix_Some strip_suffix_Some
      split: option.splits if_splits)

lemma parse_pattern_anchor:
  "parse_pattern rx_new s = Inr (DomainAnchor, dmn) \<Longrightarrow> dmn \<noteq> None \<and> domain_anchor_of s = dmn"
  by (cases "domain_anchor_of s"; cases dmn) (auto simp: parse_pattern_def Let_def split: if_splits option.splits)

lemma find_dollar_range:
  "find_dollar r s i c idx = Some k \<Longrightarrow> idx = Some k \<or> i \<le> k \<and> k < i + length s"
  by (induction r s i c idx rule: find_dollar.induct) (auto split: if_splits)

lemma find_dollar_absent: "CHR ''$'' \<notin> set s \<Longrightarrow> find_dollar r s i c idx = idx"
  by (induction r s i c idx rule: find_dollar.induct) auto

lemma split_options_prefix:
  "split_options s = Inr (p, o') \<Longrightarrow> \<exists>r. s = p @ r"
proof -
  assume "split_options s = Inr (p, o')"
  then have "p = s \<or> (\<exists>i. p = take i s)"
    by (auto simp: split_options_def Let_def map_sum_def split: option.splits sum.splits)
  then show ?thesis by (metis append_Nil2 append_take_drop_id)
qed

lemma trim_end_rule_text: "plain_domain d \<Longrightarrow> trim (''||'' @ d @ ''^'') = ''||'' @ d @ ''^''"
  by (rule trim_graphic) (auto simp: graphic_def)

lemma plain_domain_not_space: "plain_domain d \<Longrightarrow> c \<in> set d \<Longrightarrow> \<not> is_ascii_whitespace c \<and> c \<noteq> CHR ''#''"
  by (auto simp: plain_domain_def list_all_iff ascii_defs)

lemma contains_hash: "contains_str s (CHR ''#'' # p) \<Longrightarrow> CHR ''#'' \<in> set s"
  by (auto simp: contains_str_iff sublist_def)

lemma split_once_by_ws_None:
  "\<forall>c \<in> set s. \<not> is_ascii_whitespace c \<Longrightarrow> split_once_by is_ascii_whitespace s = None"
  by (simp add: split_once_by_None)

lemma split_options_plain: "CHR ''$'' \<notin> set s \<Longrightarrow> split_options s = Inr (s, default_options)"
  by (simp add: split_options_def Let_def find_dollar_absent)

lemma domain_anchor_of_text:
  assumes "plain_domain d" "is_valid d"
  shows "domain_anchor_of (''||'' @ d @ ''^'') = Some (to_ascii_lowercase d)"
proof -
  have "strip_prefix ''||'' (''||'' @ d @ ''^'') = Some (d @ ''^'')"
    by (rule strip_prefix_append)
  moreover have "strip_suffix ''^'' (d @ ''^'') = Some d"
    by (rule strip_suffix_append)
  moreover have "d \<noteq> []" using assms(2) by (auto simp: is_valid_def)
  ultimately show ?thesis using assms by (simp add: domain_anchor_of_def)
qed

lemma parse_network_anchor:
  assumes "plain_domain d" "is_valid d"
  shows "parse_network_rule rx_new (''||'' @ d @ ''^'') lid =
    Inr \<lparr>pn_rule = \<lparr>pattern = DomainAnchor, opts = None, list_id = lid, allowlist = False\<rparr>,
         pn_shortcut = Some (to_ascii_lowercase d)\<rparr>"
proof -
  let ?t = "''||'' @ d @ ''^''"
  have "CHR ''$'' \<notin> set ?t" using plain_domain_avoids [OF assms(1)] by auto
  then have so: "split_options ?t = Inr (?t, default_options)" by (rule split_options_plain)
  have "\<not> matches_all ?t" by (auto simp: matches_all_def)
  with domain_anchor_of_text [OF assms]
  have pp: "parse_pattern rx_new ?t = Inr (DomainAnchor, Some (to_ascii_lowercase d))"
    by (simp add: parse_pattern_def)
  have "strip_prefix ''@@'' ?t = None" by (simp add: strip_prefix_def starts_with_def)
  with so pp show ?thesis
    by (simp add: parse_network_rule_def default_options_def is_plain_def)
qed

section \<open>Properties\<close>

text \<open>
  Every blocklist line \<open>||domain^\<close> with a valid plain domain parses, whatever the case of its
  letters and wherever it came from, to an unmodified blocking rule that takes the domain-index
  path under the lowercased domain; no expression is compiled for it.
\<close>

theorem parse_domain_anchor:
  assumes "plain_domain d" "is_valid d"
  shows "parse rx_new (''||'' @ d @ ''^'') lid =
    Inr (Network \<lparr>pn_rule = \<lparr>pattern = DomainAnchor, opts = None, list_id = lid, allowlist = False\<rparr>,
                  pn_shortcut = Some (to_ascii_lowercase d)\<rparr>)"
proof -
  let ?t = "''||'' @ d @ ''^''"
  have c: "\<not> is_ascii_whitespace c \<and> c \<noteq> CHR ''#''" if "c \<in> set ?t" for c
    using that plain_domain_not_space [OF assms(1)] by (auto simp: is_ascii_whitespace_def)
  then have "CHR ''#'' \<notin> set ?t" by blast
  then have h: "\<not> contains_str ?t (CHR ''#'' # p)" for p
    using contains_hash by blast
  have "split_once_by is_ascii_whitespace ?t = None"
    using c by (intro split_once_by_ws_None) blast
  then have "parse_host_rule ?t lid = None" by (simp add: parse_host_rule_def)
  moreover have "\<not> starts_with ?t ''!''" "\<not> starts_with ?t ''# ''" "?t \<noteq> ''#''" "?t \<noteq> []"
    by (simp_all add: starts_with_def)
  ultimately show ?thesis
    unfolding parse_def Let_def trim_end_rule_text [OF assms(1)]
    using h parse_network_anchor [OF assms, of rx_new lid] by simp
qed

theorem parse_domain_anchor_witness:
  "parse (\<lambda>_. None :: unit option) ''||Ads.example.org^'' 7 =
    Inr (Network \<lparr>pn_rule = \<lparr>pattern = DomainAnchor, opts = None, list_id = 7, allowlist = False\<rparr>,
                  pn_shortcut = Some ''ads.example.org''\<rparr>)"
proof -
  have h: "plain_domain ''Ads.example.org''" "is_valid ''Ads.example.org''" by code_simp+
  have l: "to_ascii_lowercase ''Ads.example.org'' = ''ads.example.org''" by code_simp
  show ?thesis using parse_domain_anchor [OF h, of "\<lambda>_. None" 7] l by simp
qed

text \<open>
  Splitting a modifier list on commas loses nothing: joining the pieces with commas gives the
  list back, so every modifier, escapes included, reaches the parser unchanged.
\<close>

theorem split_unescaped_lossless: "join [sep] (split_unescaped s sep) = s"
  by (simp add: split_unescaped_def join_split_unescaped_go)

end
