(* ===== verification/Probe.thy ===== *)
theory Probe
  imports Prelude
begin

text \<open>
  Linear probing in a table whose size is a power of two.  Both indexes of the filter engine run
  the same loop, \<open>while \<not> P(i): i = (i + 1) & mask\<close>, from a home position; this theory has the loop
  and the facts about it that the two share.  \<open>None\<close> is a loop that never ends.
\<close>

partial_function (option) probe :: "(nat \<Rightarrow> bool) \<Rightarrow> nat \<Rightarrow> nat \<Rightarrow> nat option" where
  "probe P msk i = (if P i then Some i else probe P msk ((i + 1) AND msk))"

declare probe.simps [code]

text \<open>\<open>walk cap i d\<close> is the position \<open>d\<close> steps after \<open>i\<close>.\<close>

definition walk :: "nat \<Rightarrow> nat \<Rightarrow> nat \<Rightarrow> nat" where
  "walk cap i d = (i + d) mod cap"

definition pow2 :: "nat \<Rightarrow> bool" where
  "pow2 cap \<longleftrightarrow> (\<exists>n. cap = 2 ^ n)"

lemma pow2_pos: "pow2 cap \<Longrightarrow> 0 < cap"
  by (auto simp: pow2_def)

lemma pow2_double: "pow2 cap \<Longrightarrow> pow2 (cap * 2)"
  unfolding pow2_def by (metis power_Suc2)

lemma mask_mod: "pow2 cap \<Longrightarrow> n AND (cap - 1) = n mod cap"
  by (auto simp: pow2_def and_mask_mod simp flip: One_nat_def)

lemma walk_less: "0 < cap \<Longrightarrow> walk cap i d < cap"
  by (simp add: walk_def)

lemma walk_0: "i < cap \<Longrightarrow> walk cap i 0 = i"
  by (simp add: walk_def)

lemma walk_Suc: "walk cap ((i + 1) mod cap) d = walk cap i (Suc d)"
  by (simp add: walk_def mod_simps)

text \<open>The loop stops at the first position of the walk where the test holds.\<close>

lemma probe_first:
  assumes "pow2 cap" "i < cap" "P (walk cap i d)" "\<And>d'. d' < d \<Longrightarrow> \<not> P (walk cap i d')"
  shows "probe P (cap - 1) i = Some (walk cap i d)"
  using assms(2-4)
proof (induction d arbitrary: i)
  case 0
  then show ?case
    by (subst probe.simps) (simp add: walk_0)
next
  case (Suc d)
  let ?j = "(i + 1) mod cap"
  have "\<not> P i"
    using Suc.prems(3) [of 0] Suc.prems(1) by (simp add: walk_0)
  moreover have "probe P (cap - 1) ?j = Some (walk cap ?j d)"
  proof (rule Suc.IH)
    show "?j < cap" using pow2_pos [OF assms(1)] by simp
    show "P (walk cap ?j d)" using Suc.prems(2) by (simp only: walk_Suc)
    show "\<not> P (walk cap ?j d')" if "d' < d" for d'
      using Suc.prems(3) [of "Suc d'"] that by (simp only: walk_Suc) simp
  qed
  ultimately show ?case
    using mask_mod [OF assms(1), of "i + 1"]
    by (subst probe.simps) (simp add: walk_Suc del: One_nat_def)
qed

text \<open>Every position is reached within one turn.\<close>

lemma walk_reaches:
  assumes "i < cap" "j < cap"
  shows "\<exists>d < cap. walk cap i d = j"
proof (cases "i \<le> j")
  case True
  then have "walk cap i (j - i) = j" using assms by (simp add: walk_def)
  with assms show ?thesis by (intro exI [of _ "j - i"]) auto
next
  case False
  then have "walk cap i (cap - i + j) = j" using assms by (simp add: walk_def)
  with assms False show ?thesis by (intro exI [of _ "cap - i + j"]) auto
qed

lemma walk_first:
  assumes "i < cap" "j < cap" "P j"
  obtains d where "d < cap" "P (walk cap i d)" "\<And>d'. d' < d \<Longrightarrow> \<not> P (walk cap i d')"
proof -
  obtain d0 where d0: "d0 < cap" "P (walk cap i d0)"
    using walk_reaches [OF assms(1,2)] assms(3) by auto
  define d where "d = (LEAST d. P (walk cap i d))"
  have "P (walk cap i d)" unfolding d_def using d0(2) by (rule LeastI)
  moreover have "d \<le> d0" unfolding d_def using d0(2) by (rule Least_le)
  moreover have "\<not> P (walk cap i d')" if "d' < d" for d'
    using that not_less_Least unfolding d_def by blast
  ultimately show ?thesis using that d0(1) by (meson le_less_trans)
qed

lemma probe_returns:
  assumes "pow2 cap" "i < cap" "j < cap" "P j"
  obtains d where "probe P (cap - 1) i = Some (walk cap i d)" "d < cap"
    "P (walk cap i d)" "\<And>d'. d' < d \<Longrightarrow> \<not> P (walk cap i d')"
proof -
  obtain d where "d < cap" "P (walk cap i d)" "\<And>d'. d' < d \<Longrightarrow> \<not> P (walk cap i d')"
    using walk_first [where P = P, OF assms(2-4)] by blast
  with that probe_first [where P = P, OF assms(1,2)] show ?thesis by blast
qed

end
