(* ===== verification/Index_Contract.thy ===== *)
theory Index_Contract
  imports Prelude
begin

text \<open>
  The contract between the engine and the indexes it keeps its rules in.  An index is built once
  from a collection and then queried; the engine relies on both always returning, within the
  limits of the index, and on what a query answers.  The domain index and the shortcut index are
  the two instances.
\<close>

locale built_index =
  fixes build :: "'p \<Rightarrow> 'ix option"
    and lookup :: "'ix \<Rightarrow> 'q \<Rightarrow> u32 list option"
    and fits :: "'p \<Rightarrow> bool"
    and answers :: "'p \<Rightarrow> 'q \<Rightarrow> u32 list \<Rightarrow> bool"
  assumes built: "fits ps \<Longrightarrow> \<exists>ix. build ps = Some ix \<and> (\<forall>q. \<exists>run. lookup ix q = Some run \<and> answers ps q run)"
begin

lemma build_total: "fits ps \<Longrightarrow> \<exists>ix. build ps = Some ix"
  using built by blast

lemma lookup_answers:
  assumes "fits ps" "build ps = Some ix"
  obtains run where "lookup ix q = Some run" "answers ps q run"
  using built [OF assms(1)] assms(2) by auto

lemma lookup_sound: "fits ps \<Longrightarrow> build ps = Some ix \<Longrightarrow> lookup ix q = Some run \<Longrightarrow> answers ps q run"
  by (metis lookup_answers option.inject)

end

end
