(* ===== verification/Domidx.thy ===== *)
theory Domidx
  imports Probe Index_Contract "HOL-Library.Monad_Syntax"
begin

text \<open>
  The domain index of the filter engine (\<open>sift-filter/src/domidx.rs\<close>): an open-addressing table
  from the hash of a domain to the rules filed under it, which keeps no key strings.  A slot holds
  a rule number, or, with the top bit set, the number of a group while the table is built and an
  offset into the run-length coded spill list afterwards.  \<open>None\<close> stands for a panic or a loop that
  does not end; the results below show that \<open>build\<close> and \<open>get\<close> have neither.
\<close>

section \<open>The index\<close>

definition SPILL :: u32 where
  "SPILL = push_bit 31 1"

definition EMPTY :: u32 where
  "EMPTY = 0xFFFFFFFF"

record domain_index =
  hashes :: "u64 list"
  vals :: "u32 list"
  spill :: "u32 list"
  idx_mask :: nat
  idx_len :: nat

definition empty_index :: domain_index where
  "empty_index = \<lparr>hashes = [], vals = [], spill = [], idx_mask = 0, idx_len = 0\<rparr>"

text \<open>\<open>DomainIndex::hash\<close> over the bytes of the key.\<close>

definition hash_step :: "u64 \<Rightarrow> char \<Rightarrow> u64" where
  "hash_step h b = (h XOR of_char b) * 0x517cc1b727220a95"

definition dom_hash :: "string \<Rightarrow> u64" where
  "dom_hash key = (let h = foldl hash_step 0xcbf29ce484222325 key in (h XOR drop_bit 32 h) OR 1)"

definition index_is_empty :: "domain_index \<Rightarrow> bool" where
  "index_is_empty ix \<longleftrightarrow> idx_len ix = 0"

definition capacity :: "domain_index \<Rightarrow> nat" where
  "capacity ix = length (hashes ix)"

definition footprint :: "domain_index \<Rightarrow> nat" where
  "footprint ix = length (hashes ix) * 8 + length (vals ix) * 4 + length (spill ix) * 4"

section \<open>Building\<close>

fun grow_loop :: "(u64 \<times> u32) list \<Rightarrow> nat \<Rightarrow> u64 list \<Rightarrow> u32 list \<Rightarrow> (u64 list \<times> u32 list) option" where
  "grow_loop [] nmask nh nv = Some (nh, nv)"
| "grow_loop ((h, v) # xs) nmask nh nv =
     (if v = EMPTY then grow_loop xs nmask nh nv
      else do {
        i \<leftarrow> probe (\<lambda>i. nv ! i = EMPTY) nmask (unat h AND nmask);
        grow_loop xs nmask (nh[i := h]) (nv[i := v])
      })"

definition grow :: "u64 list \<Rightarrow> u32 list \<Rightarrow> nat \<Rightarrow> (u64 list \<times> u32 list \<times> nat) option" where
  "grow hs vs cap = do {
     let ncap = cap * 2;
     (nh, nv) \<leftarrow> grow_loop (zip hs vs) (ncap - 1) (replicate ncap 0) (replicate ncap EMPTY);
     Some (nh, nv, ncap)
   }"

record build_state =
  b_hashes :: "u64 list"
  b_vals :: "u32 list"
  b_cap :: nat
  b_groups :: "u32 list list"
  b_len :: nat

definition build_init :: build_state where
  "build_init = \<lparr>b_hashes = replicate 1024 0, b_vals = replicate 1024 EMPTY, b_cap = 1024,
     b_groups = [], b_len = 0\<rparr>"

text \<open>The growth test at the head of the loop body, and the rest of the body.\<close>

definition make_room :: "build_state \<Rightarrow> build_state option" where
  "make_room b =
     (if (b_len b + 1) * 10 > b_cap b * 7
      then do {
        (nh, nv, nc) \<leftarrow> grow (b_hashes b) (b_vals b) (b_cap b);
        Some (b\<lparr>b_hashes := nh, b_vals := nv, b_cap := nc\<rparr>)
      }
      else Some b)"

definition place :: "u64 \<Rightarrow> u32 \<Rightarrow> nat \<Rightarrow> build_state \<Rightarrow> build_state option" where
  "place h idx i b =
     (let v = b_vals b ! i in
      if v = EMPTY
      then Some (b\<lparr>b_hashes := (b_hashes b)[i := h], b_vals := (b_vals b)[i := idx],
                   b_len := b_len b + 1\<rparr>)
      else if v AND SPILL = 0
      then Some (b\<lparr>b_groups := b_groups b @ [[v, idx]],
                   b_vals := (b_vals b)[i := SPILL OR of_nat (length (b_groups b))]\<rparr>)
      else (let g = unat (v AND NOT SPILL) in
            if g < length (b_groups b)
            then Some (b\<lparr>b_groups := (b_groups b)[g := b_groups b ! g @ [idx]]\<rparr>)
            else None))"

definition build_pair :: "string \<times> u32 \<Rightarrow> build_state \<Rightarrow> build_state option" where
  "build_pair p b = do {
     let h = dom_hash (fst p);
     b \<leftarrow> make_room b;
     let msk = b_cap b - 1;
     i \<leftarrow> probe (\<lambda>i. b_vals b ! i = EMPTY \<or> b_hashes b ! i = h) msk (unat h AND msk);
     place h (snd p) i b
   }"

fun build_pairs :: "(string \<times> u32) list \<Rightarrow> build_state \<Rightarrow> build_state option" where
  "build_pairs [] b = Some b"
| "build_pairs (p # ps) b = do { b \<leftarrow> build_pair p b; build_pairs ps b }"

text \<open>The last loop: the groups become runs of the spill list.\<close>

fun flatten :: "u32 list list \<Rightarrow> u32 list \<Rightarrow> u32 list \<Rightarrow> (u32 list \<times> u32 list) option" where
  "flatten groups [] spl = Some ([], spl)"
| "flatten groups (v # vs) spl =
     (if v = EMPTY \<or> v AND SPILL = 0
      then do { (vs', spl') \<leftarrow> flatten groups vs spl; Some (v # vs', spl') }
      else let g = unat (v AND NOT SPILL) in
           if g < length groups
           then do {
             let run = groups ! g;
             let off = of_nat (length spl);
             (vs', spl') \<leftarrow> flatten groups vs (spl @ of_nat (length run) # run);
             Some ((SPILL OR off) # vs', spl')
           }
           else None)"

definition build_index :: "(string \<times> u32) list \<Rightarrow> domain_index option" where
  "build_index pairs =
     (if pairs = [] then Some empty_index
      else do {
        b \<leftarrow> build_pairs pairs build_init;
        (vs, spl) \<leftarrow> flatten (b_groups b) (b_vals b) [];
        Some \<lparr>hashes = b_hashes b, vals = vs, spill = spl, idx_mask = b_cap b - 1, idx_len = b_len b\<rparr>
      })"

section \<open>Lookup\<close>

text \<open>The slice a slot names: itself, or a run of the spill list (a slice out of range panics).\<close>

definition run_at :: "u32 list \<Rightarrow> u32 \<Rightarrow> u32 list option" where
  "run_at spl v =
     (if v AND SPILL = 0 then Some [v]
      else let off = unat (v AND NOT SPILL) in
           if off < length spl
           then let n = unat (spl ! off) in
                if off + 1 + n \<le> length spl then Some (take n (drop (off + 1) spl)) else None
           else None)"

definition get_index :: "domain_index \<Rightarrow> string \<Rightarrow> (u32 \<Rightarrow> bool) \<Rightarrow> u32 list option" where
  "get_index ix key verify =
     (if idx_len ix = 0 then Some []
      else do {
        let h = dom_hash key;
        i \<leftarrow> probe (\<lambda>i. vals ix ! i = EMPTY \<or> hashes ix ! i = h) (idx_mask ix)
               (unat h AND idx_mask ix);
        let v = vals ix ! i;
        if v = EMPTY then Some []
        else do {
          run \<leftarrow> run_at (spill ix) v;
          Some (case run of [] \<Rightarrow> [] | x # _ \<Rightarrow> if verify x then run else [])
        }
      })"

section \<open>The tag bit\<close>

lemma SPILL_eq: "SPILL = 0x80000000"
  by (simp add: SPILL_def)

lemma bit_SPILL: "bit SPILL n \<longleftrightarrow> n = 31"
  unfolding SPILL_def by (auto simp: bit_push_bit_iff bit_1_iff simp del: push_bit_of_1)

lemma high_bits_clear: "unat (v :: u32) < 2 ^ 31 \<Longrightarrow> n \<ge> 31 \<Longrightarrow> \<not> bit v n"
  using bit_take_bit_iff [of 31 "unat v" n] by (auto simp: take_bit_nat_eq_self bit_unsigned_iff)

lemma plain_value:
  assumes "v < SPILL" shows "v AND SPILL = 0" "v \<noteq> EMPTY"
proof -
  have v: "unat v < 2 ^ 31" using assms by (simp add: SPILL_eq word_less_nat_alt)
  show "v AND SPILL = 0"
    by (rule bit_eqI) (auto simp: bit_and_iff bit_SPILL high_bits_clear [OF v])
  show "v \<noteq> EMPTY" using v by (auto simp: EMPTY_def)
qed

lemma tagged_value:
  assumes "n < 2 ^ 31 - 1"
  defines "v \<equiv> SPILL OR of_nat n"
  shows "v AND SPILL \<noteq> 0" "unat (v AND NOT SPILL) = n" "v \<noteq> EMPTY"
proof -
  have n: "unat (of_nat n :: u32) = n" using assms(1) by (intro unat_of_nat_small) simp
  have hb: "\<not> bit (of_nat n :: u32) k" if "k \<ge> 31" for k
    using assms(1) n that by (intro high_bits_clear) simp_all
  have "bit (v AND SPILL) 31" by (simp add: v_def bit_simps bit_SPILL)
  then show "v AND SPILL \<noteq> 0" by force
  have "v AND NOT SPILL = of_nat n"
    using hb [of 31]
    by (intro bit_word_eqI) (auto simp: v_def bit_or_iff bit_and_iff bit_not_iff bit_SPILL
        simp del: bit_of_nat_iff_bit of_nat_numeral)
  with n show "unat (v AND NOT SPILL) = n" by simp
  have "EMPTY AND NOT SPILL = 0x7FFFFFFF" by (simp add: EMPTY_def SPILL_eq)
  with \<open>unat (v AND NOT SPILL) = n\<close> assms(1) show "v \<noteq> EMPTY" by auto
qed
section \<open>The table invariant\<close>

text \<open>
  Occupied slots have different hashes, and every slot between the home position of an entry and
  the entry is occupied: the two facts that make linear probing find what was stored.
\<close>

definition used :: "u32 list \<Rightarrow> nat set" where
  "used vs = {i. i < length vs \<and> vs ! i \<noteq> EMPTY}"

definition home :: "nat \<Rightarrow> u64 \<Rightarrow> nat" where
  "home cap h = unat h mod cap"

definition reachable_from_home :: "nat \<Rightarrow> u64 list \<Rightarrow> u32 list \<Rightarrow> nat \<Rightarrow> bool" where
  "reachable_from_home cap hs vs i \<longleftrightarrow>
     (\<exists>d. walk cap (home cap (hs ! i)) d = i \<and>
          (\<forall>d' < d. walk cap (home cap (hs ! i)) d' \<in> used vs - {i}))"

definition tbl_inv :: "nat \<Rightarrow> u64 list \<Rightarrow> u32 list \<Rightarrow> bool" where
  "tbl_inv cap hs vs \<longleftrightarrow>
     pow2 cap \<and> length hs = cap \<and> length vs = cap \<and> card (used vs) < cap \<and>
     inj_on ((!) hs) (used vs) \<and> (\<forall>i \<in> used vs. reachable_from_home cap hs vs i)"

text \<open>What a table stores, as pairs of a hash and a slot value.\<close>

definition entries :: "u64 list \<Rightarrow> u32 list \<Rightarrow> (u64 \<times> u32) set" where
  "entries hs vs = (\<lambda>i. (hs ! i, vs ! i)) ` used vs"

lemma entries_iff: "(h, w) \<in> entries hs vs \<longleftrightarrow> (\<exists>j \<in> used vs. hs ! j = h \<and> vs ! j = w)"
  by (auto simp: entries_def)

lemma finite_used [simp]: "finite (used vs)"
  by (simp add: used_def)

lemma used_update:
  "i < length vs \<Longrightarrow> v \<noteq> EMPTY \<Longrightarrow> used (vs[i := v]) = insert i (used vs)"
  by (auto simp: used_def nth_list_update)

lemma home_less: "0 < cap \<Longrightarrow> home cap h < cap"
  by (simp add: home_def)

lemma home_mask: "pow2 cap \<Longrightarrow> unat h AND (cap - 1) = home cap h"
  by (simp add: home_def mask_mod del: One_nat_def)

lemma empty_slot:
  assumes "tbl_inv cap hs vs" obtains i where "i < cap" "vs ! i = EMPTY"
proof -
  have "used vs \<noteq> {..<cap}" using assms by (auto simp: tbl_inv_def)
  moreover have "used vs \<subseteq> {..<cap}" using assms by (auto simp: tbl_inv_def used_def)
  ultimately show ?thesis using that assms by (auto simp: tbl_inv_def used_def)
qed

text \<open>The search for a hash stops, at its entry or at a hole that shows it is absent.\<close>

lemma probe_hash:
  assumes inv: "tbl_inv cap hs vs"
  obtains i where
    "probe (\<lambda>i. vs ! i = EMPTY \<or> hs ! i = h) (cap - 1) (unat h AND (cap - 1)) = Some i" "i < cap"
    "vs ! i \<noteq> EMPTY \<Longrightarrow> hs ! i = h"
    "vs ! i = EMPTY \<Longrightarrow> h \<notin> fst ` entries hs vs"
    "vs ! i = EMPTY \<Longrightarrow>
       \<exists>d. walk cap (home cap h) d = i \<and> (\<forall>d' < d. walk cap (home cap h) d' \<in> used vs - {i})"
proof -
  let ?P = "\<lambda>i. vs ! i = EMPTY \<or> hs ! i = h"
  have cap: "pow2 cap" "0 < cap" "length vs = cap" using inv by (auto simp: tbl_inv_def pow2_pos)
  obtain j where j: "j < cap" "?P j" using empty_slot [OF inv] by blast
  obtain d where d: "probe ?P (cap - 1) (home cap h) = Some (walk cap (home cap h) d)" "d < cap"
      "?P (walk cap (home cap h) d)" "\<And>d'. d' < d \<Longrightarrow> \<not> ?P (walk cap (home cap h) d')"
    by (rule probe_returns [OF cap(1) home_less [OF cap(2)] j(1), of ?P h]) (use j(2) in auto)
  let ?i = "walk cap (home cap h) d"
  have less: "walk cap x y < cap" for x y by (rule walk_less [OF cap(2)])
  have before: "walk cap (home cap h) d' \<in> used vs" "hs ! walk cap (home cap h) d' \<noteq> h" if "d' < d" for d'
    using d(4) [OF that] less cap by (auto simp: used_def)
  show ?thesis
  proof (rule that [of ?i])
    show "probe ?P (cap - 1) (unat h AND (cap - 1)) = Some ?i" by (simp add: home_mask cap d del: One_nat_def)
    show "?i < cap" by (rule less)
    show "hs ! ?i = h" if "vs ! ?i \<noteq> EMPTY" using d(3) that by simp
    show "\<exists>d. walk cap (home cap h) d = ?i \<and> (\<forall>d' < d. walk cap (home cap h) d' \<in> used vs - {?i})"
      if "vs ! ?i = EMPTY"
      using before that by (intro exI [of _ d]) (auto simp: used_def)
    show "h \<notin> fst ` entries hs vs" if hole: "vs ! ?i = EMPTY"
    proof
      assume "h \<in> fst ` entries hs vs"
      then obtain k where k: "k \<in> used vs" "hs ! k = h" by (auto simp: entries_def)
      then obtain dk where dk: "walk cap (home cap h) dk = k"
          "\<forall>d' < dk. walk cap (home cap h) d' \<in> used vs"
        using inv unfolding tbl_inv_def reachable_from_home_def by blast
      have "d \<noteq> dk" using hole k dk by (auto simp: used_def)
      moreover have "\<not> d < dk" using dk(2) hole by (auto simp: used_def)
      moreover have "\<not> dk < d" using before(2) [of dk] dk(1) k(2) by auto
      ultimately show False by linarith
    qed
  qed
qed

text \<open>Storing a new hash in such a hole keeps the invariant.\<close>

lemma tbl_inv_insert:
  assumes inv: "tbl_inv cap hs vs" and v: "v \<noteq> EMPTY" and i: "i < cap" "vs ! i = EMPTY"
    and new: "h \<notin> fst ` entries hs vs" and room: "card (used vs) + 1 < cap"
    and path: "\<exists>d. walk cap (home cap h) d = i \<and> (\<forall>d' < d. walk cap (home cap h) d' \<in> used vs - {i})"
  shows "tbl_inv cap (hs[i := h]) (vs[i := v])"
    "entries (hs[i := h]) (vs[i := v]) = insert (h, v) (entries hs vs)"
    "card (used (vs[i := v])) = card (used vs) + 1"
proof -
  have len: "length hs = cap" "length vs = cap" using inv by (auto simp: tbl_inv_def)
  have u: "used (vs[i := v]) = insert i (used vs)" "i \<notin> used vs"
    using len i v by (auto simp: used_update) (auto simp: used_def)
  then show c: "card (used (vs[i := v])) = card (used vs) + 1" by simp
  have old: "hs[i := h] ! j = hs ! j" "vs[i := v] ! j = vs ! j" if "j \<in> used vs" for j
    using that u(2) by (metis nth_list_update_neq)+
  show "entries (hs[i := h]) (vs[i := v]) = insert (h, v) (entries hs vs)"
    unfolding entries_def u(1) using len i old by (auto simp: image_iff)
  have inj: "inj_on ((!) (hs[i := h])) (used (vs[i := v]))"
    unfolding u(1) inj_on_insert using inv u(2) old new len i
    by (auto simp: tbl_inv_def inj_on_def entries_def image_iff)
  have "reachable_from_home cap (hs[i := h]) (vs[i := v]) j" if "j \<in> used (vs[i := v])" for j
  proof (cases "j = i")
    case True
    then show ?thesis
      using path len i unfolding reachable_from_home_def u(1) by auto
  next
    case False
    then have "j \<in> used vs" using that u(1) by simp
    moreover from this have "reachable_from_home cap hs vs j" using inv by (simp add: tbl_inv_def)
    ultimately show ?thesis
      unfolding reachable_from_home_def u(1) using old by auto
  qed
  with inj inv c room len show "tbl_inv cap (hs[i := h]) (vs[i := v])"
    by (auto simp: tbl_inv_def)
qed

text \<open>Changing the value of an occupied slot keeps it too.\<close>

lemma tbl_inv_update:
  assumes inv: "tbl_inv cap hs vs" and v: "v \<noteq> EMPTY" and i: "i \<in> used vs"
  shows "tbl_inv cap hs (vs[i := v])" "used (vs[i := v]) = used vs"
    "(h, w) \<in> entries hs (vs[i := v]) \<longleftrightarrow>
       (if h = hs ! i then w = v else (h, w) \<in> entries hs vs)"
proof -
  have "i < length vs" using i by (simp add: used_def)
  with v i show u: "used (vs[i := v]) = used vs" by (auto simp: used_update)
  show "tbl_inv cap hs (vs[i := v])"
    using inv unfolding tbl_inv_def reachable_from_home_def u by simp
  have "inj_on ((!) hs) (used vs)" using inv by (simp add: tbl_inv_def)
  then have same: "j = i" if "j \<in> used vs" "hs ! j = hs ! i" for j using that i by (auto simp: inj_on_def)
  have at: "vs[i := v] ! j = (if j = i then v else vs ! j)" for j
    using \<open>i < length vs\<close> by (simp add: nth_list_update)
  show "(h, w) \<in> entries hs (vs[i := v]) \<longleftrightarrow> (if h = hs ! i then w = v else (h, w) \<in> entries hs vs)"
    unfolding entries_iff u at using same i by metis
qed

lemma entries_functional:
  "tbl_inv cap hs vs \<Longrightarrow> (h, v) \<in> entries hs vs \<Longrightarrow> (h, w) \<in> entries hs vs \<Longrightarrow> v = w"
  unfolding tbl_inv_def entries_def inj_on_def by auto


section \<open>Growing\<close>

text \<open>A list of slots whose occupied ones have different hashes.\<close>

definition live :: "(u64 \<times> u32) list \<Rightarrow> (u64 \<times> u32) list" where
  "live xs = filter (\<lambda>(h, v). v \<noteq> EMPTY) xs"

lemma card_used_filter: "card (used vs) = length (filter (\<lambda>v. v \<noteq> EMPTY) vs)"
  by (simp add: used_def length_filter_conv_card)

lemma length_live_zip: "length hs = length vs \<Longrightarrow> length (live (zip hs vs)) = card (used vs)"
  unfolding card_used_filter live_def
  by (induction hs vs rule: list_induct2) auto

lemma set_live_zip: "length hs = length vs \<Longrightarrow> set (live (zip hs vs)) = entries hs vs"
  by (auto simp: live_def entries_iff used_def set_zip Bex_def)

lemma distinct_live_zip:
  "length hs = length vs \<Longrightarrow> inj_on ((!) hs) (used vs) \<Longrightarrow> distinct (map fst (live (zip hs vs)))"
proof (induction hs vs rule: list_induct2)
  case (Cons h hs v vs)
  have sub: "Suc ` used vs \<subseteq> used (v # vs)" by (auto simp: used_def)
  have "inj_on ((!) hs) (used vs)"
  proof (rule inj_onI)
    fix i j assume "i \<in> used vs" "j \<in> used vs" "hs ! i = hs ! j"
    then have "Suc i = Suc j"
      using sub by (intro inj_onD [OF Cons.prems]) auto
    then show "i = j" by simp
  qed
  then have IH: "distinct (map fst (live (zip hs vs)))" by (rule Cons.IH)
  have "h \<notin> fst ` set (live (zip hs vs))" if "v \<noteq> EMPTY"
  proof
    assume "h \<in> fst ` set (live (zip hs vs))"
    then obtain j where j: "j \<in> used vs" "hs ! j = h"
      using set_live_zip [OF Cons.hyps] by (auto simp: entries_def)
    then have "0 = Suc j"
      using sub that by (intro inj_onD [OF Cons.prems]) (auto simp: used_def)
    then show False by simp
  qed
  with IH show ?case by (simp add: live_def)
qed (simp add: live_def)

lemma tbl_inv_fresh:
  assumes "pow2 cap"
  shows "tbl_inv cap (replicate cap 0) (replicate cap EMPTY)"
    "entries (replicate cap 0) (replicate cap EMPTY) = {}" "used (replicate cap EMPTY) = {}"
proof -
  show u: "used (replicate cap EMPTY) = {}" by (auto simp: used_def)
  then show "entries (replicate cap 0) (replicate cap EMPTY) = {}" by (simp add: entries_def)
  from u assms show "tbl_inv cap (replicate cap 0) (replicate cap EMPTY)"
    by (simp add: tbl_inv_def pow2_pos)
qed

lemma probe_hole:
  assumes inv: "tbl_inv cap hs vs"
  obtains i where "probe (\<lambda>i. vs ! i = EMPTY) (cap - 1) (unat h AND (cap - 1)) = Some i"
    "i < cap" "vs ! i = EMPTY"
    "\<exists>d. walk cap (home cap h) d = i \<and> (\<forall>d' < d. walk cap (home cap h) d' \<in> used vs - {i})"
proof -
  have cap: "pow2 cap" "0 < cap" "length vs = cap" using inv by (auto simp: tbl_inv_def pow2_pos)
  obtain j where j: "j < cap" "vs ! j = EMPTY" using empty_slot [OF inv] by blast
  obtain d where d: "probe (\<lambda>i. vs ! i = EMPTY) (cap - 1) (home cap h) = Some (walk cap (home cap h) d)"
      "vs ! walk cap (home cap h) d = EMPTY"
      "\<And>d'. d' < d \<Longrightarrow> vs ! walk cap (home cap h) d' \<noteq> EMPTY"
    by (rule probe_returns [OF cap(1) home_less [OF cap(2)] j(1), of "\<lambda>i. vs ! i = EMPTY" h])
       (use j(2) in auto)
  moreover have "walk cap x y < cap" for x y by (rule walk_less [OF cap(2)])
  ultimately show ?thesis
    using cap by (intro that [of "walk cap (home cap h) d"])
      (auto simp: home_mask used_def simp del: One_nat_def)
qed

lemma grow_loop_ok:
  assumes "tbl_inv cap nh nv" "distinct (map fst (live xs))"
    "fst ` set (live xs) \<inter> fst ` entries nh nv = {}" "card (used nv) + length (live xs) < cap"
  shows "\<exists>nh' nv'. grow_loop xs (cap - 1) nh nv = Some (nh', nv') \<and> tbl_inv cap nh' nv' \<and>
     entries nh' nv' = set (live xs) \<union> entries nh nv \<and>
     card (used nv') = card (used nv) + length (live xs)"
  using assms
proof (induction xs arbitrary: nh nv)
  case (Cons x xs)
  obtain h v where x: "x = (h, v)" by (cases x)
  show ?case
  proof (cases "v = EMPTY")
    case True
    then have "live (x # xs) = live xs" by (simp add: live_def x)
    with Cons True show ?thesis by (simp add: x)
  next
    case False
    then have l: "live ((h, v) # xs) = (h, v) # live xs" by (simp add: live_def)
    obtain i where i: "probe (\<lambda>i. nv ! i = EMPTY) (cap - 1) (unat h AND (cap - 1)) = Some i"
        "i < cap" "nv ! i = EMPTY"
        "\<exists>d. walk cap (home cap h) d = i \<and> (\<forall>d' < d. walk cap (home cap h) d' \<in> used nv - {i})"
      using probe_hole [OF Cons.prems(1)] by metis
    have new: "h \<notin> fst ` entries nh nv" and room: "card (used nv) + 1 < cap"
      using Cons.prems(3,4) by (auto simp: l x)
    note ins = tbl_inv_insert [OF Cons.prems(1) False i(2,3) new room i(4)]
    have "fst ` set (live xs) \<inter> fst ` entries (nh[i := h]) (nv[i := v]) = {}"
      using Cons.prems(2,3) by (auto simp: ins l x)
    moreover have "distinct (map fst (live xs))" "card (used (nv[i := v])) + length (live xs) < cap"
      using Cons.prems(2,4) by (simp_all add: ins l x)
    ultimately obtain nh' nv' where
      "grow_loop xs (cap - 1) (nh[i := h]) (nv[i := v]) = Some (nh', nv')" "tbl_inv cap nh' nv'"
      "entries nh' nv' = set (live xs) \<union> entries (nh[i := h]) (nv[i := v])"
      "card (used nv') = card (used (nv[i := v])) + length (live xs)"
      using Cons.IH [OF ins(1)] by blast
    with False i(1) show ?thesis by (simp add: x ins l del: One_nat_def)
  qed
qed (simp add: live_def)

lemma grow_ok:
  assumes inv: "tbl_inv cap hs vs"
  shows "\<exists>nh nv. grow hs vs cap = Some (nh, nv, cap * 2) \<and> tbl_inv (cap * 2) nh nv \<and>
     entries nh nv = entries hs vs \<and> card (used nv) = card (used vs)"
proof -
  have p: "pow2 (cap * 2)" and len: "length hs = length vs" and "card (used vs) < cap"
    and inj: "inj_on ((!) hs) (used vs)"
    using inv by (auto simp: tbl_inv_def pow2_double)
  then show ?thesis
    using grow_loop_ok [OF tbl_inv_fresh(1) [OF p] distinct_live_zip [OF len inj]]
    by (auto simp: grow_def tbl_inv_fresh(2,3) [OF p] length_live_zip [OF len] set_live_zip [OF len]
        simp del: One_nat_def)
qed

section \<open>The meaning of a table under construction\<close>

text \<open>\<open>runs ps h\<close> lists the rules of the pairs whose domain hashes to \<open>h\<close>, in order.\<close>

definition runs :: "(string \<times> u32) list \<Rightarrow> u64 \<Rightarrow> u32 list" where
  "runs ps h = map snd (filter (\<lambda>p. dom_hash (fst p) = h) ps)"

definition group_of :: "u32 \<Rightarrow> nat option" where
  "group_of v = (if v AND SPILL = 0 then None else Some (unat (v AND NOT SPILL)))"

definition group_run :: "u32 list list \<Rightarrow> u32 \<Rightarrow> u32 list" where
  "group_run groups v = (case group_of v of None \<Rightarrow> [v] | Some g \<Rightarrow> groups ! g)"

text \<open>
  The entries \<open>E\<close> with the groups stand for the pairs: every hash of a pair has an entry, an entry
  names its run, and no two hashes share a group.
\<close>

definition denotes :: "(string \<times> u32) list \<Rightarrow> (u64 \<times> u32) set \<Rightarrow> u32 list list \<Rightarrow> bool" where
  "denotes ps E groups \<longleftrightarrow>
     (\<forall>h. runs ps h \<noteq> [] \<longrightarrow> (\<exists>v. (h, v) \<in> E)) \<and>
     (\<forall>h v. (h, v) \<in> E \<longrightarrow> runs ps h \<noteq> [] \<and> group_run groups v = runs ps h) \<and>
     (\<forall>h v g. (h, v) \<in> E \<longrightarrow> group_of v = Some g \<longrightarrow> g < length groups) \<and>
     (\<forall>h v h' v' g. (h, v) \<in> E \<longrightarrow> (h', v') \<in> E \<longrightarrow> group_of v = Some g \<longrightarrow>
        group_of v' = Some g \<longrightarrow> h = h')"

definition build_inv :: "(string \<times> u32) list \<Rightarrow> build_state \<Rightarrow> bool" where
  "build_inv ps b \<longleftrightarrow>
     tbl_inv (b_cap b) (b_hashes b) (b_vals b) \<and> b_len b = card (used (b_vals b)) \<and>
     length (b_groups b) \<le> length ps \<and>
     denotes ps (entries (b_hashes b) (b_vals b)) (b_groups b)"

lemma runs_snoc:
  "runs (ps @ [p]) h = (if dom_hash (fst p) = h then runs ps h @ [snd p] else runs ps h)"
  by (simp add: runs_def)

lemma denotes_new:
  assumes "denotes ps E groups" "h \<notin> fst ` E" "dom_hash (fst p) = h" "group_of (snd p) = None"
  shows "denotes (ps @ [p]) (insert (h, snd p) E) groups"
proof -
  have none: "runs ps h = []" using assms(1,2) by (force simp: denotes_def)
  have "h' \<noteq> h" if "(h', v) \<in> E" for h' v using assms(2) that by force
  with assms none show ?thesis
    unfolding denotes_def by (auto simp: runs_snoc group_run_def)
qed

lemma denotes_promote:
  assumes d: "denotes ps E groups" and "(h, v) \<in> E" "dom_hash (fst p) = h" "group_of v = None"
    and E': "\<And>h' w. (h', w) \<in> E' \<longleftrightarrow> (if h' = h then w = v' else (h', w) \<in> E)"
    and v': "group_of v' = Some (length groups)"
  shows "denotes (ps @ [p]) E' (groups @ [[v, snd p]])"
proof -
  have "group_run groups v = runs ps h" using assms(1,2) by (auto simp: denotes_def)
  then have run: "runs ps h = [v]" using assms(4) by (simp add: group_run_def)
  have lt: "g < length groups" if "(h', w) \<in> E" "group_of w = Some g" for h' w g
    using d that by (auto simp: denotes_def)
  have old: "group_run (groups @ [x]) w = group_run groups w" "group_of w \<noteq> Some (length groups)"
    if "(h', w) \<in> E" for h' w x
    using lt [OF that] by (auto simp: group_run_def nth_append split: option.splits)
  show ?thesis
    unfolding denotes_def
  proof (intro conjI allI impI)
    show "\<exists>w. (h', w) \<in> E'" if "runs (ps @ [p]) h' \<noteq> []" for h'
      using that d E' assms(3) by (auto simp: denotes_def runs_snoc split: if_splits)
    show "runs (ps @ [p]) h' \<noteq> []" if "(h', w) \<in> E'" for h' w
      using that d E' assms(3) by (auto simp: denotes_def runs_snoc split: if_splits)
    show "group_run (groups @ [[v, snd p]]) w = runs (ps @ [p]) h'" if "(h', w) \<in> E'" for h' w
      using that d E' assms(3) old v' run
      by (cases "h' = h") (auto simp: denotes_def runs_snoc group_run_def)
    show "g < length (groups @ [[v, snd p]])" if "(h', w) \<in> E'" "group_of w = Some g" for h' w g
      using that E' lt v' by (cases "h' = h") (auto simp: less_Suc_eq)
    show "h1 = h2" if "(h1, w1) \<in> E'" "(h2, w2) \<in> E'" "group_of w1 = Some g" "group_of w2 = Some g"
      for h1 w1 h2 w2 g
      using that E' old v' d unfolding denotes_def by (metis (full_types) option.inject)
  qed
qed

lemma denotes_extend:
  assumes d: "denotes ps E groups" and hv: "(h, v) \<in> E" "dom_hash (fst p) = h" "group_of v = Some g"
    and only: "\<And>w. (h, w) \<in> E \<Longrightarrow> w = v"
  shows "denotes (ps @ [p]) E (groups[g := groups ! g @ [snd p]])"
proof -
  have "group_run groups v = runs ps h" and g0: "g < length groups"
    using d hv by (auto simp: denotes_def)
  then have g: "g < length groups" "groups ! g = runs ps h"
    using hv(3) by (auto simp: group_run_def)
  have gr: "group_run (groups[g := groups ! g @ [snd p]]) w =
      (if h' = h then runs ps h @ [snd p] else group_run groups w)" if "(h', w) \<in> E" for h' w
  proof (cases "h' = h")
    case True
    then show ?thesis using only that hv g by (auto simp: group_run_def)
  next
    case False
    then have "group_of w \<noteq> Some g" using d hv that by (auto simp: denotes_def)
    then show ?thesis using False by (auto simp: group_run_def split: option.splits)
  qed
  show ?thesis
    using d gr hv unfolding denotes_def by (auto simp: runs_snoc)
qed

lemma build_inv_init: "build_inv [] build_init"
proof -
  have "pow2 1024" unfolding pow2_def by (rule exI [of _ 10]) simp
  note tbl_inv_fresh [OF this]
  then show ?thesis
    by (simp add: build_inv_def build_init_def denotes_def runs_def)
qed

lemma make_room_ok:
  assumes "build_inv ps b"
  shows "\<exists>b'. make_room b = Some b' \<and> build_inv ps b' \<and> b_len b' + 1 < b_cap b'"
proof -
  have inv: "tbl_inv (b_cap b) (b_hashes b) (b_vals b)" and l: "b_len b = card (used (b_vals b))"
    using assms by (auto simp: build_inv_def)
  then have lt: "b_len b < b_cap b" by (simp add: tbl_inv_def)
  show ?thesis
  proof (cases "(b_len b + 1) * 10 > b_cap b * 7")
    case True
    obtain nh nv where g: "grow (b_hashes b) (b_vals b) (b_cap b) = Some (nh, nv, b_cap b * 2)"
        "tbl_inv (b_cap b * 2) nh nv" "entries nh nv = entries (b_hashes b) (b_vals b)"
        "card (used nv) = card (used (b_vals b))"
      using grow_ok [OF inv] by blast
    let ?b = "b\<lparr>b_hashes := nh, b_vals := nv, b_cap := b_cap b * 2\<rparr>"
    have "build_inv ps ?b" using assms g by (simp add: build_inv_def)
    moreover have "make_room b = Some ?b" using True g(1) by (simp add: make_room_def)
    ultimately show ?thesis using lt by (intro exI [of _ ?b]) simp
  next
    case False
    then have "make_room b = Some b" by (simp add: make_room_def)
    moreover have "b_len b + 1 < b_cap b" using False lt by auto
    ultimately show ?thesis using assms by blast
  qed
qed

text \<open>The three ways a pair is placed.\<close>

lemma place_new:
  assumes inv: "build_inv ps b" and i: "i < b_cap b" "b_vals b ! i = EMPTY"
    and new: "h \<notin> fst ` entries (b_hashes b) (b_vals b)" and room: "b_len b + 1 < b_cap b"
    and path: "\<exists>d. walk (b_cap b) (home (b_cap b) h) d = i \<and>
                 (\<forall>d' < d. walk (b_cap b) (home (b_cap b) h) d' \<in> used (b_vals b) - {i})"
    and p: "dom_hash (fst p) = h" "snd p < SPILL"
  shows "\<exists>b'. place h (snd p) i b = Some b' \<and> build_inv (ps @ [p]) b'"
proof -
  have t: "tbl_inv (b_cap b) (b_hashes b) (b_vals b)" and l: "b_len b = card (used (b_vals b))"
    using inv by (auto simp: build_inv_def)
  note plain = plain_value [OF p(2)]
  note ins = tbl_inv_insert [OF t plain(2) i new room [unfolded l] path]
  let ?b = "b\<lparr>b_hashes := (b_hashes b)[i := h], b_vals := (b_vals b)[i := snd p], b_len := b_len b + 1\<rparr>"
  have "group_of (snd p) = None" using plain(1) by (simp add: group_of_def)
  then have "build_inv (ps @ [p]) ?b"
    using inv denotes_new [OF _ new p(1)] ins l unfolding build_inv_def by simp
  moreover have "place h (snd p) i b = Some ?b" using i(2) by (simp add: place_def Let_def)
  ultimately show ?thesis by blast
qed

lemma place_group:
  assumes inv: "build_inv ps b" and i: "i \<in> used (b_vals b)" "b_hashes b ! i = h"
    and p: "dom_hash (fst p) = h" and small: "length ps < 2 ^ 31 - 1"
  shows "\<exists>b'. place h (snd p) i b = Some b' \<and> build_inv (ps @ [p]) b'"
proof -
  let ?v = "b_vals b ! i" and ?E = "entries (b_hashes b) (b_vals b)"
  have t: "tbl_inv (b_cap b) (b_hashes b) (b_vals b)" and l: "b_len b = card (used (b_vals b))"
    and gl: "length (b_groups b) \<le> length ps"
    using inv by (auto simp: build_inv_def)
  have e: "(h, ?v) \<in> ?E" and ne: "?v \<noteq> EMPTY" using i by (auto simp: entries_iff used_def)
  have only: "w = ?v" if "(h, w) \<in> ?E" for w using entries_functional [OF t that e] .
  have den: "denotes ps ?E (b_groups b)" using inv by (simp add: build_inv_def)
  show ?thesis
  proof (cases "?v AND SPILL = 0")
    case True
    let ?w = "SPILL OR of_nat (length (b_groups b))"
    let ?b = "b\<lparr>b_groups := b_groups b @ [[?v, snd p]], b_vals := (b_vals b)[i := ?w]\<rparr>"
    have "length (b_groups b) < 2 ^ 31 - 1" using gl small by simp
    note tag = tagged_value [OF this]
    note upd = tbl_inv_update [OF t tag(3) i(1)]
    have gw: "group_of ?w = Some (length (b_groups b))" "group_of ?v = None"
      using tag True by (auto simp: group_of_def)
    have "denotes (ps @ [p]) (entries (b_hashes b) ((b_vals b)[i := ?w])) (b_groups b @ [[?v, snd p]])"
      by (rule denotes_promote [OF den e p gw(2) _ gw(1)]) (use upd(3) i(2) in simp)
    then have "build_inv (ps @ [p]) ?b"
      using upd(1,2) l gl by (simp add: build_inv_def)
    moreover have "place h (snd p) i b = Some ?b" using True ne by (simp add: place_def Let_def)
    ultimately show ?thesis by blast
  next
    case False
    define g where "g = unat (?v AND NOT SPILL)"
    have gv: "group_of ?v = Some g" using False by (simp add: group_of_def g_def)
    have gb: "g < length (b_groups b)" using den e gv by (auto simp: denotes_def)
    let ?b = "b\<lparr>b_groups := (b_groups b)[g := b_groups b ! g @ [snd p]]\<rparr>"
    have "build_inv (ps @ [p]) ?b"
      using denotes_extend [OF den e p gv only] t l gl by (simp add: build_inv_def)
    moreover have "place h (snd p) i b = Some ?b"
      using False ne gb by (simp add: place_def Let_def g_def)
    ultimately show ?thesis by blast
  qed
qed

lemma build_pair_ok:
  assumes inv: "build_inv ps b" and p: "snd p < SPILL" and small: "length ps < 2 ^ 31 - 1"
  shows "\<exists>b'. build_pair p b = Some b' \<and> build_inv (ps @ [p]) b'"
proof -
  let ?h = "dom_hash (fst p)"
  obtain c where c: "make_room b = Some c" "build_inv ps c" "b_len c + 1 < b_cap c"
    using make_room_ok [OF inv] by blast
  have t: "tbl_inv (b_cap c) (b_hashes c) (b_vals c)" using c(2) by (simp add: build_inv_def)
  obtain i where i: "probe (\<lambda>i. b_vals c ! i = EMPTY \<or> b_hashes c ! i = ?h) (b_cap c - 1)
        (unat ?h AND (b_cap c - 1)) = Some i" "i < b_cap c"
      "b_vals c ! i \<noteq> EMPTY \<Longrightarrow> b_hashes c ! i = ?h"
      "b_vals c ! i = EMPTY \<Longrightarrow> ?h \<notin> fst ` entries (b_hashes c) (b_vals c)"
      "b_vals c ! i = EMPTY \<Longrightarrow> \<exists>d. walk (b_cap c) (home (b_cap c) ?h) d = i \<and>
         (\<forall>d' < d. walk (b_cap c) (home (b_cap c) ?h) d' \<in> used (b_vals c) - {i})"
    by (rule probe_hash [OF t, of ?h]) blast
  have "\<exists>b'. place ?h (snd p) i c = Some b' \<and> build_inv (ps @ [p]) b'"
  proof (cases "b_vals c ! i = EMPTY")
    case True
    show ?thesis
      by (rule place_new [OF c(2) i(2) True i(4) [OF True] c(3) i(5) [OF True] refl p])
  next
    case False
    then have "i \<in> used (b_vals c)" using i(2) t by (simp add: used_def tbl_inv_def)
    then show ?thesis using place_group [OF c(2) _ i(3) [OF False] refl small] by simp
  qed
  with c(1) i(1) show ?thesis by (simp add: build_pair_def Let_def del: One_nat_def)
qed

lemma build_pairs_ok:
  "build_inv ps b \<Longrightarrow> \<forall>q \<in> set qs. snd q < SPILL \<Longrightarrow> length (ps @ qs) < 2 ^ 31 - 1 \<Longrightarrow>
     \<exists>b'. build_pairs qs b = Some b' \<and> build_inv (ps @ qs) b'"
proof (induction qs arbitrary: ps b)
  case (Cons q qs)
  then obtain c where "build_pair q b = Some c" "build_inv (ps @ [q]) c"
    using build_pair_ok [OF Cons.prems(1), of q] by auto
  with Cons.IH [of "ps @ [q]" c] Cons.prems show ?case by auto
qed simp

section \<open>The spill list\<close>

definition spill_need :: "u32 list list \<Rightarrow> u32 \<Rightarrow> nat" where
  "spill_need groups v =
     (if v = EMPTY \<or> v AND SPILL = 0 then 0 else Suc (length (group_run groups v)))"

lemma run_at_append: "run_at spl v = Some r \<Longrightarrow> run_at (spl @ ext) v = Some r"
  by (auto simp: run_at_def Let_def nth_append split: if_splits)

lemma run_at_end:
  assumes "length spl < 2 ^ 31 - 1" "length run < 2 ^ 32"
  shows "run_at (spl @ of_nat (length run) # run) (SPILL OR of_nat (length spl)) = Some run"
proof -
  have "unat (of_nat (length run) :: u32) = length run"
    using assms(2) by (intro unat_of_nat_small) simp
  then show ?thesis
    using tagged_value [OF assms(1)] by (simp add: run_at_def Let_def nth_append)
qed

lemma flatten_ok:
  assumes "\<And>v g. v \<in> set vs \<Longrightarrow> v \<noteq> EMPTY \<Longrightarrow> group_of v = Some g \<Longrightarrow> g < length groups"
    "length spl + sum_list (map (spill_need groups) vs) < 2 ^ 31 - 1"
  shows "\<exists>vs' ext. flatten groups vs spl = Some (vs', spl @ ext) \<and> length vs' = length vs \<and>
     (\<forall>i < length vs. (vs' ! i = EMPTY \<longleftrightarrow> vs ! i = EMPTY) \<and>
        (vs ! i \<noteq> EMPTY \<longrightarrow> run_at (spl @ ext) (vs' ! i) = Some (group_run groups (vs ! i))))"
  using assms
proof (induction vs arbitrary: spl)
  case (Cons v vs)
  show ?case
  proof (cases "v = EMPTY \<or> v AND SPILL = 0")
    case True
    then have "spill_need groups v = 0" by (simp add: spill_need_def)
    then obtain vs' ext where IH: "flatten groups vs spl = Some (vs', spl @ ext)"
        "length vs' = length vs"
        "\<forall>i < length vs. (vs' ! i = EMPTY \<longleftrightarrow> vs ! i = EMPTY) \<and>
          (vs ! i \<noteq> EMPTY \<longrightarrow> run_at (spl @ ext) (vs' ! i) = Some (group_run groups (vs ! i)))"
      using Cons.IH [of spl] Cons.prems by auto
    have "v \<noteq> EMPTY \<longrightarrow> run_at (spl @ ext) v = Some (group_run groups v)"
      using True by (auto simp: run_at_def group_run_def group_of_def)
    with True IH show ?thesis by (auto simp: nth_Cons split: nat.splits)
  next
    case False
    define g where "g = unat (v AND NOT SPILL)"
    have gv: "group_of v = Some g" "g < length groups" "group_run groups v = groups ! g"
      using False Cons.prems(1) [of v g] by (auto simp: group_of_def g_def group_run_def)
    have need: "spill_need groups v = Suc (length (groups ! g))" using False gv by (simp add: spill_need_def)
    let ?run = "groups ! g"
    let ?spl = "spl @ of_nat (length ?run) # ?run"
    obtain vs' ext where IH: "flatten groups vs ?spl = Some (vs', ?spl @ ext)" "length vs' = length vs"
        "\<forall>i < length vs. (vs' ! i = EMPTY \<longleftrightarrow> vs ! i = EMPTY) \<and>
          (vs ! i \<noteq> EMPTY \<longrightarrow> run_at (?spl @ ext) (vs' ! i) = Some (group_run groups (vs ! i)))"
      using Cons.IH [of ?spl] Cons.prems need by auto
    let ?v = "SPILL OR of_nat (length spl)"
    have lt: "length spl < 2 ^ 31 - 1" "length ?run < 2 ^ 32" using Cons.prems(2) need by simp_all
    have "run_at (?spl @ ext) ?v = Some (group_run groups v)"
      unfolding gv(3) by (rule run_at_append [OF run_at_end [OF lt]])
    moreover have "?v \<noteq> EMPTY" by (rule tagged_value(3) [OF lt(1)])
    moreover have "flatten groups (v # vs) spl = Some (?v # vs', spl @ (of_nat (length ?run) # ?run @ ext))"
      using False IH(1) gv(2) by (simp add: Let_def g_def)
    ultimately show ?thesis
      using False IH(2,3) by (auto simp: nth_Cons split: nat.splits)
  qed
qed simp

text \<open>The spill list is at most twice as long as the list of pairs.\<close>

lemma sum_filter_classes:
  assumes "finite H" "f ` set xs \<subseteq> H"
  shows "(\<Sum>h \<in> H. length (filter (\<lambda>x. f x = h) xs)) = length xs"
  using assms(2)
proof (induction xs)
  case (Cons x xs)
  have "(\<Sum>h \<in> H. length (filter (\<lambda>x. f x = h) (x # xs))) =
      (\<Sum>h \<in> H. (if f x = h then 1 else 0) + length (filter (\<lambda>x. f x = h) xs))"
    by (intro sum.cong) auto
  also have "\<dots> = 1 + length xs"
    using Cons assms(1) by (simp add: sum.distrib)
  finally show ?case by simp
qed simp

lemma spill_bound:
  assumes inv: "build_inv ps b"
  shows "sum_list (map (spill_need (b_groups b)) (b_vals b)) \<le> 2 * length ps"
proof -
  let ?vs = "b_vals b" and ?hs = "b_hashes b" and ?U = "used (b_vals b)"
  have inj: "inj_on ((!) ?hs) ?U" using inv by (simp add: build_inv_def tbl_inv_def)
  have run: "group_run (b_groups b) (?vs ! i) = runs ps (?hs ! i)" "runs ps (?hs ! i) \<noteq> []"
    if "i \<in> ?U" for i
    using inv that by (auto simp: build_inv_def denotes_def entries_iff)
  have need: "spill_need (b_groups b) (?vs ! i) \<le> 2 * length (runs ps (?hs ! i))" if "i \<in> ?U" for i
    using run [OF that] by (cases "runs ps (?hs ! i)") (auto simp: spill_need_def)
  have "sum_list (map (spill_need (b_groups b)) ?vs) = (\<Sum>i < length ?vs. spill_need (b_groups b) (?vs ! i))"
    by (simp add: sum_list_sum_nth atLeast0LessThan)
  also have "\<dots> = (\<Sum>i \<in> ?U. spill_need (b_groups b) (?vs ! i))"
    by (intro sum.mono_neutral_right) (auto simp: used_def spill_need_def)
  also have "\<dots> \<le> (\<Sum>i \<in> ?U. 2 * length (runs ps (?hs ! i)))"
    by (intro sum_mono need)
  also have "\<dots> = 2 * (\<Sum>h \<in> (!) ?hs ` ?U. length (runs ps h))"
    by (simp add: sum_distrib_left sum.reindex [OF inj])
  also have "(\<Sum>h \<in> (!) ?hs ` ?U. length (runs ps h)) \<le> length ps"
  proof -
    let ?H = "(!) ?hs ` ?U \<union> (dom_hash \<circ> fst) ` set ps"
    have "(\<Sum>h \<in> (!) ?hs ` ?U. length (runs ps h)) \<le> (\<Sum>h \<in> ?H. length (runs ps h))"
      by (intro sum_mono2) auto
    also have "\<dots> = length ps"
      using sum_filter_classes [of ?H "dom_hash \<circ> fst" ps] by (simp add: runs_def)
    finally show ?thesis .
  qed
  finally show ?thesis by simp
qed

section \<open>The index answers as the list of pairs does\<close>

lemma get_index_built:
  assumes inv: "build_inv ps b" and ps: "ps \<noteq> []"
    and flat: "length vs' = length (b_vals b)"
      "\<And>i. i < length (b_vals b) \<Longrightarrow> (vs' ! i = EMPTY \<longleftrightarrow> b_vals b ! i = EMPTY) \<and>
         (b_vals b ! i \<noteq> EMPTY \<longrightarrow> run_at spl (vs' ! i) = Some (group_run (b_groups b) (b_vals b ! i)))"
  defines "ix \<equiv> \<lparr>hashes = b_hashes b, vals = vs', spill = spl, idx_mask = b_cap b - 1, idx_len = b_len b\<rparr>"
  shows "get_index ix key verify =
     Some (let run = runs ps (dom_hash key) in if run \<noteq> [] \<and> verify (hd run) then run else [])"
proof -
  let ?h = "dom_hash key"
  have t: "tbl_inv (b_cap b) (b_hashes b) (b_vals b)" and den: "denotes ps (entries (b_hashes b) (b_vals b)) (b_groups b)"
    and len: "length (b_vals b) = b_cap b" "b_len b = card (used (b_vals b))"
    using inv by (auto simp: build_inv_def tbl_inv_def)
  have u: "used vs' = used (b_vals b)" using flat by (auto simp: used_def)
  have t': "tbl_inv (b_cap b) (b_hashes b) vs'"
    using t flat(1) unfolding tbl_inv_def reachable_from_home_def u by simp
  obtain i where i: "probe (\<lambda>i. vs' ! i = EMPTY \<or> b_hashes b ! i = ?h) (b_cap b - 1)
        (unat ?h AND (b_cap b - 1)) = Some i" "i < b_cap b" "vs' ! i \<noteq> EMPTY \<Longrightarrow> b_hashes b ! i = ?h"
      "vs' ! i = EMPTY \<Longrightarrow> ?h \<notin> fst ` entries (b_hashes b) vs'"
    by (rule probe_hash [OF t', of ?h]) blast
  have nonempty: "b_len b \<noteq> 0"
  proof -
    obtain p where "p \<in> set ps" using ps by (cases ps) auto
    then have "runs ps (dom_hash (fst p)) \<noteq> []" by (auto simp: runs_def filter_empty_conv)
    then have "used (b_vals b) \<noteq> {}" using den by (force simp: denotes_def entries_iff)
    then show ?thesis by (simp add: len)
  qed
  show ?thesis
  proof (cases "vs' ! i = EMPTY")
    case True
    have "fst ` entries (b_hashes b) vs' = fst ` entries (b_hashes b) (b_vals b)"
      by (simp add: entries_def u image_image)
    then have "\<nexists>v. (?h, v) \<in> entries (b_hashes b) (b_vals b)"
      using i(4) [OF True] by (metis fst_conv image_eqI)
    then have "runs ps ?h = []" using den unfolding denotes_def by blast
    with True nonempty i(1) show ?thesis by (simp add: get_index_def ix_def del: One_nat_def)
  next
    case False
    then have used: "i \<in> used (b_vals b)" using i(2) u flat(1) len by (auto simp: used_def)
    then have "(?h, b_vals b ! i) \<in> entries (b_hashes b) (b_vals b)" using i(3) False by (auto simp: entries_iff)
    then have r: "run_at spl (vs' ! i) = Some (runs ps ?h)" "runs ps ?h \<noteq> []"
      using den flat(2) [of i] used by (auto simp: denotes_def used_def)
    with False nonempty i(1) show ?thesis
      by (auto simp: get_index_def ix_def Let_def neq_Nil_conv simp del: One_nat_def)
  qed
qed

lemma domain_index_lookup:
  assumes "\<forall>q \<in> set ps. snd q < SPILL" "length ps < 2 ^ 30"
  shows "\<exists>ix. build_index ps = Some ix \<and>
     (\<forall>key verify. get_index ix key verify =
        Some (let run = map snd (filter (\<lambda>q. dom_hash (fst q) = dom_hash key) ps)
              in if run \<noteq> [] \<and> verify (hd run) then run else []))"
proof (cases "ps = []")
  case True
  then show ?thesis by (simp add: build_index_def get_index_def empty_index_def)
next
  case False
  obtain b where b: "build_pairs ps build_init = Some b" "build_inv ps b"
    using build_pairs_ok [OF build_inv_init assms(1)] assms(2) by auto
  have "g < length (b_groups b)" if v: "v \<in> set (b_vals b)" "v \<noteq> EMPTY" "group_of v = Some g" for v g
  proof -
    obtain i where "i < length (b_vals b)" "b_vals b ! i = v" using v(1) by (auto simp: in_set_conv_nth)
    then have "(b_hashes b ! i, v) \<in> entries (b_hashes b) (b_vals b)"
      using v(2) by (auto simp: entries_iff used_def)
    then show ?thesis using b(2) v(3) unfolding build_inv_def denotes_def by blast
  qed
  moreover have "sum_list (map (spill_need (b_groups b)) (b_vals b)) < 2 ^ 31 - 1"
    using spill_bound [OF b(2)] assms(2) by simp
  ultimately obtain vs' ext where f: "flatten (b_groups b) (b_vals b) [] = Some (vs', ext)"
      "length vs' = length (b_vals b)"
      "\<And>i. i < length (b_vals b) \<Longrightarrow> (vs' ! i = EMPTY \<longleftrightarrow> b_vals b ! i = EMPTY) \<and>
        (b_vals b ! i \<noteq> EMPTY \<longrightarrow> run_at ext (vs' ! i) = Some (group_run (b_groups b) (b_vals b ! i)))"
    using flatten_ok [of "b_vals b" "b_groups b" "[]"] by auto
  with get_index_built [OF b(2) False f(2,3)] show ?thesis
    using False b(1) by (simp add: build_index_def runs_def)
qed

text \<open>The domain index keeps the contract of an index; a query is a domain and the check of a rule's text.\<close>

definition pairs_fit :: "(string \<times> u32) list \<Rightarrow> bool" where
  "pairs_fit ps \<longleftrightarrow> (\<forall>q \<in> set ps. snd q < SPILL) \<and> length ps < 2 ^ 30"

definition same_hash_run :: "(string \<times> u32) list \<Rightarrow> string \<times> (u32 \<Rightarrow> bool) \<Rightarrow> u32 list \<Rightarrow> bool" where
  "same_hash_run ps q run \<longleftrightarrow>
     run = (let run = map snd (filter (\<lambda>p. dom_hash (fst p) = dom_hash (fst q)) ps)
            in if run \<noteq> [] \<and> snd q (hd run) then run else [])"

interpretation domains: built_index build_index "\<lambda>ix q. get_index ix (fst q) (snd q)" pairs_fit same_hash_run
proof unfold_locales
  fix ps assume "pairs_fit ps"
  then show "\<exists>ix. build_index ps = Some ix \<and>
      (\<forall>q. \<exists>run. get_index ix (fst q) (snd q) = Some run \<and> same_hash_run ps q run)"
    using domain_index_lookup [of ps] by (auto simp: pairs_fit_def same_hash_run_def)
qed

text \<open>
  Two domains of one 64-bit hash share a run, of which only the first rule is verified: the second
  domain's rules are then reported for the first.
\<close>

lemma colliding_domains_reported:
  assumes "dom_hash d = dom_hash key" "i < SPILL" "j < SPILL" "verify i"
  shows "\<exists>ix. build_index [(key, i), (d, j)] = Some ix \<and> get_index ix key verify = Some [i, j]"
proof -
  have "pairs_fit [(key, i), (d, j)]" using assms by (simp add: pairs_fit_def)
  from domains.built [OF this] assms show ?thesis by (fastforce simp: same_hash_run_def)
qed

text \<open>
  C38. The domain index is a map from domains to their rules.  The hypotheses: there are fewer than
  2^30 pairs, rule numbers are below 2^31, and no two of the stored domains share a 64-bit hash.  Then
  building the index returns (no probe loop runs forever, no slot or slice is out of range), and looking
  any domain up, with a check that accepts exactly the rules of that domain, returns the rules filed
  under it, in the order the pairs came; this holds for a domain that is not stored but has the hash of
  one that is, which the check keeps from being mistaken for a match.
\<close>

theorem domain_index_correct:
  assumes "\<forall>q \<in> set ps. snd q < SPILL" "length ps < 2 ^ 30" "inj_on dom_hash (fst ` set ps)"
  shows "\<exists>ix. build_index ps = Some ix \<and>
     (\<forall>key verify. (\<forall>q \<in> set ps. verify (snd q) \<longleftrightarrow> fst q = key) \<longrightarrow>
        get_index ix key verify = Some (map snd (filter (\<lambda>q. fst q = key) ps)))"
proof -
  have "pairs_fit ps" using assms by (simp add: pairs_fit_def)
  then obtain ix where ix: "build_index ps = Some ix"
      "\<And>key verify. get_index ix key verify =
        Some (let run = map snd (filter (\<lambda>q. dom_hash (fst q) = dom_hash key) ps)
              in if run \<noteq> [] \<and> verify (hd run) then run else [])"
    using domains.built by (fastforce simp: same_hash_run_def)
  have "get_index ix key verify = Some (map snd (filter (\<lambda>q. fst q = key) ps))"
    if v: "\<forall>q \<in> set ps. verify (snd q) \<longleftrightarrow> fst q = key" for key verify
  proof (cases "key \<in> fst ` set ps")
    case True
    have e: "filter (\<lambda>q. dom_hash (fst q) = dom_hash key) ps = filter (\<lambda>q. fst q = key) ps"
      by (rule filter_cong) (use True in \<open>auto dest: inj_onD [OF assms(3)]\<close>)
    obtain q qs where f: "filter (\<lambda>q. fst q = key) ps = q # qs"
      using True by (cases "filter (\<lambda>q. fst q = key) ps") (auto simp: filter_empty_conv)
    then have "q \<in> set (filter (\<lambda>q. fst q = key) ps)" by (simp only: list.set_intros)
    then have "q \<in> set ps" "fst q = key" by simp_all
    then have "verify (snd q)" using v by blast
    then show ?thesis by (simp add: ix(2) e f)
  next
    case False
    then have none: "filter (\<lambda>q. fst q = key) ps = []" "\<forall>q \<in> set ps. \<not> verify (snd q)"
      using v by (auto simp: filter_empty_conv)
    define r where "r = map snd (filter (\<lambda>q. dom_hash (fst q) = dom_hash key) ps)"
    have "\<not> verify (hd r)" if "r \<noteq> []"
      using hd_in_set [OF that] none(2) by (auto simp: r_def)
    then show ?thesis unfolding ix(2) none(1) r_def [symmetric] Let_def by auto
  qed
  with ix(1) show ?thesis by blast
qed

theorem domain_index_correct_witness:
  "\<exists>ix. build_index [(''a.com'', 1), (''b.com'', 2), (''a.com'', 3)] = Some ix \<and>
     get_index ix ''a.com'' (\<lambda>i. i = 1 \<or> i = 3) = Some [1, 3] \<and> get_index ix ''b.com'' (\<lambda>i. i = 2) = Some [2] \<and>
     get_index ix ''c.com'' (\<lambda>i. False) = Some []"
proof -
  let ?ps = "[(''a.com'', 1), (''b.com'', 2), (''a.com'', 3)] :: (string \<times> u32) list"
  have "dom_hash ''a.com'' \<noteq> dom_hash ''b.com''" by (simp add: dom_hash_def hash_step_def)
  then have "\<forall>q \<in> set ?ps. snd q < SPILL" "length ?ps < 2 ^ 30" "inj_on dom_hash (fst ` set ?ps)"
    by (simp_all add: SPILL_eq inj_on_def)
  from domain_index_correct [OF this] obtain ix where
    ix: "build_index ?ps = Some ix"
      "\<And>key verify. \<forall>q \<in> set ?ps. verify (snd q) \<longleftrightarrow> fst q = key \<Longrightarrow>
         get_index ix key verify = Some (map snd (filter (\<lambda>q. fst q = key) ?ps))" by blast
  show ?thesis
    by (intro exI [of _ ix] conjI ix(1)) (simp_all add: ix(2))
qed

end
