(* ===== verification/Shortcut.thy ===== *)
theory Shortcut
  imports Rule Domidx "HOL-Library.List_Lexorder" "HOL-Library.Char_ord" "HOL-Library.Multiset"
begin

text \<open>
  The shortcut index of the filter engine (\<open>sift-filter/src/shortcut.rs\<close>): which of a set of literal
  texts occur in a hostname.  A text is filed under one eight-byte window of itself (or its first
  three bytes when it is shorter) in an open-addressing table of cache lines, behind a bitset, with
  the text itself in a byte arena; a query hashes the windows of the host and confirms each hit
  against the arena.  Bytes are 8-bit words here, tables and arena are the code's own layout, and
  \<open>None\<close> stands for a panic or a loop that does not end.
\<close>

section \<open>Bytes\<close>

definition bytes_of :: "str \<Rightarrow> u8 list" where
  "bytes_of s = map of_char s"

primrec le_val :: "u8 list \<Rightarrow> nat" where
  "le_val [] = 0"
| "le_val (b # bs) = unat b + 256 * le_val bs"

primrec le_bytes :: "nat \<Rightarrow> nat \<Rightarrow> u8 list" where
  "le_bytes 0 v = []"
| "le_bytes (Suc n) v = of_nat v # le_bytes n (v div 256)"

definition slice :: "'a list \<Rightarrow> nat \<Rightarrow> nat \<Rightarrow> 'a list option" where
  "slice xs a n = (if a + n \<le> length xs then Some (take n (drop a xs)) else None)"

definition index :: "'a list \<Rightarrow> nat \<Rightarrow> 'a option" where
  "index xs i = (if i < length xs then Some (xs ! i) else None)"

section \<open>The table\<close>

definition WINDOW :: nat where "WINDOW = 8"
definition LONG_GATE_BITS :: nat where "LONG_GATE_BITS = 2 ^ 21"
definition LONG_GATE_WORDS :: nat where "LONG_GATE_WORDS = LONG_GATE_BITS div 64"
definition GATE_BITS :: nat where "GATE_BITS = 2 ^ 16"
definition GATE_WORDS :: nat where "GATE_WORDS = GATE_BITS div 64"
definition HEADER :: nat where "HEADER = 6"
definition MAX_TEXT :: nat where "MAX_TEXT = 255"
definition LINE :: nat where "LINE = 8"

record table =
  t_lines :: "u64 list list"
  t_vals :: "u32 list list"
  t_shift :: nat

definition table_default :: table where
  "table_default = \<lparr>t_lines = [], t_vals = [], t_shift = 0\<rparr>"

text \<open>\<open>usize::next_power_of_two\<close> and \<open>usize::trailing_zeros\<close>.\<close>

function pow2_from :: "nat \<Rightarrow> nat \<Rightarrow> nat" where
  "pow2_from p n = (if p = 0 \<or> n \<le> p then p else pow2_from (2 * p) n)"
  by auto
termination by (relation "measure (\<lambda>(p, n). n - p)") auto

declare pow2_from.simps [simp del]

definition next_power_of_two :: "nat \<Rightarrow> nat" where
  "next_power_of_two n = pow2_from 1 n"

fun trailing_zeros :: "nat \<Rightarrow> nat" where
  "trailing_zeros n = (if n = 0 then 64 else if odd n then 0 else Suc (trailing_zeros (n div 2)))"

declare trailing_zeros.simps [simp del]

definition table_lines :: "nat \<Rightarrow> nat" where
  "table_lines n = max (next_power_of_two ((n + n div 2) div LINE)) 2"

definition with_capacity :: "nat \<Rightarrow> table" where
  "with_capacity n =
     \<lparr>t_lines = replicate (table_lines n) (replicate LINE 0),
      t_vals = replicate (table_lines n) (replicate LINE 0),
      t_shift = 64 - trailing_zeros (table_lines n)\<rparr>"

definition line_of :: "nat \<Rightarrow> u64 \<Rightarrow> nat" where
  "line_of shift key = unat (drop_bit shift (key * 0x9E3779B97F4A7C15))"

definition table_is_empty :: "table \<Rightarrow> bool" where
  "table_is_empty t \<longleftrightarrow> t_lines t = []"

definition table_footprint :: "table \<Rightarrow> nat" where
  "table_footprint t = length (t_lines t) * 64 + length (t_vals t) * 32"

definition table_insert :: "u64 \<Rightarrow> u32 \<Rightarrow> table \<Rightarrow> table option" where
  "table_insert key val t = do {
     l \<leftarrow> probe (\<lambda>l. 0 \<in> set (t_lines t ! l)) (length (t_lines t) - 1) (line_of (t_shift t) key);
     i \<leftarrow> position (\<lambda>k. k = 0) (t_lines t ! l);
     Some (t\<lparr>t_lines := (t_lines t)[l := (t_lines t ! l)[i := key]],
             t_vals := (t_vals t)[l := (t_vals t ! l)[i := val]]\<rparr>)
   }"

section \<open>Windows, keys and gates\<close>

definition key_of :: "u8 list \<Rightarrow> u64" where
  "key_of bs = of_nat (le_val bs)"

definition windows :: "u8 list \<Rightarrow> u64 list" where
  "windows t = map (\<lambda>i. key_of (take WINDOW (drop i t))) [0..<length t + 1 - WINDOW]"

definition long_gate_bit :: "u64 \<Rightarrow> nat" where
  "long_gate_bit key = unat (drop_bit 40 (key * 0x9E3779B97F4A7C15)) AND (LONG_GATE_BITS - 1)"

definition gate_bit :: "u8 list \<Rightarrow> nat" where
  "gate_bit t =
     (let k = foldl (\<lambda>k b. k * 31 + ucast b) (0 :: u32) (take MIN_SHORTCUT_LEN t)
      in unat (drop_bit 13 (k * 0x9E3779B1)) AND (GATE_BITS - 1))"

definition short_key :: "u8 list \<Rightarrow> u64" where
  "short_key t = key_of (take MIN_SHORTCUT_LEN t @ replicate (WINDOW - MIN_SHORTCUT_LEN) 0)"

definition gate_set :: "nat \<Rightarrow> u64 list \<Rightarrow> u64 list" where
  "gate_set b gate = gate[b div 64 := gate ! (b div 64) OR push_bit (b mod 64) 1]"

definition gate_test :: "u64 list \<Rightarrow> nat \<Rightarrow> bool option" where
  "gate_test gate b = do { w \<leftarrow> index gate (b div 64); Some (w AND push_bit (b mod 64) 1 \<noteq> 0) }"

section \<open>The index\<close>

record shortcut_index =
  sc_long :: table
  sc_long_gate :: "u64 list"
  sc_short :: table
  sc_short_gate :: "u64 list"
  sc_arena :: "u8 list"
  sc_spill :: "u32 list"
  sc_always :: "u32 list"
  sc_len :: nat

definition shortcut_default :: shortcut_index where
  "shortcut_default = \<lparr>sc_long = table_default, sc_long_gate = [], sc_short = table_default,
     sc_short_gate = [], sc_arena = [], sc_spill = [], sc_always = [], sc_len = 0\<rparr>"

text \<open>The first loop of \<open>build\<close>: patterns go to the arena, their rules to the spill list.\<close>

record arena_state =
  a_always :: "u32 list"
  a_arena :: "u8 list"
  a_spill :: "u32 list"
  a_long :: "u32 list"
  a_short :: "u32 list"

definition arena_init :: arena_state where
  "arena_init = \<lparr>a_always = [], a_arena = [], a_spill = [], a_long = [], a_short = []\<rparr>"

definition file_rules :: "u32 list \<Rightarrow> u32 list \<Rightarrow> u32 \<times> u32 list" where
  "file_rules rules spl =
     (case rules of [one] \<Rightarrow> (one, spl)
      | many \<Rightarrow> (SPILL OR of_nat (length spl), spl @ of_nat (length many) # many))"

definition add_pattern :: "str \<times> u32 list \<Rightarrow> arena_state \<Rightarrow> arena_state" where
  "add_pattern p s =
     (if contains_str ''http'' (fst p) then s\<lparr>a_always := a_always s @ snd p\<rparr>
      else let t = take MAX_TEXT (bytes_of (fst p));
               (rref, spl) = file_rules (snd p) (a_spill s);
               off = of_nat (length (a_arena s));
               s = s\<lparr>a_spill := spl,
                     a_arena := a_arena s @ le_bytes 4 (unat rref) @ [of_nat (length t), 0] @ t\<rparr>
           in if length t \<ge> WINDOW then s\<lparr>a_long := a_long s @ [off]\<rparr>
              else s\<lparr>a_short := a_short s @ [off]\<rparr>)"

definition arena_text :: "u8 list \<Rightarrow> u32 \<Rightarrow> u8 list option" where
  "arena_text arena off = do {
     n \<leftarrow> index arena (unat off + 4);
     slice arena (unat off + HEADER) (unat n)
   }"

text \<open>The window counts: how often a window occurs, and how many patterns are filed under it.\<close>

type_synonym gram_counts = "u64 \<rightharpoonup> nat \<times> nat"

definition gram_stat :: "gram_counts \<Rightarrow> u64 \<Rightarrow> nat \<times> nat" where
  "gram_stat grams w = (case grams w of Some s \<Rightarrow> s | None \<Rightarrow> (0, 0))"

definition count_window :: "u64 \<Rightarrow> gram_counts \<Rightarrow> gram_counts" where
  "count_window w grams = (let s = gram_stat grams w in grams(w \<mapsto> (fst s + 1, snd s)))"

fun count_all :: "u8 list \<Rightarrow> u32 list \<Rightarrow> gram_counts \<Rightarrow> gram_counts option" where
  "count_all arena [] grams = Some grams"
| "count_all arena (off # offs) grams = do {
     t \<leftarrow> arena_text arena off;
     count_all arena offs (fold count_window (windows t) grams)
   }"

definition stat_less :: "nat \<times> nat \<Rightarrow> nat \<times> nat \<Rightarrow> bool" where
  "stat_less a b \<longleftrightarrow> fst a < fst b \<or> fst a = fst b \<and> snd a < snd b"

fun best_window :: "gram_counts \<Rightarrow> (nat \<times> u64) list \<Rightarrow> (u64 \<times> nat \<times> nat \<times> nat) option
    \<Rightarrow> (u64 \<times> nat \<times> nat \<times> nat) option" where
  "best_window grams [] best = best"
| "best_window grams ((i, w) # ws) best =
     (let s = gram_stat grams w in
      best_window grams ws
        (case best of
           None \<Rightarrow> Some (w, i, s)
         | Some (_, _, b) \<Rightarrow> if stat_less s b then Some (w, i, s) else best))"

fun file_long :: "u32 list \<Rightarrow> gram_counts \<Rightarrow> u8 list \<Rightarrow> table \<Rightarrow> u64 list
    \<Rightarrow> (u8 list \<times> table \<times> u64 list) option" where
  "file_long [] grams arena t gate = Some (arena, t, gate)"
| "file_long (off # offs) grams arena t gate = do {
     txt0 \<leftarrow> arena_text arena off;
     case best_window grams (enumerate 0 (windows txt0)) None of
       None \<Rightarrow> file_long offs grams arena t gate
     | Some (w, i, _) \<Rightarrow> do {
         let grams = (case grams w of Some (a, b) \<Rightarrow> grams(w \<mapsto> (a, b + 1)) | None \<Rightarrow> grams);
         t \<leftarrow> table_insert w off t;
         file_long offs grams (arena[unat off + 5 := of_nat i]) t (gate_set (long_gate_bit w) gate)
       }
   }"

fun file_short :: "u32 list \<Rightarrow> u8 list \<Rightarrow> table \<Rightarrow> u64 list \<Rightarrow> (table \<times> u64 list) option" where
  "file_short [] arena t gate = Some (t, gate)"
| "file_short (off # offs) arena t gate = do {
     txt0 \<leftarrow> arena_text arena off;
     t \<leftarrow> table_insert (short_key txt0) off t;
     file_short offs arena t (gate_set (gate_bit txt0) gate)
   }"

definition build_shortcuts :: "(str \<times> u32 list) list \<Rightarrow> shortcut_index option" where
  "build_shortcuts ps =
     (let ps = filter (\<lambda>p. length (fst p) \<ge> MIN_SHORTCUT_LEN \<and> snd p \<noteq> []) ps in
      if ps = [] then Some shortcut_default
      else do {
        let s = fold add_pattern (sort_key fst ps) arena_init;
        grams \<leftarrow> count_all (a_arena s) (a_long s) Map.empty;
        (arena, long, long_gate) \<leftarrow>
          (if a_long s = [] then Some (a_arena s, table_default, [])
           else file_long (a_long s) grams (a_arena s) (with_capacity (length (a_long s)))
                  (replicate LONG_GATE_WORDS 0));
        (short, short_gate) \<leftarrow>
          (if a_short s = [] then Some (table_default, [])
           else file_short (a_short s) arena (with_capacity (length (a_short s)))
                  (replicate GATE_WORDS 0));
        Some \<lparr>sc_long = long, sc_long_gate = long_gate, sc_short = short, sc_short_gate = short_gate,
              sc_arena = arena, sc_spill = a_spill s, sc_always = a_always s,
              sc_len = length (a_long s) + length (a_short s)\<rparr>
      })"

definition shortcuts_is_empty :: "shortcut_index \<Rightarrow> bool" where
  "shortcuts_is_empty ix \<longleftrightarrow> sc_len ix = 0 \<and> sc_always ix = []"

definition shortcuts_footprint :: "shortcut_index \<Rightarrow> nat" where
  "shortcuts_footprint ix =
     (length (sc_short_gate ix) + length (sc_long_gate ix)) * 8 + table_footprint (sc_long ix)
     + table_footprint (sc_short ix) + length (sc_arena ix)
     + (length (sc_spill ix) + length (sc_always ix)) * 4"

section \<open>Searching\<close>

definition occurs :: "shortcut_index \<Rightarrow> u32 \<Rightarrow> u8 list \<Rightarrow> nat \<Rightarrow> bool option" where
  "occurs ix off host at = do {
     n \<leftarrow> index (sc_arena ix) (unat off + 4);
     woff \<leftarrow> index (sc_arena ix) (unat off + 5);
     if at < unat woff then Some False
     else Some (slice host (at - unat woff) (unat n) = slice (sc_arena ix) (unat off + HEADER) (unat n))
   }"

definition report :: "shortcut_index \<Rightarrow> u32 \<Rightarrow> u32 list option" where
  "report ix off = do {
     bs \<leftarrow> slice (sc_arena ix) (unat off) 4;
     run_at (sc_spill ix) (of_nat (le_val bs))
   }"

text \<open>
  A scan keeps the patterns already reported and, in order, the rules handed to the caller's
  \<open>found\<close>.
\<close>

type_synonym scan = "u32 list \<times> u32 list"

definition scan_slot :: "shortcut_index \<Rightarrow> u64 \<Rightarrow> u8 list \<Rightarrow> nat \<Rightarrow> u64 \<times> u32 \<Rightarrow> scan \<Rightarrow> scan option" where
  "scan_slot ix key host at sl s =
     (if fst sl \<noteq> key then Some s
      else do {
        occ \<leftarrow> occurs ix (snd sl) host at;
        if occ \<and> snd sl \<notin> set (fst s)
        then do { rs \<leftarrow> report ix (snd sl); Some (fst s @ [snd sl], snd s @ rs) }
        else Some s
      })"

fun scan_slots :: "shortcut_index \<Rightarrow> u64 \<Rightarrow> u8 list \<Rightarrow> nat \<Rightarrow> (u64 \<times> u32) list \<Rightarrow> scan \<Rightarrow> scan option" where
  "scan_slots ix key host at [] s = Some s"
| "scan_slots ix key host at (x # xs) s = do {
     s \<leftarrow> scan_slot ix key host at x s;
     scan_slots ix key host at xs s
   }"

definition scan_line :: "shortcut_index \<Rightarrow> table \<Rightarrow> u64 \<Rightarrow> u8 list \<Rightarrow> nat \<Rightarrow> nat \<Rightarrow> scan \<Rightarrow> scan option" where
  "scan_line ix t key host at l s =
     (if key \<in> set (t_lines t ! l) then scan_slots ix key host at (zip (t_lines t ! l) (t_vals t ! l)) s
      else Some s)"

partial_function (option) probe_lines ::
  "shortcut_index \<Rightarrow> table \<Rightarrow> u64 \<Rightarrow> u8 list \<Rightarrow> nat \<Rightarrow> nat \<Rightarrow> scan \<Rightarrow> scan option" where
  "probe_lines ix t key host at l s = do {
     s \<leftarrow> scan_line ix t key host at l s;
     if 0 \<in> set (t_lines t ! l) then Some s
     else probe_lines ix t key host at ((l + 1) AND (length (t_lines t) - 1)) s
   }"

declare probe_lines.simps [code]

definition probe_table :: "shortcut_index \<Rightarrow> table \<Rightarrow> u64 \<Rightarrow> u8 list \<Rightarrow> nat \<Rightarrow> scan \<Rightarrow> scan option" where
  "probe_table ix t key host at s = probe_lines ix t key host at (line_of (t_shift t) key) s"

definition gated_probe ::
  "shortcut_index \<Rightarrow> table \<Rightarrow> u64 list \<Rightarrow> nat \<Rightarrow> u64 \<Rightarrow> u8 list \<Rightarrow> nat \<Rightarrow> scan \<Rightarrow> scan option" where
  "gated_probe ix t gate b key host at s = do {
     pass \<leftarrow> gate_test gate b;
     if pass then probe_table ix t key host at s else Some s
   }"

definition find_at :: "shortcut_index \<Rightarrow> u8 list \<Rightarrow> nat \<Rightarrow> scan \<Rightarrow> scan option" where
  "find_at ix host at s = do {
     s \<leftarrow> (if \<not> table_is_empty (sc_long ix) \<and> at + WINDOW \<le> length host
          then let key = key_of (take WINDOW (drop at host)) in
               gated_probe ix (sc_long ix) (sc_long_gate ix) (long_gate_bit key) key host at s
          else Some s);
     if \<not> table_is_empty (sc_short ix)
     then let rest = drop at host in
          gated_probe ix (sc_short ix) (sc_short_gate ix) (gate_bit rest) (short_key rest) host at s
     else Some s
   }"

fun find_from :: "shortcut_index \<Rightarrow> u8 list \<Rightarrow> nat list \<Rightarrow> scan \<Rightarrow> scan option" where
  "find_from ix host [] s = Some s"
| "find_from ix host (at # ats) s = do { s \<leftarrow> find_at ix host at s; find_from ix host ats s }"

definition find_rules :: "shortcut_index \<Rightarrow> u8 list \<Rightarrow> u32 list option" where
  "find_rules ix host =
     (if length host < MIN_SHORTCUT_LEN then Some (sc_always ix)
      else do {
        s \<leftarrow> find_from ix host [0..<length host - MIN_SHORTCUT_LEN + 1] ([], sc_always ix);
        Some (snd s)
      })"

section \<open>Byte strings\<close>

lemma le_val_less: "le_val bs < 256 ^ length bs"
proof (induction bs)
  case (Cons b bs)
  have "unat b < 256" using unsigned_less [of b, where ?'a = nat] by simp
  moreover have "le_val bs + 1 \<le> 256 ^ length bs" using Cons by simp
  then have "256 * (le_val bs + 1) \<le> 256 * 256 ^ length bs" by (rule mult_left_mono) simp
  ultimately show ?case by simp
qed simp

lemma le_val_le_bytes: "le_val (le_bytes n v) = v mod 256 ^ n"
proof (induction n arbitrary: v)
  case (Suc n)
  have "unat (of_nat v :: u8) = v mod 256" by (simp add: unsigned_of_nat take_bit_eq_mod)
  with Suc show ?case by (simp add: mod_mult2_eq)
qed simp

lemma length_le_bytes [simp]: "length (le_bytes n v) = n"
  by (induction n arbitrary: v) auto

lemma le_val_eq_0: "le_val bs = 0 \<longleftrightarrow> (\<forall>b \<in> set bs. b = 0)"
  by (induction bs) (auto simp: unat_eq_0)

lemma of_nat_le_val_le_bytes: "of_nat (le_val (le_bytes 4 (unat r))) = (r :: u32)"
proof -
  have "unat r < 256 ^ 4" using unsigned_less [of r, where ?'a = nat] by simp
  then show ?thesis by (simp add: le_val_le_bytes)
qed

lemma key_of_nonzero:
  assumes "length bs \<le> 8" "b \<in> set bs" "b \<noteq> 0" shows "key_of bs \<noteq> 0"
proof -
  have "(256 :: nat) ^ length bs \<le> 256 ^ 8" using assms(1) by (intro power_increasing) auto
  then have "le_val bs < 2 ^ 64" using le_val_less [of bs] by simp
  then have "unat (key_of bs) = le_val bs" unfolding key_of_def by (intro unat_of_nat_small) simp
  moreover have "le_val bs \<noteq> 0" using assms by (auto simp: le_val_eq_0)
  ultimately show ?thesis by (metis unat_0)
qed

section \<open>Cache-line tables\<close>

definition slots :: "table \<Rightarrow> (nat \<times> nat) set" where
  "slots t = {(l, i). l < length (t_lines t) \<and> i < 8 \<and> t_lines t ! l ! i \<noteq> 0}"

definition full_line :: "table \<Rightarrow> nat \<Rightarrow> bool" where
  "full_line t l \<longleftrightarrow> 0 \<notin> set (t_lines t ! l)"

definition before_full :: "table \<Rightarrow> u64 \<Rightarrow> nat \<Rightarrow> bool" where
  "before_full t key l \<longleftrightarrow>
     (\<exists>d. walk (length (t_lines t)) (line_of (t_shift t) key) d = l \<and>
          (\<forall>d' < d. full_line t (walk (length (t_lines t)) (line_of (t_shift t) key) d')))"

definition table_shape :: "table \<Rightarrow> bool" where
  "table_shape t \<longleftrightarrow>
     pow2 (length (t_lines t)) \<and> length (t_vals t) = length (t_lines t) \<and>
     (\<forall>l < length (t_lines t). length (t_lines t ! l) = 8 \<and> length (t_vals t ! l) = 8) \<and>
     (\<forall>key. line_of (t_shift t) key < length (t_lines t))"

text \<open>
  Every stored key sits in a line reached from its own line over full lines only, so a search
  that stops at the first line with a hole has passed it; an empty slot has value zero.
\<close>

definition table_inv :: "table \<Rightarrow> bool" where
  "table_inv t \<longleftrightarrow>
     table_shape t \<and> card (slots t) < 8 * length (t_lines t) \<and>
     (\<forall>(l, i) \<in> slots t. before_full t (t_lines t ! l ! i) l) \<and>
     (\<forall>l < length (t_lines t). \<forall>i < 8. t_lines t ! l ! i = 0 \<longrightarrow> t_vals t ! l ! i = 0)"

definition filed :: "table \<Rightarrow> (u64 \<times> u32) set" where
  "filed t = (\<lambda>(l, i). (t_lines t ! l ! i, t_vals t ! l ! i)) ` slots t"

lemma finite_slots [simp]: "finite (slots t)"
  by (rule finite_subset [of _ "{..<length (t_lines t)} \<times> {..<8}"]) (auto simp: slots_def)

lemma hole_line:
  assumes "table_inv t" obtains l where "l < length (t_lines t)" "\<not> full_line t l"
proof -
  have "slots t \<noteq> {..<length (t_lines t)} \<times> {..<8}"
    using assms by (auto simp: table_inv_def card_cartesian_product mult.commute)
  moreover have "slots t \<subseteq> {..<length (t_lines t)} \<times> {..<8}" by (auto simp: slots_def)
  ultimately obtain l i where "l < length (t_lines t)" "i < 8" "(l, i) \<notin> slots t" by auto
  then have "t_lines t ! l ! i = 0" "i < length (t_lines t ! l)"
    using assms by (auto simp: slots_def table_inv_def table_shape_def)
  then have "\<not> full_line t l" unfolding full_line_def by (metis nth_mem)
  with \<open>l < _\<close> that show ?thesis by blast
qed

lemma first_hole:
  assumes "table_inv t"
  obtains d where "\<not> full_line t (walk (length (t_lines t)) (line_of (t_shift t) key) d)"
    "\<And>d'. d' < d \<Longrightarrow> full_line t (walk (length (t_lines t)) (line_of (t_shift t) key) d')"
proof -
  obtain l where l: "l < length (t_lines t)" "\<not> full_line t l" using hole_line [OF assms] .
  have h: "line_of (t_shift t) key < length (t_lines t)"
    using assms by (simp add: table_inv_def table_shape_def)
  show ?thesis
    by (rule walk_first [where P = "\<lambda>l. \<not> full_line t l", OF h l]) (use that in auto)
qed

lemma table_insert_ok:
  assumes inv: "table_inv t" and key: "key \<noteq> 0" and room: "card (slots t) + 1 < 8 * length (t_lines t)"
  shows "\<exists>t'. table_insert key val t = Some t' \<and> table_inv t' \<and>
     filed t' = insert (key, val) (filed t) \<and> card (slots t') = card (slots t) + 1 \<and>
     length (t_lines t') = length (t_lines t)"
proof -
  let ?n = "length (t_lines t)" and ?h = "line_of (t_shift t) key"
  have sh: "table_shape t" using inv by (simp add: table_inv_def)
  then have p: "pow2 ?n" "?h < ?n" "length (t_vals t) = ?n" and n0: "0 < ?n"
    and len: "\<And>l. l < ?n \<Longrightarrow> length (t_lines t ! l) = 8 \<and> length (t_vals t ! l) = 8"
    by (auto simp: table_shape_def pow2_pos)
  obtain d where d: "\<not> full_line t (walk ?n ?h d)" "\<And>d'. d' < d \<Longrightarrow> full_line t (walk ?n ?h d')"
    using first_hole [OF inv] by blast
  define l where "l = walk ?n ?h d"
  have l: "l < ?n" "\<not> full_line t l" using d(1) walk_less [OF n0] by (auto simp: l_def)
  have pr: "probe (\<lambda>l. 0 \<in> set (t_lines t ! l)) (?n - 1) ?h = Some l"
    unfolding l_def by (rule probe_first [OF p(1,2)]) (use d in \<open>auto simp: full_line_def\<close>)
  obtain i where i: "position (\<lambda>k. k = 0) (t_lines t ! l) = Some i"
    using l(2) by (cases "position (\<lambda>k. k = 0) (t_lines t ! l)") (auto simp: full_line_def position_None)
  then have i8: "i < 8" "t_lines t ! l ! i = 0" using len [OF l(1)] by (auto simp: position_Some)
  define t' where "t' = t\<lparr>t_lines := (t_lines t)[l := (t_lines t ! l)[i := key]],
                         t_vals := (t_vals t)[l := (t_vals t ! l)[i := val]]\<rparr>"
  have ins: "table_insert key val t = Some t'" using pr i by (simp add: table_insert_def t'_def)
  have n': "length (t_lines t') = ?n" "t_shift t' = t_shift t" by (simp_all add: t'_def)
  have at: "t_lines t' ! a ! b = (if (a, b) = (l, i) then key else t_lines t ! a ! b)"
       "t_vals t' ! a ! b = (if (a, b) = (l, i) then val else t_vals t ! a ! b)" if "b < 8" for a b
    using len [OF l(1)] i8(1) that l(1) p(3) by (auto simp: t'_def nth_list_update)
  have sl: "slots t' = insert (l, i) (slots t)"
  proof (rule set_eqI)
    fix x :: "nat \<times> nat"
    obtain a b where x: "x = (a, b)" by (cases x)
    show "x \<in> slots t' \<longleftrightarrow> x \<in> insert (l, i) (slots t)"
      using at(1) [of b a] l(1) i8 key n' by (cases "(a, b) = (l, i)") (auto simp: slots_def x)
  qed
  have new: "(l, i) \<notin> slots t" using i8 by (simp add: slots_def)
  have full: "full_line t' a" if "full_line t a" for a
  proof -
    have "a \<noteq> l" using that l(2) by auto
    with that show ?thesis by (simp add: full_line_def t'_def)
  qed
  have shape: "table_shape t'"
    using sh l(1) len by (auto simp: table_shape_def t'_def nth_list_update)
  have path: "before_full t' (t_lines t' ! a ! b) a" if "(a, b) \<in> slots t'" for a b
  proof (cases "(a, b) = (l, i)")
    case True
    have "before_full t' key l"
      unfolding before_full_def n' l_def using d(2) full by blast
    then show ?thesis using True at(1) [OF i8(1), of l] by simp
  next
    case False
    then have ab: "(a, b) \<in> slots t" using that sl by auto
    then have "before_full t (t_lines t ! a ! b) a" using inv by (auto simp: table_inv_def)
    then have "before_full t' (t_lines t ! a ! b) a" unfolding before_full_def n' using full by blast
    moreover have "t_lines t' ! a ! b = t_lines t ! a ! b"
      using at(1) [of b a] False ab by (auto simp: slots_def)
    ultimately show ?thesis by simp
  qed
  have zero: "t_vals t' ! a ! b = 0" if "a < ?n" "b < 8" "t_lines t' ! a ! b = 0" for a b
  proof -
    have "(a, b) \<noteq> (l, i)" using that at(1) [of b a] key by auto
    then show ?thesis using that at [of b a] inv by (auto simp: table_inv_def)
  qed
  have "filed t' = insert (key, val) (filed t)"
  proof -
    have old: "(\<lambda>(a, b). (t_lines t' ! a ! b, t_vals t' ! a ! b)) ` slots t = filed t"
      unfolding filed_def using at new by (intro image_cong) (auto simp: slots_def)
    show ?thesis using at [OF i8(1), of l] by (subst filed_def) (simp add: sl old)
  qed
  moreover have "table_inv t'"
    unfolding table_inv_def using shape room path zero new by (auto simp: sl n')
  ultimately show ?thesis using ins new by (auto simp: sl n')
qed


text \<open>A fresh table has room for the entries it was made for.\<close>

lemma pow2_from_ok:
  assumes "0 < p" "n \<le> 2 ^ k * p"
  shows "\<exists>j \<le> k. pow2_from p n = 2 ^ j * p \<and> n \<le> 2 ^ j * p"
  using assms
proof (induction k arbitrary: p)
  case 0
  then show ?case by (auto simp: pow2_from.simps [of p])
next
  case (Suc k)
  show ?case
  proof (cases "n \<le> p")
    case True
    then show ?thesis by (intro exI [of _ 0]) (simp add: pow2_from.simps [of p])
  next
    case False
    obtain j where "j \<le> k" "pow2_from (2 * p) n = 2 ^ j * (2 * p)" "n \<le> 2 ^ j * (2 * p)"
      using Suc.IH [of "2 * p"] Suc.prems by (auto simp: mult.assoc)
    with False Suc.prems(1) show ?thesis
      by (intro exI [of _ "Suc j"]) (simp add: pow2_from.simps [of p])
  qed
qed

lemma trailing_zeros_pow2: "trailing_zeros (2 ^ k) = k"
  by (induction k) (simp_all add: trailing_zeros.simps)

lemma table_lines_ok:
  assumes "n < 2 ^ 32"
  obtains k where "table_lines n = 2 ^ k" "1 \<le> k" "k \<le> 33" "n < 8 * table_lines n"
proof -
  let ?m = "(n + n div 2) div 8"
  have "?m \<le> 2 ^ 32 * 1" using assms by simp
  from pow2_from_ok [OF _ this] obtain j where j: "j \<le> 32" "next_power_of_two ?m = 2 ^ j" "?m \<le> 2 ^ j"
    by (auto simp: next_power_of_two_def)
  have t: "table_lines n = 2 ^ max j 1"
  proof (cases "j = 0")
    case False
    then have "(2 :: nat) ^ 1 \<le> 2 ^ j" by (intro power_increasing) auto
    with False j(2) show ?thesis by (simp add: table_lines_def LINE_def max_def)
  qed (use j(2) in \<open>simp add: table_lines_def LINE_def\<close>)
  have "n < 8 * table_lines n"
  proof -
    have "?m \<le> table_lines n" using j by (simp add: table_lines_def LINE_def max_def)
    moreover have "2 \<le> table_lines n" by (simp add: table_lines_def)
    ultimately show ?thesis by linarith
  qed
  with t j(1) show ?thesis by (intro that [of "max j 1"]) auto
qed

lemma line_of_less: "1 \<le> k \<Longrightarrow> k \<le> 64 \<Longrightarrow> line_of (64 - k) key < 2 ^ k"
proof -
  assume k: "1 \<le> k" "k \<le> 64"
  let ?w = "key * 0x9E3779B97F4A7C15"
  have "unat ?w < 2 ^ 64" using unsigned_less [of ?w, where ?'a = nat] by simp
  also have "(2 :: nat) ^ 64 = 2 ^ k * 2 ^ (64 - k)" using k by (simp flip: power_add)
  finally have "unat ?w div 2 ^ (64 - k) < 2 ^ k" by (simp add: less_mult_imp_div_less)
  moreover have "take_bit 64 (unat ?w) = unat ?w"
    using unsigned_less [of ?w, where ?'a = nat] by (simp add: take_bit_nat_eq_self)
  ultimately show ?thesis
    unfolding line_of_def by (simp add: unsigned_drop_bit_eq) (simp add: drop_bit_eq_div)
qed

lemma with_capacity_ok:
  assumes "n < 2 ^ 32"
  shows "table_inv (with_capacity n)" "filed (with_capacity n) = {}" "slots (with_capacity n) = {}"
    "n < 8 * length (t_lines (with_capacity n))" "\<not> table_is_empty (with_capacity n)"
proof -
  obtain k where k: "table_lines n = 2 ^ k" "1 \<le> k" "k \<le> 33" "n < 8 * table_lines n"
    using table_lines_ok [OF assms] .
  show s: "slots (with_capacity n) = {}" by (auto simp: slots_def with_capacity_def LINE_def)
  then show "filed (with_capacity n) = {}" by (simp add: filed_def)
  show "n < 8 * length (t_lines (with_capacity n))" using k by (simp add: with_capacity_def)
  show "\<not> table_is_empty (with_capacity n)" using k by (simp add: with_capacity_def table_is_empty_def)
  have "table_shape (with_capacity n)"
    using k line_of_less [of k]
    by (auto simp: table_shape_def with_capacity_def LINE_def trailing_zeros_pow2 pow2_def)
  with s k show "table_inv (with_capacity n)"
    by (simp add: table_inv_def) (simp add: with_capacity_def LINE_def)
qed

section \<open>The search visits every slot that can hold a key\<close>

lemma scan_slots_append:
  "scan_slots ix key host at (xs @ ys) s =
     do { s \<leftarrow> scan_slots ix key host at xs s; scan_slots ix key host at ys s }"
  by (induction xs arbitrary: s) (auto split: Option.bind_splits)

lemma scan_slots_skip: "key \<notin> fst ` set xs \<Longrightarrow> scan_slots ix key host at xs s = Some s"
  by (induction xs) (auto simp: scan_slot_def)

definition line_slots :: "table \<Rightarrow> nat \<Rightarrow> (u64 \<times> u32) list" where
  "line_slots t l = zip (t_lines t ! l) (t_vals t ! l)"

lemma scan_line_slots: "scan_line ix t key host at l s = scan_slots ix key host at (line_slots t l) s"
proof (cases "key \<in> set (t_lines t ! l)")
  case False
  then have "key \<notin> fst ` set (line_slots t l)"
    by (auto simp: line_slots_def dest: set_zip_leftD)
  with False show ?thesis by (simp add: scan_line_def scan_slots_skip)
qed (simp add: scan_line_def line_slots_def)

lemma probe_lines_walk:
  assumes p: "pow2 (length (t_lines t))" and "l < length (t_lines t)"
    "\<not> full_line t (walk (length (t_lines t)) l d)"
    "\<And>d'. d' < d \<Longrightarrow> full_line t (walk (length (t_lines t)) l d')"
  shows "probe_lines ix t key host at l s =
     scan_slots ix key host at (concat (map (\<lambda>d. line_slots t (walk (length (t_lines t)) l d)) [0..<Suc d])) s"
  using assms(2-)
proof (induction d arbitrary: l s)
  case 0
  then show ?case
    by (subst probe_lines.simps)
       (auto simp: walk_0 full_line_def scan_line_slots split: Option.bind_splits)
next
  case (Suc d)
  let ?n = "length (t_lines t)"
  let ?j = "(l + 1) mod ?n"
  have j: "(l + 1) AND (?n - 1) = ?j" by (rule mask_mod [OF p])
  have "full_line t l" using Suc.prems(3) [of 0] Suc.prems(1) by (simp add: walk_0)
  moreover have "probe_lines ix t key host at ?j s' =
      scan_slots ix key host at (concat (map (\<lambda>d. line_slots t (walk ?n ?j d)) [0..<Suc d])) s'" for s'
  proof (rule Suc.IH)
    show "?j < ?n" using pow2_pos [OF p] by simp
    show "\<not> full_line t (walk ?n ?j d)" using Suc.prems(2) by (simp only: walk_Suc not_False_eq_True)
    show "full_line t (walk ?n ?j d')" if "d' < d" for d'
      using Suc.prems(3) [of "Suc d'"] that unfolding walk_Suc by simp
  qed
  moreover have "map (\<lambda>d. line_slots t (walk ?n ?j d)) [0..<Suc d] =
      map (\<lambda>d. line_slots t (walk ?n l d)) [Suc 0..<Suc (Suc d)]"
    by (simp only: map_Suc_upt [symmetric] map_map comp_def walk_Suc)
  moreover have "[0..<Suc (Suc d)] = 0 # [Suc 0..<Suc (Suc d)]" by (simp add: upt_conv_Cons)
  ultimately show ?case
    using Suc.prems(1)
    by (subst probe_lines.simps)
       (auto simp: scan_line_slots full_line_def scan_slots_append walk_0 j simp del: upt_Suc One_nat_def
             split: Option.bind_splits)
qed

lemma probe_table_slots:
  assumes inv: "table_inv t"
  obtains cs where
    "\<And>ix host at s. probe_table ix t key host at s = scan_slots ix key host at cs s"
    "\<And>v. key \<noteq> 0 \<Longrightarrow> (key, v) \<in> set cs \<longleftrightarrow> (key, v) \<in> filed t"
    "\<And>v. key = 0 \<Longrightarrow> (key, v) \<in> set cs \<Longrightarrow> v = 0"
proof -
  let ?n = "length (t_lines t)" and ?h = "line_of (t_shift t) key"
  have sh: "pow2 ?n" "?h < ?n" "length (t_vals t) = ?n" and n0: "0 < ?n"
    and len: "\<And>l. l < ?n \<Longrightarrow> length (t_lines t ! l) = 8 \<and> length (t_vals t ! l) = 8"
    using inv by (auto simp: table_inv_def table_shape_def pow2_pos)
  obtain d where d: "\<not> full_line t (walk ?n ?h d)" "\<And>d'. d' < d \<Longrightarrow> full_line t (walk ?n ?h d')"
    using first_hole [OF inv] by blast
  let ?cs = "concat (map (\<lambda>d. line_slots t (walk ?n ?h d)) [0..<Suc d])"
  have less: "walk ?n x y < ?n" for x y by (rule walk_less [OF n0])
  have slot: "(k, v) \<in> set (line_slots t l) \<longleftrightarrow> (\<exists>i < 8. t_lines t ! l ! i = k \<and> t_vals t ! l ! i = v)"
    if "l < ?n" for k v l
    using len [OF that] by (auto simp: line_slots_def set_zip)
  have mem: "(k, v) \<in> set ?cs \<longleftrightarrow>
      (\<exists>e \<le> d. \<exists>i < 8. t_lines t ! walk ?n ?h e ! i = k \<and> t_vals t ! walk ?n ?h e ! i = v)" for k v
    using slot [OF less] by (auto simp: less_Suc_eq_le simp del: upt_Suc)
  show ?thesis
  proof (rule that [of ?cs])
    show "probe_table ix t key host at s = scan_slots ix key host at ?cs s" for ix host at s
      unfolding probe_table_def by (rule probe_lines_walk [OF sh(1,2) d])
    show "(key, v) \<in> set ?cs \<longleftrightarrow> (key, v) \<in> filed t" if "key \<noteq> 0" for v
    proof
      assume "(key, v) \<in> set ?cs"
      then obtain e i where "i < 8" "t_lines t ! walk ?n ?h e ! i = key" "t_vals t ! walk ?n ?h e ! i = v"
        using mem by blast
      with that less show "(key, v) \<in> filed t"
        unfolding filed_def slots_def by (intro image_eqI [of _ _ "(walk ?n ?h e, i)"]) auto
    next
      assume "(key, v) \<in> filed t"
      then obtain l i where li: "(l, i) \<in> slots t" "t_lines t ! l ! i = key" "t_vals t ! l ! i = v"
        by (auto simp: filed_def)
      then obtain e where e: "walk ?n ?h e = l" "\<And>d'. d' < e \<Longrightarrow> full_line t (walk ?n ?h d')"
        using inv unfolding table_inv_def before_full_def by fastforce
      have "e \<le> d" using e(2) [of d] d(1) by (meson not_le_imp_less)
      moreover have "i < 8" using li(1) by (simp add: slots_def)
      ultimately show "(key, v) \<in> set ?cs" using mem e(1) li(2,3) by blast
    qed
    show "v = 0" if k: "key = 0" "(key, v) \<in> set ?cs" for v
    proof -
      obtain e i where "i < 8" "t_lines t ! walk ?n ?h e ! i = 0" "t_vals t ! walk ?n ?h e ! i = v"
        using mem [of key v] k by auto
      then show ?thesis using inv less [of ?h e] unfolding table_inv_def by blast
    qed
  qed
qed

section \<open>What an index holds\<close>

text \<open>
  A filed pattern: its arena offset, its text, its rules, and where its window sits.  \<open>pat_at\<close> says
  that the arena and the spill list hold it.
\<close>

type_synonym filed_pattern = "u32 \<times> u8 list \<times> u32 list \<times> nat"

abbreviation pat_text :: "filed_pattern \<Rightarrow> u8 list" where "pat_text x \<equiv> fst (snd x)"
abbreviation pat_rules :: "filed_pattern \<Rightarrow> u32 list" where "pat_rules x \<equiv> fst (snd (snd x))"
abbreviation pat_woff :: "filed_pattern \<Rightarrow> nat" where "pat_woff x \<equiv> snd (snd (snd x))"

definition pat_at :: "u8 list \<Rightarrow> u32 list \<Rightarrow> filed_pattern \<Rightarrow> bool" where
  "pat_at arena spl x \<longleftrightarrow>
     (let off = unat (fst x); n = length (pat_text x) in
      off + 6 + n \<le> length arena \<and> n \<le> 255 \<and> pat_woff x < 256 \<and>
      run_at spl (of_nat (le_val (take 4 (drop off arena)))) = Some (pat_rules x) \<and>
      arena ! (off + 4) = of_nat n \<and> arena ! (off + 5) = of_nat (pat_woff x) \<and>
      take n (drop (off + 6) arena) = pat_text x)"

definition occ_at :: "u8 list \<Rightarrow> nat \<Rightarrow> filed_pattern \<Rightarrow> bool" where
  "occ_at host at x \<longleftrightarrow>
     pat_woff x \<le> at \<and> slice host (at - pat_woff x) (length (pat_text x)) = Some (pat_text x)"

lemma occurs_pat:
  assumes "pat_at (sc_arena ix) (sc_spill ix) x"
  shows "occurs ix (fst x) host at = Some (occ_at host at x)"
proof -
  have "unat (of_nat (length (pat_text x)) :: u8) = length (pat_text x)"
    "unat (of_nat (pat_woff x) :: u8) = pat_woff x"
    using assms by (auto simp: pat_at_def Let_def intro!: unat_of_nat_small)
  with assms show ?thesis
    by (auto simp: pat_at_def Let_def occurs_def occ_at_def index_def slice_def HEADER_def not_le)
qed

lemma report_pat: "pat_at (sc_arena ix) (sc_spill ix) x \<Longrightarrow> report ix (fst x) = Some (pat_rules x)"
  by (simp add: pat_at_def Let_def report_def slice_def)

lemma arena_text_pat: "pat_at arena spl x \<Longrightarrow> arena_text arena (fst x) = Some (pat_text x)"
proof -
  assume a: "pat_at arena spl x"
  then have "unat (of_nat (length (pat_text x)) :: u8) = length (pat_text x)"
    by (auto simp: pat_at_def Let_def intro!: unat_of_nat_small)
  with a show ?thesis by (simp add: pat_at_def Let_def arena_text_def index_def slice_def HEADER_def)
qed

definition table_ok :: "filed_pattern set \<Rightarrow> table \<Rightarrow> u64 list \<Rightarrow> nat \<Rightarrow> bool" where
  "table_ok P t gate n \<longleftrightarrow>
     table_is_empty t \<or>
     table_inv t \<and> snd ` filed t \<subseteq> fst ` P \<and> 0 \<in> fst ` P \<and> length gate = n"

definition long_key :: "filed_pattern \<Rightarrow> u64" where
  "long_key x = key_of (take 8 (drop (pat_woff x) (pat_text x)))"

definition filed_long :: "table \<Rightarrow> u64 list \<Rightarrow> filed_pattern \<Rightarrow> bool" where
  "filed_long t gate x \<longleftrightarrow>
     pat_woff x + 8 \<le> length (pat_text x) \<and> long_key x \<noteq> 0 \<and> (long_key x, fst x) \<in> filed t \<and>
     gate_test gate (long_gate_bit (long_key x)) = Some True"

definition filed_short :: "table \<Rightarrow> u64 list \<Rightarrow> filed_pattern \<Rightarrow> bool" where
  "filed_short t gate x \<longleftrightarrow>
     pat_woff x = 0 \<and> short_key (pat_text x) \<noteq> 0 \<and> (short_key (pat_text x), fst x) \<in> filed t \<and>
     gate_test gate (gate_bit (pat_text x)) = Some True"

definition catalogue :: "shortcut_index \<Rightarrow> filed_pattern set \<Rightarrow> bool" where
  "catalogue ix P \<longleftrightarrow>
     inj_on fst P \<and>
     (\<forall>x \<in> P. pat_at (sc_arena ix) (sc_spill ix) x \<and> 3 \<le> length (pat_text x) \<and>
        (if 8 \<le> length (pat_text x) then filed_long (sc_long ix) (sc_long_gate ix) x
         else filed_short (sc_short ix) (sc_short_gate ix) x)) \<and>
     table_ok P (sc_long ix) (sc_long_gate ix) LONG_GATE_WORDS \<and>
     table_ok P (sc_short ix) (sc_short_gate ix) GATE_WORDS"

section \<open>Scanning reports each pattern that occurs, once\<close>

definition scan_of :: "u32 list \<Rightarrow> filed_pattern list \<Rightarrow> scan" where
  "scan_of out ps = (map fst ps, out @ concat (map pat_rules ps))"

lemma scan_slots_pats:
  assumes cat: "catalogue ix P" and "\<And>v. (key, v) \<in> set cs \<Longrightarrow> v \<in> fst ` P"
    and "set ps \<subseteq> P" "distinct ps"
  shows "\<exists>qs. scan_slots ix key host at cs (scan_of out ps) = Some (scan_of out qs) \<and> distinct qs \<and>
     set qs = set ps \<union> {x \<in> P. (key, fst x) \<in> set cs \<and> occ_at host at x}"
  using assms(2-)
proof (induction cs arbitrary: ps)
  case (Cons c cs)
  have inj: "inj_on fst P" and pat: "\<And>x. x \<in> P \<Longrightarrow> pat_at (sc_arena ix) (sc_spill ix) x"
    using cat by (auto simp: catalogue_def)
  let ?R = "\<lambda>ps cs. set ps \<union> {x \<in> P. (key, fst x) \<in> set cs \<and> occ_at host at x}"
  have "\<exists>ps'. scan_slot ix key host at c (scan_of out ps) = Some (scan_of out ps') \<and> distinct ps' \<and>
      set ps' = ?R ps [c]"
  proof (cases "fst c = key")
    case False
    then show ?thesis
      using Cons.prems(3) by (intro exI [of _ ps]) (auto simp: scan_slot_def)
  next
    case True
    then have "c = (key, snd c)" by (metis prod.collapse)
    then obtain x where x: "x \<in> P" "snd c = fst x" using Cons.prems(1) [of "snd c"] by force
    have only: "y = x" if "y \<in> P" "fst y = fst x" for y using inj that x by (auto dest: inj_onD)
    have R: "?R ps [c] = (if occ_at host at x then insert x (set ps) else set ps)"
    proof -
      have hit: "(key, fst y) \<in> set [c] \<longleftrightarrow> fst y = fst x" for y using True x by (auto simp: prod_eq_iff)
      have "y \<in> P \<and> fst y = fst x \<and> occ_at host at y \<longleftrightarrow> y = x \<and> occ_at host at x" for y
        using only [of y] x(1) by blast
      then have "{y \<in> P. fst y = fst x \<and> occ_at host at y} = (if occ_at host at x then {x} else {})"
        by simp
      then show ?thesis unfolding hit by (simp split: if_splits)
    qed
    have seen: "fst x \<in> set (map fst ps) \<longleftrightarrow> x \<in> set ps"
      using only Cons.prems(2) x by (auto simp: image_iff)
    show ?thesis
    proof (cases "occ_at host at x \<and> x \<notin> set ps")
      case occ: True
      then have "scan_slot ix key host at c (scan_of out ps) = Some (scan_of out (ps @ [x]))"
        using True x seen
        by (simp add: scan_slot_def occurs_pat [OF pat] report_pat [OF pat] scan_of_def)
      with occ R Cons.prems(3) show ?thesis by (intro exI [of _ "ps @ [x]"]) auto
    next
      case False
      then have "scan_slot ix key host at c (scan_of out ps) = Some (scan_of out ps)"
        using True x seen by (auto simp: scan_slot_def occurs_pat [OF pat] scan_of_def)
      with False R Cons.prems(3) show ?thesis by (intro exI [of _ ps]) auto
    qed
  qed
  then obtain ps' where ps': "scan_slot ix key host at c (scan_of out ps) = Some (scan_of out ps')"
    "distinct ps'" "set ps' = ?R ps [c]" by blast
  have "set ps' \<subseteq> P" using ps'(3) Cons.prems(2) by auto
  then obtain qs where "scan_slots ix key host at cs (scan_of out ps') = Some (scan_of out qs)" "distinct qs"
      "set qs = ?R ps' cs"
    using Cons.IH [of ps'] Cons.prems(1) ps'(2) by auto
  with ps'(1,3) show ?case by (intro exI [of _ qs]) auto
qed auto

lemma gated_probe_pats:
  assumes cat: "catalogue ix P" and t: "table_ok P t gate n" "\<not> table_is_empty t" and b: "b < n * 64"
    and ps: "set ps \<subseteq> P" "distinct ps"
  shows "\<exists>qs. gated_probe ix t gate b key host at (scan_of out ps) = Some (scan_of out qs) \<and>
     distinct qs \<and> set ps \<subseteq> set qs \<and> set qs \<subseteq> set ps \<union> {x \<in> P. occ_at host at x} \<and>
     (gate_test gate b = Some True \<longrightarrow> key \<noteq> 0 \<longrightarrow>
        {x \<in> P. (key, fst x) \<in> filed t \<and> occ_at host at x} \<subseteq> set qs)"
proof -
  have inv: "table_inv t" "snd ` filed t \<subseteq> fst ` P" "0 \<in> fst ` P" "length gate = n"
    using t by (auto simp: table_ok_def)
  obtain cs where cs: "\<And>ix host at s. probe_table ix t key host at s = scan_slots ix key host at cs s"
      "\<And>v. key \<noteq> 0 \<Longrightarrow> (key, v) \<in> set cs \<longleftrightarrow> (key, v) \<in> filed t"
      "\<And>v. key = 0 \<Longrightarrow> (key, v) \<in> set cs \<Longrightarrow> v = 0"
    using probe_table_slots [OF inv(1)] by metis
  have offs: "v \<in> fst ` P" if "(key, v) \<in> set cs" for v
  proof (cases "key = 0")
    case True
    then show ?thesis using cs(3) [OF True that] inv(3) by simp
  next
    case False
    then have "(key, v) \<in> filed t" using cs(2) that by simp
    then show ?thesis using inv(2) by (metis image_eqI snd_conv subsetD)
  qed
  obtain qs where qs: "scan_slots ix key host at cs (scan_of out ps) = Some (scan_of out qs)" "distinct qs"
      "set qs = set ps \<union> {x \<in> P. (key, fst x) \<in> set cs \<and> occ_at host at x}"
    using scan_slots_pats [OF cat offs ps] by blast
  have "\<exists>g. gate_test gate b = Some g" using inv(4) b
    by (simp add: gate_test_def index_def less_mult_imp_div_less)
  then obtain g where g: "gate_test gate b = Some g" by blast
  show ?thesis
  proof (cases g)
    case True
    with g have "gated_probe ix t gate b key host at (scan_of out ps) = Some (scan_of out qs)"
      by (simp add: gated_probe_def cs(1) qs(1))
    with qs(2,3) cs(2) show ?thesis by (intro exI [of _ qs]) auto
  next
    case False
    with g ps(2) show ?thesis by (intro exI [of _ ps]) (auto simp: gated_probe_def)
  qed
qed


lemma slice_SomeD: "slice xs a n = Some ys \<Longrightarrow> a + n \<le> length xs \<and> ys = take n (drop a xs)"
  by (auto simp: slice_def split: if_splits)

text \<open>The window of the host under which an occurring pattern is looked up is its own.\<close>

lemma occ_long_key:
  assumes "occ_at host at x" "pat_woff x + 8 \<le> length (pat_text x)"
  shows "at + 8 \<le> length host" "key_of (take 8 (drop at host)) = long_key x"
proof -
  let ?w = "pat_woff x" and ?n = "length (pat_text x)"
  have o: "?w \<le> at" "at - ?w + ?n \<le> length host" "pat_text x = take ?n (drop (at - ?w) host)"
    using assms(1) by (auto simp: occ_at_def dest!: slice_SomeD)
  then show "at + 8 \<le> length host" using assms(2) by linarith
  have "drop ?w (pat_text x) = take (?n - ?w) (drop at host)"
    using o(1) by (subst o(3)) (simp add: drop_take)
  then have "take 8 (drop ?w (pat_text x)) = take 8 (drop at host)"
    using assms(2) by (simp add: min_absorb1)
  then show "key_of (take 8 (drop at host)) = long_key x" by (simp add: long_key_def)
qed

lemma occ_short_key:
  assumes "occ_at host at x" "pat_woff x = 0" "3 \<le> length (pat_text x)"
  shows "short_key (drop at host) = short_key (pat_text x)" "gate_bit (drop at host) = gate_bit (pat_text x)"
proof -
  have "pat_text x = take (length (pat_text x)) (drop at host)"
    using assms(1,2) by (auto simp: occ_at_def dest!: slice_SomeD)
  then have "take 3 (pat_text x) = take 3 (take (length (pat_text x)) (drop at host))" by (rule arg_cong)
  also have "\<dots> = take 3 (drop at host)" using assms(3) by (simp add: take_take)
  finally have "take 3 (drop at host) = take 3 (pat_text x)" by simp
  then show "short_key (drop at host) = short_key (pat_text x)" "gate_bit (drop at host) = gate_bit (pat_text x)"
    by (simp_all add: short_key_def gate_bit_def MIN_SHORTCUT_LEN_def)
qed

lemma gate_bits_less: "long_gate_bit key < LONG_GATE_WORDS * 64" "gate_bit t < GATE_WORDS * 64"
proof -
  have "n AND (LONG_GATE_BITS - 1) < LONG_GATE_WORDS * 64" "n AND (GATE_BITS - 1) < GATE_WORDS * 64" for n
    unfolding LONG_GATE_BITS_def GATE_BITS_def LONG_GATE_WORDS_def GATE_WORDS_def and_mask_mod by simp_all
  then show "long_gate_bit key < LONG_GATE_WORDS * 64" "gate_bit t < GATE_WORDS * 64"
    unfolding long_gate_bit_def gate_bit_def Let_def by blast+
qed

lemma filed_empty_table: "table_is_empty t \<Longrightarrow> filed t = {}"
  by (simp add: table_is_empty_def filed_def slots_def)

lemma find_at_pats:
  assumes cat: "catalogue ix P" and ps: "set ps \<subseteq> P" "distinct ps"
  shows "\<exists>qs. find_at ix host at (scan_of out ps) = Some (scan_of out qs) \<and> distinct qs \<and>
     set qs = set ps \<union> {x \<in> P. occ_at host at x}"
proof -
  let ?hits = "\<lambda>L. {x \<in> P. occ_at host at x \<and> (8 \<le> length (pat_text x)) = L}"
  have tl: "table_ok P (sc_long ix) (sc_long_gate ix) LONG_GATE_WORDS"
    and ts: "table_ok P (sc_short ix) (sc_short_gate ix) GATE_WORDS"
    and fl: "\<And>x. x \<in> P \<Longrightarrow> 8 \<le> length (pat_text x) \<Longrightarrow> filed_long (sc_long ix) (sc_long_gate ix) x"
    and fs: "\<And>x. x \<in> P \<Longrightarrow> \<not> 8 \<le> length (pat_text x) \<Longrightarrow>
        3 \<le> length (pat_text x) \<and> filed_short (sc_short ix) (sc_short_gate ix) x"
    using cat by (auto simp: catalogue_def)
  let ?key = "key_of (take WINDOW (drop at host))"
  let ?s1 = "if \<not> table_is_empty (sc_long ix) \<and> at + WINDOW \<le> length host
      then gated_probe ix (sc_long ix) (sc_long_gate ix) (long_gate_bit ?key) ?key host at (scan_of out ps)
      else Some (scan_of out ps)"
  have long_hit: "\<not> table_is_empty (sc_long ix) \<and> at + 8 \<le> length host \<and>
      gate_test (sc_long_gate ix) (long_gate_bit ?key) = Some True \<and> ?key \<noteq> 0 \<and> (?key, fst x) \<in> filed (sc_long ix)"
    if "x \<in> ?hits True" for x
    using that fl [of x] occ_long_key [of host at x] filed_empty_table [of "sc_long ix"]
    by (auto simp: filed_long_def WINDOW_def)
  have "\<exists>qs. ?s1 = Some (scan_of out qs) \<and> distinct qs \<and> set ps \<union> ?hits True \<subseteq> set qs \<and>
      set qs \<subseteq> set ps \<union> {x \<in> P. occ_at host at x}"
  proof (cases "\<not> table_is_empty (sc_long ix) \<and> at + WINDOW \<le> length host")
    case True
    obtain qs where "gated_probe ix (sc_long ix) (sc_long_gate ix) (long_gate_bit ?key) ?key host at (scan_of out ps)
        = Some (scan_of out qs)" "distinct qs" "set ps \<subseteq> set qs" "set qs \<subseteq> set ps \<union> {x \<in> P. occ_at host at x}"
      "gate_test (sc_long_gate ix) (long_gate_bit ?key) = Some True \<longrightarrow> ?key \<noteq> 0 \<longrightarrow>
        {x \<in> P. (?key, fst x) \<in> filed (sc_long ix) \<and> occ_at host at x} \<subseteq> set qs"
      using gated_probe_pats [OF cat tl _ gate_bits_less(1) ps, of ?key ?key host at out] True by blast
    with True long_hit show ?thesis by (intro exI [of _ qs]) auto
  next
    case False
    then have "?hits True = {}" using long_hit unfolding WINDOW_def by blast
    with False ps(2) show ?thesis by (intro exI [of _ ps]) auto
  qed
  then obtain qs where qs: "?s1 = Some (scan_of out qs)" "distinct qs" "set ps \<union> ?hits True \<subseteq> set qs"
    "set qs \<subseteq> set ps \<union> {x \<in> P. occ_at host at x}" by blast
  let ?rest = "drop at host"
  have short_hit: "\<not> table_is_empty (sc_short ix) \<and>
      gate_test (sc_short_gate ix) (gate_bit ?rest) = Some True \<and> short_key ?rest \<noteq> 0 \<and>
      (short_key ?rest, fst x) \<in> filed (sc_short ix)" if "x \<in> ?hits False" for x
    using that fs [of x] occ_short_key [of host at x] filed_empty_table [of "sc_short ix"]
    by (auto simp: filed_short_def)
  have split: "{x \<in> P. occ_at host at x} = ?hits True \<union> ?hits False" by auto
  show ?thesis
  proof (cases "table_is_empty (sc_short ix)")
    case True
    then have "?hits False = {}" using short_hit by blast
    with qs True split show ?thesis by (intro exI [of _ qs]) (auto simp: find_at_def Let_def)
  next
    case False
    have "set qs \<subseteq> P" using qs(4) ps(1) by auto
    then obtain rs where "gated_probe ix (sc_short ix) (sc_short_gate ix) (gate_bit ?rest) (short_key ?rest) host at
        (scan_of out qs) = Some (scan_of out rs)" "distinct rs" "set qs \<subseteq> set rs"
      "set rs \<subseteq> set qs \<union> {x \<in> P. occ_at host at x}"
      "gate_test (sc_short_gate ix) (gate_bit ?rest) = Some True \<longrightarrow> short_key ?rest \<noteq> 0 \<longrightarrow>
        {x \<in> P. (short_key ?rest, fst x) \<in> filed (sc_short ix) \<and> occ_at host at x} \<subseteq> set rs"
      using gated_probe_pats [OF cat ts False gate_bits_less(2) _ qs(2), of ?rest "short_key ?rest" host at out]
      by blast
    moreover from this have "?hits False \<subseteq> set rs" using short_hit by blast
    ultimately show ?thesis
      using qs False split by (intro exI [of _ rs]) (auto simp: find_at_def Let_def)
  qed
qed

lemma find_from_pats:
  assumes cat: "catalogue ix P" and "set ps \<subseteq> P" "distinct ps"
  shows "\<exists>qs. find_from ix host ats (scan_of out ps) = Some (scan_of out qs) \<and> distinct qs \<and>
     set qs = set ps \<union> {x \<in> P. \<exists>at \<in> set ats. occ_at host at x}"
  using assms(2-)
proof (induction ats arbitrary: ps)
  case (Cons at ats)
  obtain ps' where ps': "find_at ix host at (scan_of out ps) = Some (scan_of out ps')" "distinct ps'"
      "set ps' = set ps \<union> {x \<in> P. occ_at host at x}"
    using find_at_pats [OF cat Cons.prems] by blast
  then have "set ps' \<subseteq> P" using Cons.prems(1) by auto
  then obtain qs where "find_from ix host ats (scan_of out ps') = Some (scan_of out qs)" "distinct qs"
      "set qs = set ps' \<union> {x \<in> P. \<exists>at \<in> set ats. occ_at host at x}"
    using Cons.IH [of ps'] ps'(2) by blast
  with ps'(1,3) show ?case by (intro exI [of _ qs]) auto
qed auto

text \<open>A pattern occurs in the host exactly if it is met at one of the positions searched.\<close>

lemma occ_positions:
  assumes "3 \<le> length (pat_text x)" "if 8 \<le> length (pat_text x) then pat_woff x + 8 \<le> length (pat_text x) else pat_woff x = 0"
  shows "(\<exists>at < length host - 3 + 1. occ_at host at x) \<and> 3 \<le> length host \<longleftrightarrow> sublist (pat_text x) host"
proof
  assume "(\<exists>at < length host - 3 + 1. occ_at host at x) \<and> 3 \<le> length host"
  then obtain at where "occ_at host at x" by blast
  then have "pat_text x = take (length (pat_text x)) (drop (at - pat_woff x) host)"
    by (auto simp: occ_at_def dest!: slice_SomeD)
  then show "sublist (pat_text x) host" unfolding sublist_def by (metis append_take_drop_id)
next
  assume "sublist (pat_text x) host"
  then obtain a b where h: "host = a @ pat_text x @ b" by (auto simp: sublist_def)
  then have "occ_at host (length a + pat_woff x) x" by (simp add: occ_at_def slice_def)
  moreover have "length a + pat_woff x < length host - 3 + 1" "3 \<le> length host"
    using assms h by (auto split: if_splits)
  ultimately show "(\<exists>at < length host - 3 + 1. occ_at host at x) \<and> 3 \<le> length host" by blast
qed

lemma find_rules_pats:
  assumes cat: "catalogue ix P"
  shows "\<exists>qs. find_rules ix host = Some (sc_always ix @ concat (map pat_rules qs)) \<and> distinct qs \<and>
     set qs = {x \<in> P. sublist (pat_text x) host}"
proof -
  have occ: "(\<exists>at < length host - 3 + 1. occ_at host at x) \<and> 3 \<le> length host \<longleftrightarrow> sublist (pat_text x) host"
    if "x \<in> P" for x
    using cat that by (intro occ_positions) (auto simp: catalogue_def filed_long_def filed_short_def split: if_splits)
  show ?thesis
  proof (cases "length host < 3")
    case True
    then have "{x \<in> P. sublist (pat_text x) host} = {}" using occ by auto
    with True show ?thesis
      by (intro exI [of _ "[]"]) (auto simp: find_rules_def MIN_SHORTCUT_LEN_def)
  next
    case False
    obtain qs where "find_from ix host [0..<length host - 3 + 1] (scan_of (sc_always ix) []) =
        Some (scan_of (sc_always ix) qs)" "distinct qs"
      "set qs = {x \<in> P. \<exists>at \<in> set [0..<length host - 3 + 1]. occ_at host at x}"
      using find_from_pats [OF cat, of "[]" host "[0..<length host - 3 + 1]" "sc_always ix"] by auto
    moreover from this(3) have "set qs = {x \<in> P. sublist (pat_text x) host}"
    proof -
      have "x \<in> P \<and> (\<exists>at \<in> set [0..<length host - 3 + 1]. occ_at host at x) \<longleftrightarrow> x \<in> P \<and> sublist (pat_text x) host" for x
        using occ [of x] False unfolding set_upt by (meson atLeastLessThan_iff not_less zero_le)
      with \<open>set qs = _\<close> show ?thesis by simp
    qed
    ultimately show ?thesis
      using False by (auto simp: find_rules_def MIN_SHORTCUT_LEN_def scan_of_def simp del: upt_Suc)
  qed
qed

section \<open>Building files every pattern\<close>

lemma pat_at_append: "pat_at arena spl x \<Longrightarrow> pat_at (arena @ a) (spl @ b) x"
  by (auto simp: pat_at_def Let_def nth_append run_at_append)

lemma pat_at_new:
  assumes "length arena < 2 ^ 32" "length t \<le> 255" "run_at spl rref = Some rs"
  shows "pat_at (arena @ le_bytes 4 (unat rref) @ [of_nat (length t), 0] @ t) spl (of_nat (length arena), t, rs, 0)"
proof -
  have "unat (of_nat (length arena) :: u32) = length arena" using assms(1) by (intro unat_of_nat_small) simp
  with assms show ?thesis
    by (simp add: pat_at_def Let_def of_nat_le_val_le_bytes nth_append)
qed

lemma file_rules_ok:
  assumes "rs \<noteq> []" "\<forall>r \<in> set rs. r < SPILL" "length spl + 1 + length rs < 2 ^ 31 - 1"
  shows "\<exists>rref ext. file_rules rs spl = (rref, spl @ ext) \<and> length ext \<le> 1 + length rs \<and>
     run_at (spl @ ext) rref = Some rs"
proof (cases "\<exists>r. rs = [r]")
  case True
  then obtain r where "rs = [r]" by blast
  with assms(2) show ?thesis by (simp add: file_rules_def run_at_def plain_value(1))
next
  case False
  then obtain a b c where "rs = a # b # c" using assms(1) by (metis list.exhaust)
  then have "file_rules rs spl = (SPILL OR of_nat (length spl), spl @ of_nat (length rs) # rs)"
    by (simp add: file_rules_def)
  then show ?thesis using run_at_end [of spl rs] assms(3) by simp
qed

text \<open>Two patterns of the arena do not overlap.\<close>

definition apart :: "filed_pattern \<Rightarrow> filed_pattern \<Rightarrow> bool" where
  "apart x y \<longleftrightarrow> unat (fst x) + 6 + length (pat_text x) \<le> unat (fst y)"

definition arena_need :: "(str \<times> u32 list) list \<Rightarrow> nat" where
  "arena_need ps = sum_list (map (\<lambda>p. 6 + length (fst p)) ps)"

definition rules_need :: "(str \<times> u32 list) list \<Rightarrow> nat" where
  "rules_need ps = sum_list (map (\<lambda>p. 1 + length (snd p)) ps)"

definition in_http :: "str \<times> u32 list \<Rightarrow> bool" where
  "in_http p \<longleftrightarrow> contains_str ''http'' (fst p)"

definition stored_text :: "str \<Rightarrow> u8 list" where
  "stored_text t = take MAX_TEXT (bytes_of t)"

definition arena_inv :: "(str \<times> u32 list) list \<Rightarrow> arena_state \<Rightarrow> filed_pattern list \<Rightarrow> bool" where
  "arena_inv ps s pl \<longleftrightarrow>
     a_always s = concat (map snd (filter in_http ps)) \<and>
     map (\<lambda>x. (pat_text x, pat_rules x, pat_woff x)) pl =
       map (\<lambda>p. (stored_text (fst p), snd p, 0)) (filter (\<lambda>p. \<not> in_http p) ps) \<and>
     (\<forall>x \<in> set pl. pat_at (a_arena s) (a_spill s) x) \<and> sorted_wrt apart pl \<and>
     (pl \<noteq> [] \<longrightarrow> fst (hd pl) = 0) \<and> (pl = [] \<longrightarrow> a_arena s = []) \<and>
     a_long s = map fst (filter (\<lambda>x. 8 \<le> length (pat_text x)) pl) \<and>
     a_short s = map fst (filter (\<lambda>x. \<not> 8 \<le> length (pat_text x)) pl) \<and>
     length (a_arena s) \<le> arena_need ps \<and> length (a_spill s) \<le> rules_need ps"

definition patterns_fit :: "(str \<times> u32 list) list \<Rightarrow> bool" where
  "patterns_fit ps \<longleftrightarrow>
     arena_need ps < 2 ^ 32 \<and> rules_need ps < 2 ^ 31 - 1 \<and>
     (\<forall>p \<in> set ps. CHR 0x00 \<notin> set (fst p) \<and> (\<forall>r \<in> set (snd p). r < SPILL))"

lemma arena_inv_init: "arena_inv [] arena_init []"
  by (simp add: arena_inv_def arena_init_def arena_need_def rules_need_def)

lemma add_pattern_ok:
  assumes inv: "arena_inv ps s pl" and fit: "patterns_fit (ps @ [p])" and ne: "snd p \<noteq> []"
  shows "\<exists>pl'. arena_inv (ps @ [p]) (add_pattern p s) pl'"
proof (cases "in_http p")
  case True
  then have "add_pattern p s = s\<lparr>a_always := a_always s @ snd p\<rparr>"
    by (simp add: add_pattern_def in_http_def)
  with inv True show ?thesis
    by (intro exI [of _ pl]) (auto simp: arena_inv_def arena_need_def rules_need_def)
next
  case False
  let ?t = "stored_text (fst p)"
  have lens: "length (a_arena s) \<le> arena_need ps" "length (a_spill s) \<le> rules_need ps"
    using inv by (auto simp: arena_inv_def)
  have need: "arena_need (ps @ [p]) = arena_need ps + 6 + length (fst p)"
    "rules_need (ps @ [p]) = rules_need ps + 1 + length (snd p)"
    by (simp_all add: arena_need_def rules_need_def)
  have t: "length ?t \<le> 255" "length ?t \<le> length (fst p)"
    by (simp_all add: stored_text_def MAX_TEXT_def bytes_of_def)
  obtain rref ext where fr: "file_rules (snd p) (a_spill s) = (rref, a_spill s @ ext)"
      "length ext \<le> 1 + length (snd p)" "run_at (a_spill s @ ext) rref = Some (snd p)"
    using file_rules_ok [OF ne, of "a_spill s"] fit lens need by (auto simp: patterns_fit_def)
  define off :: u32 where "off = of_nat (length (a_arena s))"
  define ar where "ar = a_arena s @ le_bytes 4 (unat rref) @ [of_nat (length ?t), 0] @ ?t"
  define x where "x = (off, ?t, snd p, 0 :: nat)"
  have lt: "length (a_arena s) < 2 ^ 32" using fit lens need by (simp add: patterns_fit_def)
  then have off: "unat off = length (a_arena s)" unfolding off_def by (intro unat_of_nat_small) simp
  have new: "pat_at ar (a_spill s @ ext) x"
    unfolding ar_def x_def off_def by (rule pat_at_new [OF lt t(1) fr(3)])
  have old: "pat_at ar (a_spill s @ ext) y" "apart y x" if "y \<in> set pl" for y
  proof -
    have y: "pat_at (a_arena s) (a_spill s) y" using inv that by (simp add: arena_inv_def)
    show "pat_at ar (a_spill s @ ext) y" unfolding ar_def by (rule pat_at_append [OF y])
    show "apart y x" using y off by (simp add: pat_at_def Let_def apart_def x_def)
  qed
  have step: "add_pattern p s = (if 8 \<le> length ?t
      then s\<lparr>a_spill := a_spill s @ ext, a_arena := ar, a_long := a_long s @ [off]\<rparr>
      else s\<lparr>a_spill := a_spill s @ ext, a_arena := ar, a_short := a_short s @ [off]\<rparr>)"
    using False fr(1) by (simp add: add_pattern_def in_http_def Let_def stored_text_def ar_def off_def WINDOW_def)
  have first: "fst (hd (pl @ [x])) = 0"
    using inv by (cases pl) (auto simp: arena_inv_def x_def off_def)
  have "length ar \<le> arena_need (ps @ [p])" "length (a_spill s @ ext) \<le> rules_need (ps @ [p])"
    using lens need t fr(2) by (simp_all add: ar_def)
  then have "arena_inv (ps @ [p]) (add_pattern p s) (pl @ [x])"
    using inv False new old first unfolding step arena_inv_def
    by (auto simp: sorted_wrt_append x_def)
  then show ?thesis by blast
qed

lemma add_patterns_ok:
  "arena_inv ps s pl \<Longrightarrow> patterns_fit (ps @ qs) \<Longrightarrow> \<forall>q \<in> set qs. snd q \<noteq> [] \<Longrightarrow>
     \<exists>pl'. arena_inv (ps @ qs) (fold add_pattern qs s) pl'"
proof (induction qs arbitrary: ps s pl)
  case (Cons q qs)
  have "patterns_fit (ps @ [q])"
    using Cons.prems(2) by (auto simp: patterns_fit_def arena_need_def rules_need_def)
  then obtain pl' where "arena_inv (ps @ [q]) (add_pattern q s) pl'"
    using add_pattern_ok [OF Cons.prems(1), of q] Cons.prems(3) by auto
  then show ?case using Cons.IH [of "ps @ [q]"] Cons.prems(2,3) by simp
qed auto


lemma best_window_mem:
  "best_window grams ws best = Some (w, i, b) \<Longrightarrow> (i, w) \<in> set ws \<or> best = Some (w, i, b)"
  by (induction grams ws best rule: best_window.induct) (auto simp: Let_def split: option.splits if_splits)

lemma best_window_some: "ws \<noteq> [] \<or> best \<noteq> None \<Longrightarrow> best_window grams ws best \<noteq> None"
  by (induction grams ws best rule: best_window.induct) (auto simp: Let_def split: option.splits)

lemma best_window_ok:
  assumes "8 \<le> length t"
  obtains w i b where "best_window grams (enumerate 0 (windows t)) None = Some (w, i, b)"
    "w = key_of (take 8 (drop i t))" "i + 8 \<le> length t"
proof -
  have "windows t \<noteq> []" using assms by (simp add: windows_def WINDOW_def)
  then have "enumerate 0 (windows t) \<noteq> []" by (cases "windows t") auto
  then obtain w i b where r: "best_window grams (enumerate 0 (windows t)) None = Some (w, i, b)"
    using best_window_some [of "enumerate 0 (windows t)" None grams] by auto
  then have "(i, w) \<in> set (enumerate 0 (windows t))" using best_window_mem [OF r] by simp
  then have "i < length (windows t)" "w = windows t ! i" by (auto simp: in_set_enumerate_eq)
  with r assms show ?thesis
    by (intro that [of w i b]) (auto simp: windows_def WINDOW_def simp del: upt_Suc)
qed

lemma gate_test_set:
  "b < length gate * 64 \<Longrightarrow> gate_test (gate_set b gate) b = Some True"
proof -
  assume b: "b < length gate * 64"
  then have i: "b div 64 < length gate" by (simp add: less_mult_imp_div_less)
  let ?w = "gate ! (b div 64) OR push_bit (b mod 64) 1"
  have "bit (?w AND push_bit (b mod 64) 1) (b mod 64)"
    by (simp add: bit_and_iff bit_or_iff bit_push_bit_iff del: push_bit_of_1)
  then have "?w AND push_bit (b mod 64) 1 \<noteq> 0" by force
  then show ?thesis using i by (simp add: gate_test_def gate_set_def index_def)
qed

lemma gate_test_mono:
  assumes "gate_test gate c = Some True" shows "gate_test (gate_set b gate) c = Some True"
proof (cases "b div 64 = c div 64 \<and> c div 64 < length gate")
  case True
  let ?v = "gate ! (c div 64)"
  have "?v AND push_bit (c mod 64) 1 \<noteq> 0" using assms True by (auto simp: gate_test_def index_def)
  then obtain n where "bit (?v AND push_bit (c mod 64) 1) n" by (metis bit_eqI bit_0_eq bot_apply bot_bool_def)
  then have "bit ((?v OR push_bit (b mod 64) 1) AND push_bit (c mod 64) 1) n"
    by (simp add: bit_and_iff bit_or_iff)
  then have "(?v OR push_bit (b mod 64) 1) AND push_bit (c mod 64) 1 \<noteq> 0" by force
  then show ?thesis using True by (simp add: gate_test_def gate_set_def index_def)
qed (use assms in \<open>auto simp: gate_test_def gate_set_def index_def nth_list_update split: if_splits\<close>)

lemma length_gate_set [simp]: "length (gate_set b gate) = length gate"
  by (simp add: gate_set_def)

lemma pat_at_self:
  assumes "pat_at arena spl x" "w < 256"
  shows "pat_at (arena[unat (fst x) + 5 := of_nat w]) spl (fst x, pat_text x, pat_rules x, w)"
  using assms by (auto simp: pat_at_def Let_def drop_update_swap take_update_cancel)

lemma pat_at_other:
  assumes x: "pat_at arena spl x" and "apart x y \<or> apart y x"
  shows "pat_at (arena[unat (fst y) + 5 := v]) spl x"
proof -
  let ?i = "unat (fst y) + 5" and ?off = "unat (fst x)"
  have out: "?i < ?off \<or> ?off + 6 + length (pat_text x) \<le> ?i"
    using assms(2) by (auto simp: apart_def)
  then have same: "take n (drop (?off + k) (arena[?i := v])) = take n (drop (?off + k) arena)"
    if "k + n \<le> 6 + length (pat_text x)" for k n
    using that by (auto simp: drop_update_swap take_update_cancel not_less)
  show ?thesis
    using x out same [of 0 4] same [of 6 "length (pat_text x)"] by (auto simp: pat_at_def Let_def)
qed


abbreviation set_woff :: "filed_pattern \<Rightarrow> nat \<Rightarrow> filed_pattern" where
  "set_woff x w \<equiv> (fst x, pat_text x, pat_rules x, w)"

lemma filed_long_mono:
  "filed_long t gate x \<Longrightarrow> filed t \<subseteq> filed t' \<Longrightarrow>
     (\<And>b. gate_test gate b = Some True \<Longrightarrow> gate_test gate' b = Some True) \<Longrightarrow> filed_long t' gate' x"
  by (auto simp: filed_long_def)

lemma text_key_nonzero:
  assumes "0 \<notin> set t" "i + 8 \<le> length t" shows "key_of (take 8 (drop i t)) \<noteq> 0"
proof -
  have "t ! i \<in> set (take 8 (drop i t))" using assms(2) by (simp add: in_set_conv_nth) (metis add_0_right add_gr_0 nth_take zero_less_numeral add_leD1 nth_drop)
  moreover have "t ! i \<noteq> 0" using assms by (metis add_leD1 le_add1 less_le_trans nth_mem order_less_le_trans zero_less_numeral less_add_same_cancel1)
  ultimately show ?thesis by (intro key_of_nonzero) auto
qed

lemma file_long_ok:
  assumes "\<forall>x \<in> set xs. pat_at arena spl x \<and> 8 \<le> length (pat_text x) \<and> 0 \<notin> set (pat_text x)"
    "sorted_wrt apart xs" "table_inv t" "card (slots t) + length xs < 8 * length (t_lines t)"
    "length gate = LONG_GATE_WORDS"
  shows "\<exists>arena' t' gate' f. file_long (map fst xs) grams arena t gate = Some (arena', t', gate') \<and>
     table_inv t' \<and> length (t_lines t') = length (t_lines t) \<and> length gate' = LONG_GATE_WORDS \<and>
     filed t \<subseteq> filed t' \<and> snd ` filed t' \<subseteq> snd ` filed t \<union> fst ` set xs \<and>
     (\<forall>b. gate_test gate b = Some True \<longrightarrow> gate_test gate' b = Some True) \<and>
     (\<forall>x \<in> set xs. pat_at arena' spl (set_woff x (f x)) \<and> filed_long t' gate' (set_woff x (f x))) \<and>
     (\<forall>y. pat_at arena spl y \<longrightarrow> (\<forall>x \<in> set xs. apart x y \<or> apart y x) \<longrightarrow> pat_at arena' spl y)"
  using assms
proof (induction xs arbitrary: grams arena t gate)
  case (Cons x xs)
  let ?t = "pat_text x"
  have x: "pat_at arena spl x" "8 \<le> length ?t" "0 \<notin> set ?t" using Cons.prems(1) by auto
  obtain w i b where best: "best_window grams (enumerate 0 (windows ?t)) None = Some (w, i, b)"
      "w = key_of (take 8 (drop i ?t))" "i + 8 \<le> length ?t"
    using best_window_ok [OF x(2)] by metis
  have w0: "w \<noteq> 0" using text_key_nonzero [OF x(3) best(3)] best(2) by simp
  have i: "i < 256" using best(3) x(1) by (simp add: pat_at_def Let_def)
  have room: "card (slots t) + 1 < 8 * length (t_lines t)" using Cons.prems(4) by simp
  obtain t1 where t1: "table_insert w (fst x) t = Some t1" "table_inv t1"
      "filed t1 = insert (w, fst x) (filed t)" "card (slots t1) = card (slots t) + 1"
      "length (t_lines t1) = length (t_lines t)"
    using table_insert_ok [OF Cons.prems(3) w0 room] by blast
  define grams1 where "grams1 = (case grams w of Some (a, b) \<Rightarrow> grams(w \<mapsto> (a, b + 1)) | None \<Rightarrow> grams)"
  define arena1 where "arena1 = arena[unat (fst x) + 5 := of_nat i]"
  define gate1 where "gate1 = gate_set (long_gate_bit w) gate"
  have ap: "apart x y" if "y \<in> set xs" for y using Cons.prems(2) that by simp
  have other: "pat_at arena1 spl y" if "pat_at arena spl y" "apart x y \<or> apart y x" for y
    unfolding arena1_def using that by (intro pat_at_other) auto
  have p1: "\<forall>y \<in> set xs. pat_at arena1 spl y \<and> 8 \<le> length (pat_text y) \<and> 0 \<notin> set (pat_text y)"
    using Cons.prems(1) ap other by auto
  have p2: "card (slots t1) + length xs < 8 * length (t_lines t1)" using t1 Cons.prems(4) by simp
  have p3: "length gate1 = LONG_GATE_WORDS" using Cons.prems(5) by (simp add: gate1_def)
  have srt: "sorted_wrt apart xs" using Cons.prems(2) by simp
  obtain arena' t' gate' f where
    IH: "file_long (map fst xs) grams1 arena1 t1 gate1 = Some (arena', t', gate')" "table_inv t'"
      "length (t_lines t') = length (t_lines t1)" "length gate' = LONG_GATE_WORDS" "filed t1 \<subseteq> filed t'"
      "snd ` filed t' \<subseteq> snd ` filed t1 \<union> fst ` set xs"
      "\<And>b. gate_test gate1 b = Some True \<Longrightarrow> gate_test gate' b = Some True"
      "\<And>x. x \<in> set xs \<Longrightarrow> pat_at arena' spl (set_woff x (f x)) \<and> filed_long t' gate' (set_woff x (f x))"
      "\<And>y. pat_at arena1 spl y \<Longrightarrow> (\<forall>x \<in> set xs. apart x y \<or> apart y x) \<Longrightarrow> pat_at arena' spl y"
    using Cons.IH [OF p1 srt t1(2) p2 p3, of grams1] by blast
  have gate1: "gate_test gate1 b = Some True" if "gate_test gate b = Some True" for b
    unfolding gate1_def using that by (rule gate_test_mono)
  have hit: "gate_test gate1 (long_gate_bit w) = Some True"
    unfolding gate1_def using gate_bits_less(1) [of w] Cons.prems(5) by (intro gate_test_set) simp
  have fl: "filed_long t' gate' (set_woff x i)"
    using w0 best(2,3) t1(3) IH(5) IH(7) [OF hit] by (auto simp: filed_long_def long_key_def)
  have "pat_at arena1 spl (set_woff x i)" unfolding arena1_def by (rule pat_at_self [OF x(1) i])
  moreover have "\<forall>y \<in> set xs. apart y (set_woff x i) \<or> apart (set_woff x i) y"
    using ap by (auto simp: apart_def)
  ultimately have px: "pat_at arena' spl (set_woff x i)" using IH(9) by blast
  have nx: "x \<notin> set xs" using ap [of x] by (auto simp: apart_def)
  define f' where "f' = f(x := i)"
  have all: "pat_at arena' spl (set_woff y (f' y)) \<and> filed_long t' gate' (set_woff y (f' y))"
    if "y \<in> set (x # xs)" for y
    using that px fl IH(8) [of y] nx by (cases "y = x") (auto simp: f'_def)
  have "file_long (map fst (x # xs)) grams arena t gate = Some (arena', t', gate')"
    using best(1) t1(1) IH(1) arena_text_pat [OF x(1)]
    by (simp add: grams1_def arena1_def gate1_def Let_def)
  moreover have "snd ` filed t' \<subseteq> snd ` filed t \<union> fst ` set (x # xs)" using IH(6) t1(3) by auto
  moreover have "\<forall>y. pat_at arena spl y \<longrightarrow> (\<forall>z \<in> set (x # xs). apart z y \<or> apart y z) \<longrightarrow> pat_at arena' spl y"
    using IH(9) other by auto
  ultimately show ?case
    using IH(2,3,4,5,7) t1(3,5) gate1 all
    by (intro exI [of _ arena'] exI [of _ t'] exI [of _ gate'] exI [of _ f']) auto
qed auto

lemma file_short_ok:
  assumes "\<forall>x \<in> set xs. pat_at arena spl x \<and> 3 \<le> length (pat_text x) \<and> 0 \<notin> set (pat_text x) \<and> pat_woff x = 0"
    "table_inv t" "card (slots t) + length xs < 8 * length (t_lines t)" "length gate = GATE_WORDS"
  shows "\<exists>t' gate'. file_short (map fst xs) arena t gate = Some (t', gate') \<and>
     table_inv t' \<and> length (t_lines t') = length (t_lines t) \<and> length gate' = GATE_WORDS \<and>
     filed t \<subseteq> filed t' \<and> snd ` filed t' \<subseteq> snd ` filed t \<union> fst ` set xs \<and>
     (\<forall>b. gate_test gate b = Some True \<longrightarrow> gate_test gate' b = Some True) \<and>
     (\<forall>x \<in> set xs. filed_short t' gate' x)"
  using assms
proof (induction xs arbitrary: t gate)
  case (Cons x xs)
  let ?t = "pat_text x" and ?k = "short_key (pat_text x)"
  have x: "pat_at arena spl x" "3 \<le> length ?t" "0 \<notin> set ?t" "pat_woff x = 0" using Cons.prems(1) by auto
  have k0: "?k \<noteq> 0"
  proof -
    obtain a r where "?t = a # r" using x(2) by (cases ?t) auto
    with x(3) show ?thesis unfolding short_key_def
      by (intro key_of_nonzero [of _ a]) (auto simp: MIN_SHORTCUT_LEN_def WINDOW_def numeral_3_eq_3)
  qed
  have room: "card (slots t) + 1 < 8 * length (t_lines t)" using Cons.prems(3) by simp
  obtain t1 where t1: "table_insert ?k (fst x) t = Some t1" "table_inv t1"
      "filed t1 = insert (?k, fst x) (filed t)" "card (slots t1) = card (slots t) + 1"
      "length (t_lines t1) = length (t_lines t)"
    using table_insert_ok [OF Cons.prems(2) k0 room] by blast
  define gate1 where "gate1 = gate_set (gate_bit ?t) gate"
  have p1: "\<forall>x \<in> set xs. pat_at arena spl x \<and> 3 \<le> length (pat_text x) \<and> 0 \<notin> set (pat_text x) \<and> pat_woff x = 0"
    using Cons.prems(1) by simp
  have p2: "card (slots t1) + length xs < 8 * length (t_lines t1)" using t1 Cons.prems(3) by simp
  have p3: "length gate1 = GATE_WORDS" using Cons.prems(4) by (simp add: gate1_def)
  obtain t' gate' where
    IH: "file_short (map fst xs) arena t1 gate1 = Some (t', gate')" "table_inv t'"
      "length (t_lines t') = length (t_lines t1)" "length gate' = GATE_WORDS" "filed t1 \<subseteq> filed t'"
      "snd ` filed t' \<subseteq> snd ` filed t1 \<union> fst ` set xs"
      "\<And>b. gate_test gate1 b = Some True \<Longrightarrow> gate_test gate' b = Some True"
      "\<And>x. x \<in> set xs \<Longrightarrow> filed_short t' gate' x"
    using Cons.IH [OF p1 t1(2) p2 p3] by blast
  have gate1: "gate_test gate1 b = Some True" if "gate_test gate b = Some True" for b
    unfolding gate1_def using that by (rule gate_test_mono)
  have "gate_test gate1 (gate_bit ?t) = Some True"
    unfolding gate1_def using gate_bits_less(2) [of ?t] Cons.prems(4) by (intro gate_test_set) simp
  then have "filed_short t' gate' x"
    using k0 x(4) t1(3) IH(5,7) by (auto simp: filed_short_def)
  moreover have "file_short (map fst (x # xs)) arena t gate = Some (t', gate')"
    using t1(1) IH(1) arena_text_pat [OF x(1)] by (simp add: gate1_def)
  moreover have "snd ` filed t' \<subseteq> snd ` filed t \<union> fst ` set (x # xs)" using IH(6) t1(3) by auto
  ultimately show ?case
    using IH(2-5,7,8) t1(3,5) gate1 by (intro exI [of _ t'] exI [of _ gate']) auto
qed auto

lemma count_all_ok: "\<forall>x \<in> set xs. pat_at arena spl x \<Longrightarrow> count_all arena (map fst xs) grams \<noteq> None"
proof (induction xs arbitrary: grams)
  case (Cons x xs)
  then have "arena_text arena (fst x) = Some (pat_text x)" by (intro arena_text_pat [of _ spl]) simp
  with Cons show ?case by simp
qed simp

lemma sorted_apart_inj: "sorted_wrt apart pl \<Longrightarrow> distinct (map fst pl)"
proof (induction pl)
  case (Cons x pl)
  have "fst x \<notin> fst ` set pl"
  proof
    assume "fst x \<in> fst ` set pl"
    then obtain y where "y \<in> set pl" "fst x = fst y" by (rule imageE)
    then have "apart x y" using Cons.prems by simp
    with \<open>fst x = fst y\<close> show False by (simp add: apart_def)
  qed
  with Cons show ?case by simp
qed simp

lemma sorted_apart_cases:
  "sorted_wrt apart pl \<Longrightarrow> x \<in> set pl \<Longrightarrow> y \<in> set pl \<Longrightarrow> x \<noteq> y \<Longrightarrow> apart x y \<or> apart y x"
  by (induction pl) auto

text \<open>
  The two filing passes turn the arena into a catalogue of the same patterns; only the window
  offsets change.
\<close>

lemma filing_ok:
  assumes pats: "\<forall>x \<in> set pl. pat_at arena spl x \<and> 3 \<le> length (pat_text x) \<and> 0 \<notin> set (pat_text x) \<and> pat_woff x = 0"
    and srt: "sorted_wrt apart pl" and hd0: "pl \<noteq> [] \<Longrightarrow> fst (hd pl) = 0" and small: "length pl < 2 ^ 32"
  defines "xs \<equiv> filter (\<lambda>x. 8 \<le> length (pat_text x)) pl"
    and "ys \<equiv> filter (\<lambda>x. \<not> 8 \<le> length (pat_text x)) pl"
  obtains arena' long lgate short sgate f where
    "(if xs = [] then Some (arena, table_default, [])
      else file_long (map fst xs) grams arena (with_capacity (length xs)) (replicate LONG_GATE_WORDS 0))
     = Some (arena', long, lgate)"
    "(if ys = [] then Some (table_default, [])
      else file_short (map fst ys) arena' (with_capacity (length ys)) (replicate GATE_WORDS 0))
     = Some (short, sgate)"
    "\<And>ix. sc_arena ix = arena' \<Longrightarrow> sc_spill ix = spl \<Longrightarrow> sc_long ix = long \<Longrightarrow> sc_long_gate ix = lgate \<Longrightarrow>
       sc_short ix = short \<Longrightarrow> sc_short_gate ix = sgate \<Longrightarrow> catalogue ix ((\<lambda>x. set_woff x (f x)) ` set pl)"
proof -
  have lens: "length xs < 2 ^ 32" "length ys < 2 ^ 32"
    unfolding xs_def ys_def using small by (meson le_less_trans length_filter_le)+
  have xs: "\<forall>x \<in> set xs. pat_at arena spl x \<and> 8 \<le> length (pat_text x) \<and> 0 \<notin> set (pat_text x)"
    "sorted_wrt apart xs" "set xs \<subseteq> set pl"
    using pats srt by (auto simp: xs_def sorted_wrt_filter)
  note cx = with_capacity_ok [OF lens(1)] and cy = with_capacity_ok [OF lens(2)]
  have "\<exists>arena' long lgate f.
      (if xs = [] then Some (arena, table_default, [])
       else file_long (map fst xs) grams arena (with_capacity (length xs)) (replicate LONG_GATE_WORDS 0))
      = Some (arena', long, lgate) \<and>
      (table_is_empty long \<or> table_inv long \<and> snd ` filed long \<subseteq> fst ` set xs \<and> length lgate = LONG_GATE_WORDS \<and> xs \<noteq> []) \<and>
      (\<forall>x \<in> set xs. pat_at arena' spl (set_woff x (f x)) \<and> filed_long long lgate (set_woff x (f x))) \<and>
      (\<forall>y. pat_at arena spl y \<longrightarrow> (\<forall>x \<in> set xs. apart x y \<or> apart y x) \<longrightarrow> pat_at arena' spl y)"
  proof (cases "xs = []")
    case True
    then show ?thesis by (simp add: table_default_def table_is_empty_def)
  next
    case False
    have "card (slots (with_capacity (length xs))) + length xs < 8 * length (t_lines (with_capacity (length xs)))"
      using cx(3,4) by simp
    from file_long_ok [OF xs(1,2) cx(1) this, of "replicate LONG_GATE_WORDS 0" grams] cx(2) False
    show ?thesis by auto
  qed
  then obtain arena' long lgate f where L:
      "(if xs = [] then Some (arena, table_default, [])
        else file_long (map fst xs) grams arena (with_capacity (length xs)) (replicate LONG_GATE_WORDS 0))
       = Some (arena', long, lgate)"
      "table_is_empty long \<or> table_inv long \<and> snd ` filed long \<subseteq> fst ` set xs \<and> length lgate = LONG_GATE_WORDS \<and> xs \<noteq> []"
      "\<And>x. x \<in> set xs \<Longrightarrow> pat_at arena' spl (set_woff x (f x)) \<and> filed_long long lgate (set_woff x (f x))"
      "\<And>y. pat_at arena spl y \<Longrightarrow> (\<forall>x \<in> set xs. apart x y \<or> apart y x) \<Longrightarrow> pat_at arena' spl y"
    by blast
  have ys: "\<forall>x \<in> set ys. pat_at arena' spl x \<and> 3 \<le> length (pat_text x) \<and> 0 \<notin> set (pat_text x) \<and> pat_woff x = 0"
  proof
    fix y assume y: "y \<in> set ys"
    have "\<forall>x \<in> set xs. apart x y \<or> apart y x"
    proof
      fix x assume "x \<in> set xs"
      with y have "x \<in> set pl" "y \<in> set pl" "x \<noteq> y" by (simp_all add: xs_def ys_def) metis
      then show "apart x y \<or> apart y x" by (rule sorted_apart_cases [OF srt])
    qed
    with y pats L(4) show "pat_at arena' spl y \<and> 3 \<le> length (pat_text y) \<and> 0 \<notin> set (pat_text y) \<and> pat_woff y = 0"
      by (auto simp: ys_def)
  qed
  have "\<exists>short sgate. (if ys = [] then Some (table_default, [])
       else file_short (map fst ys) arena' (with_capacity (length ys)) (replicate GATE_WORDS 0))
      = Some (short, sgate) \<and>
      (table_is_empty short \<or> table_inv short \<and> snd ` filed short \<subseteq> fst ` set ys \<and> length sgate = GATE_WORDS \<and> ys \<noteq> []) \<and>
      (\<forall>x \<in> set ys. filed_short short sgate x)"
  proof (cases "ys = []")
    case True
    then show ?thesis by (simp add: table_default_def table_is_empty_def)
  next
    case False
    have "card (slots (with_capacity (length ys))) + length ys < 8 * length (t_lines (with_capacity (length ys)))"
      using cy(3,4) by simp
    from file_short_ok [OF ys cy(1) this, of "replicate GATE_WORDS 0"] cy(2) False
    show ?thesis by auto
  qed
  then obtain short sgate where S: "(if ys = [] then Some (table_default, [])
       else file_short (map fst ys) arena' (with_capacity (length ys)) (replicate GATE_WORDS 0))
      = Some (short, sgate)"
      "table_is_empty short \<or> table_inv short \<and> snd ` filed short \<subseteq> fst ` set ys \<and> length sgate = GATE_WORDS \<and> ys \<noteq> []"
      "\<And>x. x \<in> set ys \<Longrightarrow> filed_short short sgate x"
    by blast
  define f' where "f' = (\<lambda>x. if 8 \<le> length (pat_text x) then f x else 0)"
  let ?P = "(\<lambda>x. set_woff x (f' x)) ` set pl"
  have fstP: "fst ` ?P = fst ` set pl" by (simp add: image_image)
  have zero: "0 \<in> fst ` set pl" if "pl \<noteq> []" using hd0 [OF that] that by (metis image_eqI list.set_sel(1))
  have each: "pat_at arena' spl (set_woff x (f' x)) \<and>
      (if 8 \<le> length (pat_text x) then filed_long long lgate (set_woff x (f' x)) else filed_short short sgate (set_woff x (f' x)))"
    if "x \<in> set pl" for x
  proof (cases "8 \<le> length (pat_text x)")
    case True
    then show ?thesis using L(3) [of x] that by (auto simp: xs_def f'_def)
  next
    case False
    then have "x \<in> set ys" "set_woff x (f' x) = x"
      using that pats by (auto simp: ys_def f'_def prod_eq_iff)
    then show ?thesis using False S(3) ys by metis
  qed
  have inj: "inj_on fst ?P"
    using sorted_apart_inj [OF srt] by (auto simp: inj_on_def distinct_map dest: inj_onD)
  have tok: "table_ok ?P long lgate LONG_GATE_WORDS" "table_ok ?P short sgate GATE_WORDS"
  proof -
    have sub: "fst ` set xs \<subseteq> fst ` set pl" "fst ` set ys \<subseteq> fst ` set pl"
      unfolding xs_def ys_def by (simp_all add: image_mono)
    have ne: "xs \<noteq> [] \<Longrightarrow> pl \<noteq> []" "ys \<noteq> [] \<Longrightarrow> pl \<noteq> []" by (auto simp: xs_def ys_def)
    show "table_ok ?P long lgate LONG_GATE_WORDS" "table_ok ?P short sgate GATE_WORDS"
      unfolding table_ok_def fstP
      using L(2) zero [OF ne(1)] S(2) zero [OF ne(2)] subset_trans [OF _ sub(1)] subset_trans [OF _ sub(2)]
      by metis+
  qed
  show ?thesis
  proof (rule that [OF L(1) S(1)])
    fix ix :: shortcut_index assume "sc_arena ix = arena'" "sc_spill ix = spl" "sc_long ix = long" "sc_long_gate ix = lgate"
      "sc_short ix = short" "sc_short_gate ix = sgate"
    moreover have "\<forall>x \<in> set pl. 3 \<le> length (pat_text x)" using pats by blast
    ultimately show "catalogue ix ?P"
      unfolding catalogue_def using inj tok each by simp
  qed
qed


section \<open>The index answers as a substring test does\<close>

lemma inj_bytes: "inj (of_char :: char \<Rightarrow> u8)"
proof (rule injI)
  fix a b :: char assume "(of_char a :: u8) = of_char b"
  moreover have "unat (of_char c :: u8) = of_char c" for c
    using unat_of_nat_small [of "of_char c", where ?'a = 8] by (simp add: of_nat_of_char)
  ultimately show "a = b" by (metis of_char_eq_iff)
qed

lemma sublist_bytes: "sublist (bytes_of a) (bytes_of b) \<longleftrightarrow> sublist a b"
proof
  assume "sublist (bytes_of a) (bytes_of b)"
  then obtain xs ys where "map of_char b = xs @ map (of_char :: char \<Rightarrow> u8) a @ ys"
    by (auto simp: sublist_def bytes_of_def)
  then obtain p q r where "b = p @ q @ r" "map (of_char :: char \<Rightarrow> u8) q = map of_char a"
    by (auto simp: map_eq_append_conv append_eq_map_conv)
  then show "sublist a b" using inj_bytes by (auto simp: inj_map_eq_map)
next
  assume "sublist a b"
  then obtain xs ys where "b = xs @ a @ ys" by (auto simp: sublist_def)
  then have "bytes_of b = bytes_of xs @ bytes_of a @ bytes_of ys" by (simp add: bytes_of_def)
  then show "sublist (bytes_of a) (bytes_of b)" unfolding sublist_def by blast
qed

lemma stored_text_bytes: "stored_text t = bytes_of (take MAX_TEXT t)"
  by (simp add: stored_text_def bytes_of_def take_map)

lemma stored_text_nonzero: "CHR 0x00 \<notin> set t \<Longrightarrow> 0 \<notin> set (stored_text t)"
proof
  assume t: "CHR 0x00 \<notin> set t" and "0 \<in> set (stored_text t)"
  then obtain c where "c \<in> set t" "(of_char c :: u8) = 0"
    by (auto simp: stored_text_bytes bytes_of_def dest: in_set_takeD)
  moreover have "(of_char (CHR 0x00) :: u8) = 0" by simp
  ultimately show False using t inj_bytes by (metis injD)
qed

text \<open>Which patterns a query must report: those that occur in \<open>http\<close> or in the host.\<close>

definition reported :: "str \<Rightarrow> str \<times> u32 list \<Rightarrow> bool" where
  "reported host p \<longleftrightarrow> MIN_SHORTCUT_LEN \<le> length (fst p) \<and> snd p \<noteq> [] \<and>
     (sublist (fst p) ''http'' \<or> sublist (take MAX_TEXT (fst p)) host)"

lemma patterns_fit_perm: "patterns_fit ps \<Longrightarrow> patterns_fit (sort_key f (filter P ps))"
proof -
  have "sum_list (map g (sort_key f (filter P ps))) \<le> sum_list (map g ps)" for g :: "_ \<Rightarrow> nat"
  proof -
    have "sum_list (map g (sort_key f (filter P ps))) = sum_list (map g (filter P ps))"
      by (metis mset_map mset_sort sum_mset_sum_list)
    also have "\<dots> \<le> sum_list (map g ps)" by (induction ps) auto
    finally show ?thesis .
  qed
  then show "patterns_fit ps \<Longrightarrow> patterns_fit (sort_key f (filter P ps))"
    unfolding patterns_fit_def arena_need_def rules_need_def by (auto intro: le_less_trans)
qed

lemma build_shortcuts_catalogue:
  assumes fit: "patterns_fit ps" and ne: "filter (\<lambda>p. MIN_SHORTCUT_LEN \<le> length (fst p) \<and> snd p \<noteq> []) ps \<noteq> []"
  defines "qs \<equiv> sort_key fst (filter (\<lambda>p. MIN_SHORTCUT_LEN \<le> length (fst p) \<and> snd p \<noteq> []) ps)"
  obtains ix pl f where "build_shortcuts ps = Some ix" "catalogue ix ((\<lambda>x. set_woff x (f x)) ` set pl)"
    "distinct (map fst pl)" "sc_always ix = concat (map snd (filter in_http qs))"
    "map (\<lambda>x. (pat_text x, pat_rules x)) pl =
       map (\<lambda>p. (stored_text (fst p), snd p)) (filter (\<lambda>p. \<not> in_http p) qs)"
    "sc_len ix = length pl"
proof -
  have qs: "patterns_fit qs" "\<forall>q \<in> set qs. snd q \<noteq> [] \<and> 3 \<le> length (fst q)"
    unfolding qs_def using patterns_fit_perm [OF fit] by (auto simp: MIN_SHORTCUT_LEN_def)
  define s where "s = fold add_pattern qs arena_init"
  obtain pl where inv: "arena_inv qs s pl"
    using add_patterns_ok [OF arena_inv_init, of qs] qs by (auto simp: s_def)
  have texts: "map (\<lambda>x. (pat_text x, pat_rules x, pat_woff x)) pl =
      map (\<lambda>p. (stored_text (fst p), snd p, 0)) (filter (\<lambda>p. \<not> in_http p) qs)"
    using inv by (simp add: arena_inv_def)
  have each: "3 \<le> length (pat_text x) \<and> 0 \<notin> set (pat_text x) \<and> pat_woff x = 0" if "x \<in> set pl" for x
  proof -
    have "(pat_text x, pat_rules x, pat_woff x) \<in> set (map (\<lambda>x. (pat_text x, pat_rules x, pat_woff x)) pl)"
      using that by (simp add: rev_image_eqI)
    then obtain p where "p \<in> set qs" "pat_text x = stored_text (fst p)" "pat_woff x = 0"
      unfolding texts by (auto simp: image_iff)
    then show ?thesis
      using qs stored_text_nonzero [of "fst p"] by (auto simp: patterns_fit_def stored_text_def bytes_of_def MAX_TEXT_def)
  qed
  have pats: "\<forall>x \<in> set pl. pat_at (a_arena s) (a_spill s) x \<and> 3 \<le> length (pat_text x) \<and>
      0 \<notin> set (pat_text x) \<and> pat_woff x = 0"
    using inv each by (simp add: arena_inv_def)
  have len: "length pl \<le> length qs"
    using arg_cong [OF texts, of length] by (simp add: le_trans [OF length_filter_le])
  also have "length qs \<le> arena_need qs" unfolding arena_need_def by (induction qs) auto
  also have "\<dots> < 2 ^ 32" using qs by (simp add: patterns_fit_def)
  finally have small: "length pl < 2 ^ 32" .
  have srt: "sorted_wrt apart pl" and hd0: "pl \<noteq> [] \<Longrightarrow> fst (hd pl) = 0"
    using inv by (simp_all add: arena_inv_def)
  define xs where "xs = filter (\<lambda>x. 8 \<le> length (pat_text x)) pl"
  define ys where "ys = filter (\<lambda>x. \<not> 8 \<le> length (pat_text x)) pl"
  have offs: "a_long s = map fst xs" "a_short s = map fst ys"
    using inv by (simp_all add: arena_inv_def xs_def ys_def)
  have "\<forall>x \<in> set xs. pat_at (a_arena s) (a_spill s) x" unfolding xs_def using pats by simp
  then obtain grams where grams: "count_all (a_arena s) (map fst xs) Map.empty = Some grams"
    using count_all_ok by blast
  obtain arena' long lgate short sgate f where filing:
    "(if xs = [] then Some (a_arena s, table_default, [])
      else file_long (map fst xs) grams (a_arena s) (with_capacity (length xs)) (replicate LONG_GATE_WORDS 0))
     = Some (arena', long, lgate)"
    "(if ys = [] then Some (table_default, [])
      else file_short (map fst ys) arena' (with_capacity (length ys)) (replicate GATE_WORDS 0))
     = Some (short, sgate)"
    "\<And>ix. sc_arena ix = arena' \<Longrightarrow> sc_spill ix = a_spill s \<Longrightarrow> sc_long ix = long \<Longrightarrow> sc_long_gate ix = lgate \<Longrightarrow>
       sc_short ix = short \<Longrightarrow> sc_short_gate ix = sgate \<Longrightarrow> catalogue ix ((\<lambda>x. set_woff x (f x)) ` set pl)"
    using filing_ok [OF pats srt hd0 small, of grams] unfolding xs_def ys_def by blast
  define ix where "ix = \<lparr>sc_long = long, sc_long_gate = lgate, sc_short = short, sc_short_gate = sgate,
    sc_arena = arena', sc_spill = a_spill s, sc_always = a_always s, sc_len = length (a_long s) + length (a_short s)\<rparr>"
  show ?thesis
  proof (rule that [of ix f pl])
    show "build_shortcuts ps = Some ix"
      using ne grams filing(1,2) offs
      by (cases "xs = []"; cases "ys = []")
         (simp_all add: build_shortcuts_def Let_def qs_def [symmetric] s_def [symmetric] ix_def)
    show "catalogue ix ((\<lambda>x. set_woff x (f x)) ` set pl)" by (rule filing(3)) (simp_all add: ix_def)
    show "distinct (map fst pl)" by (rule sorted_apart_inj [OF srt])
    show "sc_always ix = concat (map snd (filter in_http qs))" using inv by (simp add: ix_def arena_inv_def)
    show "map (\<lambda>x. (pat_text x, pat_rules x)) pl =
       map (\<lambda>p. (stored_text (fst p), snd p)) (filter (\<lambda>p. \<not> in_http p) qs)"
      using arg_cong [OF texts, of "map (\<lambda>t. (fst t, fst (snd t)))"] by (simp add: comp_def)
    show "sc_len ix = length pl"
      by (simp add: ix_def offs xs_def ys_def sum_length_filter_compl)
  qed
qed


lemma hits_of_patterns:
  assumes corr: "map (\<lambda>x. (pat_text x, pat_rules x)) pl = map (\<lambda>p. (stored_text (fst p), snd p)) nh"
    and "distinct (map fst pl)" "distinct nh" "distinct xs"
    and xs: "set xs = {x \<in> (\<lambda>x. set_woff x (f x)) ` set pl. sublist (pat_text x) (bytes_of host)}"
  obtains ps where "map snd ps = map pat_rules xs" "distinct ps"
    "set ps = {p \<in> set nh. sublist (take MAX_TEXT (fst p)) host}"
proof -
  have len: "length pl = length nh" using arg_cong [OF corr, of length] by simp
  have at: "pat_text (pl ! j) = stored_text (fst (nh ! j))" "pat_rules (pl ! j) = snd (nh ! j)" if "j < length nh" for j
    using arg_cong [OF corr, of "\<lambda>l. l ! j"] that len by simp_all
  define y where "y j = set_woff (pl ! j) (f (pl ! j))" for j
  define g where "g x = the (map_of (zip (map fst pl) nh) (fst x))" for x :: filed_pattern
  have g: "g (y j) = nh ! j" if "j < length nh" for j
    using map_of_zip_nth [of "map fst pl" nh j] assms(2) len that by (simp add: g_def y_def)
  have img: "(\<lambda>x. set_woff x (f x)) ` set pl = y ` {..<length nh}"
    by (auto simp: y_def len [symmetric] set_conv_nth image_iff)
  have occ: "sublist (pat_text (y j)) (bytes_of host) \<longleftrightarrow> sublist (take MAX_TEXT (fst (nh ! j))) host"
    if "j < length nh" for j
    using at(1) [OF that] by (simp add: y_def stored_text_bytes sublist_bytes)
  have J: "set xs = y ` {j. j < length nh \<and> sublist (take MAX_TEXT (fst (nh ! j))) host}"
    unfolding xs img using occ by auto
  show ?thesis
  proof (rule that [of "map g xs"])
    show "map snd (map g xs) = map pat_rules xs"
      using g at(2) J by (auto simp: y_def)
    have "inj_on g (set xs)"
      unfolding J using g assms(3) by (auto simp: inj_on_def nth_eq_iff_index_eq)
    then show "distinct (map g xs)" using assms(4) by (simp add: distinct_map)
    show "set (map g xs) = {p \<in> set nh. sublist (take MAX_TEXT (fst p)) host}"
      unfolding set_map J using g by (auto simp: image_iff set_conv_nth)
  qed
qed

lemma shortcut_index_lookup:
  assumes "distinct (map fst ps)" "patterns_fit ps"
  shows "\<exists>ix. build_shortcuts ps = Some ix \<and>
     (\<forall>host. \<exists>hits. find_rules ix (bytes_of host) = Some (concat (map snd hits)) \<and> distinct hits \<and>
        set hits = {p \<in> set ps. reported host p})"
proof (cases "filter (\<lambda>p. MIN_SHORTCUT_LEN \<le> length (fst p) \<and> snd p \<noteq> []) ps = []")
  case True
  then have "build_shortcuts ps = Some shortcut_default" "{p \<in> set ps. reported host p} = {}" for host
    by (auto simp: build_shortcuts_def filter_empty_conv reported_def)
  moreover have "find_rules shortcut_default (bytes_of host) = Some []" for host
  proof -
    have "find_from shortcut_default h ats s = Some s" for h ats s
      by (induction ats) (auto simp: find_at_def shortcut_default_def table_default_def table_is_empty_def)
    then show ?thesis by (simp add: find_rules_def) (simp add: shortcut_default_def)
  qed
  ultimately show ?thesis
    by (intro exI [of _ shortcut_default] conjI allI exI [of _ "[]"]) simp_all
next
  case False
  let ?qs = "sort_key fst (filter (\<lambda>p. MIN_SHORTCUT_LEN \<le> length (fst p) \<and> snd p \<noteq> []) ps)"
  obtain ix pl f where b: "build_shortcuts ps = Some ix" "catalogue ix ((\<lambda>x. set_woff x (f x)) ` set pl)"
    "distinct (map fst pl)" "sc_always ix = concat (map snd (filter in_http ?qs))"
    "map (\<lambda>x. (pat_text x, pat_rules x)) pl =
       map (\<lambda>p. (stored_text (fst p), snd p)) (filter (\<lambda>p. \<not> in_http p) ?qs)"
    using build_shortcuts_catalogue [OF assms(2) False] by blast
  have "\<exists>hits. find_rules ix (bytes_of host) = Some (concat (map snd hits)) \<and> distinct hits \<and>
        set hits = {p \<in> set ps. reported host p}" for host
  proof -
    let ?nh = "filter (\<lambda>p. \<not> in_http p) ?qs"
    obtain xs where xs: "find_rules ix (bytes_of host) = Some (sc_always ix @ concat (map pat_rules xs))" "distinct xs"
        "set xs = {x \<in> (\<lambda>x. set_woff x (f x)) ` set pl. sublist (pat_text x) (bytes_of host)}"
      using find_rules_pats [OF b(2)] by blast
    have dq: "distinct ?qs" using assms(1) by (simp add: distinct_map)
    then have dn: "distinct ?nh" by simp
    obtain hs where hs: "map snd hs = map pat_rules xs" "distinct hs"
        "set hs = {p \<in> set ?nh. sublist (take MAX_TEXT (fst p)) host}"
      using hits_of_patterns [OF b(5,3) dn xs(2,3)] by blast
    have "find_rules ix (bytes_of host) = Some (concat (map snd (filter in_http ?qs @ hs)))"
      using xs(1) b(4) hs(1) by simp
    moreover have "distinct (filter in_http ?qs @ hs)" using dq hs(2,3) by auto
    moreover have "set (filter in_http ?qs @ hs) = {p \<in> set ps. reported host p}"
      using hs(3) by (auto simp: reported_def in_http_def contains_str_iff)
    ultimately show ?thesis by blast
  qed
  with b(1) show ?thesis by blast
qed

text \<open>The shortcut index keeps the contract of an index; a query is a hostname.\<close>

definition shortcuts_fit :: "(str \<times> u32 list) list \<Rightarrow> bool" where
  "shortcuts_fit ps \<longleftrightarrow> distinct (map fst ps) \<and> patterns_fit ps"

definition reports_once :: "(str \<times> u32 list) list \<Rightarrow> str \<Rightarrow> u32 list \<Rightarrow> bool" where
  "reports_once ps host run \<longleftrightarrow>
     (\<exists>hits. run = concat (map snd hits) \<and> distinct hits \<and> set hits = {p \<in> set ps. reported host p})"

interpretation shortcuts: built_index build_shortcuts "\<lambda>ix host. find_rules ix (bytes_of host)"
    shortcuts_fit reports_once
proof unfold_locales
  fix ps assume "shortcuts_fit ps"
  then obtain ix where ix: "build_shortcuts ps = Some ix" "\<forall>host. \<exists>hits. find_rules ix (bytes_of host) =
      Some (concat (map snd hits)) \<and> distinct hits \<and> set hits = {p \<in> set ps. reported host p}"
    using shortcut_index_lookup [of ps] unfolding shortcuts_fit_def by (elim conjE exE) auto
  have "\<exists>run. find_rules ix (bytes_of host) = Some run \<and> reports_once ps host run" for host
  proof -
    obtain hits where "find_rules ix (bytes_of host) = Some (concat (map snd hits))" "distinct hits"
        "set hits = {p \<in> set ps. reported host p}"
      using ix(2) [THEN spec, of host] by (elim exE conjE)
    then show ?thesis unfolding reports_once_def
      by (intro exI [of _ "concat (map snd hits)"] exI [of _ hits] conjI refl)
  qed
  with ix(1) show "\<exists>ix. build_shortcuts ps = Some ix \<and>
      (\<forall>host. \<exists>run. find_rules ix (bytes_of host) = Some run \<and> reports_once ps host run)"
    by blast
qed

text \<open>
  C37. The shortcut index is a substring search.  Built from texts with distinct keys and without
  NUL bytes (within the 32-bit limits of its arena and spill list), it never loops or reads out of
  range, and a query reports the rules of exactly those patterns of three bytes or more whose text
  occurs in \<open>http\<close>, or whose first 255 bytes occur in the host; each pattern is reported once,
  with its rules in load order.
\<close>

theorem shortcut_index_correct:
  assumes "distinct (map fst ps)" "patterns_fit ps"
  shows "\<exists>ix. build_shortcuts ps = Some ix \<and>
     (\<forall>host. \<exists>hits. find_rules ix (bytes_of host) = Some (concat (map snd hits)) \<and> distinct hits \<and>
        set hits = {p \<in> set ps. reported host p})"
proof -
  have "shortcuts_fit ps" using assms by (simp add: shortcuts_fit_def)
  from shortcuts.built [OF this] obtain ix where ix: "build_shortcuts ps = Some ix"
      "\<forall>host. \<exists>run. find_rules ix (bytes_of host) = Some run \<and> reports_once ps host run"
    by (elim exE conjE)
  have "\<exists>hits. find_rules ix (bytes_of host) = Some (concat (map snd hits)) \<and> distinct hits \<and>
      set hits = {p \<in> set ps. reported host p}" for host
    using ix(2) [THEN spec, of host] unfolding reports_once_def by (elim exE conjE) auto
  with ix(1) show ?thesis by blast
qed

theorem shortcut_index_correct_witness:
  "\<exists>ix hits. build_shortcuts [(''adserver'', [1]), (''ads'', [2, 3]), (''xyz'', [4])] = Some ix \<and>
     find_rules ix (bytes_of ''my-adserver.com'') = Some (concat (map snd hits)) \<and> distinct hits \<and>
     set hits = {(''adserver'', [1]), (''ads'', [2, 3])}"
proof -
  let ?ps = "[(''adserver'', [1]), (''ads'', [2, 3]), (''xyz'', [4])] :: (str \<times> u32 list) list"
  have h: "distinct (map fst ?ps)" "patterns_fit ?ps"
    by (simp_all add: patterns_fit_def arena_need_def rules_need_def SPILL_eq)
  have r: "{p \<in> set ?ps. reported ''my-adserver.com'' p} = {(''adserver'', [1]), (''ads'', [2, 3])}"
  proof -
    have "reported ''my-adserver.com'' (''adserver'', [1])" "reported ''my-adserver.com'' (''ads'', [2, 3])"
      "\<not> reported ''my-adserver.com'' (''xyz'', [4])"
      unfolding reported_def contains_str_iff [symmetric] by code_simp+
    then show ?thesis by auto
  qed
  obtain ix where ix: "build_shortcuts ?ps = Some ix" "\<forall>host. \<exists>hits. find_rules ix (bytes_of host) =
      Some (concat (map snd hits)) \<and> distinct hits \<and> set hits = {p \<in> set ?ps. reported host p}"
    using shortcut_index_correct [OF h] by (elim exE conjE)
  then have "\<exists>hits. find_rules ix (bytes_of ''my-adserver.com'') = Some (concat (map snd hits)) \<and> distinct hits \<and>
      set hits = {(''adserver'', [1]), (''ads'', [2, 3])}"
    using ix(2) [THEN spec, of "''my-adserver.com''"] unfolding r by blast
  with ix(1) show ?thesis by (elim exE, intro exI conjI) blast+
qed

end
