(* ===== verification/Reason.thy ===== *)
theory Reason
  imports Rust_Str
begin

text \<open>
  Filtering reasons and the statistics buckets they fall into:
  \<open>crates/sift-core/src/reason.rs\<close>.
\<close>

section \<open>Definitions\<close>

datatype reason =
    NotFilteredNotFound
  | NotFilteredAllowList
  | NotFilteredError
  | FilteredBlockList
  | FilteredSafeBrowsing
  | FilteredParental
  | FilteredInvalid
  | FilteredSafeSearch
  | FilteredBlockedService
  | Rewritten
  | RewrittenAutoHosts
  | RewrittenRule

text \<open>The \<open>#[repr(u8)]\<close> discriminants, which the query log stores.\<close>

fun reason_u8 :: "reason \<Rightarrow> u8" where
  "reason_u8 NotFilteredNotFound = 0"
| "reason_u8 NotFilteredAllowList = 1"
| "reason_u8 NotFilteredError = 2"
| "reason_u8 FilteredBlockList = 3"
| "reason_u8 FilteredSafeBrowsing = 4"
| "reason_u8 FilteredParental = 5"
| "reason_u8 FilteredInvalid = 6"
| "reason_u8 FilteredSafeSearch = 7"
| "reason_u8 FilteredBlockedService = 8"
| "reason_u8 Rewritten = 9"
| "reason_u8 RewrittenAutoHosts = 10"
| "reason_u8 RewrittenRule = 11"

definition ALL_REASONS :: "reason list" where
  "ALL_REASONS =
     [NotFilteredNotFound, NotFilteredAllowList, NotFilteredError, FilteredBlockList,
      FilteredSafeBrowsing, FilteredParental, FilteredInvalid, FilteredSafeSearch,
      FilteredBlockedService, Rewritten, RewrittenAutoHosts, RewrittenRule]"

definition reason_matched :: "reason \<Rightarrow> bool" where
  "reason_matched r \<longleftrightarrow> r \<noteq> NotFilteredNotFound"

fun is_filtered :: "reason \<Rightarrow> bool" where
  "is_filtered FilteredBlockList = True"
| "is_filtered FilteredSafeBrowsing = True"
| "is_filtered FilteredParental = True"
| "is_filtered FilteredInvalid = True"
| "is_filtered FilteredBlockedService = True"
| "is_filtered _ = False"

fun reason_str :: "reason \<Rightarrow> str" where
  "reason_str NotFilteredNotFound = ''NotFilteredNotFound''"
| "reason_str NotFilteredAllowList = ''NotFilteredWhiteList''"
| "reason_str NotFilteredError = ''NotFilteredError''"
| "reason_str FilteredBlockList = ''FilteredBlackList''"
| "reason_str FilteredSafeBrowsing = ''FilteredSafeBrowsing''"
| "reason_str FilteredParental = ''FilteredParental''"
| "reason_str FilteredInvalid = ''FilteredInvalid''"
| "reason_str FilteredSafeSearch = ''FilteredSafeSearch''"
| "reason_str FilteredBlockedService = ''FilteredBlockedService''"
| "reason_str Rewritten = ''Rewrite''"
| "reason_str RewrittenAutoHosts = ''RewriteEtcHosts''"
| "reason_str RewrittenRule = ''RewriteRule''"

definition from_name :: "str \<Rightarrow> reason option" where
  "from_name s = find (\<lambda>r. reason_str r = s) ALL_REASONS"

definition from_u8 :: "u8 \<Rightarrow> reason option" where
  "from_u8 v =
     (if v = 0 then Some NotFilteredNotFound
      else if v = 1 then Some NotFilteredAllowList
      else if v = 2 then Some NotFilteredError
      else if v = 3 then Some FilteredBlockList
      else if v = 4 then Some FilteredSafeBrowsing
      else if v = 5 then Some FilteredParental
      else if v = 6 then Some FilteredInvalid
      else if v = 7 then Some FilteredSafeSearch
      else if v = 8 then Some FilteredBlockedService
      else if v = 9 then Some Rewritten
      else if v = 10 then Some RewrittenAutoHosts
      else if v = 11 then Some RewrittenRule
      else None)"

text \<open>
  \<open>Serialize\<close> writes the discriminant.  \<open>Deserialize\<close> takes an integer or a name; \<open>None\<close> is the
  \<open>unknown reason\<close> error.  The \<open>as u8\<close> cast keeps the low eight bits.
\<close>

definition reason_serialize :: "reason \<Rightarrow> u64" where
  "reason_serialize r = ucast (reason_u8 r)"

definition reason_visit_u64 :: "u64 \<Rightarrow> reason option" where
  "reason_visit_u64 v = from_u8 (ucast v)"

definition reason_visit_i64 :: "int \<Rightarrow> reason option" where
  "reason_visit_i64 v = reason_visit_u64 (of_int (max v 0))"

definition reason_visit_str :: "str \<Rightarrow> reason option" where
  "reason_visit_str s = from_name s"

definition STATS_RESULT_COUNT :: nat where
  "STATS_RESULT_COUNT = 6"

datatype stats_result = NotFiltered | FilteredBlack | SafeBrowsing | SafeSearch | Parental

fun stats_index :: "stats_result \<Rightarrow> nat" where
  "stats_index NotFiltered = 1"
| "stats_index FilteredBlack = 2"
| "stats_index SafeBrowsing = 3"
| "stats_index SafeSearch = 4"
| "stats_index Parental = 5"

fun stats_from_reason :: "reason \<Rightarrow> stats_result" where
  "stats_from_reason FilteredBlockList = FilteredBlack"
| "stats_from_reason FilteredBlockedService = FilteredBlack"
| "stats_from_reason FilteredInvalid = FilteredBlack"
| "stats_from_reason FilteredSafeBrowsing = SafeBrowsing"
| "stats_from_reason FilteredSafeSearch = SafeSearch"
| "stats_from_reason FilteredParental = Parental"
| "stats_from_reason _ = NotFiltered"

section \<open>Lemmas\<close>

lemma from_u8_reason_u8 [simp]: "from_u8 (reason_u8 r) = Some r"
  by (cases r) (simp_all add: from_u8_def)

lemma from_u8_Some: "from_u8 v = Some r \<Longrightarrow> reason_u8 r = v"
  by (auto simp: from_u8_def split: if_splits)

lemma from_name_reason_str [simp]: "from_name (reason_str r) = Some r"
  by (cases r) (simp_all add: from_name_def ALL_REASONS_def)

lemma from_name_Some: "from_name s = Some r \<Longrightarrow> reason_str r = s"
  by (auto simp: from_name_def find_Some_iff)

lemma ucast_reason_serialize: "ucast (reason_serialize r) = reason_u8 r"
  by (cases r) (simp_all add: reason_serialize_def)

section \<open>Properties\<close>

text \<open>
  A reason survives the query log in both of its encodings: the integer discriminant and the
  API name each identify exactly one reason, and each reason has a statistics bucket inside the
  six-slot result array.
\<close>

theorem reason_roundtrip:
  "reason_visit_u64 (reason_serialize r) = Some r \<and> reason_visit_str (reason_str r) = Some r \<and>
   (from_u8 v = Some r \<longrightarrow> reason_u8 r = v) \<and> (from_name s = Some r \<longrightarrow> reason_str r = s) \<and>
   stats_index (stats_from_reason r) < STATS_RESULT_COUNT"
proof -
  have "stats_index (stats_from_reason r) < STATS_RESULT_COUNT"
    by (cases r) (simp_all add: STATS_RESULT_COUNT_def)
  then show ?thesis
    by (simp add: reason_visit_u64_def reason_visit_str_def ucast_reason_serialize from_u8_Some from_name_Some)
qed

theorem reason_roundtrip_witness:
  "reason_visit_u64 (reason_serialize FilteredBlockList) = Some FilteredBlockList \<and>
   from_u8 3 = Some FilteredBlockList \<and> reason_u8 FilteredBlockList = 3"
proof -
  have h: "from_u8 3 = Some FilteredBlockList" by (simp add: from_u8_def)
  show ?thesis using h reason_roundtrip [of FilteredBlockList 3 "[]"] by blast
qed

text \<open>
  Reading a reason from a 64-bit integer looks at its low eight bits only: an integer that is no
  discriminant is read as the reason 256 below it instead of being rejected as unknown.
\<close>

theorem reason_visit_truncates:
  "reason_visit_u64 v = from_u8 (ucast v) \<and> reason_visit_u64 (v + 256) = reason_visit_u64 v \<and>
   reason_visit_u64 259 = Some FilteredBlockList"
proof -
  have "(ucast (v + 256) :: u8) = ucast v"
    by transfer (simp add: take_bit_eq_mod mod_mod_cancel)
  then show ?thesis
    by (simp add: reason_visit_u64_def from_u8_def)
qed

end
