(* ===== verification/Engine.thy ===== *)
theory Engine
  imports Shortcut Reason
begin

text \<open>
  The rule store and the matching engine: \<open>crates/sift-filter/src/engine.rs\<close>.  A rule set is built
  line by line from list texts (\<open>Builder\<close>), files every network rule in exactly one of three
  indexes, and answers a request with the winning rule and the applicable \<open>$dnsrewrite\<close> rules.
  \<open>rx_new\<close> and \<open>rx_match\<close> are the \<open>regex\<close> crate's compiler and matcher; a match against a lazily
  compiled expression is its meaning (\<open>rx_meaning\<close>), as shown in \<open>Lazy_Regex\<close>.  \<open>None\<close> stands for a
  panic (an index out of range) or a probe loop that does not end.
\<close>

section \<open>Data\<close>

record text_ref =
  tr_off :: u32
  tr_len :: u16
  tr_src :: u16

datatype refs = One u32 | Many "u32 list"

fun refs_push :: "u32 \<Rightarrow> refs \<Rightarrow> refs" where
  "refs_push idx (One first) = Many [first, idx]"
| "refs_push idx (Many v) = Many (v @ [idx])"

fun refs_iter :: "refs \<Rightarrow> u32 list" where
  "refs_iter (One i) = [i]"
| "refs_iter (Many v) = v"

record request =
  hostname :: str
  qtype :: u16
  client_ip :: "ip_addr option"
  client_name :: "str option"
  client_tags :: "str list"

record matched_rule =
  m_text :: str
  m_list_id :: int
  m_ip :: "ip_addr option"

record match_result =
  mr_reason :: reason
  mr_rules :: "matched_rule list"
  mr_rewrites :: "dns_rewrite list"

definition no_match :: match_result where
  "no_match = \<lparr>mr_reason = NotFilteredNotFound, mr_rules = [], mr_rewrites = []\<rparr>"

definition result_matched :: "match_result \<Rightarrow> bool" where
  "result_matched r = reason_matched (mr_reason r)"

record 'rx rule_set =
  rs_net :: "'rx network_rule list"
  rs_sources :: "str list"
  rs_net_text :: "text_ref list"
  rs_hosts :: "host_rule list"
  rs_domain_index :: domain_index
  rs_host_index :: "str \<rightharpoonup> refs"
  rs_shortcuts :: shortcut_index
  rs_scan :: "u32 list"
  rs_badfilter :: "str set"
  rs_count :: nat

type_synonym 'rx candidate = "u32 \<times> 'rx network_rule"

section \<open>Rule texts\<close>

text \<open>\<open>str::get\<close> of a byte range: in range and on character boundaries.\<close>

definition char_boundary :: "str \<Rightarrow> nat \<Rightarrow> bool" where
  "char_boundary s i \<longleftrightarrow> i = 0 \<or> i = length s \<or> i < length s \<and> \<not> utf8_cont (s ! i)"

definition str_get :: "str \<Rightarrow> nat \<Rightarrow> nat \<Rightarrow> str option" where
  "str_get s a n = (if char_boundary s a \<and> char_boundary s (a + n) then slice s a n else None)"

definition text_at :: "text_ref list \<Rightarrow> str list \<Rightarrow> u32 \<Rightarrow> str" where
  "text_at trs srcs idx =
     (case index trs (unat idx) of
        None \<Rightarrow> []
      | Some r \<Rightarrow>
          (case index srcs (unat (tr_src r)) of
             None \<Rightarrow> []
           | Some t \<Rightarrow> (case str_get t (unat (tr_off r)) (unat (tr_len r)) of None \<Rightarrow> [] | Some x \<Rightarrow> x)))"

definition text_of :: "'rx rule_set \<Rightarrow> u32 \<Rightarrow> str" where
  "text_of set' idx = text_at (rs_net_text set') (rs_sources set') idx"

definition canonical_text :: "str \<Rightarrow> str" where
  "canonical_text t =
     (case rfind_char CHR ''$'' t of
        None \<Rightarrow> t
      | Some dollar \<Rightarrow>
          let head = take dollar t;
              kept = filter (\<lambda>m. trim m \<noteq> ''badfilter'') (split_char CHR '','' (drop (dollar + 1) t))
          in if kept = [] then head else head @ ''$'' @ join '','' kept)"

definition anchored_domain_is :: "str \<Rightarrow> str \<Rightarrow> bool" where
  "anchored_domain_is t dmn =
     (let t = (case strip_prefix ''@@'' t of Some r \<Rightarrow> r | None \<Rightarrow> t) in
      case strip_prefix ''||'' t of
        None \<Rightarrow> False
      | Some t \<Rightarrow>
          (case find_char CHR ''^'' t of
             None \<Rightarrow> False
           | Some e \<Rightarrow> eq_ignore_ascii_case (take e t) dmn))"

definition SCHEME :: str where
  "SCHEME = ''http://''"

definition URL_BUF :: nat where
  "URL_BUF = length SCHEME + 253"

definition url_for :: "str \<Rightarrow> str" where
  "url_for host =
     (if length host > URL_BUF - length SCHEME then SCHEME @ to_ascii_lowercase host
      else let buf = SCHEME @ to_ascii_lowercase host @ replicate (URL_BUF - length SCHEME - length host) (CHR 0x00)
           in take (length SCHEME + length host) buf)"

section \<open>Matching network rules\<close>

definition excluded :: "str_list \<Rightarrow> request \<Rightarrow> bool" where
  "excluded c req =
     list_ex (\<lambda>e. (case client_name req of Some n \<Rightarrow> eq_ignore_ascii_case n e | None \<Rightarrow> False) \<or>
                  (case client_ip req of Some i \<Rightarrow> eq_ignore_ascii_case (show_ip i) e | None \<Rightarrow> False))
       (s_excluded c)"

definition rank :: "'rx network_rule \<Rightarrow> nat" where
  "rank r =
     (case (allowlist r, rule_important r) of
        (True, True) \<Rightarrow> 3 | (False, True) \<Rightarrow> 2 | (True, False) \<Rightarrow> 1 | (False, False) \<Rightarrow> 0)"

definition higher_priority :: "'rx candidate \<Rightarrow> 'rx candidate \<Rightarrow> bool" where
  "higher_priority a b =
     (if rank (snd a) \<noteq> rank (snd b) then rank (snd a) > rank (snd b)
      else if specificity (snd a) \<noteq> specificity (snd b) then specificity (snd a) > specificity (snd b)
      else fst a < fst b)"

definition pattern_matches ::
  "(str \<Rightarrow> 'rx option) \<Rightarrow> ('rx \<Rightarrow> str \<Rightarrow> bool) \<Rightarrow> 'rx network_rule \<Rightarrow> request \<Rightarrow> str \<Rightarrow> bool" where
  "pattern_matches rx_new rx_match r req url =
     (case pattern r of
        AnyHost \<Rightarrow> True
      | DomainAnchor \<Rightarrow> True
      | Rx re t \<Rightarrow> rx_meaning rx_new rx_match (src re) (case t of Url \<Rightarrow> url | Hostname \<Rightarrow> hostname req))"

definition client_applies :: "str_list \<Rightarrow> request \<Rightarrow> bool" where
  "client_applies c req =
     ((case client_name req of Some n \<Rightarrow> sl_matches c n | None \<Rightarrow> False) \<or>
      (case client_ip req of Some i \<Rightarrow> sl_matches c (show_ip i) | None \<Rightarrow> False) \<or>
      (s_included c = [] \<and> \<not> excluded c req))"

definition applies ::
  "(str \<Rightarrow> 'rx option) \<Rightarrow> ('rx \<Rightarrow> str \<Rightarrow> bool) \<Rightarrow> 'rx network_rule \<Rightarrow> request \<Rightarrow> str \<Rightarrow> bool" where
  "applies rx_new rx_match r req url =
     (if rule_badfilter r then False
      else case opts r of
        None \<Rightarrow> pattern_matches rx_new rx_match r req url
      | Some o' \<Rightarrow>
          if (case dnstype o' of Some t \<Rightarrow> \<not> tl_matches t (qtype req) | None \<Rightarrow> False) then False
          else if (case client o' of Some c \<Rightarrow> \<not> client_applies c req | None \<Rightarrow> False) then False
          else if (case ctag o' of Some t \<Rightarrow> \<not> sl_matches_any t (client_tags req) | None \<Rightarrow> False) then False
          else if denyallow o' \<noteq> [] \<and> list_ex (\<lambda>d. is_subdomain_of (hostname req) d) (denyallow o') then False
          else pattern_matches rx_new rx_match r req url)"

type_synonym 'rx match_state = "'rx candidate option \<times> 'rx candidate list"

definition consider_rule ::
  "(str \<Rightarrow> 'rx option) \<Rightarrow> ('rx \<Rightarrow> str \<Rightarrow> bool) \<Rightarrow> 'rx rule_set \<Rightarrow> request \<Rightarrow> str \<Rightarrow> u32
     \<Rightarrow> 'rx match_state \<Rightarrow> 'rx match_state option" where
  "consider_rule rx_new rx_match set' req url idx st = do {
     r \<leftarrow> index (rs_net set') (unat idx);
     if rs_badfilter set' \<noteq> {} \<and> canonical_text (text_of set' idx) \<in> rs_badfilter set' then Some st
     else if \<not> applies rx_new rx_match r req url then Some st
     else if rule_dnsrewrite r \<noteq> None then Some (fst st, snd st @ [(idx, r)])
     else Some (case fst st of
                  None \<Rightarrow> (Some (idx, r), snd st)
                | Some b \<Rightarrow> if higher_priority (idx, r) b then (Some (idx, r), snd st) else st)
   }"

fun consider_all ::
  "(str \<Rightarrow> 'rx option) \<Rightarrow> ('rx \<Rightarrow> str \<Rightarrow> bool) \<Rightarrow> 'rx rule_set \<Rightarrow> request \<Rightarrow> str \<Rightarrow> u32 list
     \<Rightarrow> 'rx match_state \<Rightarrow> 'rx match_state option" where
  "consider_all rx_new rx_match set' req url [] st = Some st"
| "consider_all rx_new rx_match set' req url (i # js) st = do {
     st \<leftarrow> consider_rule rx_new rx_match set' req url i st;
     consider_all rx_new rx_match set' req url js st
   }"

fun walk_domains ::
  "(str \<Rightarrow> 'rx option) \<Rightarrow> ('rx \<Rightarrow> str \<Rightarrow> bool) \<Rightarrow> 'rx rule_set \<Rightarrow> request \<Rightarrow> str \<Rightarrow> str list
     \<Rightarrow> 'rx match_state \<Rightarrow> 'rx match_state option" where
  "walk_domains rx_new rx_match set' req url [] st = Some st"
| "walk_domains rx_new rx_match set' req url (s # ss) st = do {
     run \<leftarrow> get_index (rs_domain_index set') s (\<lambda>first. anchored_domain_is (text_of set' first) s);
     st \<leftarrow> consider_all rx_new rx_match set' req url run st;
     walk_domains rx_new rx_match set' req url ss st
   }"

definition match_network ::
  "(str \<Rightarrow> 'rx option) \<Rightarrow> ('rx \<Rightarrow> str \<Rightarrow> bool) \<Rightarrow> 'rx rule_set \<Rightarrow> request \<Rightarrow> 'rx match_state option" where
  "match_network rx_new rx_match set' req = do {
     let url = url_for (hostname req);
     st \<leftarrow> walk_domains rx_new rx_match set' req url (suffixes (hostname req)) (None, []);
     st \<leftarrow> (if \<not> shortcuts_is_empty (rs_shortcuts set')
           then do {
             found \<leftarrow> find_rules (rs_shortcuts set') (bytes_of (drop (length SCHEME) url));
             consider_all rx_new rx_match set' req url found st
           }
           else Some st);
     consider_all rx_new rx_match set' req url (rs_scan set') st
   }"

fun index_all :: "'a list \<Rightarrow> u32 list \<Rightarrow> 'a list option" where
  "index_all xs [] = Some []"
| "index_all xs (i # js) = do { x \<leftarrow> index xs (unat i); ys \<leftarrow> index_all xs js; Some (x # ys) }"

definition match_hosts :: "'rx rule_set \<Rightarrow> request \<Rightarrow> host_rule list option" where
  "match_hosts set' req =
     (case rs_host_index set' (hostname req) of
        None \<Rightarrow> Some []
      | Some ids \<Rightarrow> index_all (rs_hosts set') (refs_iter ids))"

section \<open>Building a rule set\<close>

record 'rx builder =
  bd_net :: "'rx network_rule list"
  bd_sources :: "str list"
  bd_net_text :: "text_ref list"
  bd_hosts :: "host_rule list"
  bd_domain_pairs :: "(str \<times> u32) list"
  bd_host_index :: "str \<rightharpoonup> refs"
  bd_shortcuts :: "(str \<times> u32 list) list"
  bd_scan :: "u32 list"
  bd_badfilter :: "str set"
  bd_count :: nat

definition builder_default :: "'rx builder" where
  "builder_default = \<lparr>bd_net = [], bd_sources = [], bd_net_text = [], bd_hosts = [],
     bd_domain_pairs = [], bd_host_index = Map.empty, bd_shortcuts = [], bd_scan = [],
     bd_badfilter = {}, bd_count = 0\<rparr>"

text \<open>
  \<open>str::lines\<close> with the byte offset of each line: a line ends at a line feed, a carriage return
  before the line feed is not part of it, and a text that ends in a line feed has no last empty line.
\<close>

function lines_from :: "nat \<Rightarrow> str \<Rightarrow> (nat \<times> str) list" where
  "lines_from off s =
     (if s = [] then []
      else let l = takeWhile (\<lambda>c. c \<noteq> CHR 0x0A) s in
           case dropWhile (\<lambda>c. c \<noteq> CHR 0x0A) s of
             [] \<Rightarrow> [(off, l)]
           | _ # rest \<Rightarrow> (off, strip_cr l) # lines_from (off + length l + 1) rest)"
  by auto
termination
proof (relation "measure (\<lambda>(off, s). length s)", goal_cases)
  case (2 off s l x rest)
  then show ?case using length_dropWhile_le [of "\<lambda>c. c \<noteq> CHR 0x0A" s] by simp
qed simp

declare lines_from.simps [simp del]

fun al_push :: "'k \<Rightarrow> 'v \<Rightarrow> ('k \<times> 'v list) list \<Rightarrow> ('k \<times> 'v list) list" where
  "al_push k v [] = [(k, [v])]"
| "al_push k v ((k', vs) # m) = (if k' = k then (k', vs @ [v]) # m else (k', vs) # al_push k v m)"

definition push_ref :: "str \<Rightarrow> u32 \<Rightarrow> (str \<rightharpoonup> refs) \<Rightarrow> (str \<rightharpoonup> refs)" where
  "push_ref key idx m =
     (case m key of Some r \<Rightarrow> m(key \<mapsto> refs_push idx r) | None \<Rightarrow> m(key \<mapsto> One idx))"

definition add_network ::
  "'rx network_rule \<Rightarrow> str \<Rightarrow> u16 \<Rightarrow> u32 \<Rightarrow> str option \<Rightarrow> 'rx builder \<Rightarrow> 'rx builder" where
  "add_network r t srcno off sc b =
     (let b = b\<lparr>bd_count := bd_count b + 1\<rparr>;
          b = (if rule_badfilter r then b\<lparr>bd_badfilter := insert (canonical_text t) (bd_badfilter b)\<rparr> else b);
          idx = of_nat (length (bd_net b));
          n = (if length t < 2 ^ 16 then of_nat (length t) else 0);
          b = b\<lparr>bd_net_text := bd_net_text b @ [\<lparr>tr_off = off, tr_len = n, tr_src = srcno\<rparr>]\<rparr>;
          b = (case (pattern r, sc) of
                 (DomainAnchor, Some d) \<Rightarrow> b\<lparr>bd_domain_pairs := bd_domain_pairs b @ [(d, idx)]\<rparr>
               | (Rx _ _, Some s) \<Rightarrow>
                   if length s \<ge> MIN_SHORTCUT_LEN then b\<lparr>bd_shortcuts := al_push s idx (bd_shortcuts b)\<rparr>
                   else b\<lparr>bd_scan := bd_scan b @ [idx]\<rparr>
               | _ \<Rightarrow> b\<lparr>bd_scan := bd_scan b @ [idx]\<rparr>)
      in b\<lparr>bd_net := bd_net b @ [r]\<rparr>)"

definition add_host :: "host_rule \<Rightarrow> 'rx builder \<Rightarrow> 'rx builder" where
  "add_host h b =
     (let idx = of_nat (length (bd_hosts b)) in
      b\<lparr>bd_count := bd_count b + 1,
        bd_host_index := fold (\<lambda>name. push_ref name idx) (h_hostnames h) (bd_host_index b),
        bd_hosts := bd_hosts b @ [h]\<rparr>)"

definition add_line :: "(str \<Rightarrow> 'rx option) \<Rightarrow> int \<Rightarrow> u16 \<Rightarrow> nat \<times> str \<Rightarrow> 'rx builder \<Rightarrow> 'rx builder" where
  "add_line rx_new lid srcno line b =
     (case parse rx_new (snd line) lid of
        Inr (Network n) \<Rightarrow>
          add_network (pn_rule n) (trim (snd line)) srcno
            (of_nat (fst line + (length (snd line) - length (trim_start (snd line))))) (pn_shortcut n) b
      | Inr (Host h) \<Rightarrow> add_host h b
      | Inl _ \<Rightarrow> b)"

definition add_list :: "(str \<Rightarrow> 'rx option) \<Rightarrow> int \<times> str \<Rightarrow> 'rx builder \<Rightarrow> 'rx builder" where
  "add_list rx_new l b =
     fold (add_line rx_new (fst l) (of_nat (length (bd_sources b)))) (lines_from 0 (snd l))
       (b\<lparr>bd_sources := bd_sources b @ [snd l]\<rparr>)"

definition finish :: "'rx builder \<Rightarrow> 'rx rule_set option" where
  "finish b = do {
     dix \<leftarrow> build_index (bd_domain_pairs b);
     six \<leftarrow> build_shortcuts (bd_shortcuts b);
     Some \<lparr>rs_net = bd_net b, rs_sources = bd_sources b, rs_net_text = bd_net_text b,
           rs_hosts = bd_hosts b, rs_domain_index = dix, rs_host_index = bd_host_index b,
           rs_shortcuts = six, rs_scan = bd_scan b, rs_badfilter = bd_badfilter b,
           rs_count = bd_count b\<rparr>
   }"

definition build_set :: "(str \<Rightarrow> 'rx option) \<Rightarrow> (int \<times> str) list \<Rightarrow> 'rx rule_set option" where
  "build_set rx_new ls = finish (fold (add_list rx_new) ls builder_default)"

definition set_is_empty :: "'rx rule_set \<Rightarrow> bool" where
  "set_is_empty s \<longleftrightarrow> rs_count s = 0"

section \<open>The engine\<close>

record 'rx engine =
  allow :: "'rx rule_set"
  block :: "'rx rule_set"

definition build_engine ::
  "(str \<Rightarrow> 'rx option) \<Rightarrow> (int \<times> str) list \<Rightarrow> (int \<times> str) list \<Rightarrow> 'rx engine option" where
  "build_engine rx_new blk alw = do {
     a \<leftarrow> build_set rx_new alw;
     b \<leftarrow> build_set rx_new blk;
     Some \<lparr>allow = a, block = b\<rparr>
   }"

definition engine_len :: "'rx engine \<Rightarrow> nat" where
  "engine_len e = rs_count (allow e) + rs_count (block e)"

definition to_matched :: "'rx rule_set \<Rightarrow> 'rx candidate \<Rightarrow> matched_rule" where
  "to_matched s c = \<lparr>m_text = text_of s (fst c), m_list_id = list_id (snd c), m_ip = None\<rparr>"

definition host_matched :: "host_rule \<Rightarrow> matched_rule" where
  "host_matched h = \<lparr>m_text = h_text h, m_list_id = h_list_id h, m_ip = Some (h_ip h)\<rparr>"

definition match_allow ::
  "(str \<Rightarrow> 'rx option) \<Rightarrow> ('rx \<Rightarrow> str \<Rightarrow> bool) \<Rightarrow> 'rx engine \<Rightarrow> request \<Rightarrow> match_result option option" where
  "match_allow rx_new rx_match e req =
     (if set_is_empty (allow e) then Some None
      else do {
        (net, _) \<leftarrow> match_network rx_new rx_match (allow e) req;
        case net of
          Some c \<Rightarrow> Some (Some \<lparr>mr_reason = NotFilteredAllowList, mr_rules = [to_matched (allow e) c],
                                mr_rewrites = []\<rparr>)
        | None \<Rightarrow> do {
            hosts \<leftarrow> match_hosts (allow e) req;
            Some (if hosts \<noteq> []
                  then Some \<lparr>mr_reason = NotFilteredAllowList, mr_rules = map host_matched hosts,
                             mr_rewrites = []\<rparr>
                  else None)
          }
      })"

definition select_family :: "u16 \<Rightarrow> host_rule list \<Rightarrow> host_rule list" where
  "select_family qt hosts =
     (let want_v4 = (qt = 1); want_v6 = (qt = 28) in
      if want_v4 \<or> want_v6
      then let f = filter (\<lambda>h. is_ipv4 (h_ip h) = want_v4) hosts in if f = [] then hosts else f
      else hosts)"

definition match_block ::
  "(str \<Rightarrow> 'rx option) \<Rightarrow> ('rx \<Rightarrow> str \<Rightarrow> bool) \<Rightarrow> 'rx engine \<Rightarrow> request \<Rightarrow> match_result option" where
  "match_block rx_new rx_match e req = do {
     (net, rewrites) \<leftarrow> match_network rx_new rx_match (block e) req;
     if rewrites \<noteq> [] \<and> \<not> list_ex (\<lambda>c. rule_dnsrewrite (snd c) = Some Exclude) rewrites
     then Some \<lparr>mr_reason = RewrittenRule, mr_rules = map (to_matched (block e)) rewrites,
                mr_rewrites = List.map_filter (\<lambda>c. rule_dnsrewrite (snd c)) rewrites\<rparr>
     else case net of
       Some c \<Rightarrow> Some \<lparr>mr_reason = (if allowlist (snd c) then NotFilteredAllowList else FilteredBlockList),
                       mr_rules = [to_matched (block e) c], mr_rewrites = []\<rparr>
     | None \<Rightarrow> do {
         hosts \<leftarrow> match_hosts (block e) req;
         Some (if hosts \<noteq> []
               then \<lparr>mr_reason = FilteredBlockList,
                     mr_rules = map host_matched (select_family (qtype req) hosts), mr_rewrites = []\<rparr>
               else no_match)
       }
   }"

definition match_request ::
  "(str \<Rightarrow> 'rx option) \<Rightarrow> ('rx \<Rightarrow> str \<Rightarrow> bool) \<Rightarrow> 'rx engine \<Rightarrow> request \<Rightarrow> match_result option" where
  "match_request rx_new rx_match e req =
     (if hostname req = [] then Some no_match
      else do {
        a \<leftarrow> match_allow rx_new rx_match e req;
        case a of Some r \<Rightarrow> Some r | None \<Rightarrow> match_block rx_new rx_match e req
      })"

end
