(* ===== verification/Matching.thy ===== *)
theory Matching
  imports Engine
begin

text \<open>
  The engine answers as a plain search through the rules would.  The reference is the list of the
  network rules in load order (\<open>rule_items\<close>); the theories of the two indexes, the builder's
  invariant and the order of priorities together show that the indexed engine picks the same
  winner and the same rewrites, without a panic or an endless loop.
\<close>

section \<open>Choosing the winner\<close>

text \<open>
  A strict order on candidates that is total on candidates with different keys: keeping the better
  of the running best and each candidate in turn ends with the candidate that beats all others,
  whatever the order they came in.
\<close>

locale priority_order =
  fixes beats :: "'c \<Rightarrow> 'c \<Rightarrow> bool" and key :: "'c \<Rightarrow> 'k"
  assumes beats_irrefl: "\<not> beats a a"
    and beats_trans: "beats a b \<Longrightarrow> beats b c \<Longrightarrow> beats a c"
    and beats_total: "key a \<noteq> key b \<Longrightarrow> beats a b \<or> beats b a"
begin

definition pick :: "'c \<Rightarrow> 'c option \<Rightarrow> 'c option" where
  "pick c best = (case best of None \<Rightarrow> Some c | Some b \<Rightarrow> if beats c b then Some c else Some b)"

lemma beats_asym: "beats a b \<Longrightarrow> \<not> beats b a"
  using beats_trans beats_irrefl by blast

lemma pick_all_best:
  assumes inj: "inj_on key C" and "set cs \<subseteq> C" "set_option best \<subseteq> C" "fold pick cs best = Some w"
  shows "w \<in> set cs \<union> set_option best \<and> (\<forall>c \<in> set cs \<union> set_option best. c \<noteq> w \<longrightarrow> beats w c)"
  using assms(2-)
proof (induction cs arbitrary: best)
  case (Cons c cs)
  have "\<exists>m. pick c best = Some m \<and> m \<in> insert c (set_option best)"
    by (cases best) (auto simp: pick_def)
  then obtain m where m: "pick c best = Some m" "m \<in> insert c (set_option best)" by blast
  have over: "beats m d" if "d \<in> insert c (set_option best)" "d \<noteq> m" for d
  proof -
    have "d \<in> C" "m \<in> C" using that m(2) Cons.prems(1,2) by auto
    then have "beats m d \<or> beats d m" using beats_total that(2) inj by (meson inj_onD)
    then show ?thesis using m that by (auto simp: pick_def split: option.splits if_splits dest: beats_asym)
  qed
  have "set_option (pick c best) \<subseteq> C" using m Cons.prems(1,2) by auto
  then have IH: "w \<in> set cs \<union> {m}" "\<forall>d \<in> set cs \<union> {m}. d \<noteq> w \<longrightarrow> beats w d"
    using Cons.IH [of "pick c best"] Cons.prems(1,3) m(1) by auto
  have "beats w d" if "d \<in> insert c (set_option best)" "d \<noteq> w" for d
    using over [OF that(1)] IH(2) that(2) beats_trans by (metis Un_insert_right insertI1)
  with IH m(2) show ?case by auto
qed auto

lemma pick_all_none: "fold pick cs best = None \<longleftrightarrow> cs = [] \<and> best = None"
proof (induction cs arbitrary: best)
  case (Cons c cs)
  have "pick c best \<noteq> None" by (simp add: pick_def split: option.splits)
  with Cons show ?case by simp
qed simp

text \<open>The winner does not depend on the order of the candidates.\<close>

lemma pick_all_order:
  assumes "inj_on key (set cs)" "set ds = set cs"
  shows "fold pick ds None = fold pick cs None"
proof (cases "fold pick cs None")
  case None
  then show ?thesis using assms(2) pick_all_none by (metis set_empty)
next
  case (Some w)
  then have "fold pick ds None \<noteq> None" using assms(2) pick_all_none by (metis set_empty option.discI)
  then obtain v where v: "fold pick ds None = Some v" by blast
  have "w \<in> set cs \<and> (\<forall>c \<in> set cs. c \<noteq> w \<longrightarrow> beats w c)"
    using pick_all_best [OF assms(1) subset_refl _ Some] by simp
  moreover have "v \<in> set cs \<and> (\<forall>c \<in> set cs. c \<noteq> v \<longrightarrow> beats v c)"
    using pick_all_best [OF assms(1) _ _ v] assms(2) by simp
  ultimately have "v = w" using beats_asym by metis
  with Some v show ?thesis by simp
qed

end

lemma higher_priority_lex:
  "higher_priority a b \<longleftrightarrow>
     rank (snd b) < rank (snd a) \<or>
     rank (snd b) = rank (snd a) \<and>
       (specificity (snd b) < specificity (snd a) \<or>
        specificity (snd b) = specificity (snd a) \<and> fst a < fst b)"
  by (auto simp: higher_priority_def)

interpretation prio: priority_order higher_priority fst
  by unfold_locales (auto simp: higher_priority_lex)

section \<open>Folding candidates\<close>

text \<open>A candidate counts if it is not cancelled by a \<open>$badfilter\<close> rule and applies.\<close>

definition counts ::
  "(str \<Rightarrow> 'rx option) \<Rightarrow> ('rx \<Rightarrow> str \<Rightarrow> bool) \<Rightarrow> 'rx rule_set \<Rightarrow> request \<Rightarrow> u32 \<Rightarrow> bool" where
  "counts rx_new rx_match s req i \<longleftrightarrow>
     canonical_text (text_of s i) \<notin> rs_badfilter s \<and>
     applies rx_new rx_match (rs_net s ! unat i) req (url_for (hostname req))"

definition cand :: "'rx rule_set \<Rightarrow> u32 \<Rightarrow> 'rx candidate" where
  "cand s i = (i, rs_net s ! unat i)"

definition rewrites_rule :: "'rx rule_set \<Rightarrow> u32 \<Rightarrow> bool" where
  "rewrites_rule s i \<longleftrightarrow> rule_dnsrewrite (rs_net s ! unat i) \<noteq> None"

lemma consider_rule_eq:
  assumes "unat i < length (rs_net s)"
  shows "consider_rule rx_new rx_match s req (url_for (hostname req)) i st =
     Some (if \<not> counts rx_new rx_match s req i then st
           else if rewrites_rule s i then (fst st, snd st @ [cand s i])
           else (prio.pick (cand s i) (fst st), snd st))"
  using assms
  by (cases st) (auto simp: consider_rule_def index_def counts_def rewrites_rule_def cand_def prio.pick_def
      split: option.splits)

lemma consider_all_eq:
  assumes "\<forall>i \<in> set js. unat i < length (rs_net s)"
  shows "consider_all rx_new rx_match s req (url_for (hostname req)) js st =
     (let live = filter (counts rx_new rx_match s req) js in
      Some (fold prio.pick (map (cand s) (filter (\<lambda>i. \<not> rewrites_rule s i) live)) (fst st),
            snd st @ map (cand s) (filter (rewrites_rule s) live)))"
  using assms
proof (induction js arbitrary: st)
  case (Cons i js)
  then show ?case
    by (auto simp: consider_rule_eq Let_def)
qed simp

lemma consider_all_append:
  "consider_all rx_new rx_match s req url (as @ bs) st =
     do { st \<leftarrow> consider_all rx_new rx_match s req url as st; consider_all rx_new rx_match s req url bs st }"
  by (induction as arbitrary: st) (auto split: Option.bind_splits)

text \<open>All three phases are one pass over the concatenated candidates.\<close>

lemma walk_domains_eq:
  assumes "\<And>s. s \<in> set ss \<Longrightarrow>
     get_index (rs_domain_index set') s (\<lambda>first. anchored_domain_is (text_of set' first) s) = Some (run s)"
  shows "walk_domains rx_new rx_match set' req url ss st =
     consider_all rx_new rx_match set' req url (concat (map run ss)) st"
  using assms
  by (induction ss arbitrary: st) (auto simp: consider_all_append split: Option.bind_splits)

lemma match_network_eq:
  assumes "\<And>s. s \<in> set (suffixes (hostname req)) \<Longrightarrow>
     get_index (rs_domain_index set') s (\<lambda>first. anchored_domain_is (text_of set' first) s) = Some (run s)"
    and "find_rules (rs_shortcuts set') (bytes_of (to_ascii_lowercase (hostname req))) = Some found"
    and "shortcuts_is_empty (rs_shortcuts set') \<Longrightarrow> found = []"
  shows "match_network rx_new rx_match set' req =
     consider_all rx_new rx_match set' req (url_for (hostname req))
       (concat (map run (suffixes (hostname req))) @ found @ rs_scan set') (None, [])"
proof -
  have "drop (length SCHEME) (url_for (hostname req)) = to_ascii_lowercase (hostname req)"
    by (simp add: url_for_def Let_def URL_BUF_def SCHEME_def)
  then show ?thesis
    using assms(2,3) walk_domains_eq [where ss = "suffixes (hostname req)", OF assms(1)]
    by (cases "shortcuts_is_empty (rs_shortcuts set')")
       (auto simp: match_network_def consider_all_append Let_def split: Option.bind_splits)
qed

section \<open>The text of a rule is found again\<close>

text \<open>
  A list text is a Rust string, so the byte after a complete white-space character starts a new
  character.
\<close>

fun breaks_ok :: "str \<Rightarrow> bool" where
  "breaks_ok [] = True"
| "breaks_ok (c # s) =
     (list_all (\<lambda>w. case strip_prefix w (c # s) of Some (d # _) \<Rightarrow> \<not> utf8_cont d | _ \<Rightarrow> True) white_space
      \<and> breaks_ok s)"

lemma breaks_okD: "breaks_ok (p @ w @ q) \<Longrightarrow> w \<in> set white_space \<Longrightarrow> q = [] \<or> \<not> utf8_cont (hd q)"
proof (induction p)
  case Nil
  have w: "w \<noteq> []" using Nil.prems(2) by (auto simp: white_space_def)
  then obtain c s where cs: "w @ q = c # s" by (cases w) auto
  have "strip_prefix w (c # s) = Some q" unfolding cs [symmetric] by (rule strip_prefix_append)
  moreover have "breaks_ok (c # s)" using Nil.prems(1) cs by simp
  ultimately have "case Some q of Some (d # _) \<Rightarrow> \<not> utf8_cont d | _ \<Rightarrow> True"
    using Nil.prems(2) unfolding breaks_ok.simps list_all_iff by metis
  then show ?case by (cases q) auto
qed simp

lemma white_space_hd: "w \<in> set white_space \<Longrightarrow> w \<noteq> [] \<and> \<not> utf8_cont (hd w)"
proof -
  have "list_all (\<lambda>w. w \<noteq> [] \<and> \<not> utf8_cont (hd w)) white_space" by code_simp
  then show "w \<in> set white_space \<Longrightarrow> w \<noteq> [] \<and> \<not> utf8_cont (hd w)" by (simp add: list_all_iff)
qed

lemma trim_start_by_split:
  "\<exists>u. s = u @ trim_start_by ws s \<and> (u = [] \<or> (\<exists>a w. w \<in> set ws \<and> u = a @ w))"
proof (induction ws s rule: trim_start_by.induct)
  case (1 ws s)
  let ?n = "white_prefix ws s"
  show ?case
  proof (cases "s = [] \<or> ?n = 0")
    case True
    then show ?thesis by (simp add: trim_start_by.simps [of ws s] Let_def)
  next
    case False
    then obtain w where "find (starts_with s) ws = Some w" "?n = length w"
      by (auto simp: white_prefix_def split: option.splits)
    then have w: "w \<in> set ws" "starts_with s w" "?n = length w"
      by (auto simp: find_Some_iff)
    then have s: "s = w @ drop ?n s" by (auto simp: starts_with_def) (metis append_take_drop_id)
    obtain u where u: "drop ?n s = u @ trim_start_by ws (drop ?n s)" "u = [] \<or> (\<exists>a w. w \<in> set ws \<and> u = a @ w)"
      using 1 [OF refl False] by blast
    have "trim_start_by ws s = trim_start_by ws (drop ?n s)"
      using False by (simp add: trim_start_by.simps [of ws s] Let_def)
    then have "s = (w @ u) @ trim_start_by ws s" using s u(1) by simp
    moreover have "\<exists>a v. v \<in> set ws \<and> w @ u = a @ v" using u(2) w(1) by (metis append.assoc append_Nil append_Nil2)
    ultimately show ?thesis by blast
  qed
qed

lemma trim_split:
  obtains u v where "s = u @ trim s @ v" "length u = length s - length (trim_start s)"
    "u = [] \<or> (\<exists>a w. w \<in> set white_space \<and> u = a @ w)" "v = [] \<or> \<not> utf8_cont (hd v)"
proof -
  obtain u where u: "s = u @ trim_start s" "u = [] \<or> (\<exists>a w. w \<in> set white_space \<and> u = a @ w)"
    unfolding trim_start_def using trim_start_by_split by blast
  let ?r = "trim_start_by (map rev white_space) (rev (trim_start s))"
  obtain v where v: "rev (trim_start s) = v @ ?r" "v = [] \<or> (\<exists>a w. w \<in> set (map rev white_space) \<and> v = a @ w)"
    using trim_start_by_split by blast
  have t: "trim_start s = trim s @ rev v"
    using arg_cong [OF v(1), of rev] by (simp add: trim_def trim_end_def)
  have "rev v = [] \<or> \<not> utf8_cont (hd (rev v))"
    using v(2) white_space_hd by (auto simp: hd_append)
  moreover have "length u = length s - length (trim_start s)" using arg_cong [OF u(1), of length] by simp
  moreover have "s = u @ trim s @ rev v" using u(1) t by simp
  ultimately show ?thesis using that u(2) by blast
qed

lemma lines_from_at:
  "(i, l) \<in> set (lines_from off s) \<Longrightarrow>
     \<exists>a r. s = a @ l @ r \<and> i = off + length a \<and> (a = [] \<or> last a = CHR 0x0A) \<and>
           (r = [] \<or> \<not> utf8_cont (hd r))"
proof (induction off s rule: lines_from.induct)
  case (1 off s)
  let ?l = "takeWhile (\<lambda>c. c \<noteq> CHR 0x0A) s" and ?d = "dropWhile (\<lambda>c. c \<noteq> CHR 0x0A) s"
  have s: "s = ?l @ ?d" by simp
  have ne: "s \<noteq> []" using 1(2) by (auto simp: lines_from.simps [of off s])
  show ?case
  proof (cases ?d)
    case Nil
    then have "lines_from off s = [(off, ?l)]"
      using ne by (subst lines_from.simps) (simp only: Let_def if_False list.case)
    with 1(2) s Nil show ?thesis by (intro exI [of _ "[]"] exI [of _ "[]"]) auto
  next
    case (Cons c rest)
    have c: "c = CHR 0x0A" using hd_dropWhile [of "\<lambda>c. c \<noteq> CHR 0x0A" s] Cons by auto
    have lf: "lines_from off s = (off, strip_cr ?l) # lines_from (off + length ?l + 1) rest"
      using ne Cons by (subst lines_from.simps) (simp only: Let_def if_False list.case)
    consider "(i, l) = (off, strip_cr ?l)" | "(i, l) \<in> set (lines_from (off + length ?l + 1) rest)"
      using 1(2) lf by auto
    then show ?thesis
    proof cases
      case 1
      obtain t where t: "?l = strip_cr ?l @ t" "t = [] \<or> t = [CHR 0x0D]"
        by (cases "strip_suffix [CHR 0x0D] ?l") (auto simp: strip_cr_def strip_suffix_Some)
      have "s = [] @ l @ (t @ c # rest)" using 1 s Cons t(1) by (metis append.assoc append_Nil prod.inject)
      moreover have "\<not> utf8_cont (hd (t @ c # rest))" using t(2) c by (auto simp: utf8_cont_def)
      ultimately show ?thesis using 1 by (intro exI [of _ "[]"] exI [of _ "t @ c # rest"]) simp
    next
      case 2
      obtain a r where a: "rest = a @ l @ r" "i = off + length ?l + 1 + length a"
          "a = [] \<or> last a = CHR 0x0A" "r = [] \<or> \<not> utf8_cont (hd r)"
        using 1(1) [OF ne refl Cons 2] by blast
      have "s = (?l @ [c] @ a) @ l @ r" using s Cons a(1) by simp
      moreover have "last (?l @ [c] @ a) = CHR 0x0A" using a(3) c by auto
      ultimately show ?thesis using a(2,4) by (intro exI [of _ "?l @ [c] @ a"] exI [of _ r]) auto
    qed
  qed
qed

lemma boundary_append: "p = [] \<or> q = [] \<or> \<not> utf8_cont (hd q) \<Longrightarrow> char_boundary (p @ q) (length p)"
  by (cases q) (auto simp: char_boundary_def nth_append)

text \<open>The byte range the builder records for a rule is its trimmed line.\<close>

lemma line_text_ref:
  assumes "(i, l) \<in> set (lines_from 0 s)" "breaks_ok s"
  shows "str_get s (i + (length l - length (trim_start l))) (length (trim l)) = Some (trim l)"
    "i + (length l - length (trim_start l)) + length (trim l) \<le> length s"
proof -
  obtain a r where a: "s = a @ l @ r" "i = length a" "a = [] \<or> last a = CHR 0x0A" "r = [] \<or> \<not> utf8_cont (hd r)"
    using lines_from_at [OF assms(1)] by auto
  obtain u v where u: "l = u @ trim l @ v" "length u = length l - length (trim_start l)"
      "u = [] \<or> (\<exists>a w. w \<in> set white_space \<and> u = a @ w)" "v = [] \<or> \<not> utf8_cont (hd v)"
    by (rule trim_split)
  have s: "s = (a @ u) @ trim l @ v @ r" using a(1) u(1) by (metis append.assoc)
  have "a @ u = [] \<or> (\<exists>p w. w \<in> set white_space \<and> a @ u = p @ w)"
  proof (cases "u = []")
    case True
    have "[CHR 0x0A] \<in> set white_space" by (simp add: white_space_def)
    then show ?thesis using a(3) True by (metis append_Nil2 append_butlast_last_id)
  next
    case False
    then show ?thesis using u(3) by (metis append.assoc)
  qed
  then have "a @ u = [] \<or> trim l @ v @ r = [] \<or> \<not> utf8_cont (hd (trim l @ v @ r))"
    using breaks_okD assms(2) s by (metis append.assoc)
  then have "char_boundary s (length (a @ u))" unfolding s by (rule boundary_append)
  moreover have "char_boundary s (length (a @ u) + length (trim l))"
    using boundary_append [of "(a @ u) @ trim l" "v @ r"] a(4) u(4) s
    by (cases v) (auto simp: add.assoc)
  moreover have "length (a @ u) = i + (length l - length (trim_start l))" using a(2) u(2) by simp
  moreover have "slice s (length (a @ u)) (length (trim l)) = Some (trim l)"
    by (subst s) (simp add: slice_def)
  ultimately show "str_get s (i + (length l - length (trim_start l))) (length (trim l)) = Some (trim l)"
    by (simp add: str_get_def)
  show "i + (length l - length (trim_start l)) + length (trim l) \<le> length s"
    using arg_cong [OF s, of length] a(2) u(2) by simp
qed

section \<open>The reference: rules in load order\<close>

type_synonym 'rx rule_item = "'rx network_rule \<times> str \<times> str option"

abbreviation item_rule :: "'rx rule_item \<Rightarrow> 'rx network_rule" where "item_rule x \<equiv> fst x"
abbreviation item_text :: "'rx rule_item \<Rightarrow> str" where "item_text x \<equiv> fst (snd x)"
abbreviation item_key :: "'rx rule_item \<Rightarrow> str option" where "item_key x \<equiv> snd (snd x)"

definition line_item :: "(str \<Rightarrow> 'rx option) \<Rightarrow> int \<Rightarrow> str \<Rightarrow> 'rx rule_item list" where
  "line_item rx_new lid line =
     (case parse rx_new line lid of Inr (Network n) \<Rightarrow> [(pn_rule n, trim line, pn_shortcut n)] | _ \<Rightarrow> [])"

definition list_items :: "(str \<Rightarrow> 'rx option) \<Rightarrow> int \<times> str \<Rightarrow> 'rx rule_item list" where
  "list_items rx_new l = concat (map (\<lambda>line. line_item rx_new (fst l) (snd line)) (lines_from 0 (snd l)))"

definition rule_items :: "(str \<Rightarrow> 'rx option) \<Rightarrow> (int \<times> str) list \<Rightarrow> 'rx rule_item list" where
  "rule_items rx_new ls = concat (map (list_items rx_new) ls)"

text \<open>Where the builder files a rule: under a domain, under a shortcut, or (neither) in the scan list.\<close>

definition domain_key :: "'rx rule_item \<Rightarrow> str option" where
  "domain_key x = (case pattern (item_rule x) of DomainAnchor \<Rightarrow> item_key x | _ \<Rightarrow> None)"

definition shortcut_key :: "'rx rule_item \<Rightarrow> str option" where
  "shortcut_key x =
     (case pattern (item_rule x) of
        Rx _ _ \<Rightarrow> (case item_key x of Some s \<Rightarrow> if MIN_SHORTCUT_LEN \<le> length s then Some s else None | None \<Rightarrow> None)
      | _ \<Rightarrow> None)"

definition numbers :: "('a \<Rightarrow> bool) \<Rightarrow> 'a list \<Rightarrow> nat list" where
  "numbers P xs = filter (\<lambda>j. P (xs ! j)) [0..<length xs]"

lemma numbers_snoc: "numbers P (xs @ [x]) = numbers P xs @ (if P x then [length xs] else [])"
proof -
  have "filter (\<lambda>j. P ((xs @ [x]) ! j)) [0..<length xs] = numbers P xs"
    unfolding numbers_def by (intro filter_cong) (auto simp: nth_append)
  then show ?thesis by (simp add: numbers_def)
qed

lemma set_numbers [simp]: "j \<in> set (numbers P xs) \<longleftrightarrow> j < length xs \<and> P (xs ! j)"
  by (auto simp: numbers_def)

lemma distinct_numbers [simp]: "distinct (numbers P xs)"
  by (simp add: numbers_def)

lemma map_numbers_snoc:
  "map (\<lambda>j. f ((xs @ [x]) ! j) j) (numbers P xs) = map (\<lambda>j. f (xs ! j) j) (numbers P xs)"
  by (intro map_cong) (auto simp: nth_append)

definition ref_ok :: "str list \<Rightarrow> text_ref \<Rightarrow> str \<Rightarrow> bool" where
  "ref_ok srcs r t \<longleftrightarrow> unat (tr_src r) < length srcs \<and>
     str_get (srcs ! unat (tr_src r)) (unat (tr_off r)) (unat (tr_len r)) = Some t"

definition builder_inv :: "'rx rule_item list \<Rightarrow> 'rx builder \<Rightarrow> bool" where
  "builder_inv xs b \<longleftrightarrow>
     bd_net b = map fst xs \<and>
     list_all2 (\<lambda>r x. ref_ok (bd_sources b) r (item_text x)) (bd_net_text b) xs \<and>
     bd_domain_pairs b = map (\<lambda>j. (the (domain_key (xs ! j)), of_nat j)) (numbers (\<lambda>x. domain_key x \<noteq> None) xs) \<and>
     distinct (map fst (bd_shortcuts b)) \<and>
     (\<forall>s. map_of (bd_shortcuts b) s =
        (let js = numbers (\<lambda>x. shortcut_key x = Some s) xs in if js = [] then None else Some (map of_nat js))) \<and>
     bd_scan b = map of_nat (numbers (\<lambda>x. domain_key x = None \<and> shortcut_key x = None) xs) \<and>
     bd_badfilter b = {canonical_text (item_text x) | x. x \<in> set xs \<and> rule_badfilter (item_rule x)}"

lemma builder_inv_init: "builder_inv [] builder_default"
  by (simp add: builder_inv_def builder_default_def numbers_def)

lemma al_push_keys: "fst ` set (al_push k v m) = insert k (fst ` set m)"
  by (induction k v m rule: al_push.induct) auto

lemma al_push_distinct: "distinct (map fst m) \<Longrightarrow> distinct (map fst (al_push k v m))"
  by (induction k v m rule: al_push.induct) (auto simp: al_push_keys)

lemma map_of_al_push:
  "map_of (al_push k v m) = (map_of m)(k \<mapsto> (case map_of m k of None \<Rightarrow> [] | Some vs \<Rightarrow> vs) @ [v])"
  by (induction k v m rule: al_push.induct) (auto simp: fun_eq_iff)

lemma ref_ok_sources: "ref_ok srcs r t \<Longrightarrow> ref_ok (srcs @ extra) r t"
  by (auto simp: ref_ok_def nth_append)

lemma builder_inv_sources: "builder_inv xs b \<Longrightarrow> builder_inv xs (b\<lparr>bd_sources := bd_sources b @ extra\<rparr>)"
  unfolding builder_inv_def by (auto elim!: list_all2_mono simp: ref_ok_sources)

lemma add_host_inv: "builder_inv xs b \<Longrightarrow> builder_inv xs (add_host h b)"
  by (simp add: builder_inv_def add_host_def Let_def)

lemma add_network_fields:
  fixes r :: "'rx network_rule" and b :: "'rx builder" and t :: str and sc :: "str option"
  defines "x \<equiv> (r, t, sc)" and "n \<equiv> length (bd_net b)"
  shows "bd_net (add_network r t srcno off sc b) = bd_net b @ [r]"
    "bd_sources (add_network r t srcno off sc b) = bd_sources b"
    "bd_net_text (add_network r t srcno off sc b) = bd_net_text b @
       [\<lparr>tr_off = off, tr_len = (if length t < 2 ^ 16 then of_nat (length t) else 0), tr_src = srcno\<rparr>]"
    "bd_domain_pairs (add_network r t srcno off sc b) =
       bd_domain_pairs b @ (case domain_key x of Some d \<Rightarrow> [(d, of_nat n)] | None \<Rightarrow> [])"
    "bd_shortcuts (add_network r t srcno off sc b) =
       (case shortcut_key x of Some s \<Rightarrow> al_push s (of_nat n) (bd_shortcuts b) | None \<Rightarrow> bd_shortcuts b)"
    "bd_scan (add_network r t srcno off sc b) =
       bd_scan b @ (if domain_key x = None \<and> shortcut_key x = None then [of_nat n] else [])"
    "bd_badfilter (add_network r t srcno off sc b) =
       (if rule_badfilter r then insert (canonical_text t) (bd_badfilter b) else bd_badfilter b)"
  by (cases "pattern r"; cases sc; simp add: x_def n_def add_network_def Let_def domain_key_def shortcut_key_def)+

lemma add_network_inv:
  assumes inv: "builder_inv xs b"
    and ref: "ref_ok (bd_sources b) \<lparr>tr_off = off, tr_len = of_nat (length t), tr_src = srcno\<rparr> t" "length t < 2 ^ 16"
  shows "builder_inv (xs @ [(r, t, sc)]) (add_network r t srcno off sc b)"
proof -
  let ?x = "(r, t, sc)" and ?b = "add_network r t srcno off sc b"
  note f = add_network_fields [of r t srcno off sc b]
  have n: "length (bd_net b) = length xs" using inv by (simp add: builder_inv_def)
  have "bd_net ?b = map fst (xs @ [?x])" using inv f(1) by (simp add: builder_inv_def)
  moreover have "list_all2 (\<lambda>r x. ref_ok (bd_sources ?b) r (item_text x)) (bd_net_text ?b) (xs @ [?x])"
    using inv ref unfolding f(2,3) by (simp add: builder_inv_def list_all2_appendI)
  moreover have "bd_domain_pairs ?b =
      map (\<lambda>j. (the (domain_key ((xs @ [?x]) ! j)), of_nat j)) (numbers (\<lambda>x. domain_key x \<noteq> None) (xs @ [?x]))"
    using inv n unfolding f(4) numbers_snoc builder_inv_def
    by (auto simp: map_numbers_snoc [of "\<lambda>x j. (the (domain_key x), of_nat j)"] split: option.splits)
  moreover have "distinct (map fst (bd_shortcuts ?b))"
    using inv unfolding f(5) builder_inv_def by (auto simp: al_push_distinct split: option.splits)
  moreover have "map_of (bd_shortcuts ?b) s =
      (let js = numbers (\<lambda>x. shortcut_key x = Some s) (xs @ [?x]) in if js = [] then None else Some (map of_nat js))" for s
    using inv n unfolding f(5) numbers_snoc builder_inv_def
    by (auto simp: map_of_al_push Let_def split: option.splits)
  moreover have "bd_scan ?b = map of_nat (numbers (\<lambda>x. domain_key x = None \<and> shortcut_key x = None) (xs @ [?x]))"
    using inv n unfolding f(6) numbers_snoc builder_inv_def by auto
  moreover have "bd_badfilter ?b = {canonical_text (item_text x) | x. x \<in> set (xs @ [?x]) \<and> rule_badfilter (item_rule x)}"
    using inv unfolding f(7) builder_inv_def by auto
  ultimately show ?thesis unfolding builder_inv_def by blast
qed

lemma add_line_inv:
  assumes inv: "builder_inv xs b" and line: "l \<in> set (lines_from 0 s)" and s: "breaks_ok s" "length s < 2 ^ 32"
    and src: "unat srcno < length (bd_sources b)" "bd_sources b ! unat srcno = s"
    and short: "\<forall>x \<in> set (line_item rx_new lid (snd l)). length (item_text x) < 2 ^ 16"
  shows "builder_inv (xs @ line_item rx_new lid (snd l)) (add_line rx_new lid srcno l b)"
    "bd_sources (add_line rx_new lid srcno l b) = bd_sources b"
proof -
  let ?off = "fst l + (length (snd l) - length (trim_start (snd l)))"
  have li: "(fst l, snd l) \<in> set (lines_from 0 s)" using line by simp
  note at = line_text_ref [OF li s(1)]
  consider n where "parse rx_new (snd l) lid = Inr (Network n)"
    | h where "parse rx_new (snd l) lid = Inr (Host h)" | e where "parse rx_new (snd l) lid = Inl e"
    by (metis rule.exhaust sum.exhaust)
  then have "builder_inv (xs @ line_item rx_new lid (snd l)) (add_line rx_new lid srcno l b) \<and>
      bd_sources (add_line rx_new lid srcno l b) = bd_sources b"
  proof cases
    case 1
    let ?t = "trim (snd l)"
    have t: "length ?t < 2 ^ 16" using short 1 by (simp add: line_item_def)
    have "unat (of_nat ?off :: u32) = ?off" using at(2) s(2) by (intro unat_of_nat_small) (simp del: of_nat_add)
    moreover have "unat (of_nat (length ?t) :: u16) = length ?t" using t by (intro unat_of_nat_small) simp
    ultimately have "ref_ok (bd_sources b) \<lparr>tr_off = of_nat ?off, tr_len = of_nat (length ?t), tr_src = srcno\<rparr> ?t"
      using src at(1) by (simp add: ref_ok_def del: of_nat_add)
    from add_network_inv [OF inv this t] 1 show ?thesis
      by (simp add: add_line_def line_item_def add_network_fields del: of_nat_add)
  next
    case 2
    then show ?thesis using add_host_inv [OF inv] by (simp add: add_line_def line_item_def) (simp add: add_host_def Let_def)
  next
    case 3
    then show ?thesis using inv by (simp add: add_line_def line_item_def)
  qed
  then show "builder_inv (xs @ line_item rx_new lid (snd l)) (add_line rx_new lid srcno l b)"
    "bd_sources (add_line rx_new lid srcno l b) = bd_sources b" by blast+
qed

lemma add_lines_inv:
  assumes "breaks_ok s" "length s < 2 ^ 32"
  shows "builder_inv xs b \<Longrightarrow> set lines \<subseteq> set (lines_from 0 s) \<Longrightarrow>
    unat srcno < length (bd_sources b) \<Longrightarrow> bd_sources b ! unat srcno = s \<Longrightarrow>
    \<forall>x \<in> set (concat (map (\<lambda>l. line_item rx_new lid (snd l)) lines)). length (item_text x) < 2 ^ 16 \<Longrightarrow>
    builder_inv (xs @ concat (map (\<lambda>l. line_item rx_new lid (snd l)) lines)) (fold (add_line rx_new lid srcno) lines b) \<and>
    bd_sources (fold (add_line rx_new lid srcno) lines b) = bd_sources b"
proof (induction lines arbitrary: xs b)
  case (Cons l lines)
  have l: "l \<in> set (lines_from 0 s)" using Cons.prems(2) by simp
  have sh: "\<forall>x \<in> set (line_item rx_new lid (snd l)). length (item_text x) < 2 ^ 16" using Cons.prems(5) by simp
  note step = add_line_inv [OF Cons.prems(1) l assms Cons.prems(3,4) sh]
  have p: "set lines \<subseteq> set (lines_from 0 s)"
    "\<forall>x \<in> set (concat (map (\<lambda>l. line_item rx_new lid (snd l)) lines)). length (item_text x) < 2 ^ 16"
    using Cons.prems(2,5) by auto
  from Cons.IH [OF step(1) p(1) _ _ p(2)] Cons.prems(3,4) step(2) show ?case by simp
qed simp

definition lists_fit :: "(str \<Rightarrow> 'rx option) \<Rightarrow> (int \<times> str) list \<Rightarrow> bool" where
  "lists_fit rx_new ls \<longleftrightarrow>
     length ls \<le> 2 ^ 16 \<and> list_all (\<lambda>l. breaks_ok (snd l) \<and> length (snd l) < 2 ^ 32) ls \<and>
     list_all (\<lambda>x. length (item_text x) < 2 ^ 16) (rule_items rx_new ls) \<and>
     length (rule_items rx_new ls) < 2 ^ 30 \<and>
     sum_list (map (\<lambda>x. 6 + length (item_text x)) (rule_items rx_new ls)) < 2 ^ 32"

lemma add_lists_inv:
  assumes "length (bd_sources b) + length ls \<le> 2 ^ 16" "builder_inv xs b"
    "list_all (\<lambda>l. breaks_ok (snd l) \<and> length (snd l) < 2 ^ 32) ls"
    "list_all (\<lambda>x. length (item_text x) < 2 ^ 16) (rule_items rx_new ls)"
  shows "builder_inv (xs @ rule_items rx_new ls) (fold (add_list rx_new) ls b)"
  using assms
proof (induction ls arbitrary: xs b)
  case (Cons l ls)
  let ?b = "b\<lparr>bd_sources := bd_sources b @ [snd l]\<rparr>"
  let ?n = "length (bd_sources b)"
  let ?c = "add_list rx_new l b"
  have u: "unat (of_nat ?n :: u16) = ?n" using Cons.prems(1) by (intro unat_of_nat_small) simp
  have items: "rule_items rx_new (l # ls) = list_items rx_new l @ rule_items rx_new ls" by (simp add: rule_items_def)
  have c: "builder_inv (xs @ list_items rx_new l) ?c \<and> bd_sources ?c = bd_sources ?b"
    unfolding add_list_def list_items_def
    using builder_inv_sources [OF Cons.prems(2)] u Cons.prems(3,4)
    by (intro add_lines_inv) (auto simp: list_all_iff items list_items_def)
  have "builder_inv ((xs @ list_items rx_new l) @ rule_items rx_new ls) (fold (add_list rx_new) ls ?c)"
    using c Cons.prems(1,3,4) by (intro Cons.IH) (auto simp: items)
  then show ?case by (simp add: items)
qed (simp add: rule_items_def)

lemma built_builder_inv:
  "lists_fit rx_new ls \<Longrightarrow> builder_inv (rule_items rx_new ls) (fold (add_list rx_new) ls builder_default)"
  using add_lists_inv [of builder_default ls "[]" rx_new] builder_inv_init
  by (auto simp: lists_fit_def builder_default_def)

lemma ref_text: "ref_ok srcs r t \<Longrightarrow> trs ! unat i = r \<Longrightarrow> unat i < length trs \<Longrightarrow> text_at trs srcs i = t"
  by (simp add: ref_ok_def text_at_def index_def)

lemma builder_inv_text:
  assumes "builder_inv xs b" "j < length xs" "length xs < 2 ^ 32"
  shows "text_at (bd_net_text b) (bd_sources b) (of_nat j) = item_text (xs ! j)"
proof -
  have u: "unat (of_nat j :: u32) = j" using assms(2,3) by (intro unat_of_nat_small) simp
  have "list_all2 (\<lambda>r x. ref_ok (bd_sources b) r (item_text x)) (bd_net_text b) xs"
    using assms(1) by (simp add: builder_inv_def)
  then have "ref_ok (bd_sources b) (bd_net_text b ! j) (item_text (xs ! j))" "length (bd_net_text b) = length xs"
    using assms(2) by (auto simp: list_all2_conv_all_nth)
  then show ?thesis using assms(2) u by (intro ref_text) auto
qed

section \<open>Shape of parsed rules\<close>

lemma parse_network_cases:
  assumes "parse rx_new line lid = Inr (Network n)"
  obtains s p o' dmn where
    "trim line = s \<or> trim line = ''@@'' @ s" "(case strip_prefix ''@@'' (trim line) of Some r \<Rightarrow> r | None \<Rightarrow> trim line) = s"
    "split_options s = Inr (p, o')" "parse_pattern rx_new p = Inr (pattern (pn_rule n), dmn)"
    "pn_shortcut n = (case pattern (pn_rule n) of DomainAnchor \<Rightarrow> dmn | _ \<Rightarrow> shortcut p MIN_SHORTCUT_LEN)"
proof -
  have pn: "parse_network_rule rx_new (trim line) lid = Inr n"
    using assms by (auto simp: parse_def Let_def map_sum_def split: if_splits option.splits sum.splits)
  define s where "s = (case strip_prefix ''@@'' (trim line) of Some r \<Rightarrow> r | None \<Rightarrow> trim line)"
  have "trim line = s \<or> trim line = ''@@'' @ s"
    by (auto simp: s_def strip_prefix_Some split: option.splits)
  moreover obtain p o' where so: "split_options s = Inr (p, o')"
    using pn by (cases "split_options s") (auto simp: parse_network_rule_def s_def split: option.splits)
  moreover obtain pat dmn where pp: "parse_pattern rx_new p = Inr (pat, dmn)"
    using pn so by (cases "parse_pattern rx_new p") (auto simp: parse_network_rule_def s_def split: option.splits)
  moreover have "pat = pattern (pn_rule n)"
    "pn_shortcut n = (case pat of DomainAnchor \<Rightarrow> dmn | _ \<Rightarrow> shortcut p MIN_SHORTCUT_LEN)"
    using pn so pp by (auto simp: parse_network_rule_def s_def Let_def split: option.splits)
  ultimately show ?thesis using that s_def by metis
qed

text \<open>A domain-anchored rule names its own key, whatever modifiers follow.\<close>

lemma anchored_item:
  assumes "parse rx_new line lid = Inr (Network n)" "pattern (pn_rule n) = DomainAnchor" "pn_shortcut n = Some d"
  shows "anchored_domain_is (trim line) e \<longleftrightarrow> to_ascii_lowercase e = d" "to_ascii_lowercase d = d" "d \<noteq> []"
proof -
  obtain s p o' dmn where c: "(case strip_prefix ''@@'' (trim line) of Some r \<Rightarrow> r | None \<Rightarrow> trim line) = s"
    "split_options s = Inr (p, o')" "parse_pattern rx_new p = Inr (DomainAnchor, dmn)" "dmn = Some d"
    by (rule parse_network_cases [OF assms(1)]) (use assms(2,3) in auto)
  have "domain_anchor_of p = Some d" using parse_pattern_anchor [OF c(3)] c(4) by simp
  then obtain m where m: "p = ''||'' @ m @ ''^''" "d = to_ascii_lowercase m" "plain_domain m" "m \<noteq> []"
    by (rule domain_anchor_of_Some)
  obtain r where "s = p @ r" using split_options_prefix [OF c(2)] by blast
  then have s: "s = ''||'' @ m @ CHR ''^'' # r" using m(1) by simp
  have "CHR ''^'' \<notin> set m" using plain_domain_avoids [OF m(3), of "CHR ''^''"] by simp
  then have "find_char CHR ''^'' (m @ CHR ''^'' # r) = Some (length m)"
    unfolding find_char_def by (induction m) auto
  moreover have "strip_prefix ''||'' s = Some (m @ CHR ''^'' # r)" using s by (simp only: strip_prefix_append)
  ultimately show "anchored_domain_is (trim line) e \<longleftrightarrow> to_ascii_lowercase e = d"
    using c(1) m(2) by (auto simp: anchored_domain_is_def Let_def eq_ignore_ascii_case_def)
  show "to_ascii_lowercase d = d" "d \<noteq> []" using m(2,4) by (auto simp: to_ascii_lowercase_def)
qed

lemma shortcut_literal:
  "shortcut p m = Some s \<Longrightarrow> length s \<le> length p \<and> CHR 0x00 \<notin> set s"
proof -
  assume a: "shortcut p m = Some s"
  let ?run = "shortcut_scan (shortcut_src p) [] []"
  have s: "s = to_ascii_lowercase ?run" using a by (simp add: shortcut_def Let_def split: if_splits)
  have r: "sublist ?run (shortcut_src p)" "list_all is_literal ?run"
    using shortcut_scan_longest [of "[]" "shortcut_src p" "[]"] by auto
  have "length ?run \<le> length (shortcut_src p)" using r(1) by (rule sublist_length_le)
  also have "\<dots> \<le> length p" by (simp add: shortcut_src_def)
  finally have "length s \<le> length p" by (simp add: s)
  moreover have "to_ascii_lower c \<noteq> CHR 0x00" if "is_literal c" for c
    using that by (auto simp: is_literal_def to_ascii_lower_def ascii_defs dest!: arg_cong [of "char_of _" _ byte])
  then have "CHR 0x00 \<notin> set s" using r(2) by (fastforce simp: s to_ascii_lowercase_def list_all_iff)
  ultimately show ?thesis by blast
qed

lemma rule_item_parsed:
  assumes "x \<in> set (rule_items rx_new ls)"
  obtains line lid n where "parse rx_new line lid = Inr (Network n)" "x = (pn_rule n, trim line, pn_shortcut n)"
proof -
  obtain lid line where "x \<in> set (line_item rx_new lid line)"
    using assms by (auto simp: rule_items_def list_items_def)
  then show ?thesis
    using that by (cases "parse rx_new line lid") (auto simp: line_item_def split: rule.splits)
qed

lemma item_shortcut:
  assumes "x \<in> set (rule_items rx_new ls)" "shortcut_key x = Some s"
  shows "length s \<le> length (item_text x)" "CHR 0x00 \<notin> set s" "MIN_SHORTCUT_LEN \<le> length s"
proof -
  obtain line lid n where n: "parse rx_new line lid = Inr (Network n)" "x = (pn_rule n, trim line, pn_shortcut n)"
    using rule_item_parsed [OF assms(1)] .
  obtain s' p o' dmn where c: "trim line = s' \<or> trim line = ''@@'' @ s'" "split_options s' = Inr (p, o')"
    "pn_shortcut n = (case pattern (pn_rule n) of DomainAnchor \<Rightarrow> dmn | _ \<Rightarrow> shortcut p MIN_SHORTCUT_LEN)"
    by (rule parse_network_cases [OF n(1)])
  have sc: "shortcut p MIN_SHORTCUT_LEN = Some s" and "MIN_SHORTCUT_LEN \<le> length s"
    using assms(2) n(2) c(3) by (auto simp: shortcut_key_def split: rule_pattern.splits option.splits if_splits)
  then show "MIN_SHORTCUT_LEN \<le> length s" by simp
  obtain r where "s' = p @ r" using split_options_prefix [OF c(2)] by blast
  then have "length p \<le> length (trim line)" using c(1) by auto
  with shortcut_literal [OF sc] n(2) show "length s \<le> length (item_text x)" "CHR 0x00 \<notin> set s" by auto
qed

lemma item_domain:
  assumes "x \<in> set (rule_items rx_new ls)" "domain_key x = Some d"
  shows "anchored_domain_is (item_text x) d" "d \<noteq> []" "to_ascii_lowercase d = d"
proof -
  obtain line lid n where n: "parse rx_new line lid = Inr (Network n)" "x = (pn_rule n, trim line, pn_shortcut n)"
    using rule_item_parsed [OF assms(1)] .
  have "pattern (pn_rule n) = DomainAnchor" "pn_shortcut n = Some d"
    using assms(2) n(2) by (auto simp: domain_key_def split: rule_pattern.splits)
  from anchored_item [OF n(1) this] n(2)
  show "anchored_domain_is (item_text x) d" "d \<noteq> []" "to_ascii_lowercase d = d" by auto
qed

section \<open>What is filed fits the indexes\<close>

lemma sum_classes:
  fixes g :: "'a \<Rightarrow> nat"
  assumes "finite K" shows "(\<Sum>k \<in> K. sum_list (map g (filter (\<lambda>x. f x = Some k) xs))) \<le> sum_list (map g xs)"
proof (induction xs)
  case (Cons x xs)
  have "(\<Sum>k \<in> K. sum_list (map g (filter (\<lambda>x. f x = Some k) (x # xs)))) =
      (\<Sum>k \<in> K. (if f x = Some k then g x else 0) + sum_list (map g (filter (\<lambda>x. f x = Some k) xs)))"
    by (intro sum.cong) auto
  also have "\<dots> \<le> g x + sum_list (map g xs)"
  proof -
    have "(\<Sum>k \<in> K. if f x = Some k then g x else 0) \<le> g x"
      using assms by (cases "f x") (auto simp: sum.delta')
    with Cons show ?thesis by (simp add: sum.distrib)
  qed
  finally show ?case by simp
qed simp

lemma length_numbers: "length (numbers P xs) = length (filter P xs)"
proof (induction xs rule: rev_induct)
  case Nil
  then show ?case by (simp add: numbers_def)
qed (simp add: numbers_snoc)

lemma sum_list_alist:
  fixes g :: "'a \<times> 'b \<Rightarrow> nat"
  shows "distinct (map fst m) \<Longrightarrow> sum_list (map g m) = (\<Sum>k \<in> fst ` set m. g (k, the (map_of m k)))"
proof (induction m)
  case (Cons p m)
  obtain k v where p: "p = (k, v)" by (cases p)
  have "(\<Sum>j \<in> fst ` set m. g (j, the (map_of (p # m) j))) = (\<Sum>j \<in> fst ` set m. g (j, the (map_of m j)))"
    using Cons.prems by (intro sum.cong) (auto simp: p)
  with Cons show ?case by (simp add: p)
qed simp

lemma built_fits:
  assumes fit: "lists_fit rx_new ls" and inv: "builder_inv (rule_items rx_new ls) b"
  shows "pairs_fit (bd_domain_pairs b)" "shortcuts_fit (bd_shortcuts b)"
proof -
  let ?xs = "rule_items rx_new ls" and ?m = "bd_shortcuts b"
  have n: "length ?xs < 2 ^ 30" using fit by (simp add: lists_fit_def)
  have small: "(of_nat j :: u32) < SPILL" if "j < length ?xs" for j
  proof -
    have "unat (of_nat j :: u32) = j" using that n by (intro unat_of_nat_small) simp
    then show ?thesis using that n by (simp add: SPILL_eq word_less_nat_alt)
  qed
  show "pairs_fit (bd_domain_pairs b)"
    using inv n small by (auto simp: pairs_fit_def builder_inv_def length_numbers
        intro: le_less_trans [OF length_filter_le])
  have d: "distinct (map fst ?m)" using inv by (simp add: builder_inv_def)
  have look: "map_of ?m s = (let js = numbers (\<lambda>x. shortcut_key x = Some s) ?xs in
      if js = [] then None else Some (map of_nat js))" for s
    using inv by (simp add: builder_inv_def)
  have entry: "js = map of_nat (numbers (\<lambda>x. shortcut_key x = Some s) ?xs) \<and> js \<noteq> []" if "(s, js) \<in> set ?m" for s js
    using look [of s] that d by (auto simp: Let_def split: if_splits)
  have key: "filter (\<lambda>x. shortcut_key x = Some s) ?xs \<noteq> []" if "s \<in> fst ` set ?m" for s
    using entry that by (fastforce simp flip: length_greater_0_conv simp: length_numbers)
  have "rules_need ?m = (\<Sum>s \<in> fst ` set ?m. 1 + length (the (map_of ?m s)))"
    unfolding rules_need_def using sum_list_alist [OF d, of "\<lambda>p. 1 + length (snd p)"] by simp
  also have "\<dots> \<le> (\<Sum>s \<in> fst ` set ?m. 2 * sum_list (map (\<lambda>_. 1) (filter (\<lambda>x. shortcut_key x = Some s) ?xs)))"
  proof (rule sum_mono)
    fix s assume s: "s \<in> fst ` set ?m"
    have "the (map_of ?m s) = map of_nat (numbers (\<lambda>x. shortcut_key x = Some s) ?xs)"
      using look [of s] s by (auto simp: Let_def map_of_eq_None_iff split: if_splits)
    then show "1 + length (the (map_of ?m s)) \<le> 2 * sum_list (map (\<lambda>_. 1) (filter (\<lambda>x. shortcut_key x = Some s) ?xs))"
      using key [OF s] by (cases "filter (\<lambda>x. shortcut_key x = Some s) ?xs") (auto simp: length_numbers sum_list_triv)
  qed
  also have "\<dots> \<le> 2 * length ?xs"
    using sum_classes [of "fst ` set ?m" "\<lambda>_. 1" shortcut_key ?xs] by (simp add: sum_distrib_left [symmetric] sum_list_triv)
  finally have rules: "rules_need ?m < 2 ^ 31 - 1" using n by simp
  have "arena_need ?m = (\<Sum>s \<in> fst ` set ?m. 6 + length s)"
    unfolding arena_need_def using sum_list_alist [OF d, of "\<lambda>p. 6 + length (fst p)"] by simp
  also have "\<dots> \<le> (\<Sum>s \<in> fst ` set ?m. sum_list (map (\<lambda>x. 6 + length (item_text x)) (filter (\<lambda>x. shortcut_key x = Some s) ?xs)))"
  proof (rule sum_mono)
    fix s assume "s \<in> fst ` set ?m"
    then obtain y ys where y: "filter (\<lambda>x. shortcut_key x = Some s) ?xs = y # ys"
      using key by (metis list.exhaust)
    then have "y \<in> set (filter (\<lambda>x. shortcut_key x = Some s) ?xs)" by simp
    then have "y \<in> set ?xs" "shortcut_key y = Some s" by simp_all
    from item_shortcut(1) [OF this]
    show "6 + length s \<le> sum_list (map (\<lambda>x. 6 + length (item_text x)) (filter (\<lambda>x. shortcut_key x = Some s) ?xs))"
      by (simp add: y)
  qed
  also have "\<dots> \<le> sum_list (map (\<lambda>x. 6 + length (item_text x)) ?xs)" by (rule sum_classes) simp
  also have "\<dots> < 2 ^ 32" using fit by (simp add: lists_fit_def)
  finally have arena: "arena_need ?m < 2 ^ 32" .
  have "CHR 0x00 \<notin> set s \<and> (\<forall>r \<in> set js. r < SPILL)" if m: "(s, js) \<in> set ?m" for s js
  proof -
    have "filter (\<lambda>x. shortcut_key x = Some s) ?xs \<noteq> []" using key m by force
    then obtain x where "x \<in> set ?xs" "shortcut_key x = Some s" by (auto simp: filter_empty_conv)
    from item_shortcut(2) [OF this] show ?thesis using entry [OF m] small by auto
  qed
  with d arena rules show "shortcuts_fit ?m"
    by (auto simp: shortcuts_fit_def patterns_fit_def)
qed

section \<open>The candidates of a request\<close>

text \<open>
  A rule is a candidate if the host is its domain or below it, if its shortcut occurs in the host
  (or in the scheme), or if it has neither; it is eligible if moreover no \<open>$badfilter\<close> rule cancels
  it and its pattern and modifiers apply.
\<close>

definition candidate_for :: "str \<Rightarrow> 'rx rule_item \<Rightarrow> bool" where
  "candidate_for host x =
     (case domain_key x of
        Some d \<Rightarrow> is_subdomain_of host d
      | None \<Rightarrow>
          (case shortcut_key x of
             Some s \<Rightarrow> sublist s ''http'' \<or> sublist (take MAX_TEXT s) (to_ascii_lowercase host)
           | None \<Rightarrow> True))"

definition cancelled :: "'rx rule_item list \<Rightarrow> 'rx rule_item \<Rightarrow> bool" where
  "cancelled xs x \<longleftrightarrow>
     (\<exists>y \<in> set xs. rule_badfilter (item_rule y) \<and> canonical_text (item_text y) = canonical_text (item_text x))"

definition eligible ::
  "(str \<Rightarrow> 'rx option) \<Rightarrow> ('rx \<Rightarrow> str \<Rightarrow> bool) \<Rightarrow> 'rx rule_item list \<Rightarrow> request \<Rightarrow> 'rx rule_item \<Rightarrow> bool" where
  "eligible rx_new rx_match xs req x \<longleftrightarrow>
     candidate_for (hostname req) x \<and> \<not> cancelled xs x \<and>
     applies rx_new rx_match (item_rule x) req (url_for (hostname req))"

text \<open>
  What the rules mean, without any index: a rule is in force for a request if the host is its domain
  or below it (for a \<open>||domain^\<close> rule), no \<open>$badfilter\<close> rule cancels it, and its pattern and
  modifiers apply.  The prefilter hides a rule in force whose shortcut does not occur in the host:
  \<open>shortcut_shown\<close> says that it does not.
\<close>

definition covers_host :: "str \<Rightarrow> 'rx rule_item \<Rightarrow> bool" where
  "covers_host host x = (case domain_key x of Some d \<Rightarrow> is_subdomain_of host d | None \<Rightarrow> True)"

definition in_force ::
  "(str \<Rightarrow> 'rx option) \<Rightarrow> ('rx \<Rightarrow> str \<Rightarrow> bool) \<Rightarrow> 'rx rule_item list \<Rightarrow> request \<Rightarrow> 'rx rule_item \<Rightarrow> bool" where
  "in_force rx_new rx_match xs req x \<longleftrightarrow>
     covers_host (hostname req) x \<and> \<not> cancelled xs x \<and>
     applies rx_new rx_match (item_rule x) req (url_for (hostname req))"

definition shortcut_shown :: "str \<Rightarrow> 'rx rule_item \<Rightarrow> bool" where
  "shortcut_shown host x \<longleftrightarrow>
     (case shortcut_key x of
        Some s \<Rightarrow> sublist s ''http'' \<or> sublist s (to_ascii_lowercase host)
      | None \<Rightarrow> True)"

lemma eligible_in_force:
  assumes "in_force rx_new rx_match xs req x \<Longrightarrow> shortcut_shown (hostname req) x"
  shows "eligible rx_new rx_match xs req x \<longleftrightarrow> in_force rx_new rx_match xs req x"
proof -
  have "sublist (take MAX_TEXT s) h" if "sublist s h" for s h :: str
    using that sublist_order.order_trans sublist_take by blast
  moreover have "domain_key x = None \<or> shortcut_key x = None"
    by (auto simp: domain_key_def shortcut_key_def split: rule_pattern.splits)
  ultimately show ?thesis
    using assms
    by (auto simp: eligible_def in_force_def candidate_for_def covers_host_def shortcut_shown_def
        split: option.splits)
qed

lemma distinct_concat_mapI:
  assumes "distinct ss" "\<And>s. s \<in> set ss \<Longrightarrow> distinct (f s)"
    "\<And>s t. s \<in> set ss \<Longrightarrow> t \<in> set ss \<Longrightarrow> s \<noteq> t \<Longrightarrow> set (f s) \<inter> set (f t) = {}"
  shows "distinct (concat (map f ss))"
  using assms
proof (induction ss)
  case (Cons s ss)
  have "distinct (concat (map f ss))" using Cons.prems by (intro Cons.IH) auto
  moreover have "set (f s) \<inter> (\<Union>t \<in> set ss. set (f t)) = {}"
    using Cons.prems(1,3) by fastforce
  ultimately show ?case using Cons.prems(2) by simp
qed simp

lemma of_nat_u32_inj: "inj_on (of_nat :: nat \<Rightarrow> u32) {..<2 ^ 30}"
proof (rule inj_onI)
  have u: "unat (of_nat k :: u32) = k" if "k \<in> {..<2 ^ 30}" for k
    using that by (intro unat_of_nat_small) simp
  fix i j :: nat assume "i \<in> {..<2 ^ 30}" "j \<in> {..<2 ^ 30}" "(of_nat i :: u32) = of_nat j"
  then show "i = j" using u by metis
qed

abbreviation nums :: "nat list \<Rightarrow> u32 list" where "nums js \<equiv> map of_nat js"

lemma distinct_nums: "set js \<subseteq> {..<2 ^ 30} \<Longrightarrow> distinct js \<Longrightarrow> distinct (nums js)"
  using of_nat_u32_inj by (auto simp: distinct_map intro: inj_on_subset)

text \<open>Domain phase: the run of a suffix is the rules filed under it.\<close>

lemma domain_run:
  assumes inv: "builder_inv xs b" and n: "length xs < 2 ^ 30"
    and anch: "\<And>x d. x \<in> set xs \<Longrightarrow> domain_key x = Some d \<Longrightarrow> anchored_domain_is (item_text x) d"
    and inj: "inj_on dom_hash (insert s {d. \<exists>x \<in> set xs. domain_key x = Some d})"
    and run: "same_hash_run (bd_domain_pairs b)
        (s, \<lambda>first. anchored_domain_is (text_at (bd_net_text b) (bd_sources b) first) s) run"
  shows "run = nums (numbers (\<lambda>x. domain_key x = Some s) xs)"
proof -
  let ?ps = "bd_domain_pairs b" and ?js = "numbers (\<lambda>x. domain_key x = Some s) xs"
  have ps: "?ps = map (\<lambda>j. (the (domain_key (xs ! j)), of_nat j)) (numbers (\<lambda>x. domain_key x \<noteq> None) xs)"
    using inv by (simp add: builder_inv_def)
  have hash: "dom_hash d = dom_hash s \<longleftrightarrow> d = s" if "j < length xs" "domain_key (xs ! j) = Some d" for j d
  proof -
    have "d \<in> {d. \<exists>x \<in> set xs. domain_key x = Some d}" using that nth_mem by blast
    then have "d \<in> insert s {d. \<exists>x \<in> set xs. domain_key x = Some d}" by (rule insertI2)
    from inj_on_eq_iff [OF inj this insertI1] show ?thesis .
  qed
  have "map snd (filter (\<lambda>p. dom_hash (fst p) = dom_hash s) ?ps) =
      nums (filter (\<lambda>j. dom_hash (the (domain_key (xs ! j))) = dom_hash s) (numbers (\<lambda>x. domain_key x \<noteq> None) xs))"
    unfolding ps by (simp add: filter_map comp_def)
  also have "filter (\<lambda>j. dom_hash (the (domain_key (xs ! j))) = dom_hash s) (numbers (\<lambda>x. domain_key x \<noteq> None) xs) = ?js"
    unfolding numbers_def filter_filter using hash by (intro filter_cong) auto
  finally have r: "map snd (filter (\<lambda>p. dom_hash (fst p) = dom_hash s) ?ps) = nums ?js" .
  have "anchored_domain_is (text_at (bd_net_text b) (bd_sources b) (hd (nums ?js))) s" if ne: "?js \<noteq> []"
  proof -
    obtain j js where js: "?js = j # js" using ne by (cases ?js) auto
    then have "j \<in> set ?js" by (metis list.set_intros(1))
    then have j: "j < length xs" "domain_key (xs ! j) = Some s" "hd (nums ?js) = of_nat j"
      unfolding set_numbers by (simp_all only: js list.map list.sel)
    have "text_at (bd_net_text b) (bd_sources b) (of_nat j) = item_text (xs ! j)"
      using j(1) n by (intro builder_inv_text [OF inv]) auto
    then show ?thesis using j anch [of "xs ! j" s] nth_mem [OF j(1)] by simp
  qed
  then show ?thesis using run r by (auto simp: same_hash_run_def Let_def)
qed

text \<open>Shortcut phase: the rules of the patterns that are reported.\<close>

lemma shortcut_run:
  assumes inv: "builder_inv xs b" and n: "length xs < 2 ^ 30"
    and rep: "reports_once (bd_shortcuts b) host run"
  shows "distinct run"
    "set run = of_nat ` {j. j < length xs \<and> (\<exists>s. shortcut_key (xs ! j) = Some s \<and>
        (sublist s ''http'' \<or> sublist (take MAX_TEXT s) host))}"
proof -
  let ?m = "bd_shortcuts b"
  let ?js = "\<lambda>s. numbers (\<lambda>x. shortcut_key x = Some s) xs"
  obtain hits where h: "run = concat (map snd hits)" "distinct hits" "set hits = {p \<in> set ?m. reported host p}"
    using rep by (auto simp: reports_once_def)
  have d: "distinct (map fst ?m)" and look: "map_of ?m s = (if ?js s = [] then None else Some (nums (?js s)))" for s
    using inv by (simp_all add: builder_inv_def Let_def)
  have mem: "p \<in> set ?m \<longleftrightarrow> snd p = nums (?js (fst p)) \<and> ?js (fst p) \<noteq> []" for p
    using map_of_eq_Some_iff [OF d, of "fst p" "snd p"] look [of "fst p"] by (auto split: if_splits)
  have rng: "set (?js s) \<subseteq> {..<2 ^ 30}" for s using n by auto
  have key: "shortcut_key (xs ! i) = Some s \<Longrightarrow> (of_nat i :: u32) \<in> set (nums (?js t)) \<Longrightarrow> i < length xs \<Longrightarrow> s = t" for i s t
    using n of_nat_u32_inj by (auto dest!: inj_onD)
  show "distinct run"
    unfolding h(1)
  proof (rule distinct_concat_mapI [OF h(2)])
    fix p assume "p \<in> set hits"
    then have "p \<in> set ?m" using h(3) by blast
    then show "distinct (snd p)" using mem [of p] distinct_nums [OF rng] by simp
  next
    fix p q assume pq: "p \<in> set hits" "q \<in> set hits" "p \<noteq> q"
    then have m: "p \<in> set ?m" "q \<in> set ?m" using h(3) by blast+
    then have "fst p \<noteq> fst q" using pq(3) d by (metis eq_key_imp_eq_value prod.collapse)
    then show "set (snd p) \<inter> set (snd q) = {}"
      using m key unfolding mem by auto
  qed
  show "set run = of_nat ` {j. j < length xs \<and> (\<exists>s. shortcut_key (xs ! j) = Some s \<and>
        (sublist s ''http'' \<or> sublist (take MAX_TEXT s) host))}"
  proof -
    have min: "MIN_SHORTCUT_LEN \<le> length s" if "shortcut_key x = Some s" for x :: "'a rule_item" and s
      using that by (auto simp: shortcut_key_def split: rule_pattern.splits option.splits if_splits)
    have "set run = (\<Union>p \<in> {p \<in> set ?m. reported host p}. set (snd p))" using h(1,3) by simp
    also have "\<dots> = (\<Union>s \<in> {s. ?js s \<noteq> [] \<and> reported host (s, nums (?js s))}. set (nums (?js s)))"
      unfolding mem by force
    also have "\<dots> = of_nat ` {j. j < length xs \<and> (\<exists>s. shortcut_key (xs ! j) = Some s \<and>
        (sublist s ''http'' \<or> sublist (take MAX_TEXT s) host))}"
    proof -
      have r: "?js s \<noteq> [] \<and> reported host (s, nums (?js s)) \<longleftrightarrow>
          sublist s ''http'' \<or> sublist (take MAX_TEXT s) host"
        if "j < length xs" "shortcut_key (xs ! j) = Some s" for j s
      proof -
        have "j \<in> set (?js s)" using that by simp
        then have "?js s \<noteq> []" by (metis empty_iff list.set(1))
        then show ?thesis using min [OF that(2)] by (simp add: reported_def)
      qed
      have "(\<Union>s \<in> {s. ?js s \<noteq> [] \<and> reported host (s, nums (?js s))}. set (nums (?js s))) =
          of_nat ` (\<Union>s \<in> {s. ?js s \<noteq> [] \<and> reported host (s, nums (?js s))}. set (?js s))"
        by (simp add: image_UN)
      also have "(\<Union>s \<in> {s. ?js s \<noteq> [] \<and> reported host (s, nums (?js s))}. set (?js s)) =
          {j. j < length xs \<and> (\<exists>s. shortcut_key (xs ! j) = Some s \<and>
            (sublist s ''http'' \<or> sublist (take MAX_TEXT s) host))}"
      proof (rule set_eqI)
        fix j
        show "j \<in> (\<Union>s \<in> {s. ?js s \<noteq> [] \<and> reported host (s, nums (?js s))}. set (?js s)) \<longleftrightarrow>
            j \<in> {j. j < length xs \<and> (\<exists>s. shortcut_key (xs ! j) = Some s \<and>
              (sublist s ''http'' \<or> sublist (take MAX_TEXT s) host))}"
          unfolding UN_iff mem_Collect_eq set_numbers using r [of j] by blast
      qed
      finally show ?thesis .
    qed
    finally show ?thesis .
  qed
qed


lemma empty_shortcuts_find:
  assumes fit: "patterns_fit ps" and b: "build_shortcuts ps = Some ix" and e: "shortcuts_is_empty ix"
  shows "find_rules ix h = Some []"
proof (cases "filter (\<lambda>p. MIN_SHORTCUT_LEN \<le> length (fst p) \<and> snd p \<noteq> []) ps = []")
  case True
  then have "ix = shortcut_default" using b by (simp add: build_shortcuts_def)
  moreover have "find_from shortcut_default h ats s = Some s" for ats s
    by (induction ats) (auto simp: find_at_def shortcut_default_def table_default_def table_is_empty_def)
  ultimately show ?thesis by (simp add: find_rules_def) (simp add: shortcut_default_def)
next
  case False
  obtain ix' pl f where c: "build_shortcuts ps = Some ix'" "catalogue ix' ((\<lambda>x. set_woff x (f x)) ` set pl)"
      "sc_len ix' = length pl"
    using build_shortcuts_catalogue [OF fit False] by blast
  have "ix' = ix" using b c(1) by simp
  then have "pl = []" "sc_always ix = []" using e c(3) by (auto simp: shortcuts_is_empty_def)
  then show ?thesis using find_rules_pats [OF c(2), of h] \<open>ix' = ix\<close> by auto
qed

text \<open>The whole search, for a set built from lists that fit.\<close>

lemma match_network_items:
  fixes rx_new :: "str \<Rightarrow> 'rx option" and req :: request
  assumes fit: "lists_fit rx_new ls"
  defines "xs \<equiv> rule_items rx_new ls" and "host \<equiv> hostname req"
  assumes inj: "inj_on dom_hash (set (suffixes host) \<union> {d. \<exists>x \<in> set xs. domain_key x = Some d})"
  obtains s js where "build_set rx_new ls = Some s" "rs_net s = map fst xs"
    "\<And>j. j < length xs \<Longrightarrow> text_of s (of_nat j) = item_text (xs ! j)"
    "rs_badfilter s = {canonical_text (item_text x) | x. x \<in> set xs \<and> rule_badfilter (item_rule x)}"
    "distinct js" "set js = {j. j < length xs \<and> candidate_for host (xs ! j)}"
    "\<And>rx_match. match_network rx_new rx_match s req =
       consider_all rx_new rx_match s req (url_for host) (nums js) (None, [])"
proof -
  let ?b = "fold (add_list rx_new) ls builder_default"
  have inv: "builder_inv xs ?b" unfolding xs_def by (rule built_builder_inv [OF fit])
  have n: "length xs < 2 ^ 30" using fit by (simp add: lists_fit_def xs_def)
  note fits = built_fits [OF fit inv [unfolded xs_def]]
  obtain dix where dix: "build_index (bd_domain_pairs ?b) = Some dix" using domains.build_total [OF fits(1)] by blast
  obtain six where six: "build_shortcuts (bd_shortcuts ?b) = Some six" using shortcuts.build_total [OF fits(2)] by blast
  define s where "s = \<lparr>rs_net = bd_net ?b, rs_sources = bd_sources ?b, rs_net_text = bd_net_text ?b,
           rs_hosts = bd_hosts ?b, rs_domain_index = dix, rs_host_index = bd_host_index ?b,
           rs_shortcuts = six, rs_scan = bd_scan ?b, rs_badfilter = bd_badfilter ?b, rs_count = bd_count ?b\<rparr>"
  have bs: "build_set rx_new ls = Some s" using dix six by (simp add: build_set_def finish_def s_def)
  have tx: "text_of s i = text_at (bd_net_text ?b) (bd_sources ?b) i" for i by (simp add: text_of_def s_def)
  let ?dj = "\<lambda>t. numbers (\<lambda>x. domain_key x = Some t) xs"
  have run: "get_index (rs_domain_index s) t (\<lambda>first. anchored_domain_is (text_of s first) t) = Some (nums (?dj t))"
    if "t \<in> set (suffixes host)" for t
  proof -
    obtain r where r: "get_index dix t (\<lambda>first. anchored_domain_is (text_of s first) t) = Some r"
        "same_hash_run (bd_domain_pairs ?b) (t, \<lambda>first. anchored_domain_is (text_of s first) t) r"
      using domains.lookup_answers [OF fits(1) dix, of "(t, \<lambda>first. anchored_domain_is (text_of s first) t)"] by auto
    have "inj_on dom_hash (insert t {d. \<exists>x \<in> set xs. domain_key x = Some d})"
      by (rule inj_on_subset [OF inj]) (use that in blast)
    then have "r = nums (?dj t)"
      using r(2) unfolding tx by (intro domain_run [OF inv n]) (auto simp: xs_def intro: item_domain)
    with r(1) show ?thesis by (simp add: s_def)
  qed
  obtain found where found: "find_rules six (bytes_of (to_ascii_lowercase host)) = Some found"
      "reports_once (bd_shortcuts ?b) (to_ascii_lowercase host) found"
    using shortcuts.lookup_answers [OF fits(2) six] by blast
  have empty: "found = []" if "shortcuts_is_empty (rs_shortcuts s)"
    using empty_shortcuts_find [OF _ six] fits(2) that found(1) by (simp add: shortcuts_fit_def s_def)
  let ?dom = "concat (map (\<lambda>t. nums (?dj t)) (suffixes host))"
  let ?scan = "nums (numbers (\<lambda>x. domain_key x = None \<and> shortcut_key x = None) xs)"
  define L where "L = ?dom @ found @ ?scan"
  define A where "A = {j. j < length xs \<and> (\<exists>d. domain_key (xs ! j) = Some d \<and> d \<in> set (suffixes host))}"
  define B where "B = {j. j < length xs \<and> (\<exists>s. shortcut_key (xs ! j) = Some s \<and>
        (sublist s ''http'' \<or> sublist (take MAX_TEXT s) (to_ascii_lowercase host)))}"
  define C where "C = {j. j < length xs \<and> domain_key (xs ! j) = None \<and> shortcut_key (xs ! j) = None}"
  have mn: "match_network rx_new rx_match s req = consider_all rx_new rx_match s req (url_for host) L (None, [])"
    for rx_match
    using match_network_eq [of req s "\<lambda>t. nums (?dj t)" found rx_new rx_match] run found(1) empty inv
    by (simp add: host_def L_def s_def builder_inv_def)
  have rng: "A \<subseteq> {..<2 ^ 30}" "B \<subseteq> {..<2 ^ 30}" "C \<subseteq> {..<2 ^ 30}" using n by (auto simp: A_def B_def C_def)
  have excl: "domain_key x = None \<or> shortcut_key x = None" for x :: "'rx rule_item"
    by (auto simp: domain_key_def shortcut_key_def split: rule_pattern.splits)
  have dis: "A \<inter> B = {}" "A \<inter> C = {}" "B \<inter> C = {}"
  proof -
    have "j \<notin> B" if "j \<in> A" for j using that excl [of "xs ! j"] by (auto simp: A_def B_def)
    then show "A \<inter> B = {}" by blast
  qed (auto simp: A_def B_def C_def)
  have sets: "set ?dom = of_nat ` A" "set found = of_nat ` B" "set ?scan = of_nat ` C"
    using shortcut_run(2) [OF inv n found(2)] by (auto simp: A_def B_def C_def)
  have dj: "distinct (nums (?dj t))" for t using n by (intro distinct_nums) auto
  have "set (nums (?dj t)) \<inter> set (nums (?dj u)) = {}" if "t \<noteq> u" for t u
  proof -
    have "set (?dj t) \<inter> set (?dj u) = {}" using that by auto
    moreover have "set (?dj t) \<union> set (?dj u) \<subseteq> {..<2 ^ 30}" using n by auto
    ultimately show ?thesis
      using inj_on_image_Int [OF of_nat_u32_inj, of "set (?dj t)" "set (?dj u)"] by simp
  qed
  then have ddom: "distinct ?dom" using dj by (intro distinct_concat_mapI suffixes_distinct)
  have dscan: "distinct ?scan" using n by (intro distinct_nums) auto
  have dL: "distinct L"
    unfolding L_def distinct_append set_append sets
    using ddom dscan shortcut_run(1) [OF inv n found(2)] dis rng
      inj_on_image_Int [OF of_nat_u32_inj, of A B] inj_on_image_Int [OF of_nat_u32_inj, of A C]
      inj_on_image_Int [OF of_nat_u32_inj, of B C]
    by (auto simp: Int_Un_distrib)
  define js where "js = map unat L"
  have L: "nums js = L" by (simp add: js_def comp_def)
  have un: "unat ` (of_nat ` X :: u32 set) = X" if "X \<subseteq> {..<2 ^ 30}" for X
  proof -
    have "unat (of_nat j :: u32) = j" if "j \<in> X" for j
      using that \<open>X \<subseteq> {..<2 ^ 30}\<close> by (intro unat_of_nat_small) auto
    then show ?thesis by (simp add: image_image)
  qed
  have "set js = unat ` (of_nat ` A :: u32 set) \<union> unat ` (of_nat ` B :: u32 set) \<union> unat ` (of_nat ` C :: u32 set)"
    unfolding js_def L_def list.set_map [of unat] set_append sets image_Un by blast
  then have "set js = A \<union> B \<union> C" using un rng by simp
  also have "\<dots> = {j. j < length xs \<and> candidate_for host (xs ! j)}"
  proof -
    have sub: "d \<in> set (suffixes host) \<longleftrightarrow> is_subdomain_of host d" if "j < length xs" "domain_key (xs ! j) = Some d" for j d
      using that item_domain(2) [of "xs ! j" rx_new ls d] by (intro mem_suffixes) (auto simp: xs_def)
    have "j \<in> A \<union> B \<union> C \<longleftrightarrow> j < length xs \<and> candidate_for host (xs ! j)" for j
      using excl [of "xs ! j"] sub [of j]
      by (cases "domain_key (xs ! j)"; cases "shortcut_key (xs ! j)") (auto simp: A_def B_def C_def candidate_for_def)
    then show ?thesis by blast
  qed
  finally have sjs: "set js = {j. j < length xs \<and> candidate_for host (xs ! j)}" .
  show ?thesis
  proof (rule that [OF bs _ _ _ _ sjs])
    show "rs_net s = map fst xs" using inv by (simp add: s_def builder_inv_def)
    show "text_of s (of_nat j) = item_text (xs ! j)" if "j < length xs" for j
      unfolding tx using that n by (intro builder_inv_text [OF inv]) auto
    show "rs_badfilter s = {canonical_text (item_text x) | x. x \<in> set xs \<and> rule_badfilter (item_rule x)}"
      using inv by (simp add: s_def builder_inv_def)
    show "distinct js" using dL L by (metis distinct_map)
    show "match_network rx_new rx_match s req = consider_all rx_new rx_match s req (url_for host) (nums js) (None, [])"
      for rx_match using mn L by simp
  qed
qed


text \<open>The numbered rule of an item, and whether it is a \<open>$dnsrewrite\<close> rule.\<close>

definition numbered :: "'rx rule_item list \<Rightarrow> nat \<Rightarrow> 'rx candidate" where
  "numbered xs j = (of_nat j, item_rule (xs ! j))"

definition rewriting :: "'rx rule_item list \<Rightarrow> nat \<Rightarrow> bool" where
  "rewriting xs j \<longleftrightarrow> rule_dnsrewrite (item_rule (xs ! j)) \<noteq> None"

lemma numbered_inj:
  assumes "length xs < 2 ^ 30" "A \<subseteq> {j. j < length xs}"
  shows "inj_on (numbered xs) A" "inj_on fst (numbered xs ` A)"
proof -
  have "unat (of_nat j :: u32) = j" if "j \<in> A" for j
    using that assms by (intro unat_of_nat_small) auto
  then show "inj_on (numbered xs) A" "inj_on fst (numbered xs ` A)"
    by (auto simp: inj_on_def numbered_def) metis+
qed

text \<open>What the engine computes is a pass over the eligible rules, each once.\<close>

lemma match_network_search:
  fixes rx_new :: "str \<Rightarrow> 'rx option"
  assumes "lists_fit rx_new ls"
    and "inj_on dom_hash (set (suffixes (hostname req)) \<union>
           {d. \<exists>x \<in> set (rule_items rx_new ls). domain_key x = Some d})"
  defines "xs \<equiv> rule_items rx_new ls"
  obtains s live where "build_set rx_new ls = Some s" "distinct live"
    "set live = {j. j < length xs \<and> eligible rx_new rx_match xs req (xs ! j)}"
    "match_network rx_new rx_match s req =
       Some (fold prio.pick (map (numbered xs) (filter (\<lambda>j. \<not> rewriting xs j) live)) None,
             map (numbered xs) (filter (rewriting xs) live))"
proof -
  let ?url = "url_for (hostname req)"
  obtain s js where s: "build_set rx_new ls = Some s" "rs_net s = map fst xs"
    "\<And>j. j < length xs \<Longrightarrow> text_of s (of_nat j) = item_text (xs ! j)"
    "rs_badfilter s = {canonical_text (item_text x) | x. x \<in> set xs \<and> rule_badfilter (item_rule x)}"
    "distinct js" "set js = {j. j < length xs \<and> candidate_for (hostname req) (xs ! j)}"
    "\<And>rx_match. match_network rx_new rx_match s req =
       consider_all rx_new rx_match s req ?url (nums js) (None, [])"
    by (rule match_network_items [OF assms(1,2), folded xs_def]) (rule that)
  have u: "unat (of_nat j :: u32) = j" if "j < length xs" for j
    using that assms(1) by (intro unat_of_nat_small) (simp add: lists_fit_def xs_def)
  let ?live = "filter (\<lambda>j. eligible rx_new rx_match xs req (xs ! j)) js"
  have facts: "cand s (of_nat j) = numbered xs j" "rewrites_rule s (of_nat j) = rewriting xs j"
      "counts rx_new rx_match s req (of_nat j) \<longleftrightarrow> eligible rx_new rx_match xs req (xs ! j)" if "j \<in> set js" for j
  proof -
    have j: "j < length xs" "candidate_for (hostname req) (xs ! j)" using that s(6) by auto
    show "cand s (of_nat j) = numbered xs j" "rewrites_rule s (of_nat j) = rewriting xs j"
      using j u by (simp_all add: cand_def numbered_def rewrites_rule_def rewriting_def s(2))
    have "canonical_text (text_of s (of_nat j)) \<in> rs_badfilter s \<longleftrightarrow> cancelled xs (xs ! j)"
      unfolding s(4) s(3) [OF j(1)] cancelled_def mem_Collect_eq by metis
    then show "counts rx_new rx_match s req (of_nat j) \<longleftrightarrow> eligible rx_new rx_match xs req (xs ! j)"
      using j u by (simp add: counts_def eligible_def s(2))
  qed
  have "\<forall>i \<in> set (nums js). unat i < length (rs_net s)" using s(2,6) u by auto
  moreover have "filter (counts rx_new rx_match s req) (nums js) = nums ?live"
    using facts(3) by (simp add: filter_map comp_def cong: filter_cong)
  moreover have "map (cand s) (filter (\<lambda>i. \<not> rewrites_rule s i) (nums ?live)) =
      map (numbered xs) (filter (\<lambda>j. \<not> rewriting xs j) ?live)"
    "map (cand s) (filter (rewrites_rule s) (nums ?live)) = map (numbered xs) (filter (rewriting xs) ?live)"
    using facts(1,2) by (auto simp: filter_map comp_def cong: filter_cong intro!: map_cong)
  ultimately have "match_network rx_new rx_match s req =
      Some (fold prio.pick (map (numbered xs) (filter (\<lambda>j. \<not> rewriting xs j) ?live)) None,
            map (numbered xs) (filter (rewriting xs) ?live))"
    unfolding s(7) by (subst consider_all_eq) (simp_all add: Let_def)
  moreover have "set ?live = {j. j < length xs \<and> eligible rx_new rx_match xs req (xs ! j)}"
    using s(6) by (auto simp: eligible_def)
  ultimately show ?thesis using s(1,5) by (intro that [of s ?live]) simp_all
qed

lemma best_numbered:
  assumes "inj_on (numbered xs) (set js)" "inj_on fst (numbered xs ` set js)"
  shows "case fold prio.pick (map (numbered xs) (filter P js)) None of
      None \<Rightarrow> (\<forall>j \<in> set js. \<not> P j)
    | Some w \<Rightarrow> \<exists>j \<in> set js. P j \<and> w = numbered xs j \<and>
        (\<forall>k \<in> set js. P k \<longrightarrow> k \<noteq> j \<longrightarrow> higher_priority w (numbered xs k))"
proof (cases "fold prio.pick (map (numbered xs) (filter P js)) None")
  case None
  then have "filter P js = []" unfolding prio.pick_all_none by simp
  with None show ?thesis by (auto simp: filter_empty_conv)
next
  case (Some w)
  let ?cs = "map (numbered xs) (filter P js)"
  have "inj_on fst (set ?cs)" using assms(2) by (rule inj_on_subset) auto
  from prio.pick_all_best [OF this subset_refl _ Some]
  have "w \<in> set ?cs" "\<forall>c \<in> set ?cs. c \<noteq> w \<longrightarrow> higher_priority w c" by auto
  then show ?thesis using Some assms(1) by (fastforce dest: inj_onD)
qed

text \<open>
  The prefilter does hide rules in force: the shortcut of an expression is taken from inside an
  alternation.
\<close>

lemma shortcut_of_alternation:
  "shortcut ''/(banner|advert)[0-9]+/'' MIN_SHORTCUT_LEN = Some ''banner'' \<and> \<not> sublist ''banner'' ''advert1''"
  by code_simp

section \<open>Properties\<close>

text \<open>
  C1. The engine is equivalent to a search through all rules without an index.  The hypotheses: the
  lists are within the engine's limits, no two of the domains involved (those of the rules and the
  suffixes of the host) share a 64-bit hash, and no rule in force for the request is hidden by the
  shortcut prefilter, that is, the shortcut of each of them occurs in the host or in the scheme (this
  is what the prefilter relies on; it fails for a regular expression with an alternation, such as
  \<open>/(banner|advert)[0-9]+/\<close> for the host \<open>advert1\<close>).  Then building the rule set returns a set and
  matching against it returns a result (nothing panics, no probe runs forever).  The winner is the
  rule in force without a \<open>$dnsrewrite\<close> that outranks every other such rule, there is none exactly if
  no such rule is in force, and the rewrites are exactly the \<open>$dnsrewrite\<close> rules in force, each once,
  whatever index each of them was filed in.
\<close>

theorem match_network_correct:
  fixes rx_new :: "str \<Rightarrow> 'rx option"
  assumes "lists_fit rx_new ls"
    and "inj_on dom_hash (set (suffixes (hostname req)) \<union>
           {d. \<exists>x \<in> set (rule_items rx_new ls). domain_key x = Some d})"
    and shown: "\<forall>x \<in> set (rule_items rx_new ls).
           in_force rx_new rx_match (rule_items rx_new ls) req x \<longrightarrow> shortcut_shown (hostname req) x"
  shows "\<exists>s best rewrites. build_set rx_new ls = Some s \<and>
     match_network rx_new rx_match s req = Some (best, rewrites) \<and>
     (let xs = rule_items rx_new ls;
          live = {j. j < length xs \<and> in_force rx_new rx_match xs req (xs ! j)};
          rw = {j \<in> live. rule_dnsrewrite (item_rule (xs ! j)) \<noteq> None};
          cd = (\<lambda>j. (of_nat j, item_rule (xs ! j)))
      in (case best of
            None \<Rightarrow> live = rw
          | Some w \<Rightarrow> \<exists>j \<in> live - rw. w = cd j \<and> (\<forall>k \<in> live - rw. k \<noteq> j \<longrightarrow> higher_priority w (cd k))) \<and>
         distinct rewrites \<and> set rewrites = cd ` rw)"
proof -
  let ?xs = "rule_items rx_new ls"
  have live: "{j. j < length ?xs \<and> eligible rx_new rx_match ?xs req (?xs ! j)} =
      {j. j < length ?xs \<and> in_force rx_new rx_match ?xs req (?xs ! j)}"
    using eligible_in_force [OF shown [THEN bspec, OF nth_mem, THEN mp]] by blast
  obtain s live where s: "build_set rx_new ls = Some s" "distinct live"
      "set live = {j. j < length ?xs \<and> in_force rx_new rx_match ?xs req (?xs ! j)}"
      "match_network rx_new rx_match s req =
         Some (fold prio.pick (map (numbered ?xs) (filter (\<lambda>j. \<not> rewriting ?xs j) live)) None,
               map (numbered ?xs) (filter (rewriting ?xs) live))"
    by (rule match_network_search [OF assms(1,2), of rx_match, unfolded live])
  have inj: "inj_on (numbered ?xs) (set live)" "inj_on fst (numbered ?xs ` set live)"
    using numbered_inj [of ?xs "set live"] assms(1) s(3) by (auto simp: lists_fit_def)
  have "distinct (map (numbered ?xs) (filter (rewriting ?xs) live))"
    using inj(1) s(2) by (auto simp: distinct_map intro: inj_on_subset)
  then show ?thesis
    using s(1,4) best_numbered [OF inj, of "\<lambda>j. \<not> rewriting ?xs j"]
    unfolding Let_def s(3) [symmetric] rewriting_def [symmetric] numbered_def [symmetric]
    by (auto split: option.splits)
qed

theorem match_network_correct_witness:
  "\<exists>s. build_set (\<lambda>_. None :: unit option) [(1, ''||ads.com^'')] = Some s \<and>
     match_network (\<lambda>_. None) (\<lambda>_ _. False) s
       \<lparr>hostname = ''x.ads.com'', qtype = 1, client_ip = None, client_name = None, client_tags = []\<rparr> =
     Some (Some (0, \<lparr>pattern = DomainAnchor, opts = None, list_id = 1, allowlist = False\<rparr>), [])"
proof -
  let ?rx = "\<lambda>_ :: str. None :: unit option" and ?ls = "[(1, ''||ads.com^'')] :: (int \<times> str) list"
  let ?r = "\<lparr>pattern = DomainAnchor, opts = None, list_id = 1, allowlist = False\<rparr> :: unit network_rule"
  let ?x = "(?r, ''||ads.com^'', Some ''ads.com'') :: unit rule_item"
  let ?req = "\<lparr>hostname = ''x.ads.com'', qtype = 1, client_ip = None, client_name = None, client_tags = []\<rparr>"
  have items: "rule_items ?rx ?ls = [?x]" by code_simp
  have fit: "lists_fit ?rx ?ls" unfolding lists_fit_def items by code_simp
  have key: "domain_key ?x = Some ''ads.com''" by code_simp
  have sfx: "suffixes ''x.ads.com'' = [''x.ads.com'', ''ads.com'', ''com'']" by code_simp
  have h: "dom_hash ''x.ads.com'' \<noteq> dom_hash ''ads.com''" "dom_hash ''x.ads.com'' \<noteq> dom_hash ''com''"
    "dom_hash ''ads.com'' \<noteq> dom_hash ''com''" by (simp_all add: dom_hash_def hash_step_def)
  have inj: "inj_on dom_hash (set (suffixes (hostname ?req)) \<union> {d. \<exists>x \<in> set (rule_items ?rx ?ls). domain_key x = Some d})"
  proof -
    have "set (suffixes (hostname ?req)) \<union> {d. \<exists>x \<in> set (rule_items ?rx ?ls). domain_key x = Some d} =
        {''x.ads.com'', ''ads.com'', ''com''}"
      unfolding items by (simp add: sfx key insert_absorb insertI2)
    then show ?thesis using h h [symmetric] by (simp add: inj_on_def)
  qed
  have el: "in_force ?rx (\<lambda>_ _. False) [?x] ?req ?x" by code_simp
  have "shortcut_shown (hostname ?req) ?x" by code_simp
  then have sh: "\<forall>x \<in> set (rule_items ?rx ?ls).
      in_force ?rx (\<lambda>_ _. False) (rule_items ?rx ?ls) ?req x \<longrightarrow> shortcut_shown (hostname ?req) x"
    unfolding items by simp
  have L: "{j. j < length [?x] \<and> in_force ?rx (\<lambda>_ _. False) [?x] ?req ([?x] ! j)} = {0}"
    using el by (auto simp only: length_Cons list.size less_Suc0 One_nat_def nth_Cons_0)
  have "rule_dnsrewrite ?r = None" by code_simp
  then have R: "{j \<in> {0 :: nat}. rule_dnsrewrite (item_rule ([?x] ! j)) \<noteq> None} = {}"
    by (simp only: Collect_empty_eq singleton_iff nth_Cons_0 fst_conv simp_thms cong: conj_cong)
  obtain s best rw where c: "build_set ?rx ?ls = Some s"
      "match_network ?rx (\<lambda>_ _. False) s ?req = Some (best, rw)"
      "case best of None \<Rightarrow> {0 :: nat} = {}
       | Some w \<Rightarrow> \<exists>j \<in> {0} - {}. w = (of_nat j, item_rule ([?x] ! j)) \<and>
           (\<forall>k \<in> {0 :: nat} - {}. k \<noteq> j \<longrightarrow> higher_priority w (of_nat k, item_rule ([?x] ! k)))"
      "set rw = (\<lambda>j. (of_nat j, item_rule ([?x] ! j))) ` {}"
    using match_network_correct [OF fit inj sh] unfolding items Let_def L R
    by (elim exE conjE)
  from c(3) have "best = Some (0, ?r)" by (cases best) auto
  with c(1,2,4) show ?thesis by simp
qed

end
