(* ===== verification/Utf8.thy ===== *)
theory Utf8
  imports Rust_Str
begin

text \<open>
  UTF-8 as the Rust standard library reads it.  A \<open>str\<close> of the development is its bytes; the
  functions here convert between the two and decide which byte sequences a \<open>String\<close> may hold.
\<close>

section \<open>Validity\<close>

text \<open>\<open>String::from_utf8\<close> accepts the well-formed byte sequences of the Unicode standard (table 3-7).\<close>

definition continuation :: "u8 \<Rightarrow> bool" where
  "continuation b \<longleftrightarrow> 0x80 \<le> b \<and> b \<le> 0xBF"

fun utf8_valid :: "u8 list \<Rightarrow> bool" where
  "utf8_valid [] \<longleftrightarrow> True"
| "utf8_valid (a # b) \<longleftrightarrow>
     (if a < 0x80 then utf8_valid b
      else if 0xC2 \<le> a \<and> a \<le> 0xDF
      then (case b of x # b' \<Rightarrow> continuation x \<and> utf8_valid b' | [] \<Rightarrow> False)
      else if 0xE0 \<le> a \<and> a \<le> 0xEF
      then (case b of
              x # y # b' \<Rightarrow>
                continuation x \<and> continuation y \<and> (a = 0xE0 \<longrightarrow> 0xA0 \<le> x) \<and> (a = 0xED \<longrightarrow> x \<le> 0x9F)
                  \<and> utf8_valid b'
            | _ \<Rightarrow> False)
      else if 0xF0 \<le> a \<and> a \<le> 0xF4
      then (case b of
              x # y # z # b' \<Rightarrow>
                continuation x \<and> continuation y \<and> continuation z \<and> (a = 0xF0 \<longrightarrow> 0x90 \<le> x)
                  \<and> (a = 0xF4 \<longrightarrow> x \<le> 0x8F) \<and> utf8_valid b'
            | _ \<Rightarrow> False)
      else False)"

definition as_bytes :: "str \<Rightarrow> u8 list" where
  "as_bytes s = map of_char s"

definition from_utf8 :: "u8 list \<Rightarrow> str option" where
  "from_utf8 b = (if utf8_valid b then Some (map (\<lambda>x. char_of (unat x)) b) else None)"

text \<open>What the type \<open>String\<close> guarantees of its bytes.\<close>

definition valid_str :: "str \<Rightarrow> bool" where
  "valid_str s \<longleftrightarrow> utf8_valid (as_bytes s)"

lemma unat_of_char: "unat (of_char c :: u8) = of_char c"
proof -
  have "(of_char c :: u8) = of_nat (of_char c)" by (simp only: of_nat_of_char)
  moreover have "of_char c < (2 :: nat) ^ LENGTH(8)" by (cases c) (simp split: if_splits)
  ultimately show ?thesis by (simp only: unat_of_nat_small)
qed

lemma from_utf8_as_bytes: "valid_str s \<Longrightarrow> from_utf8 (as_bytes s) = Some s"
  by (simp add: valid_str_def from_utf8_def as_bytes_def unat_of_char comp_def)

lemma length_as_bytes [simp]: "length (as_bytes s) = length s"
  by (simp add: as_bytes_def)

lemma from_utf8_valid: "from_utf8 b = Some s \<Longrightarrow> valid_str s \<and> length s = length b"
proof -
  assume a: "from_utf8 b = Some s"
  then have s: "s = map (\<lambda>x. char_of (unat x)) b" and v: "utf8_valid b"
    by (auto simp: from_utf8_def split: if_splits)
  have lt: "unat x < 2 ^ LENGTH(8)" for x :: u8 by (rule unsigned_less)
  have "of_char (char_of (unat x) :: char) = x" for x :: u8
  proof -
    have "unat (of_char (char_of (unat x) :: char) :: u8) = unat x"
      using lt [of x] by (simp add: unat_of_char of_char_of)
    then show ?thesis by (simp only: unsigned_word_eqI)
  qed
  then have "as_bytes s = b" by (simp add: s as_bytes_def comp_def)
  then show ?thesis using v s by (simp add: valid_str_def)
qed

lemma valid_str_Nil [simp]: "valid_str []"
  by (simp add: valid_str_def as_bytes_def)

section \<open>Lossy conversion\<close>

text \<open>
  \<open>String::from_utf8_lossy\<close> replaces every maximal part of an ill-formed sequence by U+FFFD:
  \<open>utf8_chunk\<close> is the length of the next part and whether it is well formed.
\<close>

definition second_ok :: "u8 \<Rightarrow> u8 \<Rightarrow> bool" where
  "second_ok a x \<longleftrightarrow> continuation x \<and> (a = 0xE0 \<longrightarrow> 0xA0 \<le> x) \<and> (a = 0xED \<longrightarrow> x \<le> 0x9F)
     \<and> (a = 0xF0 \<longrightarrow> 0x90 \<le> x) \<and> (a = 0xF4 \<longrightarrow> x \<le> 0x8F)"

definition utf8_need :: "u8 \<Rightarrow> nat" where
  "utf8_need a =
     (if a < 0x80 then 1
      else if 0xC2 \<le> a \<and> a \<le> 0xDF then 2
      else if 0xE0 \<le> a \<and> a \<le> 0xEF then 3
      else if 0xF0 \<le> a \<and> a \<le> 0xF4 then 4
      else 0)"

definition utf8_chunk :: "u8 \<Rightarrow> u8 list \<Rightarrow> nat \<times> bool" where
  "utf8_chunk a b =
     (let need = utf8_need a;
          got = (case b of
                   [] \<Rightarrow> 1
                 | x # b' \<Rightarrow> if second_ok a x then 2 + length (takeWhile continuation (take 2 b')) else 1)
      in if need = 0 then (1, False) else (min need got, need \<le> got))"

function from_utf8_lossy :: "u8 list \<Rightarrow> u8 list" where
  "from_utf8_lossy [] = []"
| "from_utf8_lossy (a # b) =
     (case utf8_chunk a b of
        (n, True) \<Rightarrow> a # take (n - 1) b @ from_utf8_lossy (drop (n - 1) b)
      | (n, False) \<Rightarrow> [0xEF, 0xBF, 0xBD] @ from_utf8_lossy (drop (n - 1) b))"
  by pat_completeness auto
termination
  by (relation "measure length") auto

declare from_utf8_lossy.simps [simp del]

lemma need_cases:
  assumes "utf8_valid (a # b)"
  obtains "a < 0x80" "utf8_valid b"
  | x b' where "\<not> a < 0x80" "0xC2 \<le> a" "a \<le> 0xDF" "b = x # b'" "continuation x" "utf8_valid b'"
  | x y b' where "\<not> a < 0x80" "\<not> a \<le> 0xDF" "0xE0 \<le> a" "a \<le> 0xEF" "b = x # y # b'" "continuation x" "continuation y"
      "a = 0xE0 \<longrightarrow> 0xA0 \<le> x" "a = 0xED \<longrightarrow> x \<le> 0x9F" "utf8_valid b'"
  | x y z b' where "\<not> a < 0x80" "\<not> a \<le> 0xEF" "0xF0 \<le> a" "a \<le> 0xF4" "b = x # y # z # b'" "continuation x" "continuation y"
      "continuation z" "a = 0xF0 \<longrightarrow> 0x90 \<le> x" "a = 0xF4 \<longrightarrow> x \<le> 0x8F" "utf8_valid b'"
proof -
  have lo: "\<not> a \<le> 0xDF" if "0xE0 \<le> a" using that order_trans [of "0xE0" a "0xDF"] by auto
  have hi: "\<not> a \<le> 0xEF" if "0xF0 \<le> a" using that order_trans [of "0xF0" a "0xEF"] by auto
  consider (one) "a < 0x80" | (two) "\<not> a < 0x80" "0xC2 \<le> a \<and> a \<le> 0xDF"
    | (three) "\<not> a < 0x80" "\<not> (0xC2 \<le> a \<and> a \<le> 0xDF)" "0xE0 \<le> a \<and> a \<le> 0xEF"
    | (four) "\<not> a < 0x80" "\<not> (0xC2 \<le> a \<and> a \<le> 0xDF)" "\<not> (0xE0 \<le> a \<and> a \<le> 0xEF)" "0xF0 \<le> a \<and> a \<le> 0xF4"
    using assms by (simp only: utf8_valid.simps split: if_splits) blast+
  then show ?thesis
  proof cases
    case one
    then show ?thesis using assms that(1) by simp
  next
    case two
    then show ?thesis using assms that(2) by (cases b) simp_all
  next
    case three
    note v = assms [unfolded utf8_valid.simps if_not_P [OF three(1)] if_not_P [OF three(2)] if_P [OF three(3)]]
    then obtain x y b' where "b = x # y # b'" by (auto split: list.splits)
    then show ?thesis using v three lo that(3) by simp
  next
    case four
    note v = assms [unfolded utf8_valid.simps if_not_P [OF four(1)] if_not_P [OF four(2)] if_not_P [OF four(3)] if_P [OF four(4)]]
    then obtain x y z b' where "b = x # y # z # b'" by (auto split: list.splits)
    then show ?thesis using v four hi that(4) by simp
  qed
qed

lemma valid_chunk:
  assumes "utf8_valid (a # b)"
  shows "\<exists>n. utf8_chunk a b = (n, True) \<and> utf8_valid (drop (n - 1) b)"
  using assms
proof (cases rule: need_cases)
  case 1
  then show ?thesis by (auto simp: utf8_chunk_def utf8_need_def split: list.splits)
next
  case (2 x b')
  then have "second_ok a x" by (auto simp: second_ok_def)
  then show ?thesis using 2 by (simp add: utf8_chunk_def utf8_need_def)
next
  case (3 x y b')
  then have "second_ok a x" by (auto simp: second_ok_def)
  then show ?thesis using 3 by (simp add: utf8_chunk_def utf8_need_def)
next
  case (4 x y z b')
  then have "second_ok a x" "\<not> a \<le> 0xDF" using order_trans [of a "0xDF" "0xEF"] by (auto simp: second_ok_def)
  then show ?thesis using 4 by (simp add: utf8_chunk_def utf8_need_def)
qed

lemma lossy_valid: "utf8_valid b \<Longrightarrow> from_utf8_lossy b = b"
proof (induction "length b" arbitrary: b rule: less_induct)
  case less
  show ?case
  proof (cases b)
    case (Cons a r)
    then obtain n where "utf8_chunk a r = (n, True)" "utf8_valid (drop (n - 1) r)"
      using less.prems valid_chunk by blast
    then show ?thesis using less.hyps [of "drop (n - 1) r"] Cons by (simp add: from_utf8_lossy.simps)
  qed (simp add: from_utf8_lossy.simps)
qed

end
