(* ===== verification/Auth.thy ===== *)
theory Auth
  imports Ipaddr Utf8
begin

text \<open>
  Sessions, the login throttle and the gate in front of the control interface:
  \<open>crates/sift-api/src/auth.rs\<close>, the gate of \<open>routes.rs\<close> and the login and logout handlers of
  \<open>handlers/misc.rs\<close>.

  A \<open>SystemTime\<close> and a \<open>Duration\<close> are nanoseconds, counted from the epoch.  A handler reads the clock
  more than once, so it takes the sequence of readings.  The database file is represented by the
  bucket it holds.  The bcrypt and base64 crates are the parameters \<open>A\<close>.
\<close>

section \<open>Sessions\<close>

definition COOKIE_NAME :: str where
  "COOKIE_NAME = ''agh_session''"

record session =
  se_user :: str
  se_expires :: nat

type_synonym bucket = "(u8 list \<times> u8 list) list"

record sessions =
  ss_by_token :: "(str \<times> session) list"
  ss_file :: "bucket option"

definition sessions_new :: sessions where
  "sessions_new = \<lparr>ss_by_token = [], ss_file = None\<rparr>"

definition be_u16 :: "u16 \<Rightarrow> u8 list" where
  "be_u16 v = [ucast (drop_bit 8 v), ucast v]"

definition be_u32 :: "u32 \<Rightarrow> u8 list" where
  "be_u32 v = [ucast (drop_bit 24 v), ucast (drop_bit 16 v), ucast (drop_bit 8 v), ucast v]"

definition u16_be :: "u8 list \<Rightarrow> u16" where
  "u16_be bs = foldl (\<lambda>v b. push_bit 8 v OR ucast b) 0 bs"

definition u32_be :: "u8 list \<Rightarrow> u32" where
  "u32_be bs = foldl (\<lambda>v b. push_bit 8 v OR ucast b) 0 bs"

definition NANOS :: nat where
  "NANOS = 1000000000"

definition encode_session :: "session \<Rightarrow> u8 list" where
  "encode_session s =
     (let expire = of_nat (min (se_expires s div NANOS) (2 ^ 32 - 1));
          name = as_bytes (se_user s)
      in be_u32 expire @ be_u16 (of_nat (min (length name) (2 ^ 16 - 1))) @ name)"

definition decode_session :: "u8 list \<Rightarrow> session option" where
  "decode_session d =
     (if length d < 6 then None
      else let expire = u32_be (take 4 d);
               name_len = unat (u16_be (take 2 (drop 4 d)))
           in if length d < 6 + name_len then None
              else Some \<lparr>se_user = map (\<lambda>x. char_of (unat x)) (from_utf8_lossy (take name_len (drop 6 d))),
                         se_expires = unat expire * NANOS\<rparr>)"

fun token_bytes :: "str \<Rightarrow> u8 list option" where
  "token_bytes [] = Some []"
| "token_bytes [_] = None"
| "token_bytes (a # b # r) =
     (case parse_hex_u8 [a, b] of
        None \<Rightarrow> None
      | Some v \<Rightarrow> map_option ((#) (of_nat v)) (token_bytes r))"

definition hex_byte :: "u8 \<Rightarrow> str" where
  "hex_byte b = [hex_char (unat b div 16), hex_char (unat b mod 16)]"

definition hex :: "u8 list \<Rightarrow> str" where
  "hex bytes = concat (map hex_byte bytes)"

definition new_token :: "u8 list \<Rightarrow> str" where
  "new_token random = hex random"

definition store_step :: "bucket \<Rightarrow> str \<times> session \<Rightarrow> bucket" where
  "store_step bk e =
     (case token_bytes (fst e) of None \<Rightarrow> bk | Some key \<Rightarrow> al_insert key (encode_session (snd e)) bk)"

definition stored_sessions :: "(str \<times> session) list \<Rightarrow> bucket" where
  "stored_sessions m = foldl store_step [] m"

text \<open>
  \<open>written\<close> says whether the file system took the write; a failure is only logged.  The store keeps the
  pairs of the bucket in place of the bytes of the file; \<open>Auth_Store\<close> writes and reads those bytes and
  shows that the pairs come back.
\<close>

definition persist :: "bool \<Rightarrow> sessions \<Rightarrow> sessions" where
  "persist written s =
     (case ss_file s of
        None \<Rightarrow> s
      | Some _ \<Rightarrow> if written then s\<lparr>ss_file := Some (stored_sessions (ss_by_token s))\<rparr> else s)"

definition load_step :: "nat \<Rightarrow> (str \<times> session) list \<Rightarrow> u8 list \<times> u8 list \<Rightarrow> (str \<times> session) list" where
  "load_step now out kv =
     (case decode_session (snd kv) of
        None \<Rightarrow> out
      | Some s \<Rightarrow> if se_expires s \<le> now then out else al_insert (hex (fst kv)) s out)"

definition load_sessions :: "nat \<Rightarrow> bucket \<Rightarrow> (str \<times> session) list" where
  "load_sessions now bk = foldl (load_step now) [] bk"

definition sessions_open :: "nat \<Rightarrow> bucket option \<Rightarrow> sessions" where
  "sessions_open now file =
     \<lparr>ss_by_token = (case file of None \<Rightarrow> [] | Some bk \<Rightarrow> load_sessions now bk),
      ss_file = Some (case file of None \<Rightarrow> [] | Some bk \<Rightarrow> bk)\<rparr>"

definition create_session :: "nat \<Rightarrow> u8 list \<Rightarrow> bool \<Rightarrow> str \<Rightarrow> nat \<Rightarrow> sessions \<Rightarrow> str \<times> sessions" where
  "create_session now random written user ttl s =
     (let token = new_token random;
          s = s\<lparr>ss_by_token := al_insert token \<lparr>se_user = user, se_expires = now + ttl\<rparr> (ss_by_token s)\<rparr>
      in (token, persist written s))"

definition get_session :: "nat \<Rightarrow> str \<Rightarrow> sessions \<Rightarrow> session option \<times> sessions" where
  "get_session now token s =
     (case map_of (ss_by_token s) token of
        None \<Rightarrow> (None, s)
      | Some e \<Rightarrow>
          if se_expires e \<le> now then (None, s\<lparr>ss_by_token := al_remove token (ss_by_token s)\<rparr>) else (Some e, s))"

definition remove_session :: "bool \<Rightarrow> str \<Rightarrow> sessions \<Rightarrow> sessions" where
  "remove_session written token s = persist written (s\<lparr>ss_by_token := al_remove token (ss_by_token s)\<rparr>)"

definition sweep :: "nat \<Rightarrow> bool \<Rightarrow> sessions \<Rightarrow> sessions" where
  "sweep now written s =
     (let kept = filter (\<lambda>(_, e). se_expires e > now) (ss_by_token s);
          s' = s\<lparr>ss_by_token := kept\<rparr>
      in if length kept \<noteq> length (ss_by_token s) then persist written s' else s')"

definition sessions_len :: "sessions \<Rightarrow> nat" where
  "sessions_len s = length (ss_by_token s)"

definition sessions_is_empty :: "sessions \<Rightarrow> bool" where
  "sessions_is_empty s \<longleftrightarrow> sessions_len s = 0"

section \<open>Cookies and credentials\<close>

definition session_cookie :: "str \<Rightarrow> nat \<Rightarrow> str" where
  "session_cookie token ttl =
     COOKIE_NAME @ ''='' @ token @ ''; Path=/; HttpOnly; SameSite=Lax; Max-Age='' @ show_nat (ttl div NANOS)"

definition clear_cookie :: str where
  "clear_cookie = COOKIE_NAME @ ''=; Path=/; HttpOnly; SameSite=Lax; Max-Age=0''"

fun find_map :: "('a \<Rightarrow> 'b option) \<Rightarrow> 'a list \<Rightarrow> 'b option" where
  "find_map f [] = None"
| "find_map f (x # xs) = (case f x of Some y \<Rightarrow> Some y | None \<Rightarrow> find_map f xs)"

definition token_from_cookies :: "str \<Rightarrow> str option" where
  "token_from_cookies header =
     find_map (\<lambda>kv. case split_once CHR ''='' kv of
                      None \<Rightarrow> None
                    | Some (k, v) \<Rightarrow> if trim k = COOKIE_NAME then Some (trim v) else None)
       (split_char CHR '';'' header)"

record auth_env =
  ae_bcrypt :: "str \<Rightarrow> str \<Rightarrow> bool option"
  ae_base64 :: "str \<Rightarrow> u8 list option"

definition basic_credentials :: "auth_env \<Rightarrow> str \<Rightarrow> (str \<times> str) option" where
  "basic_credentials A header =
     (case (case strip_prefix ''Basic '' header of Some r \<Rightarrow> Some r | None \<Rightarrow> strip_prefix ''basic '' header) of
        None \<Rightarrow> None
      | Some b64 \<Rightarrow>
          (case ae_base64 A (trim b64) of
             None \<Rightarrow> None
           | Some raw \<Rightarrow> (case from_utf8 raw of None \<Rightarrow> None | Some t \<Rightarrow> split_once CHR '':'' t)))"

definition verify_password :: "auth_env \<Rightarrow> str \<Rightarrow> str \<Rightarrow> bool" where
  "verify_password A password hash = (case ae_bcrypt A password hash of Some b \<Rightarrow> b | None \<Rightarrow> False)"

section \<open>The login throttle\<close>

definition FAILED_AUTH_TTL :: nat where
  "FAILED_AUTH_TTL = 60 * NANOS"

record failed =
  fa_count :: u32
  fa_until :: nat

record login_limiter =
  ll_attempts :: "(str \<times> failed) list"
  ll_max :: u32
  ll_block :: nat

definition limiter_new :: "u32 \<Rightarrow> nat \<Rightarrow> login_limiter" where
  "limiter_new mx block = \<lparr>ll_attempts = [], ll_max = mx, ll_block = block\<rparr>"

definition limiter_from_config :: "u32 \<Rightarrow> u32 \<Rightarrow> login_limiter" where
  "limiter_from_config auth_attempts block_auth_min = limiter_new auth_attempts (unat block_auth_min * 60 * NANOS)"

definition limiter_is_enabled :: "login_limiter \<Rightarrow> bool" where
  "limiter_is_enabled l \<longleftrightarrow> ll_max l > 0 \<and> ll_block l \<noteq> 0"

definition blocked_for :: "nat \<Rightarrow> str \<Rightarrow> login_limiter \<Rightarrow> nat \<times> login_limiter" where
  "blocked_for now client l =
     (if \<not> limiter_is_enabled l then (0, l)
      else let m = filter (\<lambda>(_, f). fa_until f > now) (ll_attempts l);
               l = l\<lparr>ll_attempts := m\<rparr>
           in case map_of m client of
                None \<Rightarrow> (0, l)
              | Some f \<Rightarrow> if fa_count f < ll_max l then (0, l) else (fa_until f - now, l))"

definition record_failure :: "nat \<Rightarrow> str \<Rightarrow> login_limiter \<Rightarrow> login_limiter" where
  "record_failure now client l =
     (if \<not> limiter_is_enabled l then l
      else let f = (case map_of (ll_attempts l) client of
                      Some f \<Rightarrow> f
                    | None \<Rightarrow> \<lparr>fa_count = 0, fa_until = now + FAILED_AUTH_TTL\<rparr>);
               f = f\<lparr>fa_count := fa_count f + 1\<rparr>;
               f = (if fa_count f \<ge> ll_max l then f\<lparr>fa_until := now + ll_block l\<rparr> else f)
           in l\<lparr>ll_attempts := al_insert client f (ll_attempts l)\<rparr>)"

definition record_success :: "str \<Rightarrow> login_limiter \<Rightarrow> login_limiter" where
  "record_success client l = l\<lparr>ll_attempts := al_remove client (ll_attempts l)\<rparr>"

section \<open>The gate\<close>

datatype header_value = Text str | Opaque

fun to_str :: "header_value \<Rightarrow> str option" where
  "to_str (Text s) = Some s"
| "to_str Opaque = None"

record http_request =
  rq_path :: str
  rq_query :: str
  rq_peer :: "ip_addr option"
  rq_host :: "header_value option"
  rq_cookie :: "header_value option"
  rq_authorization :: "header_value option"

record auth_state =
  au_users :: "(str \<times> str) list"
  au_sessions :: sessions
  au_limiter :: login_limiter
  au_session_ttl :: int

datatype http_reply =
    Next
  | NotFound
  | Forbidden str
  | Unauthorized
  | TooManyAttempts nat
  | Redirect str
  | Page str
  | LoggedIn str
  | LoggedOut str

definition PUBLIC :: "str list" where
  "PUBLIC = [''/login'']"

definition INSTALL :: "str list" where
  "INSTALL = [''/install/get_addresses'', ''/install/check_config'', ''/install/configure'']"

definition needs_install :: "auth_state \<Rightarrow> bool" where
  "needs_install s \<longleftrightarrow> au_users s = []"

text \<open>\<open>Retry-After\<close> is in whole seconds.\<close>

definition too_many_attempts :: "nat \<Rightarrow> http_reply" where
  "too_many_attempts left = TooManyAttempts (left div NANOS)"

definition peer_ip :: "http_request \<Rightarrow> str" where
  "peer_ip rq = (case rq_peer rq of Some a \<Rightarrow> show_ip a | None \<Rightarrow> [])"

definition user_password :: "auth_state \<Rightarrow> str \<Rightarrow> str option" where
  "user_password s name = map_option snd (find (\<lambda>u. fst u = name) (au_users s))"

definition basic_user :: "auth_env \<Rightarrow> auth_state \<Rightarrow> http_request \<Rightarrow> str option" where
  "basic_user A s rq =
     (case rq_authorization rq of
        None \<Rightarrow> None
      | Some v \<Rightarrow>
          (case to_str v of
             None \<Rightarrow> None
           | Some a \<Rightarrow>
               (case basic_credentials A a of
                  None \<Rightarrow> None
                | Some (user, pass) \<Rightarrow>
                    (case user_password s user of
                       None \<Rightarrow> None
                     | Some hash \<Rightarrow> if verify_password A pass hash then Some user else None))))"

definition cookie_token :: "http_request \<Rightarrow> str option" where
  "cookie_token rq =
     (case rq_cookie rq of
        None \<Rightarrow> None
      | Some v \<Rightarrow> (case to_str v of None \<Rightarrow> None | Some c \<Rightarrow> token_from_cookies c))"

definition current_user :: "auth_env \<Rightarrow> nat \<Rightarrow> http_request \<Rightarrow> auth_state \<Rightarrow> str option \<times> auth_state" where
  "current_user A now rq s =
     (case cookie_token rq of
        None \<Rightarrow> (basic_user A s rq, s)
      | Some tok \<Rightarrow>
          (case get_session now tok (au_sessions s) of
             (Some e, ss) \<Rightarrow> (Some (se_user e), s\<lparr>au_sessions := ss\<rparr>)
           | (None, ss) \<Rightarrow> (basic_user A s rq, s\<lparr>au_sessions := ss\<rparr>)))"

definition authenticate ::
  "auth_env \<Rightarrow> (nat \<Rightarrow> nat) \<Rightarrow> http_request \<Rightarrow> auth_state \<Rightarrow> (nat + str option) \<times> auth_state" where
  "authenticate A clk rq s =
     (if rq_authorization rq = None
      then (case current_user A (clk 0) rq s of (u, s) \<Rightarrow> (Inr u, s))
      else let client = peer_ip rq in
        case blocked_for (clk 0) client (au_limiter s) of
          (left, l) \<Rightarrow>
            let s = s\<lparr>au_limiter := l\<rparr> in
            if left \<noteq> 0 then (Inl left, s)
            else (case current_user A (clk 1) rq s of
                    (Some u, s) \<Rightarrow> (Inr (Some u), s\<lparr>au_limiter := record_success client (au_limiter s)\<rparr>)
                  | (None, s) \<Rightarrow> (Inr None, s\<lparr>au_limiter := record_failure (clk 2) client (au_limiter s)\<rparr>)))"

definition require_auth ::
  "auth_env \<Rightarrow> (nat \<Rightarrow> nat) \<Rightarrow> http_request \<Rightarrow> auth_state \<Rightarrow> http_reply \<times> auth_state" where
  "require_auth A clk rq s =
     (let path = rq_path rq; first_run = needs_install s in
      if \<not> first_run \<and> path \<in> set INSTALL then (NotFound, s)
      else if first_run \<or> path \<in> set PUBLIC then (Next, s)
      else (case authenticate A clk rq s of
              (Inr (Some _), s) \<Rightarrow> (Next, s)
            | (Inr None, s) \<Rightarrow> (Unauthorized, s)
            | (Inl left, s) \<Rightarrow> (too_many_attempts left, s)))"

definition trim_start_matches :: "char \<Rightarrow> str \<Rightarrow> str" where
  "trim_start_matches c s = dropWhile (\<lambda>x. x = c) s"

definition asset_name :: "str \<Rightarrow> str" where
  "asset_name path =
     (case strip_prefix ''/static/'' path of Some r \<Rightarrow> r | None \<Rightarrow> trim_start_matches CHR ''/'' path)"

definition is_public_page :: "str \<Rightarrow> bool" where
  "is_public_page path \<longleftrightarrow>
     starts_with path ''/assets/'' \<or> starts_with (asset_name path) ''login.''
       \<or> starts_with (asset_name path) ''forgot_password.''"

definition is_install_page :: "str \<Rightarrow> bool" where
  "is_install_page path \<longleftrightarrow> starts_with (asset_name path) ''install.''"

definition serve_ui ::
  "auth_env \<Rightarrow> (nat \<Rightarrow> nat) \<Rightarrow> http_request \<Rightarrow> auth_state \<Rightarrow> http_reply \<times> auth_state" where
  "serve_ui A clk rq s =
     (let path = rq_path rq in
      if needs_install s
      then (if \<not> is_install_page path \<and> \<not> starts_with path ''/assets/'' then (Redirect ''install.html'', s) else (Page path, s))
      else if is_install_page path then (Forbidden ''Forbidden'', s)
      else (case authenticate A clk rq s of
              (Inl left, s) \<Rightarrow> (too_many_attempts left, s)
            | (Inr (Some _), s) \<Rightarrow>
                (if path = ''/login.html'' \<or> path = ''/forgot_password.html'' then Redirect ''/'' else Page path, s)
            | (Inr None, s) \<Rightarrow>
                (if is_public_page path then Page path
                 else if path = ''/'' \<or> path = ''/index.html'' then Redirect ''login.html''
                 else Unauthorized, s)))"

section \<open>Login and logout\<close>

definition login ::
  "auth_env \<Rightarrow> (nat \<Rightarrow> nat) \<Rightarrow> u8 list \<Rightarrow> bool \<Rightarrow> ip_addr \<Rightarrow> str \<Rightarrow> str \<Rightarrow> auth_state \<Rightarrow> http_reply \<times> auth_state" where
  "login A clk random written peer name password s =
     (let client = show_ip peer in
      case blocked_for (clk 0) client (au_limiter s) of
        (left, l) \<Rightarrow>
          let s = s\<lparr>au_limiter := l\<rparr> in
          if left \<noteq> 0 then (too_many_attempts left, s)
          else
            let ok = (case user_password s name of None \<Rightarrow> False | Some hash \<Rightarrow> verify_password A password hash) in
            if \<not> ok
            then (Forbidden ''invalid username or password'',
                  s\<lparr>au_limiter := record_failure (clk 1) client (au_limiter s)\<rparr>)
            else
              let s = s\<lparr>au_limiter := record_success client (au_limiter s)\<rparr>;
                  ttl = nat (max (au_session_ttl s) 1) * NANOS
              in case create_session (clk 2) random written name ttl (au_sessions s) of
                   (token, ss) \<Rightarrow> (LoggedIn (session_cookie token ttl), s\<lparr>au_sessions := ss\<rparr>))"

definition logout :: "bool \<Rightarrow> http_request \<Rightarrow> auth_state \<Rightarrow> http_reply \<times> auth_state" where
  "logout written rq s =
     (let s = (case cookie_token rq of
                 None \<Rightarrow> s
               | Some tok \<Rightarrow> s\<lparr>au_sessions := remove_session written tok (au_sessions s)\<rparr>)
      in (LoggedOut clear_cookie, s))"

section \<open>Redirection to the encrypted port\<close>

record tls_settings =
  ts_enabled :: bool
  ts_force_https :: bool
  ts_port_https :: u16

definition host_without_port :: "http_request \<Rightarrow> str option" where
  "host_without_port rq =
     (case rq_host rq of
        None \<Rightarrow> None
      | Some v \<Rightarrow>
          (case to_str v of
             None \<Rightarrow> None
           | Some h \<Rightarrow>
               let host = trim h in
               if host = [] then None
               else (case rfind_char CHR '']'' host of
                       Some e \<Rightarrow> Some (take (e + 1) host)
                     | None \<Rightarrow>
                         (case rfind_char CHR '':'' host of
                            Some i \<Rightarrow> Some (take i host)
                          | None \<Rightarrow> Some host))))"

text \<open>\<open>valid_value\<close> is the syntax check of the HTTP library on a header value.\<close>

definition redirect_to_https :: "(str \<Rightarrow> bool) \<Rightarrow> tls_settings \<Rightarrow> http_request \<Rightarrow> http_reply" where
  "redirect_to_https valid_value t rq =
     (if \<not> (ts_enabled t \<and> ts_force_https t \<and> ts_port_https t \<noteq> 0) \<or> starts_with (rq_path rq) ''/dns-query''
      then Next
      else (case host_without_port rq of
              None \<Rightarrow> Next
            | Some host \<Rightarrow>
                let rest = rq_path rq @ rq_query rq;
                    target = (if ts_port_https t = 443 then ''https://'' @ host @ rest
                              else ''https://'' @ host @ '':'' @ show_nat (unat (ts_port_https t)) @ rest)
                in if valid_value target then Redirect target else Next))"

section \<open>What the throttle guarantees\<close>

text \<open>
  Requests run concurrently, so the throttle sees any interleaving of its three operations, each
  atomic under its lock: \<open>limiter_run\<close> is one such history.  \<open>failures\<close> are the times at which a
  client failed since its last success.
\<close>

datatype limiter_event = Check str | Failure str | Success str

fun limiter_step :: "nat \<times> limiter_event \<Rightarrow> login_limiter \<Rightarrow> login_limiter" where
  "limiter_step (t, Check c) l = snd (blocked_for t c l)"
| "limiter_step (t, Failure c) l = record_failure t c l"
| "limiter_step (t, Success c) l = record_success c l"

definition limiter_run :: "login_limiter \<Rightarrow> (nat \<times> limiter_event) list \<Rightarrow> login_limiter" where
  "limiter_run l evs = foldl (\<lambda>l e. limiter_step e l) l evs"

definition failures_step :: "str \<Rightarrow> nat list \<Rightarrow> nat \<times> limiter_event \<Rightarrow> nat list" where
  "failures_step c ts e =
     (case snd e of
        Check d \<Rightarrow> ts
      | Failure d \<Rightarrow> if d = c then ts @ [fst e] else ts
      | Success d \<Rightarrow> if d = c then [] else ts)"

definition failures :: "str \<Rightarrow> (nat \<times> limiter_event) list \<Rightarrow> nat list" where
  "failures c evs = foldl (failures_step c) [] evs"

lemma run_snoc [simp]: "limiter_run l (evs @ [e]) = limiter_step e (limiter_run l evs)"
  by (simp add: limiter_run_def)

lemma run_Nil [simp]: "limiter_run l [] = l" "failures c [] = []"
  by (simp_all add: limiter_run_def failures_def)

lemma failures_snoc:
  "failures c (evs @ [(t, Check d)]) = failures c evs"
  "failures c (evs @ [(t, Failure d)]) = (if d = c then failures c evs @ [t] else failures c evs)"
  "failures c (evs @ [(t, Success d)]) = (if d = c then [] else failures c evs)"
  by (simp_all add: failures_def failures_step_def)

lemma length_failures: "length (failures c evs) \<le> length evs"
  by (induction evs rule: rev_induct) (auto simp: failures_def failures_step_def split: limiter_event.splits)

lemma limiter_settings [simp]:
  "ll_max (limiter_step e l) = ll_max l" "ll_block (limiter_step e l) = ll_block l"
  by (cases e; cases "snd e";
      auto simp: blocked_for_def record_failure_def record_success_def Let_def split: option.splits)+

lemma run_settings [simp]:
  "ll_max (limiter_run l evs) = ll_max l" "ll_block (limiter_run l evs) = ll_block l"
  "limiter_is_enabled (limiter_run l evs) = limiter_is_enabled l"
proof -
  show *: "ll_max (limiter_run l evs) = ll_max l" "ll_block (limiter_run l evs) = ll_block l"
    by (induction evs rule: rev_induct) simp_all
  show "limiter_is_enabled (limiter_run l evs) = limiter_is_enabled l"
    by (simp add: limiter_is_enabled_def *)
qed

text \<open>The record of a client after each operation.\<close>

lemma map_of_filter_distinct:
  "distinct (map fst m) \<Longrightarrow> map_of (filter (\<lambda>(_, v). P v) m) k = (case map_of m k of Some v \<Rightarrow> if P v then Some v else None | None \<Rightarrow> None)"
  by (induction m) (auto simp: map_of_eq_None_iff split: option.splits dest: map_of_SomeD)

lemma check_record:
  assumes "distinct (map fst (ll_attempts l))" "limiter_is_enabled l"
  shows "map_of (ll_attempts (snd (blocked_for t d l))) c =
    (case map_of (ll_attempts l) c of Some f \<Rightarrow> if fa_until f > t then Some f else None | None \<Rightarrow> None)"
    "distinct (map fst (ll_attempts (snd (blocked_for t d l))))"
  using assms by (auto simp: blocked_for_def Let_def map_of_filter_distinct distinct_map_filter split: option.splits)

lemma failure_record:
  assumes "limiter_is_enabled l"
  shows "map_of (ll_attempts (record_failure t d l)) c =
    (if c \<noteq> d then map_of (ll_attempts l) c
     else let k = (case map_of (ll_attempts l) c of Some f \<Rightarrow> fa_count f | None \<Rightarrow> 0) + 1 in
       Some \<lparr>fa_count = k,
         fa_until = (if k \<ge> ll_max l then t + ll_block l
                     else case map_of (ll_attempts l) c of Some f \<Rightarrow> fa_until f | None \<Rightarrow> t + FAILED_AUTH_TTL)\<rparr>)"
    "distinct (map fst (ll_attempts l)) \<Longrightarrow> distinct (map fst (ll_attempts (record_failure t d l)))"
  using assms by (auto simp: record_failure_def Let_def split: option.splits)

lemma success_record:
  "map_of (ll_attempts (record_success d l)) c = (if c = d then None else map_of (ll_attempts l) c)"
  "distinct (map fst (ll_attempts l)) \<Longrightarrow> distinct (map fst (ll_attempts (record_success d l)))"
  by (simp_all add: record_success_def)

lemma run_distinct:
  assumes "limiter_is_enabled l" "distinct (map fst (ll_attempts l))"
  shows "distinct (map fst (ll_attempts (limiter_run l evs)))"
proof (induction evs rule: rev_induct)
  case (snoc e evs)
  then show ?case
    using assms check_record(2) failure_record(2) success_record(2)
    by (cases e; cases "snd e") simp_all
qed (simp add: assms)

text \<open>A record counts failures that happened, and a spent one expires a block after the last.\<close>

definition record_ok :: "login_limiter \<Rightarrow> nat list \<Rightarrow> failed option \<Rightarrow> bool" where
  "record_ok l ts r \<longleftrightarrow>
     (case r of
        None \<Rightarrow> True
      | Some f \<Rightarrow> 0 < unat (fa_count f) \<and> unat (fa_count f) \<le> length ts
                    \<and> (ll_max l \<le> fa_count f \<longrightarrow> fa_until f = last ts + ll_block l))"

lemma run_record_ok:
  assumes "limiter_is_enabled (limiter_new mx block)" "length evs < 2 ^ 32"
  shows "record_ok (limiter_new mx block) (failures c evs) (map_of (ll_attempts (limiter_run (limiter_new mx block) evs)) c)"
  using assms(2)
proof (induction evs rule: rev_induct)
  case Nil
  then show ?case by (simp add: limiter_new_def record_ok_def)
next
  case (snoc e evs)
  let ?l = "limiter_run (limiter_new mx block) evs"
  have en: "limiter_is_enabled ?l" using assms by simp
  have d: "distinct (map fst (ll_attempts ?l))" using assms by (intro run_distinct) (simp_all add: limiter_new_def)
  have IH: "record_ok (limiter_new mx block) (failures c evs) (map_of (ll_attempts ?l) c)" using snoc by simp
  obtain t ev where e: "e = (t, ev)" by (cases e)
  show ?case
  proof (cases ev)
    case (Check x)
    then show ?thesis using IH by (auto simp: e failures_snoc check_record(1) [OF d en] record_ok_def split: option.splits)
  next
    case (Success x)
    then show ?thesis using IH by (auto simp: e failures_snoc success_record record_ok_def)
  next
    case (Failure x)
    have len: "length (failures c evs) + 1 < 2 ^ 32" using snoc.prems length_failures [of c evs] by simp
    have "unat (k + 1) = unat k + 1" if "unat k \<le> length (failures c evs)" for k :: u32
      using that len by (subst unat_add_lem [THEN iffD1]) simp_all
    then show ?thesis
      using Failure IH
      by (auto simp: e failures_snoc failure_record(1) [OF en] record_ok_def Let_def split: option.splits)
  qed
qed

lemma run_no_failures:
  assumes "limiter_is_enabled (limiter_new mx block)" "failures c evs = []"
  shows "map_of (ll_attempts (limiter_run (limiter_new mx block) evs)) c = None"
  using assms(2)
proof (induction evs rule: rev_induct)
  case Nil
  then show ?case by (simp add: limiter_new_def)
next
  case (snoc e evs)
  let ?l = "limiter_run (limiter_new mx block) evs"
  have en: "limiter_is_enabled ?l" and d: "distinct (map fst (ll_attempts ?l))"
    using assms(1) by (simp, intro run_distinct) (simp_all add: limiter_new_def)
  show ?case
    using snoc by (cases e; cases "snd e")
      (auto simp: failures_snoc check_record(1) [OF d en] failure_record(1) [OF en] success_record split: if_splits)
qed

text \<open>While the attempts of a client arrive in time, none of them is forgotten.\<close>

definition in_time :: "u32 \<Rightarrow> nat \<Rightarrow> nat list \<Rightarrow> nat \<Rightarrow> bool" where
  "in_time mx block ts now \<longleftrightarrow> ts \<noteq> [] \<and> length ts \<le> unat mx
     \<and> (if length ts < unat mx then now < hd ts + FAILED_AUTH_TTL
        else now < last ts + block \<and> last ts < hd ts + FAILED_AUTH_TTL)"

lemma run_counts:
  assumes "limiter_is_enabled (limiter_new mx block)"
    and "sorted (map fst evs)" "\<forall>e \<in> set evs. fst e \<le> now" "in_time mx block (failures c evs) now"
  shows "map_of (ll_attempts (limiter_run (limiter_new mx block) evs)) c =
    Some \<lparr>fa_count = of_nat (length (failures c evs)),
          fa_until = (if length (failures c evs) < unat mx then hd (failures c evs) + FAILED_AUTH_TTL
                      else last (failures c evs) + block)\<rparr>"
  using assms(2-)
proof (induction evs arbitrary: now rule: rev_induct)
  case Nil
  then show ?case by (simp add: in_time_def)
next
  case (snoc e evs)
  let ?l = "limiter_run (limiter_new mx block) evs" and ?ts = "failures c evs"
  have en: "limiter_is_enabled ?l" using assms(1) by simp
  have d: "distinct (map fst (ll_attempts ?l))" using assms(1) by (intro run_distinct) (simp_all add: limiter_new_def)
  obtain t ev where e: "e = (t, ev)" by (cases e)
  have t: "t \<le> now" "sorted (map fst evs)" "\<forall>e \<in> set evs. fst e \<le> t"
    using snoc.prems(1,2) by (auto simp: e sorted_append)
  show ?case
  proof (cases ev)
    case (Check x)
    then have "in_time mx block ?ts now" using snoc.prems(3) by (simp add: e failures_snoc)
    moreover from this have "in_time mx block ?ts t" using t(1) by (auto simp: in_time_def split: if_splits)
    ultimately show ?thesis
      using snoc.IH [of t] t Check
      by (auto simp: e failures_snoc check_record(1) [OF d en] in_time_def split: if_splits)
  next
    case (Success x)
    then show ?thesis
      using snoc.prems(3) snoc.IH [of now] snoc.prems(1,2) t
      by (auto simp: e failures_snoc success_record in_time_def split: if_splits)
  next
    case (Failure x)
    show ?thesis
    proof (cases "x = c")
      case False
      then show ?thesis
        using Failure snoc.prems(3) snoc.IH [of now] snoc.prems(1,2) t
        by (auto simp: e failures_snoc failure_record(1) [OF en] in_time_def split: if_splits)
    next
      case True
      then have it: "in_time mx block (?ts @ [t]) now" using snoc.prems(3) Failure by (simp add: e failures_snoc)
      define n where "n = length ?ts"
      have n: "n + 1 \<le> unat mx" using it by (simp add: in_time_def n_def)
      have "unat mx < 2 ^ LENGTH(32)" by (rule unsigned_less)
      then have "unat (of_nat (n + 1) :: u32) = n + 1" using n by (intro unat_of_nat_small) simp
      then have ge: "mx \<le> of_nat n + 1 \<longleftrightarrow> \<not> n + 1 < unat mx" using n by (auto simp: word_le_nat_alt add.commute)
      have "map_of (ll_attempts ?l) c = (if ?ts = [] then None
        else Some \<lparr>fa_count = of_nat n, fa_until = hd ?ts + FAILED_AUTH_TTL\<rparr>)"
      proof (cases "?ts = []")
        case False
        have "in_time mx block ?ts t" using it False t(1) by (auto simp: in_time_def split: if_splits)
        then show ?thesis using snoc.IH [of t] t n False by (simp add: n_def)
      qed (simp add: run_no_failures [OF assms(1)])
      moreover have "ll_max ?l = mx" "ll_block ?l = block" by (simp_all add: limiter_new_def)
      ultimately show ?thesis
        using True Failure n ge
        by (cases "?ts = []") (auto simp: e failures_snoc failure_record(1) [OF en] Let_def n_def)
    qed
  qed
qed

definition time_left :: "u32 \<Rightarrow> nat \<Rightarrow> (nat \<times> limiter_event) list \<Rightarrow> nat \<Rightarrow> str \<Rightarrow> nat" where
  "time_left mx block evs now c = fst (blocked_for now c (limiter_run (limiter_new mx block) evs))"

lemma time_left_record:
  assumes "limiter_is_enabled (limiter_new mx block)"
  shows "time_left mx block evs now c =
    (case map_of (ll_attempts (limiter_run (limiter_new mx block) evs)) c of
       Some f \<Rightarrow> if now < fa_until f \<and> mx \<le> fa_count f then fa_until f - now else 0 | None \<Rightarrow> 0)"
proof -
  let ?l = "limiter_run (limiter_new mx block) evs"
  have en: "limiter_is_enabled ?l" and d: "distinct (map fst (ll_attempts ?l))"
    using assms by (simp, intro run_distinct) (simp_all add: limiter_new_def)
  have "ll_max ?l = mx" by (simp add: limiter_new_def)
  then show ?thesis
    using en by (auto simp: time_left_def blocked_for_def Let_def map_of_filter_distinct [OF d] split: option.splits)
qed

text \<open>
  C9. The login throttle, over every interleaving of checks, failures and successes of all clients:
  a client is made to wait only after it failed at least the allowed number of times since its last
  success, and then until exactly one block after its last failure; and a client whose failures reach
  the allowed number within a minute of the first is made to wait for the whole block, whatever
  other clients do and however often the table is swept.
\<close>

theorem login_throttle:
  assumes "limiter_is_enabled (limiter_new mx block)" "length evs < 2 ^ 32"
  shows "(time_left mx block evs now c \<noteq> 0 \<longrightarrow>
        unat mx \<le> length (failures c evs) \<and> time_left mx block evs now c = last (failures c evs) + block - now)
    \<and> (sorted (map fst evs) \<and> (\<forall>e \<in> set evs. fst e \<le> now) \<and> length (failures c evs) = unat mx
        \<and> last (failures c evs) < hd (failures c evs) + FAILED_AUTH_TTL \<longrightarrow>
        time_left mx block evs now c = last (failures c evs) + block - now)"
proof -
  let ?left = "time_left mx block evs now c" and ?ts = "failures c evs"
  note left = time_left_record [OF assms(1), of evs now c] and ok = run_record_ok [OF assms, of c]
  have spent: "?left \<noteq> 0 \<Longrightarrow> unat mx \<le> length ?ts \<and> ?left = last ?ts + block - now"
    using left ok by (auto simp: record_ok_def limiter_new_def word_le_nat_alt split: option.splits if_splits)
  moreover have "?left = last ?ts + block - now"
    if "sorted (map fst evs)" "\<forall>e \<in> set evs. fst e \<le> now" "length ?ts = unat mx" "last ?ts < hd ?ts + FAILED_AUTH_TTL"
  proof (cases "now < last ?ts + block")
    case True
    have "0 < unat mx" using assms(1) by (simp add: limiter_is_enabled_def limiter_new_def word_less_nat_alt)
    then have "in_time mx block ?ts now" using that True by (auto simp: in_time_def)
    then show ?thesis using run_counts [OF assms(1) that(1,2)] that(3) True by (simp add: left)
  next
    case False
    then show ?thesis using spent by fastforce
  qed
  ultimately show ?thesis by blast
qed

definition sample_attempts :: "(nat \<times> limiter_event) list" where
  "sample_attempts = [(10, Check ''a''), (11, Failure ''a''), (12, Failure ''b''), (20, Check ''a''), (21, Failure ''a''), (30, Check ''b'')]"

theorem login_throttle_witness:
  "time_left 2 100 sample_attempts 41 ''a'' = 80 \<and> time_left 2 100 sample_attempts 41 ''b'' = 0"
proof -
  have en: "limiter_is_enabled (limiter_new 2 100)" by code_simp
  have len: "length sample_attempts < 2 ^ 32" by code_simp
  have a: "failures ''a'' sample_attempts = [11, 21]" by code_simp
  have b: "failures ''b'' sample_attempts = [12]" by code_simp
  have t: "sorted (map fst sample_attempts)" by code_simp
  have n: "\<forall>e \<in> set sample_attempts. fst e \<le> 41" by code_simp
  have "time_left 2 100 sample_attempts 41 ''a'' = last (failures ''a'' sample_attempts) + 100 - 41"
    by (rule mp [OF conjunct2 [OF login_throttle [OF en len]]])
      (use t n in \<open>simp add: a FAILED_AUTH_TTL_def NANOS_def\<close>)
  moreover have "time_left 2 100 sample_attempts 41 ''b'' = 0"
    using conjunct1 [OF login_throttle [OF en len, of 41 "''b''"]] by (cases "time_left 2 100 sample_attempts 41 ''b'' = 0") (simp_all add: b)
  ultimately show ?thesis by (simp add: a)
qed


section \<open>Sessions across a restart\<close>

text \<open>Tokens are the lower-case hexadecimal form of raw bytes, as \<open>new_token\<close> makes them.\<close>

definition sessions_ok :: "sessions \<Rightarrow> bool" where
  "sessions_ok s \<longleftrightarrow> distinct (map fst (ss_by_token s)) \<and> fst ` set (ss_by_token s) \<subseteq> range hex"

lemma sessions_ok_new [wf_intros]: "sessions_ok sessions_new"
  by (simp add: sessions_ok_def sessions_new_def)

lemma persist_tokens [simp]: "ss_by_token (persist w s) = ss_by_token s"
  by (simp add: persist_def split: option.splits)

lemma create_session_ok [wf_intros]: "sessions_ok s \<Longrightarrow> sessions_ok (snd (create_session now r w u ttl s))"
  by (auto simp: sessions_ok_def create_session_def new_token_def Let_def)

lemma get_session_ok [wf_intros]: "sessions_ok s \<Longrightarrow> sessions_ok (snd (get_session now tok s))"
  by (auto simp: sessions_ok_def get_session_def split: option.splits)

lemma remove_session_ok [wf_intros]: "sessions_ok s \<Longrightarrow> sessions_ok (remove_session w tok s)"
  by (auto simp: sessions_ok_def remove_session_def)

lemma sweep_ok [wf_intros]: "sessions_ok s \<Longrightarrow> sessions_ok (sweep now w s)"
  by (auto simp: sessions_ok_def sweep_def Let_def distinct_map_filter)

lemma load_step_ok: "distinct (map fst out) \<and> fst ` set out \<subseteq> range hex
  \<Longrightarrow> distinct (map fst (load_step now out kv)) \<and> fst ` set (load_step now out kv) \<subseteq> range hex"
  by (auto simp: load_step_def split: option.splits)

lemma load_sessions_ok: "distinct (map fst (load_sessions now bk)) \<and> fst ` set (load_sessions now bk) \<subseteq> range hex"
  unfolding load_sessions_def
  by (induction bk rule: rev_induct) (use load_step_ok in simp_all)

lemma sessions_open_ok [wf_intros]: "sessions_ok (sessions_open now file)"
  using load_sessions_ok by (simp add: sessions_ok_def sessions_open_def split: option.splits)

text \<open>Keys read back.\<close>

lemma parse_hex_byte: "parse_hex_u8 (hex_byte b) = Some (unat b)"
proof -
  have "unat b < 2 ^ LENGTH(8)" by (rule unsigned_less)
  then have "unat b div 16 < 16" "unat b mod 16 < 16" "unat b \<le> 255" by auto
  then show ?thesis
    using hex_char_facts [of "unat b div 16"] hex_char_facts [of "unat b mod 16"]
    by (auto simp: parse_hex_u8_def hex_byte_def strip_prefix_def starts_with_def be_value_def Let_def)
qed

lemma token_bytes_hex: "token_bytes (hex k) = Some k"
  using parse_hex_byte by (induction k) (simp_all add: hex_def hex_byte_def)

lemma inj_hex: "inj hex"
  by (rule injI) (metis option.inject token_bytes_hex)

lemma be_u32_back: "u32_be (be_u32 v) = v"
proof (rule bit_word_eqI)
  fix n assume "n < LENGTH(32)"
  then consider "n < 8" | "8 \<le> n" "n < 16" | "16 \<le> n" "n < 24" | "24 \<le> n" "n < 32" by fastforce
  then show "bit (u32_be (be_u32 v)) n = bit v n"
    by cases (auto simp: u32_be_def be_u32_def bit_simps)
qed

lemma be_u16_back: "u16_be (be_u16 v) = v"
proof (rule bit_word_eqI)
  fix n assume "n < LENGTH(16)"
  then consider "n < 8" | "8 \<le> n" "n < 16" by fastforce
  then show "bit (u16_be (be_u16 v)) n = bit v n"
    by cases (auto simp: u16_be_def be_u16_def bit_simps)
qed

lemma decode_encode_session:
  assumes "valid_str (se_user s)" "length (se_user s) < 2 ^ 16" "se_expires s div NANOS < 2 ^ 32"
  shows "decode_session (encode_session s) = Some (s\<lparr>se_expires := se_expires s div NANOS * NANOS\<rparr>)"
proof -
  define e :: u32 where "e = of_nat (se_expires s div NANOS)"
  define n :: u16 where "n = of_nat (length (se_user s))"
  have en: "unat e = se_expires s div NANOS" "unat n = length (se_user s)"
    unfolding e_def n_def using assms by (simp_all add: unat_of_nat_small)
  have enc: "encode_session s = be_u32 e @ be_u16 n @ as_bytes (se_user s)"
    using assms by (simp add: encode_session_def Let_def e_def n_def min_def)
  have len: "length (be_u32 e) = 4" "length (be_u16 n) = 2" by (simp_all add: be_u32_def be_u16_def)
  have name: "map (\<lambda>x. char_of (unat x)) (from_utf8_lossy (as_bytes (se_user s))) = se_user s"
    using from_utf8_as_bytes [OF assms(1)] assms(1) by (simp add: lossy_valid valid_str_def from_utf8_def)
  show ?thesis
    by (simp add: decode_session_def enc len Let_def be_u32_back be_u16_back en name)
qed

text \<open>What the store holds under each key, and what is read from it.\<close>

lemma map_of_stored:
  assumes "distinct (map fst m)" "fst ` set m \<subseteq> range hex"
  shows "map_of (foldl store_step bk m) k =
    (case map_of m (hex k) of Some s \<Rightarrow> Some (encode_session s) | None \<Rightarrow> map_of bk k)"
  using assms
proof (induction m arbitrary: bk)
  case (Cons e m)
  then obtain k' where k': "fst e = hex k'" by auto
  have "map_of m (hex k) = None" if "k = k'" using Cons.prems k' that by (auto simp: map_of_eq_None_iff)
  then show ?case
    using Cons k' inj_hex by (auto simp: store_step_def token_bytes_hex inj_eq split: option.splits)
qed simp

lemma distinct_stored: "distinct (map fst bk) \<Longrightarrow> distinct (map fst (foldl store_step bk m))"
  by (induction m arbitrary: bk) (auto simp: store_step_def split: option.splits)

lemma map_of_loaded:
  assumes "distinct (map fst bk)"
  shows "map_of (foldl (load_step now) out bk) (hex k) =
    (case Option.bind (map_of bk k) decode_session of
       Some s \<Rightarrow> if se_expires s \<le> now then map_of out (hex k) else Some s | None \<Rightarrow> map_of out (hex k))"
  using assms
proof (induction bk arbitrary: out)
  case (Cons kv bk)
  have "map_of bk k = None" if "k = fst kv" using Cons.prems that by (auto simp: map_of_eq_None_iff)
  then show ?case
    using Cons inj_hex by (auto simp: load_step_def inj_eq split: option.splits)
qed simp

text \<open>
  C10. Sessions survive a restart: what the store reads back from the file it has just written is
  every session that is still valid, under the same token and for the same user, with its expiry cut
  to whole seconds, and nothing else.
\<close>

theorem sessions_survive_restart:
  assumes "sessions_ok s" "ss_file s \<noteq> None"
    and "\<forall>e \<in> snd ` set (ss_by_token s). valid_str (se_user e) \<and> length (se_user e) < 2 ^ 16 \<and> se_expires e div NANOS < 2 ^ 32"
  shows "map_of (ss_by_token (sessions_open now (ss_file (persist True s)))) tok =
    (case map_of (ss_by_token s) tok of
       None \<Rightarrow> None
     | Some e \<Rightarrow> if se_expires e div NANOS * NANOS \<le> now then None
                 else Some (e\<lparr>se_expires := se_expires e div NANOS * NANOS\<rparr>))"
proof (cases "tok \<in> range hex")
  case False
  then have "map_of (load_sessions now bk) tok = None" "map_of (ss_by_token s) tok = None" for bk
    using load_sessions_ok [of now bk] assms(1) by (auto simp: map_of_eq_None_iff sessions_ok_def)
  then show ?thesis using assms(2) by (auto simp: sessions_open_def persist_def)
next
  case True
  then obtain k where k: "tok = hex k" by blast
  have "map_of (stored_sessions (ss_by_token s)) k = map_option encode_session (map_of (ss_by_token s) tok)"
    using assms(1) map_of_stored [of "ss_by_token s" "[]" k]
    by (simp add: stored_sessions_def sessions_ok_def k split: option.splits)
  moreover have "decode_session (encode_session e) = Some (e\<lparr>se_expires := se_expires e div NANOS * NANOS\<rparr>)"
    if "map_of (ss_by_token s) tok = Some e" for e
    using assms(3) map_of_SomeD [OF that] by (intro decode_encode_session) force+
  ultimately show ?thesis
    using assms(2) map_of_loaded [OF distinct_stored [of "[]"], of now "[]" "ss_by_token s" k]
    by (auto simp: sessions_open_def persist_def load_sessions_def stored_sessions_def k split: option.splits)
qed


definition sample_sessions :: sessions where
  "sample_sessions = \<lparr>ss_by_token = [(hex [0xAB, 1], \<lparr>se_user = ''admin'', se_expires = 5000000000 + 7\<rparr>),
     (hex [2, 0x1F], \<lparr>se_user = ''eve'', se_expires = 3000000000\<rparr>)], ss_file = Some []\<rparr>"

theorem sessions_survive_restart_witness:
  "map_of (ss_by_token (sessions_open 4000000000 (ss_file (persist True sample_sessions)))) ''ab01''
     = Some \<lparr>se_user = ''admin'', se_expires = 5000000000\<rparr>"
proof -
  have "distinct (map fst (ss_by_token sample_sessions))" by code_simp
  then have ok: "sessions_ok sample_sessions" by (auto simp: sessions_ok_def sample_sessions_def)
  have stored: "ss_file sample_sessions \<noteq> None" by (simp add: sample_sessions_def)
  have fits: "\<forall>e \<in> snd ` set (ss_by_token sample_sessions).
    valid_str (se_user e) \<and> length (se_user e) < 2 ^ 16 \<and> se_expires e div NANOS < 2 ^ 32" by code_simp
  have "map_of (ss_by_token sample_sessions) ''ab01'' = Some \<lparr>se_user = ''admin'', se_expires = 5000000007\<rparr>" by code_simp
  then show ?thesis
    using sessions_survive_restart [OF ok stored fits, of 4000000000 "''ab01''"] by (simp add: NANOS_def)
qed

section \<open>Who gets through the gate\<close>

text \<open>A cookie that names a session not yet expired, and Basic credentials that verify.\<close>

definition live_session :: "nat \<Rightarrow> http_request \<Rightarrow> auth_state \<Rightarrow> bool" where
  "live_session now rq s \<longleftrightarrow>
     (\<exists>tok e. cookie_token rq = Some tok \<and> map_of (ss_by_token (au_sessions s)) tok = Some e \<and> now < se_expires e)"

definition valid_credentials :: "auth_env \<Rightarrow> http_request \<Rightarrow> auth_state \<Rightarrow> bool" where
  "valid_credentials A rq s \<longleftrightarrow>
     (\<exists>a user pass hash. rq_authorization rq = Some (Text a) \<and> basic_credentials A a = Some (user, pass)
        \<and> user_password s user = Some hash \<and> ae_bcrypt A pass hash = Some True)"

definition throttle_wait :: "(nat \<Rightarrow> nat) \<Rightarrow> http_request \<Rightarrow> auth_state \<Rightarrow> nat" where
  "throttle_wait clk rq s = fst (blocked_for (clk 0) (peer_ip rq) (au_limiter s))"

definition admitted :: "auth_env \<Rightarrow> (nat \<Rightarrow> nat) \<Rightarrow> http_request \<Rightarrow> auth_state \<Rightarrow> bool" where
  "admitted A clk rq s \<longleftrightarrow>
     (if rq_authorization rq = None then live_session (clk 0) rq s
      else throttle_wait clk rq s = 0 \<and> (live_session (clk 1) rq s \<or> valid_credentials A rq s))"

lemma basic_user_valid: "basic_user A s rq \<noteq> None \<longleftrightarrow> valid_credentials A rq s"
proof (cases "rq_authorization rq")
  case (Some v)
  then show ?thesis
    by (cases v) (auto simp: basic_user_def valid_credentials_def verify_password_def split: option.splits prod.splits)
qed (simp add: basic_user_def valid_credentials_def)

lemma current_user_valid:
  "fst (current_user A now rq s) \<noteq> None \<longleftrightarrow> live_session now rq s \<or> valid_credentials A rq s"
proof -
  have "live_session now rq s \<Longrightarrow> fst (current_user A now rq s) \<noteq> None"
    by (auto simp: live_session_def current_user_def get_session_def)
  moreover have "\<not> live_session now rq s \<Longrightarrow> fst (current_user A now rq s) = basic_user A s rq"
    by (auto simp: live_session_def current_user_def get_session_def not_less split: option.splits)
  ultimately show ?thesis
    using basic_user_valid [of A s rq] by (cases "live_session now rq s") auto
qed

lemma current_user_limiter [simp]: "au_limiter (snd (current_user A now rq s)) = au_limiter s"
  by (auto simp: current_user_def split: option.splits prod.splits)

lemma no_authorization: "rq_authorization rq = None \<Longrightarrow> \<not> valid_credentials A rq s"
  by (simp add: valid_credentials_def)

lemma credentials_limiter [simp]:
  "valid_credentials A rq (s\<lparr>au_limiter := l\<rparr>) = valid_credentials A rq s"
  "live_session now rq (s\<lparr>au_limiter := l\<rparr>) = live_session now rq s"
  by (simp_all add: valid_credentials_def user_password_def live_session_def)

text \<open>The four ways \<open>authenticate\<close> can end.\<close>

lemma authenticate_cases:
  obtains (throttled) s' where "rq_authorization rq \<noteq> None" "throttle_wait clk rq s \<noteq> 0" "\<not> admitted A clk rq s"
      "authenticate A clk rq s = (Inl (throttle_wait clk rq s), s')" "au_sessions s' = au_sessions s"
  | (admitted) u s' where "admitted A clk rq s" "authenticate A clk rq s = (Inr (Some u), s')"
  | (refused) s' where "rq_authorization rq = None" "\<not> admitted A clk rq s"
      "authenticate A clk rq s = (Inr None, s')" "au_limiter s' = au_limiter s"
  | (failed) s' where "rq_authorization rq \<noteq> None" "\<not> admitted A clk rq s" "throttle_wait clk rq s = 0"
      "authenticate A clk rq s = (Inr None, s')"
      "au_limiter s' = record_failure (clk 2) (peer_ip rq) (snd (blocked_for (clk 0) (peer_ip rq) (au_limiter s)))"
proof -
  obtain left l where b: "blocked_for (clk 0) (peer_ip rq) (au_limiter s) = (left, l)" by fastforce
  obtain u0 s0 where c0: "current_user A (clk 0) rq s = (u0, s0)" by fastforce
  obtain u1 s1 where c1: "current_user A (clk 1) rq (s\<lparr>au_limiter := l\<rparr>) = (u1, s1)" by fastforce
  have v0: "u0 \<noteq> None \<longleftrightarrow> live_session (clk 0) rq s \<or> valid_credentials A rq s"
    using current_user_valid [of A "clk 0" rq s] c0 by simp
  have v1: "u1 \<noteq> None \<longleftrightarrow> live_session (clk 1) rq s \<or> valid_credentials A rq s"
    using current_user_valid [of A "clk 1" rq "s\<lparr>au_limiter := l\<rparr>"] c1 by simp
  have l1: "au_limiter s0 = au_limiter s" "au_limiter s1 = l"
    using current_user_limiter [of A "clk 0" rq s, unfolded c0]
      current_user_limiter [of A "clk 1" rq "s\<lparr>au_limiter := l\<rparr>", unfolded c1] by simp_all
  have w: "throttle_wait clk rq s = left" by (simp add: throttle_wait_def b)
  consider "rq_authorization rq = None" "u0 = None" | u where "rq_authorization rq = None" "u0 = Some u"
    | "rq_authorization rq \<noteq> None" "left \<noteq> 0" | "rq_authorization rq \<noteq> None" "left = 0" "u1 = None"
    | u where "rq_authorization rq \<noteq> None" "left = 0" "u1 = Some u" by blast
  then show ?thesis
  proof cases
    case 1
    then show ?thesis using v0 l1 by (intro refused [of s0]) (auto simp: admitted_def authenticate_def c0)
  next
    case 2
    then show ?thesis using v0 no_authorization by (intro admitted [of u s0]) (auto simp: admitted_def authenticate_def c0)
  next
    case 3
    then show ?thesis by (intro throttled [of "s\<lparr>au_limiter := l\<rparr>"]) (auto simp: admitted_def authenticate_def b w)
  next
    case 4
    then have "authenticate A clk rq s = (Inr None, s1\<lparr>au_limiter := record_failure (clk 2) (peer_ip rq) l\<rparr>)"
      by (auto simp: authenticate_def b c1 [unfolded One_nat_def] l1 Let_def)
    then show ?thesis using 4 v1
      by (intro failed [of "s1\<lparr>au_limiter := record_failure (clk 2) (peer_ip rq) l\<rparr>"]) (auto simp: admitted_def w b)
  next
    case 5
    then have "authenticate A clk rq s = (Inr (Some u), s1\<lparr>au_limiter := record_success (peer_ip rq) (au_limiter s1)\<rparr>)"
      by (auto simp: authenticate_def b c1 [unfolded One_nat_def] Let_def)
    then show ?thesis using 5 v1
      by (intro admitted [of u "s1\<lparr>au_limiter := record_success (peer_ip rq) (au_limiter s1)\<rparr>"]) (auto simp: admitted_def w)
  qed
qed

text \<open>
  C8. The gate, once a user exists.  A request to the control interface is passed on exactly when it
  is no setup endpoint and either a public path or admitted: by a cookie naming a session that has
  not expired, or by Basic credentials that verify, provided a request with credentials comes from a
  client that is not being made to wait.  Setup endpoints are gone and change nothing, a throttled
  client is told to wait before its credentials are looked at, a failed guess is counted, and no page
  but the public ones is served to a visitor who is not admitted.
\<close>

theorem admin_gate:
  assumes "au_users s \<noteq> []"
  shows "(fst (require_auth A clk rq s) = Next \<longleftrightarrow>
      rq_path rq \<notin> set INSTALL \<and> (rq_path rq \<in> set PUBLIC \<or> admitted A clk rq s))
    \<and> (rq_path rq \<in> set INSTALL \<longrightarrow> require_auth A clk rq s = (NotFound, s))
    \<and> (rq_path rq \<notin> set INSTALL \<union> set PUBLIC \<and> rq_authorization rq \<noteq> None \<longrightarrow>
        (if throttle_wait clk rq s \<noteq> 0
         then fst (require_auth A clk rq s) = TooManyAttempts (throttle_wait clk rq s div NANOS)
           \<and> au_sessions (snd (require_auth A clk rq s)) = au_sessions s
         else \<not> admitted A clk rq s \<longrightarrow> au_limiter (snd (require_auth A clk rq s))
           = record_failure (clk 2) (peer_ip rq) (snd (blocked_for (clk 0) (peer_ip rq) (au_limiter s)))))
    \<and> (\<forall>p. fst (serve_ui A clk rq s) = Page p \<longrightarrow>
        p = rq_path rq \<and> \<not> is_install_page p \<and> (is_public_page p \<or> admitted A clk rq s))"
proof -
  have n: "\<not> needs_install s" using assms by (simp add: needs_install_def)
  note gate = require_auth_def n Let_def too_many_attempts_def
  have "fst (require_auth A clk rq s) = Next \<longleftrightarrow>
      rq_path rq \<notin> set INSTALL \<and> (rq_path rq \<in> set PUBLIC \<or> admitted A clk rq s)"
    by (cases rule: authenticate_cases [of rq clk s A]) (auto simp: gate)
  moreover have "require_auth A clk rq s = (NotFound, s)" if "rq_path rq \<in> set INSTALL"
    using that by (simp add: gate)
  moreover have "fst (require_auth A clk rq s) = TooManyAttempts (throttle_wait clk rq s div NANOS)
      \<and> au_sessions (snd (require_auth A clk rq s)) = au_sessions s"
    if "rq_path rq \<notin> set INSTALL \<union> set PUBLIC" "rq_authorization rq \<noteq> None" "throttle_wait clk rq s \<noteq> 0"
    using that by (cases rule: authenticate_cases [of rq clk s A]) (auto simp: gate admitted_def)
  moreover have "au_limiter (snd (require_auth A clk rq s))
      = record_failure (clk 2) (peer_ip rq) (snd (blocked_for (clk 0) (peer_ip rq) (au_limiter s)))"
    if "rq_path rq \<notin> set INSTALL \<union> set PUBLIC" "rq_authorization rq \<noteq> None" "throttle_wait clk rq s = 0" "\<not> admitted A clk rq s"
    using that by (cases rule: authenticate_cases [of rq clk s A]) (auto simp: gate)
  moreover have "p = rq_path rq \<and> \<not> is_install_page p \<and> (is_public_page p \<or> admitted A clk rq s)"
    if "fst (serve_ui A clk rq s) = Page p" for p
    using that by (cases rule: authenticate_cases [of rq clk s A])
      (auto simp: serve_ui_def n Let_def too_many_attempts_def split: if_splits)
  ultimately show ?thesis by auto
qed

definition sample_auth_env :: auth_env where
  "sample_auth_env = \<lparr>ae_bcrypt = (\<lambda>p h. Some (p = h)), ae_base64 = (\<lambda>s. Some (as_bytes s))\<rparr>"

definition sample_auth :: auth_state where
  "sample_auth = \<lparr>au_users = [(''admin'', ''secret'')], au_sessions = sample_sessions,
     au_limiter = limiter_new 5 (900 * NANOS), au_session_ttl = 3600\<rparr>"

definition sample_http :: "str \<Rightarrow> header_value option \<Rightarrow> http_request" where
  "sample_http path a = \<lparr>rq_path = path, rq_query = [], rq_peer = None, rq_host = None, rq_cookie = None, rq_authorization = a\<rparr>"

theorem admin_gate_witness:
  "fst (require_auth sample_auth_env (\<lambda>_. 7) (sample_http ''/status'' (Some (Text ''Basic admin:secret''))) sample_auth) = Next
   \<and> fst (require_auth sample_auth_env (\<lambda>_. 7) (sample_http ''/status'' None) sample_auth) \<noteq> Next
   \<and> require_auth sample_auth_env (\<lambda>_. 7) (sample_http ''/install/configure'' None) sample_auth = (NotFound, sample_auth)"
proof -
  have u: "au_users sample_auth \<noteq> []" by (simp add: sample_auth_def)
  have i: "''/status'' \<notin> set INSTALL" "''/status'' \<notin> set PUBLIC" "''/install/configure'' \<in> set INSTALL" by code_simp+
  have "basic_user sample_auth_env sample_auth (sample_http ''/status'' (Some (Text ''Basic admin:secret''))) = Some ''admin''"
    by code_simp
  then have "valid_credentials sample_auth_env (sample_http ''/status'' (Some (Text ''Basic admin:secret''))) sample_auth"
    by (intro basic_user_valid [THEN iffD1]) simp
  moreover have "throttle_wait (\<lambda>_. 7) (sample_http ''/status'' (Some (Text ''Basic admin:secret''))) sample_auth = 0" by code_simp
  ultimately have "admitted sample_auth_env (\<lambda>_. 7) (sample_http ''/status'' (Some (Text ''Basic admin:secret''))) sample_auth"
    by (simp add: admitted_def sample_http_def)
  moreover have "\<not> admitted sample_auth_env (\<lambda>_. 7) (sample_http ''/status'' None) sample_auth"
    by (simp add: admitted_def live_session_def cookie_token_def sample_http_def)
  ultimately show ?thesis
    using admin_gate [OF u, of sample_auth_env "\<lambda>_. 7" "sample_http ''/status'' (Some (Text ''Basic admin:secret''))"]
      admin_gate [OF u, of sample_auth_env "\<lambda>_. 7" "sample_http ''/status'' None"]
      admin_gate [OF u, of sample_auth_env "\<lambda>_. 7" "sample_http ''/install/configure'' None"] i
    by (simp add: sample_http_def)
qed

end
