(* ===== verification/Rust_Result.thy ===== *)
theory Rust_Result
  imports Prelude
begin

text \<open>
  The outcome of fallible Rust code: a value, an error, or a panic.  \<open>and_then\<close> is what the
  \<open>?\<close> operator does.
\<close>

datatype ('a, 'e) rust_result = Ok 'a | Err 'e | Panic

fun and_then :: "('a, 'e) rust_result \<Rightarrow> ('a \<Rightarrow> ('b, 'e) rust_result) \<Rightarrow> ('b, 'e) rust_result" where
  "and_then (Ok x) f = f x"
| "and_then (Err e) f = Err e"
| "and_then Panic f = Panic"

lemma and_then_cong [fundef_cong]:
  "r = r' \<Longrightarrow> (\<And>x. r' = Ok x \<Longrightarrow> f x = g x) \<Longrightarrow> and_then r f = and_then r' g"
  by (cases r') auto

lemma and_then_Ok: "and_then r f = Ok y \<longleftrightarrow> (\<exists>x. r = Ok x \<and> f x = Ok y)"
  by (cases r) auto

lemma and_then_Panic: "and_then r f = Panic \<longleftrightarrow> r = Panic \<or> (\<exists>x. r = Ok x \<and> f x = Panic)"
  by (cases r) auto

end
