(* ===== verification/Addr.thy ===== *)
theory Addr
  imports Ipaddr Rust_Result
begin

text \<open>
  Upstream specifications: \<open>crates/sift-dns/src/addr.rs\<close>.  The messages of \<open>ParseError::Invalid\<close> are
  kept as the data they format.
\<close>

section \<open>Definitions\<close>

datatype transport = OverUdp | OverTcp | OverTls | OverHttps | OverQuic | OverStamp

fun default_port :: "transport \<Rightarrow> u16" where
  "default_port OverUdp = 53"
| "default_port OverTcp = 53"
| "default_port OverTls = 853"
| "default_port OverQuic = 853"
| "default_port OverHttps = 443"
| "default_port OverStamp = 443"

fun scheme :: "transport \<Rightarrow> str" where
  "scheme OverUdp = ''udp''"
| "scheme OverTcp = ''tcp''"
| "scheme OverTls = ''tls''"
| "scheme OverHttps = ''https''"
| "scheme OverQuic = ''quic''"
| "scheme OverStamp = ''sdns''"

record upstream =
  up_transport :: transport
  up_host :: str
  up_port :: u16
  up_path :: str
  up_original :: str

definition authority :: "upstream \<Rightarrow> str" where
  "authority u =
     (if CHR '':'' \<in> set (up_host u) \<and> \<not> starts_with (up_host u) ''[''
      then ''['' @ up_host u @ '']:'' @ show_nat (unat (up_port u))
      else up_host u @ '':'' @ show_nat (unat (up_port u)))"

definition label :: "upstream \<Rightarrow> str" where
  "label u =
     (case up_transport u of
        OverUdp \<Rightarrow> authority u
      | OverTcp \<Rightarrow> authority u
      | OverStamp \<Rightarrow> up_original u
      | t \<Rightarrow> scheme t @ ''://'' @ authority u @ up_path u)"

definition is_supported :: "upstream \<Rightarrow> bool" where
  "is_supported u \<longleftrightarrow> up_transport u \<noteq> OverStamp"

definition show_upstream :: "upstream \<Rightarrow> str" where
  "show_upstream u = up_original u"

record upstream_entry =
  ue_domains :: "str list"
  ue_upstream :: "upstream option"

definition entry_is_default :: "upstream_entry \<Rightarrow> bool" where
  "entry_is_default e \<longleftrightarrow> ue_domains e = []"

datatype invalid_reason = UnknownScheme str | MalformedHostPort | EmptyHost

datatype addr_error = EmptyLine | UnterminatedDomains str | InvalidSpec str invalid_reason

type_synonym 'a addr_result = "('a, addr_error) rust_result"

text \<open>\<open>split_once\<close> with a string pattern, and \<open>rsplit_once\<close> with a character.\<close>

definition split_once_str :: "str \<Rightarrow> str \<Rightarrow> (str \<times> str) option" where
  "split_once_str p s = map_option (\<lambda>i. (take i s, drop (i + length p) s)) (find_str p s)"

definition rsplit_once :: "char \<Rightarrow> str \<Rightarrow> (str \<times> str) option" where
  "rsplit_once c s = map_option (\<lambda>(a, b). (rev b, rev a)) (split_once_by (\<lambda>x. x = c) (rev s))"

definition parse_ipv6 :: "str \<Rightarrow> bool" where
  "parse_ipv6 s \<longleftrightarrow> (case read_ipv6 s of Some (_, r) \<Rightarrow> r = [] | None \<Rightarrow> False)"

definition parse_port :: "str \<Rightarrow> u16 option" where
  "parse_port s = map_option of_nat (parse_uint 65535 s)"

definition split_domains :: "str \<Rightarrow> (str list \<times> str) addr_result" where
  "split_domains t =
     (case strip_prefix ''[/'' t of
        None \<Rightarrow>
          (case strip_prefix ''[//]'' t of
             Some rest \<Rightarrow> Ok ([[]], trim rest)
           | None \<Rightarrow> Ok ([], t))
      | Some after_open \<Rightarrow>
          (case find_str ''/]'' after_open of
             None \<Rightarrow> Err (UnterminatedDomains t)
           | Some close \<Rightarrow>
               Ok (map (\<lambda>d. to_ascii_lowercase (trim_end_matches CHR ''.'' (trim d)))
                     (split_char CHR ''/'' (take close after_open)),
                   trim (drop (close + 2) after_open))))"

definition split_host_port :: "str \<Rightarrow> u16 \<Rightarrow> (str \<times> u16) option" where
  "split_host_port a dflt =
     (case strip_prefix ''['' a of
        Some rest \<Rightarrow>
          (case find_str '']'' rest of
             None \<Rightarrow> None
           | Some close \<Rightarrow>
               let host = take close rest; after = drop (close + 1) rest in
               (case strip_prefix '':'' after of
                  Some p \<Rightarrow> map_option (\<lambda>p. (host, p)) (parse_port p)
                | None \<Rightarrow> if after = [] then Some (host, dflt) else None))
      | None \<Rightarrow>
          if count_list a CHR '':'' > 1
          then (if parse_ipv6 a then Some (a, dflt) else None)
          else (case rsplit_once CHR '':'' a of
                  Some (h, p) \<Rightarrow> map_option (\<lambda>p. (h, p)) (parse_port p)
                | None \<Rightarrow> Some (a, dflt)))"

definition transport_of :: "str \<Rightarrow> transport option" where
  "transport_of s =
     (if s = ''udp'' then Some OverUdp else if s = ''tcp'' then Some OverTcp else if s = ''tls'' then Some OverTls
      else if s = ''https'' then Some OverHttps else if s = ''h3'' then Some OverHttps else if s = ''quic'' then Some OverQuic
      else if s = ''sdns'' then Some OverStamp else None)"

definition split_path :: "str \<Rightarrow> str \<times> str" where
  "split_path rest = (case find_str ''/'' rest of Some i \<Rightarrow> (take i rest, drop i rest) | None \<Rightarrow> (rest, []))"

definition build_upstream :: "str \<Rightarrow> transport \<Rightarrow> str \<Rightarrow> upstream addr_result" where
  "build_upstream s t rest =
     (let (auth, path) = split_path rest in
      case split_host_port auth (default_port t) of
        None \<Rightarrow> Err (InvalidSpec s MalformedHostPort)
      | Some (host, port) \<Rightarrow>
          if host = [] then Err (InvalidSpec s EmptyHost)
          else Ok \<lparr>up_transport = t, up_host = host, up_port = port,
                   up_path = (if t = OverHttps \<and> path = [] then ''/dns-query'' else path), up_original = s\<rparr>)"

definition parse_address :: "str \<Rightarrow> upstream addr_result" where
  "parse_address s =
     (case split_once_str ''://'' s of
        None \<Rightarrow> build_upstream s OverUdp s
      | Some (sch, r) \<Rightarrow>
          (case transport_of sch of
             None \<Rightarrow> Err (InvalidSpec s (UnknownScheme sch))
           | Some OverStamp \<Rightarrow>
               Ok \<lparr>up_transport = OverStamp, up_host = r, up_port = default_port OverStamp, up_path = [], up_original = s\<rparr>
           | Some t \<Rightarrow> build_upstream s t r))"

definition parse_upstream :: "str \<Rightarrow> upstream_entry addr_result" where
  "parse_upstream line =
     (let t = trim line in
      if t = [] \<or> starts_with t ''#'' then Err EmptyLine
      else and_then (split_domains t) (\<lambda>(domains, rest).
        if rest = ''#'' then Ok \<lparr>ue_domains = domains, ue_upstream = None\<rparr>
        else and_then (parse_address rest) (\<lambda>u. Ok \<lparr>ue_domains = domains, ue_upstream = Some u\<rparr>)))"

fun parse_upstream_list :: "str list \<Rightarrow> upstream_entry list \<times> (str \<times> addr_error) list" where
  "parse_upstream_list [] = ([], [])"
| "parse_upstream_list (l # ls) =
     (let (ok, bad) = parse_upstream_list ls in
      case parse_upstream l of
        Ok e \<Rightarrow> (e # ok, bad)
      | Err EmptyLine \<Rightarrow> (ok, bad)
      | Err e \<Rightarrow> (ok, (l, e) # bad)
      | Panic \<Rightarrow> (ok, bad))"

section \<open>Labels\<close>

text \<open>A host as an upstream has one: a name or IPv4 address without delimiters, or an IPv6 address.\<close>

definition host_ok :: "str \<Rightarrow> bool" where
  "host_ok h \<longleftrightarrow> h \<noteq> [] \<and> CHR ''/'' \<notin> set h \<and> CHR ''['' \<notin> set h \<and> CHR '']'' \<notin> set h"

definition upstream_ok :: "upstream \<Rightarrow> bool" where
  "upstream_ok u \<longleftrightarrow> host_ok (up_host u) \<and> up_transport u \<in> {OverUdp, OverTls, OverHttps, OverQuic}
     \<and> (up_path u = [] \<longrightarrow> up_transport u \<noteq> OverHttps) \<and> (up_path u \<noteq> [] \<longrightarrow> hd (up_path u) = CHR ''/'')
     \<and> (up_transport u = OverUdp \<longrightarrow> up_path u = [])"

lemma strip_char [simp]: "strip_prefix [c] (c # s) = Some s"
  using strip_prefix_append [of "[c]" s] by simp

lemma digits_no: "\<not> is_ascii_digit c \<Longrightarrow> c \<notin> set (show_nat n)"
  using show_nat_digits [of n] by (auto simp: list_all_iff simp del: show_nat_digits)

lemma parse_port_show: "parse_port (show_nat (unat p)) = Some p"
proof -
  have "unat p \<le> 65535" using unsigned_less [of p, where 'a = nat] by simp
  then show ?thesis by (simp add: parse_port_def)
qed

lemma authority_chars: "host_ok (up_host u) \<Longrightarrow> CHR ''/'' \<notin> set (authority u)"
  by (auto simp: authority_def host_ok_def is_ascii_digit_def intro!: digits_no)

lemma split_host_port_authority:
  assumes "host_ok (up_host u)"
  shows "split_host_port (authority u) d = Some (up_host u, up_port u)"
proof (cases "CHR '':'' \<in> set (up_host u)")
  case True
  have nb: "\<not> starts_with (up_host u) ''[''" using assms by (auto simp: host_ok_def starts_with_iff)
  let ?r = "up_host u @ CHR '']'' # '':'' @ show_nat (unat (up_port u))"
  have "authority u = ''['' @ ?r" using True nb by (simp add: authority_def)
  moreover have "find_str '']'' ?r = Some (length (up_host u))" using assms by (intro find_str_char) (simp add: host_ok_def)
  ultimately show ?thesis by (simp add: split_host_port_def parse_port_show Let_def)
next
  case False
  let ?p = "show_nat (unat (up_port u))"
  have a: "authority u = up_host u @ CHR '':'' # ?p" using False by (simp add: authority_def)
  have np: "CHR '':'' \<notin> set ?p" by (rule digits_no) (simp add: is_ascii_digit_def)
  have "strip_prefix ''['' (authority u) = None"
    using assms by (cases "up_host u") (auto simp: a host_ok_def strip_prefix_def starts_with_Cons)
  moreover have "count_list (authority u) CHR '':'' = 1" using False np by (simp add: a count_list_0_iff)
  moreover have "rsplit_once CHR '':'' (authority u) = Some (up_host u, ?p)"
  proof -
    have "dropWhile (\<lambda>c. c \<noteq> CHR '':'') (rev ?p @ CHR '':'' # rev (up_host u)) = CHR '':'' # rev (up_host u)"
      using np by (subst dropWhile_append2) auto
    moreover have "takeWhile (\<lambda>c. c \<noteq> CHR '':'') (rev ?p @ CHR '':'' # rev (up_host u)) = rev ?p"
      using np by (subst takeWhile_append2) auto
    ultimately show ?thesis by (simp add: rsplit_once_def a split_once_by_def)
  qed
  ultimately show ?thesis by (simp add: split_host_port_def parse_port_show)
qed


lemma build_upstream_label:
  assumes "upstream_ok u"
  shows "build_upstream s (up_transport u) (authority u @ up_path u) = Ok (u\<lparr>up_original := s\<rparr>)"
proof -
  have h: "host_ok (up_host u)" using assms by (simp add: upstream_ok_def)
  have "split_path (authority u @ up_path u) = (authority u, up_path u)"
  proof (cases "up_path u")
    case Nil
    then show ?thesis using find_str_char_None [OF authority_chars [OF h]] by (simp add: split_path_def)
  next
    case (Cons c p)
    then have "c = CHR ''/''" using assms by (simp add: upstream_ok_def)
    then show ?thesis using find_str_char [OF authority_chars [OF h], of p] Cons by (simp add: split_path_def)
  qed
  moreover have "up_host u \<noteq> []" using h by (simp add: host_ok_def)
  moreover have "(if up_transport u = OverHttps \<and> up_path u = [] then ''/dns-query'' else up_path u) = up_path u"
    using assms by (auto simp: upstream_ok_def)
  moreover have "\<lparr>up_transport = up_transport u, up_host = up_host u, up_port = up_port u, up_path = up_path u, up_original = s\<rparr>
    = u\<lparr>up_original := s\<rparr>" by (cases u) simp
  ultimately show ?thesis by (simp add: build_upstream_def split_host_port_authority [OF h] del: if_cong)
qed

lemma no_scheme: "CHR ''/'' \<notin> set s \<Longrightarrow> split_once_str ''://'' s = None"
proof -
  assume n: "CHR ''/'' \<notin> set s"
  have "find_str ''://'' s = None"
  proof (rule ccontr)
    assume "find_str ''://'' s \<noteq> None"
    then obtain i where "find_str ''://'' s = Some i" by blast
    from find_str_Some [OF this] have "CHR ''/'' \<in> set s" by (metis Un_iff list.set_intros(1) list.set_intros(2) set_append)
    then show False using n by simp
  qed
  then show ?thesis by (simp add: split_once_str_def)
qed

text \<open>
   The label an upstream has in the query log is a specification of it: parsing it gives the same
  transport, host, port and path.  (The label of a plain upstream does not say whether it is asked over
  UDP or TCP, and reads as UDP.)
\<close>

theorem label_parses_back:
  assumes "upstream_ok u"
  shows "parse_address (label u) = Ok (u\<lparr>up_original := label u\<rparr>)"
proof -
  have h: "host_ok (up_host u)" and t: "up_transport u \<in> {OverUdp, OverTls, OverHttps, OverQuic}"
    using assms by (simp_all add: upstream_ok_def)
  show ?thesis
  proof (cases "up_transport u = OverUdp")
    case True
    then have "label u = authority u @ up_path u" using assms by (simp add: label_def upstream_ok_def)
    moreover have "split_once_str ''://'' (label u) = None"
      using no_scheme [OF authority_chars [OF h]] True by (simp add: label_def)
    ultimately show ?thesis using build_upstream_label [OF assms, of "label u"] True by (simp add: parse_address_def)
  next
    case False
    then have l: "label u = scheme (up_transport u) @ ''://'' @ authority u @ up_path u" using t by (auto simp: label_def)
    have "CHR '':'' \<notin> set (scheme (up_transport u))" using t by auto
    then have "split_once_str ''://'' (label u) = Some (scheme (up_transport u), authority u @ up_path u)"
      unfolding l split_once_str_def by (subst find_str_first) simp_all
    moreover have "transport_of (scheme (up_transport u)) = Some (up_transport u)" using t by (auto simp: transport_of_def)
    ultimately show ?thesis
      using build_upstream_label [OF assms, of "label u"] False t by (auto simp: parse_address_def)
  qed
qed

definition sample_upstream :: upstream where
  "sample_upstream = \<lparr>up_transport = OverHttps, up_host = ''2620:fe::fe'', up_port = 443, up_path = ''/dns-query'', up_original = []\<rparr>"

theorem label_parses_back_witness:
  "parse_address (label sample_upstream) = Ok (sample_upstream\<lparr>up_original := label sample_upstream\<rparr>)"
  by (rule label_parses_back) code_simp

end
