(* ===== verification/Services.thy ===== *)
theory Services
  imports Engine
begin

text \<open>
  The two generated filter lists: the blocked services (\<open>crates/sift-filter/src/services.rs\<close>) and
  safe search (\<open>crates/sift-filter/src/safesearch.rs\<close>).  The service catalogue and the rule files of
  the search providers are bundled data; the model takes them as the arguments \<open>cat\<close> and \<open>texts\<close>.
\<close>

section \<open>Blocked services\<close>

record service =
  sv_id :: str
  sv_name :: str
  sv_icon_svg :: str
  sv_rules :: "str list"
  sv_group_id :: str

type_synonym catalogue = "service list"

definition service_of :: "catalogue \<Rightarrow> str \<Rightarrow> service option" where
  "service_of cat i = find (\<lambda>s. sv_id s = i) cat"

definition service_ids :: "catalogue \<Rightarrow> str list" where
  "service_ids cat = map sv_id cat"

definition rules_for :: "catalogue \<Rightarrow> str list \<Rightarrow> str" where
  "rules_for cat ids =
     foldl (\<lambda>out i. case service_of cat i of
                      None \<Rightarrow> out
                    | Some s \<Rightarrow> foldl (\<lambda>out r. out @ r @ [CHR 0x0A]) out (sv_rules s)) [] ids"

definition name_index :: "catalogue \<Rightarrow> str \<rightharpoonup> str" where
  "name_index cat = foldl (\<lambda>m s. foldl (\<lambda>m r. m(r \<mapsto> sv_name s)) m (sv_rules s)) Map.empty cat"

definition name_for_rule :: "catalogue \<Rightarrow> str \<Rightarrow> str option" where
  "name_for_rule cat rule = name_index cat rule"

section \<open>Safe search\<close>

definition SAFESEARCH_LIST_ID :: int where
  "SAFESEARCH_LIST_ID = - 5"

datatype provider = Bing | DuckDuckGo | Ecosia | Google | Pixabay | Yandex | YouTube

definition ALL_PROVIDERS :: "provider list" where
  "ALL_PROVIDERS = [Bing, DuckDuckGo, Ecosia, Google, Pixabay, Yandex, YouTube]"

fun provider_id :: "provider \<Rightarrow> str" where
  "provider_id Bing = ''bing''"
| "provider_id DuckDuckGo = ''duckduckgo''"
| "provider_id Ecosia = ''ecosia''"
| "provider_id Google = ''google''"
| "provider_id Pixabay = ''pixabay''"
| "provider_id Yandex = ''yandex''"
| "provider_id YouTube = ''youtube''"

record safesearch_config =
  ss_enabled :: bool
  ss_bing :: bool
  ss_duckduckgo :: bool
  ss_ecosia :: bool
  ss_google :: bool
  ss_pixabay :: bool
  ss_yandex :: bool
  ss_youtube :: bool

definition safesearch_default :: safesearch_config where
  "safesearch_default = \<lparr>ss_enabled = False, ss_bing = True, ss_duckduckgo = True, ss_ecosia = True,
     ss_google = True, ss_pixabay = True, ss_yandex = True, ss_youtube = True\<rparr>"

fun provider_covers :: "safesearch_config \<Rightarrow> provider \<Rightarrow> bool" where
  "provider_covers c Bing = ss_bing c"
| "provider_covers c DuckDuckGo = ss_duckduckgo c"
| "provider_covers c Ecosia = ss_ecosia c"
| "provider_covers c Google = ss_google c"
| "provider_covers c Pixabay = ss_pixabay c"
| "provider_covers c Yandex = ss_yandex c"
| "provider_covers c YouTube = ss_youtube c"

definition add_provider :: "(provider \<Rightarrow> str) \<Rightarrow> str \<Rightarrow> provider \<Rightarrow> str" where
  "add_provider texts out p =
     (let out = out @ texts p in if ends_with out [CHR 0x0A] then out else out @ [CHR 0x0A])"

definition safesearch_rules :: "(provider \<Rightarrow> str) \<Rightarrow> safesearch_config \<Rightarrow> str" where
  "safesearch_rules texts cfg =
     (if \<not> ss_enabled cfg then []
      else foldl (\<lambda>out p. if provider_covers cfg p then add_provider texts out p else out) [] ALL_PROVIDERS)"

text \<open>The outer \<open>None\<close> is a failure of the engine build, the inner one that there is nothing to enforce.\<close>

definition safesearch_engine ::
  "(str \<Rightarrow> 'rx option) \<Rightarrow> (provider \<Rightarrow> str) \<Rightarrow> safesearch_config \<Rightarrow> 'rx engine option option" where
  "safesearch_engine rx_new texts cfg =
     (let rules = safesearch_rules texts cfg in
      if trim rules = [] then Some None
      else map_option Some (build_engine rx_new [(SAFESEARCH_LIST_ID, rules)] []))"

end
