(* ===== verification/Schedule.thy ===== *)
theory Schedule
  imports Rust_Str
begin

text \<open>
  The weekly pause schedule of the blocked services: \<open>crates/sift-core/src/schedule.rs\<close>.

  Calendar arithmetic and time zones belong to the \<open>jiff\<close> crate, so the model takes them as
  parameters: \<open>system\<close> is the host's zone, \<open>lookup_tz\<close> is \<open>TimeZone::get\<close> and \<open>to_zoned\<close> gives
  the local weekday and time of day of an instant in a zone.
\<close>

section \<open>Definitions\<close>

definition MAX_DAY_MS :: int where
  "MAX_DAY_MS = 24 * 60 * 60 * 1000"

record day_range =
  start_ms :: int
  end_ms :: int

definition FULL_DAY :: day_range where
  "FULL_DAY = \<lparr>start_ms = 0, end_ms = MAX_DAY_MS\<rparr>"

definition range_contains :: "day_range \<Rightarrow> int \<Rightarrow> bool" where
  "range_contains r offset_ms \<longleftrightarrow> start_ms r \<le> offset_ms \<and> offset_ms < end_ms r"

definition range_is_valid :: "day_range \<Rightarrow> bool" where
  "range_is_valid r \<longleftrightarrow>
     (if start_ms r = 0 \<and> end_ms r = 0 then True
      else start_ms r \<ge> 0 \<and> end_ms r > start_ms r \<and> start_ms r < MAX_DAY_MS \<and> end_ms r \<le> MAX_DAY_MS)"

record weekly =
  time_zone :: str
  days :: "day_range option list"

definition weekly_new :: "str \<Rightarrow> day_range option list \<Rightarrow> weekly" where
  "weekly_new tz ds = \<lparr>time_zone = tz, days = ds\<rparr>"

definition weekly_is_empty :: "weekly \<Rightarrow> bool" where
  "weekly_is_empty w \<longleftrightarrow> list_all (\<lambda>d. d = None) (days w)"

datatype 'tz tz_choice = SystemZone | UtcZone | NamedZone 'tz

definition weekly_zone :: "(str \<Rightarrow> 'tz option) \<Rightarrow> weekly \<Rightarrow> 'tz tz_choice" where
  "weekly_zone lookup_tz w =
     (if time_zone w = [] \<or> time_zone w = ''Local'' then SystemZone
      else if time_zone w = ''UTC'' then UtcZone
      else (case lookup_tz (time_zone w) of Some z \<Rightarrow> NamedZone z | None \<Rightarrow> SystemZone))"

text \<open>What \<open>jiff\<close> says of an instant in a zone: weekday from Monday as 1, and the time of day.\<close>

record local_time =
  weekday :: nat
  hour :: int
  minute :: int
  second :: int
  millisecond :: int

definition offset_of :: "local_time \<Rightarrow> int" where
  "offset_of lt = hour lt * 3600000 + minute lt * 60000 + second lt * 1000 + millisecond lt"

definition weekly_contains ::
  "('tz tz_choice \<Rightarrow> 't \<Rightarrow> local_time) \<Rightarrow> (str \<Rightarrow> 'tz option) \<Rightarrow> weekly \<Rightarrow> 't \<Rightarrow> bool" where
  "weekly_contains to_zoned lookup_tz w t =
     (let lt = to_zoned (weekly_zone lookup_tz w) t;
          index = weekday lt - 1
      in if index < length (days w)
         then (case days w ! index of
                 None \<Rightarrow> False
               | Some rg \<Rightarrow> range_contains rg (offset_of lt))
         else False)"

definition blocks_at ::
  "('tz tz_choice \<Rightarrow> 't \<Rightarrow> local_time) \<Rightarrow> (str \<Rightarrow> 'tz option) \<Rightarrow> weekly \<Rightarrow> 't \<Rightarrow> bool" where
  "blocks_at to_zoned lookup_tz w t \<longleftrightarrow> \<not> weekly_contains to_zoned lookup_tz w t"

text \<open>The range of the fields of a wall-clock time, as \<open>jiff\<close> documents them.\<close>

definition clock_time :: "local_time \<Rightarrow> bool" where
  "clock_time lt \<longleftrightarrow> 1 \<le> weekday lt \<and> weekday lt \<le> 7 \<and> 0 \<le> hour lt \<and> hour lt \<le> 23 \<and>
     0 \<le> minute lt \<and> minute lt \<le> 59 \<and> 0 \<le> second lt \<and> second lt \<le> 59 \<and>
     0 \<le> millisecond lt \<and> millisecond lt \<le> 999"

section \<open>Lemmas\<close>

lemma offset_of_bounds: "clock_time lt \<Longrightarrow> 0 \<le> offset_of lt \<and> offset_of lt < MAX_DAY_MS"
  by (auto simp: clock_time_def offset_of_def MAX_DAY_MS_def)

lemma empty_range_contains: "range_is_valid r \<Longrightarrow> (\<nexists>x. range_contains r x) \<longleftrightarrow> start_ms r = 0 \<and> end_ms r = 0"
  by (auto simp: range_is_valid_def range_contains_def split: if_splits)

text \<open>
  The schedule says when blocking is paused: a day without a window is blocked throughout, a whole-day
  window never blocks, and a window pauses blocking from its start up to, not including, its end.
\<close>

lemma blocks_at_window:
  assumes clock: "\<And>z. clock_time (to_zoned z t)" and seven: "length (days w) = 7"
    and lt: "lt = to_zoned (weekly_zone lookup_tz w) t"
  shows "blocks_at to_zoned lookup_tz w t \<longleftrightarrow>
    (case days w ! (weekday lt - 1) of
       None \<Rightarrow> True
     | Some r \<Rightarrow> r \<noteq> FULL_DAY \<and> (offset_of lt < start_ms r \<or> end_ms r \<le> offset_of lt))"
proof -
  have "clock_time lt" using clock by (simp add: lt)
  then have "weekday lt - 1 < length (days w)" "0 \<le> offset_of lt" "offset_of lt < MAX_DAY_MS"
    using seven offset_of_bounds [of lt] by (auto simp: clock_time_def)
  then show ?thesis
    by (auto simp: blocks_at_def weekly_contains_def Let_def range_contains_def FULL_DAY_def
        lt [symmetric] split: option.splits)
qed

end
