(* ===== verification/Clients.thy ===== *)
theory Clients
  imports Services Schedule
begin

text \<open>
  Clients (\<open>crates/sift-dns/src/clients.rs\<close>): the persistent ones of the configuration, recognised by
  address, subnet, hardware address or ClientID and carrying their own settings, and the ones
  discovered at run time, which are only names.  The two hash maps under their locks are association
  lists with distinct keys.
\<close>

section \<open>Addresses in order\<close>

text \<open>The derived order of \<open>IpAddr\<close>: IPv4 before IPv6, each by value.\<close>

fun addr_rank :: "ip_addr \<Rightarrow> nat \<times> nat" where
  "addr_rank (V4 a) = (0, unat a)"
| "addr_rank (V6 a) = (1, unat a)"

lemma addr_rank_inj: "addr_rank a = addr_rank b \<longleftrightarrow> a = b"
  by (cases a; cases b) (auto simp: word_unat_eq_iff)

instantiation ip_addr :: linorder
begin

definition less_eq_ip_addr :: "ip_addr \<Rightarrow> ip_addr \<Rightarrow> bool" where
  "less_eq_ip_addr a b \<longleftrightarrow>
     fst (addr_rank a) < fst (addr_rank b) \<or>
     fst (addr_rank a) = fst (addr_rank b) \<and> snd (addr_rank a) \<le> snd (addr_rank b)"

definition less_ip_addr :: "ip_addr \<Rightarrow> ip_addr \<Rightarrow> bool" where
  "less_ip_addr a b \<longleftrightarrow> a \<le> b \<and> \<not> b \<le> (a :: ip_addr)"

instance
proof
  show "x = y" if "x \<le> y" "y \<le> x" for x y :: ip_addr
    using that by (metis addr_rank_inj less_eq_ip_addr_def nle_le order_less_asym prod_eqI)
qed (auto simp: less_eq_ip_addr_def less_ip_addr_def)

end

section \<open>Clients discovered at run time\<close>

datatype source = SrcHosts | SrcRdns | SrcArp | SrcDhcp | SrcWhois

fun source_str :: "source \<Rightarrow> str" where
  "source_str SrcHosts = ''etc_hosts''"
| "source_str SrcRdns = ''rdns''"
| "source_str SrcArp = ''arp''"
| "source_str SrcDhcp = ''dhcp''"
| "source_str SrcWhois = ''whois''"

record runtime_client =
  rc_name :: str
  rc_source :: "source option"
  rc_mac :: "str option"
  rc_whois :: "(str \<times> str) list"

definition runtime_client_default :: runtime_client where
  "runtime_client_default = \<lparr>rc_name = [], rc_source = None, rc_mac = None, rc_whois = []\<rparr>"

record sources =
  so_whois :: bool
  so_arp :: bool
  so_rdns :: bool
  so_dhcp :: bool
  so_hosts :: bool

record runtime =
  rt_clients :: "(ip_addr \<times> runtime_client) list"
  rt_sources :: sources

definition runtime_new :: runtime where
  "runtime_new = \<lparr>rt_clients = [],
     rt_sources = \<lparr>so_whois = False, so_arp = False, so_rdns = False, so_dhcp = False, so_hosts = False\<rparr>\<rparr>"

definition set_sources :: "sources \<Rightarrow> runtime \<Rightarrow> runtime" where
  "set_sources s rt = rt\<lparr>rt_sources := s\<rparr>"

fun source_rank :: "source \<Rightarrow> nat" where
  "source_rank SrcWhois = 0"
| "source_rank SrcRdns = 1"
| "source_rank SrcArp = 2"
| "source_rank SrcDhcp = 3"
| "source_rank SrcHosts = 4"

definition rank_of :: "source option \<Rightarrow> nat" where
  "rank_of s = (case s of Some s \<Rightarrow> source_rank s | None \<Rightarrow> 0)"

definition or_default :: "ip_addr \<Rightarrow> runtime \<Rightarrow> runtime_client" where
  "or_default addr rt = (case map_of (rt_clients rt) addr of Some c \<Rightarrow> c | None \<Rightarrow> runtime_client_default)"

definition set_name :: "ip_addr \<Rightarrow> str \<Rightarrow> source \<Rightarrow> runtime \<Rightarrow> runtime" where
  "set_name addr name source rt =
     (if name = [] then rt
      else let e = or_default addr rt;
               e = (if rc_name e = [] \<or> source_rank source \<ge> rank_of (rc_source e)
                    then e\<lparr>rc_name := name, rc_source := Some source\<rparr> else e)
           in rt\<lparr>rt_clients := al_insert addr e (rt_clients rt)\<rparr>)"

definition set_mac :: "ip_addr \<Rightarrow> str \<Rightarrow> runtime \<Rightarrow> runtime" where
  "set_mac addr mac rt =
     (let mac = to_ascii_lowercase mac in
      if mac = [] then rt
      else rt\<lparr>rt_clients := al_insert addr ((or_default addr rt)\<lparr>rc_mac := Some mac\<rparr>) (rt_clients rt)\<rparr>)"

definition mac_of :: "runtime \<Rightarrow> ip_addr \<Rightarrow> str option" where
  "mac_of rt addr = (case map_of (rt_clients rt) addr of Some c \<Rightarrow> rc_mac c | None \<Rightarrow> None)"

definition set_whois :: "ip_addr \<Rightarrow> (str \<times> str) list \<Rightarrow> runtime \<Rightarrow> runtime" where
  "set_whois addr fs rt =
     rt\<lparr>rt_clients := al_insert addr ((or_default addr rt)\<lparr>rc_whois := fs\<rparr>) (rt_clients rt)\<rparr>"

definition runtime_get :: "runtime \<Rightarrow> ip_addr \<Rightarrow> runtime_client option" where
  "runtime_get rt addr = map_of (rt_clients rt) addr"

definition name_of :: "runtime \<Rightarrow> ip_addr \<Rightarrow> str" where
  "name_of rt addr = (case map_of (rt_clients rt) addr of Some c \<Rightarrow> rc_name c | None \<Rightarrow> [])"

definition all_clients :: "runtime \<Rightarrow> (ip_addr \<times> runtime_client) list" where
  "all_clients rt = sort_key fst (rt_clients rt)"

definition is_known :: "runtime \<Rightarrow> ip_addr \<Rightarrow> bool" where
  "is_known rt addr \<longleftrightarrow> map_of (rt_clients rt) addr \<noteq> None"

definition runtime_clear :: "runtime \<Rightarrow> runtime" where
  "runtime_clear rt = rt\<lparr>rt_clients := []\<rparr>"

section \<open>Identifiers\<close>

definition is_ascii_hexdigit :: "char \<Rightarrow> bool" where
  "is_ascii_hexdigit c \<longleftrightarrow> hex_val c \<noteq> None"

text \<open>\<open>s.split([':', '-'])\<close>: both separators count.\<close>

definition is_mac :: "str \<Rightarrow> bool" where
  "is_mac s =
     (let parts = split_char CHR '':'' (map (\<lambda>c. if c = CHR ''-'' then CHR '':'' else c) s) in
      (length parts = 6 \<or> length parts = 8) \<and>
      list_all (\<lambda>p. length p = 2 \<and> list_all is_ascii_hexdigit p) parts)"

definition net_mask :: "nat \<Rightarrow> 'a :: len word" where
  "net_mask bits = (if bits = 0 then 0 else push_bit (LENGTH('a) - bits) (- 1))"

fun in_subnet :: "ip_addr \<Rightarrow> ip_addr \<Rightarrow> u8 \<Rightarrow> bool" where
  "in_subnet (V4 a) (V4 n) bits =
     (unat bits \<le> 32 \<and> a AND net_mask (unat bits) = n AND net_mask (unat bits))"
| "in_subnet (V6 a) (V6 n) bits =
     (unat bits \<le> 128 \<and> a AND net_mask (unat bits) = n AND net_mask (unat bits))"
| "in_subnet _ _ bits = False"

datatype client_id = IdAddr ip_addr | IdNet ip_addr u8 | IdMac str | IdNamed str

definition parse_id :: "str \<Rightarrow> client_id option" where
  "parse_id s =
     (let s = trim s in
      if s = [] then None
      else case parse_ip s of
        Some a \<Rightarrow> Some (IdAddr a)
      | None \<Rightarrow>
          (case (case split_once_by ((=) CHR ''/'') s of
                   None \<Rightarrow> None
                 | Some (net, bits) \<Rightarrow>
                     (case (parse_ip net, parse_uint 255 bits) of
                        (Some a, Some b) \<Rightarrow> Some (IdNet a (of_nat b))
                      | _ \<Rightarrow> None)) of
             Some i \<Rightarrow> Some i
           | None \<Rightarrow>
               if is_mac s then Some (IdMac (to_ascii_lowercase s))
               else Some (IdNamed (to_ascii_lowercase s))))"

fun id_specificity :: "client_id \<Rightarrow> nat" where
  "id_specificity (IdNamed _) = 1000"
| "id_specificity (IdMac _) = 900"
| "id_specificity (IdAddr _) = 800"
| "id_specificity (IdNet _ bits) = unat bits"

fun id_matches :: "client_id \<Rightarrow> ip_addr option \<Rightarrow> str option \<Rightarrow> str option \<Rightarrow> bool" where
  "id_matches (IdAddr a) addr cid mac = (addr = Some a)"
| "id_matches (IdNet net bits) addr cid mac = (case addr of Some a \<Rightarrow> in_subnet a net bits | None \<Rightarrow> False)"
| "id_matches (IdMac want) addr cid mac = (case mac of Some m \<Rightarrow> eq_ignore_ascii_case m want | None \<Rightarrow> False)"
| "id_matches (IdNamed want) addr cid mac =
     (case cid of Some c \<Rightarrow> eq_ignore_ascii_case c want | None \<Rightarrow> False)"

section \<open>Persistent clients\<close>

record 'rx persistent =
  p_name :: str
  p_tags :: "str list"
  p_upstreams :: "str list"
  p_upstream_key :: "str option"
  p_use_global_settings :: bool
  p_filtering_enabled :: bool
  p_use_global_blocked_services :: bool
  p_schedule :: weekly
  p_ignore_querylog :: bool
  p_ignore_statistics :: bool
  p_services :: "'rx engine option"
  p_safe_search :: "'rx engine option"
  p_ids :: "client_id list"

definition upstream_key :: "str list \<Rightarrow> str option" where
  "upstream_key lines =
     (let kept = filter (\<lambda>l. l \<noteq> [] \<and> \<not> starts_with l ''#'') (map trim lines) in
      if kept \<noteq> [] then Some (join [CHR 0x0A] kept) else None)"

record persistent_spec =
  sp_name :: str
  sp_ids :: "str list"
  sp_tags :: "str list"
  sp_upstreams :: "str list"
  sp_use_global_settings :: bool
  sp_filtering_enabled :: bool
  sp_use_global_blocked_services :: bool
  sp_blocked_services :: "str list"
  sp_schedule :: weekly
  sp_safe_search :: safesearch_config
  sp_ignore_querylog :: bool
  sp_ignore_statistics :: bool

definition BLOCKED_SERVICE_LIST_ID :: int where
  "BLOCKED_SERVICE_LIST_ID = - 2"

text \<open>The regex compiler, the service catalogue and the safe-search rule files.\<close>

record 'rx filter_env =
  fe_rx_new :: "str \<Rightarrow> 'rx option"
  fe_rx_match :: "'rx \<Rightarrow> str \<Rightarrow> bool"
  fe_catalogue :: catalogue
  fe_safesearch :: "provider \<Rightarrow> str"

definition persistent_build :: "'rx filter_env \<Rightarrow> persistent_spec \<Rightarrow> 'rx persistent option" where
  "persistent_build F spec = do {
     services \<leftarrow> (if \<not> sp_use_global_blocked_services spec \<and> sp_blocked_services spec \<noteq> []
                 then map_option Some (build_engine (fe_rx_new F)
                        [(BLOCKED_SERVICE_LIST_ID, rules_for (fe_catalogue F) (sp_blocked_services spec))] [])
                 else Some None);
     safe_search \<leftarrow> (if \<not> sp_use_global_settings spec
                    then safesearch_engine (fe_rx_new F) (fe_safesearch F) (sp_safe_search spec)
                    else Some None);
     Some \<lparr>p_name = sp_name spec, p_tags = sp_tags spec, p_upstreams = sp_upstreams spec,
           p_upstream_key = upstream_key (sp_upstreams spec),
           p_use_global_settings = sp_use_global_settings spec,
           p_filtering_enabled = sp_filtering_enabled spec,
           p_use_global_blocked_services = sp_use_global_blocked_services spec,
           p_schedule = sp_schedule spec, p_ignore_querylog = sp_ignore_querylog spec,
           p_ignore_statistics = sp_ignore_statistics spec,
           p_services = services, p_safe_search = safe_search,
           p_ids = List.map_filter parse_id (sp_ids spec)\<rparr>
   }"

definition score :: "'rx persistent \<Rightarrow> ip_addr option \<Rightarrow> str option \<Rightarrow> str option \<Rightarrow> nat option" where
  "score p addr cid mac =
     (case map id_specificity (filter (\<lambda>i. id_matches i addr cid mac) (p_ids p)) of
        [] \<Rightarrow> None
      | s # ss \<Rightarrow> Some (foldl max s ss))"

type_synonym 'rx registry = "'rx persistent list"

fun registry_build :: "'rx filter_env \<Rightarrow> persistent_spec list \<Rightarrow> 'rx registry option" where
  "registry_build F [] = Some []"
| "registry_build F (s # ss) = do { c \<leftarrow> persistent_build F s; cs \<leftarrow> registry_build F ss; Some (c # cs) }"

definition registry_is_empty :: "'rx registry \<Rightarrow> bool" where
  "registry_is_empty r \<longleftrightarrow> r = []"

definition registry_len :: "'rx registry \<Rightarrow> nat" where
  "registry_len r = length r"

text \<open>\<open>Iterator::max_by_key\<close>: the last of several greatest elements.\<close>

definition max_by_key :: "('a \<Rightarrow> nat) \<Rightarrow> 'a list \<Rightarrow> 'a option" where
  "max_by_key f xs = (case xs of [] \<Rightarrow> None | x # xs \<Rightarrow> Some (foldl (\<lambda>b y. if f y \<ge> f b then y else b) x xs))"

definition registry_find ::
  "'rx registry \<Rightarrow> ip_addr option \<Rightarrow> str option \<Rightarrow> str option \<Rightarrow> 'rx persistent option" where
  "registry_find r addr cid mac =
     map_option snd (max_by_key fst
       (List.map_filter (\<lambda>c. map_option (\<lambda>s. (s, c)) (score c addr cid mac)) r))"

section \<open>Lemmas\<close>

text \<open>What it means for an identifier to name the client of a request.\<close>

fun same_prefix :: "nat \<Rightarrow> ip_addr \<Rightarrow> ip_addr \<Rightarrow> bool" where
  "same_prefix bits (V4 a) (V4 n) \<longleftrightarrow> bits \<le> 32 \<and> (\<forall>i < 32. 32 \<le> i + bits \<longrightarrow> bit a i = bit n i)"
| "same_prefix bits (V6 a) (V6 n) \<longleftrightarrow> bits \<le> 128 \<and> (\<forall>i < 128. 128 \<le> i + bits \<longrightarrow> bit a i = bit n i)"
| "same_prefix bits _ _ \<longleftrightarrow> False"

lemma bit_net_mask: "bits \<le> LENGTH('a) \<Longrightarrow> bit (net_mask bits :: 'a :: len word) i \<longleftrightarrow> i < LENGTH('a) \<and> LENGTH('a) \<le> i + bits"
  by (auto simp: net_mask_def bit_push_bit_iff simp del: push_bit_minus_one_eq_not_mask)

lemma masked_eq_iff:
  fixes a n :: "'a :: len word"
  assumes "bits \<le> LENGTH('a)"
  shows "a AND net_mask bits = n AND net_mask bits \<longleftrightarrow> (\<forall>i < LENGTH('a). LENGTH('a) \<le> i + bits \<longrightarrow> bit a i = bit n i)"
  by (auto simp: bit_eq_iff bit_and_iff bit_net_mask [OF assms])

lemma in_subnet_prefix: "in_subnet a n bits \<longleftrightarrow> same_prefix (unat bits) a n"
  by (cases a; cases n) (auto simp: masked_eq_iff)

text \<open>The fold behind \<open>max_by_key\<close> ends at the last of the greatest elements.\<close>

lemma max_by_key_fold:
  "\<exists>k < Suc (length xs). (x # xs) ! k = foldl (\<lambda>b y. if f y \<ge> f b then y else b) x xs \<and>
     (\<forall>j < Suc (length xs). f ((x # xs) ! j) \<le> f ((x # xs) ! k) \<and>
        (f ((x # xs) ! j) = f ((x # xs) ! k) \<longrightarrow> j \<le> k))"
  for f :: "'a \<Rightarrow> nat"
proof (induction xs rule: rev_induct)
  case (snoc y ys)
  let ?b = "foldl (\<lambda>b y. if f y \<ge> f b then y else b) x ys"
  from snoc obtain k where k: "k < Suc (length ys)" "(x # ys) ! k = ?b"
    "\<And>j. j < Suc (length ys) \<Longrightarrow> f ((x # ys) ! j) \<le> f ?b \<and> (f ((x # ys) ! j) = f ?b \<longrightarrow> j \<le> k)"
    by auto
  have old: "(x # ys @ [y]) ! j = (x # ys) ! j" if "j < Suc (length ys)" for j
    using that nth_append [of "x # ys" "[y]" j] by simp
  have new: "(x # ys @ [y]) ! Suc (length ys) = y" by simp
  show ?case
  proof (cases "f y \<ge> f ?b")
    case True
    have "f ((x # ys @ [y]) ! j) \<le> f y" if "j < Suc (Suc (length ys))" for j
      using k(3) [of j] True that old [of j] new by (cases "j = Suc (length ys)") (auto simp: less_Suc_eq)
    with True show ?thesis by (intro exI [of _ "Suc (length ys)"]) auto
  next
    case False
    have "f ((x # ys @ [y]) ! j) \<le> f ?b \<and> (f ((x # ys @ [y]) ! j) = f ?b \<longrightarrow> j \<le> k)"
      if "j < Suc (Suc (length ys))" for j
      using k(3) [of j] False that old [of j] new by (cases "j = Suc (length ys)") (auto simp: less_Suc_eq)
    with False k(1,2) old [of k] show ?thesis by (intro exI [of _ k]) auto
  qed
qed simp

lemma max_by_key_spec:
  assumes "max_by_key f xs = Some m"
  obtains k where "k < length xs" "xs ! k = m"
    "\<And>j. j < length xs \<Longrightarrow> f (xs ! j) \<le> f m" "\<And>j. j < length xs \<Longrightarrow> f (xs ! j) = f m \<Longrightarrow> j \<le> k"
proof (cases xs)
  case (Cons x ys)
  with assms have m: "m = foldl (\<lambda>b y. if f y \<ge> f b then y else b) x ys" by (simp add: max_by_key_def)
  from max_by_key_fold [where f = f and x = x and xs = ys] that show ?thesis unfolding m Cons
    by (metis length_Cons)
qed (use assms in \<open>simp add: max_by_key_def\<close>)

lemma max_by_key_simps [simp]: "max_by_key f [] = None" "max_by_key f [x] = Some x"
  by (simp_all add: max_by_key_def)

lemma max_by_key_None [simp]: "max_by_key f xs = None \<longleftrightarrow> xs = []"
  by (simp add: max_by_key_def split: list.splits)

lemma max_by_key_snoc:
  "max_by_key f (xs @ [y]) =
     Some (case max_by_key f xs of None \<Rightarrow> y | Some b \<Rightarrow> if f y \<ge> f b then y else b)"
  by (cases xs) (auto simp: max_by_key_def)

lemma score_None: "score c addr cid mac = None \<longleftrightarrow> (\<forall>i \<in> set (p_ids c). \<not> id_matches i addr cid mac)"
  by (cases "filter (\<lambda>i. id_matches i addr cid mac) (p_ids c)")
    (auto simp: score_def filter_empty_conv filter_eq_Cons_iff)


lemma score_Some:
  "score c addr cid mac = Some s \<longleftrightarrow>
     (\<exists>i \<in> set (p_ids c). id_matches i addr cid mac \<and> id_specificity i = s) \<and>
     (\<forall>i \<in> set (p_ids c). id_matches i addr cid mac \<longrightarrow> id_specificity i \<le> s)"
proof -
  let ?ms = "filter (\<lambda>i. id_matches i addr cid mac) (p_ids c)"
  have "score c addr cid mac = Some s \<longleftrightarrow>
      s \<in> id_specificity ` set ?ms \<and> (\<forall>x \<in> id_specificity ` set ?ms. x \<le> s)"
  proof (cases "map id_specificity ?ms")
    case (Cons x xs)
    have "id_specificity ` set ?ms = set (x # xs)" by (metis Cons set_map)
    then show ?thesis using foldl_max_eq [of s x xs] foldl_max_in [of x xs]
      unfolding score_def Cons by (auto simp del: set_simps)
  qed (simp add: score_def)
  then show ?thesis by (auto simp: image_iff)
qed

lemma registry_find_Some:
  assumes "registry_find r addr cid mac = Some c"
  obtains k s where "k < length r" "r ! k = c" "score c addr cid mac = Some s"
    "\<And>j t. j < length r \<Longrightarrow> score (r ! j) addr cid mac = Some t \<Longrightarrow> t \<le> s \<and> (t = s \<longrightarrow> j \<le> k)"
proof -
  let ?f = "\<lambda>c. map_option (\<lambda>s. (s, c)) (score c addr cid mac)"
  from assms obtain m where m: "max_by_key fst (List.map_filter ?f r) = Some m" "c = snd m"
    by (auto simp: registry_find_def)
  then obtain k where k: "k < length (List.map_filter ?f r)" "List.map_filter ?f r ! k = m"
    and le: "\<And>j. j < length (List.map_filter ?f r) \<Longrightarrow> fst (List.map_filter ?f r ! j) \<le> fst m"
    and last: "\<And>j. j < length (List.map_filter ?f r) \<Longrightarrow> fst (List.map_filter ?f r ! j) = fst m \<Longrightarrow> j \<le> k"
    using max_by_key_spec by (smt (verit) m(1))
  from map_filter_nth [OF k(1)] k(2) obtain i where i: "i < length r" "?f (r ! i) = Some m"
    "k = length (List.map_filter ?f (take i r))" by auto
  show ?thesis
  proof (rule that [of i "fst m"])
    fix j t
    assume j: "j < length r" "score (r ! j) addr cid mac = Some t"
    let ?j = "length (List.map_filter ?f (take j r))"
    have at: "?j < length (List.map_filter ?f r) \<and> List.map_filter ?f r ! ?j = (t, r ! j)"
      using map_filter_index [of j r ?f] j by simp
    have "j \<le> i" if "t = fst m"
    proof (rule ccontr)
      assume "\<not> j \<le> i"
      then have "length (List.map_filter ?f (take (Suc i) r)) \<le> ?j" by (intro map_filter_take_mono) simp
      moreover have "length (List.map_filter ?f (take (Suc i) r)) = Suc k"
        using i by (auto simp: take_Suc_conv_app_nth map_filter_append map_filter_simps)
      ultimately show False using last [of ?j] at that by simp
    qed
    then show "t \<le> fst m \<and> (t = fst m \<longrightarrow> j \<le> i)" using le [of ?j] at by simp
  qed (use i m(2) in auto)
qed

lemma registry_find_None:
  "registry_find r addr cid mac = None \<longleftrightarrow> (\<forall>c \<in> set r. score c addr cid mac = None)"
  by (induction r) (auto simp: registry_find_def map_filter_simps split: option.splits)


text \<open>The identifier test with the subnet case spelled out bit by bit.\<close>

fun identifies :: "client_id \<Rightarrow> ip_addr option \<Rightarrow> str option \<Rightarrow> str option \<Rightarrow> bool" where
  "identifies (IdAddr a) addr cid mac \<longleftrightarrow> addr = Some a"
| "identifies (IdNet net bits) addr cid mac \<longleftrightarrow> (\<exists>a. addr = Some a \<and> same_prefix (unat bits) a net)"
| "identifies (IdMac want) addr cid mac \<longleftrightarrow> (\<exists>m. mac = Some m \<and> to_ascii_lowercase m = to_ascii_lowercase want)"
| "identifies (IdNamed want) addr cid mac \<longleftrightarrow> (\<exists>c. cid = Some c \<and> to_ascii_lowercase c = to_ascii_lowercase want)"

lemma id_matches_identifies: "id_matches i addr cid mac = identifies i addr cid mac"
  by (cases i) (auto simp: in_subnet_prefix eq_ignore_ascii_case_def split: option.splits)

section \<open>What is known of an address\<close>

datatype runtime_event =
  NameSeen ip_addr str source | MacSeen ip_addr str | WhoisSeen ip_addr "(str \<times> str) list"
| SourcesSet sources | Forgotten

fun runtime_step :: "runtime_event \<Rightarrow> runtime \<Rightarrow> runtime" where
  "runtime_step (NameSeen a n s) rt = set_name a n s rt"
| "runtime_step (MacSeen a m) rt = set_mac a m rt"
| "runtime_step (WhoisSeen a fs) rt = set_whois a fs rt"
| "runtime_step (SourcesSet s) rt = set_sources s rt"
| "runtime_step Forgotten rt = runtime_clear rt"

text \<open>The names reported for an address since everything was last forgotten, oldest first.\<close>

fun names_seen :: "ip_addr \<Rightarrow> runtime_event list \<Rightarrow> (str \<times> source) list" where
  "names_seen a [] = []"
| "names_seen a (Forgotten # evs) = names_seen a evs"
| "names_seen a (NameSeen b n s # evs) =
     (if b = a \<and> n \<noteq> [] \<and> Forgotten \<notin> set evs then (n, s) # names_seen a evs else names_seen a evs)"
| "names_seen a (_ # evs) = names_seen a evs"

fun macs_seen :: "ip_addr \<Rightarrow> runtime_event list \<Rightarrow> str list" where
  "macs_seen a [] = []"
| "macs_seen a (MacSeen b m # evs) =
     (if b = a \<and> m \<noteq> [] \<and> Forgotten \<notin> set evs then to_ascii_lowercase m # macs_seen a evs else macs_seen a evs)"
| "macs_seen a (_ # evs) = macs_seen a evs"

abbreviation "best_name a evs \<equiv> max_by_key (\<lambda>p. source_rank (snd p)) (names_seen a evs)"

lemma names_seen_snoc:
  "names_seen a (evs @ [ev]) =
     (case ev of Forgotten \<Rightarrow> []
      | NameSeen b n s \<Rightarrow> names_seen a evs @ (if b = a \<and> n \<noteq> [] then [(n, s)] else [])
      | _ \<Rightarrow> names_seen a evs)"
proof (induction evs)
  case (Cons e evs)
  then show ?case by (cases e; cases ev) auto
qed (cases ev; simp)

lemma macs_seen_snoc:
  "macs_seen a (evs @ [ev]) =
     (case ev of Forgotten \<Rightarrow> []
      | MacSeen b m \<Rightarrow> macs_seen a evs @ (if b = a \<and> m \<noteq> [] then [to_ascii_lowercase m] else [])
      | _ \<Rightarrow> macs_seen a evs)"
proof (induction evs)
  case (Cons e evs)
  then show ?case by (cases e; cases ev) auto
qed (cases ev; simp)

lemmas seen_snoc = names_seen_snoc macs_seen_snoc

lemma to_ascii_lowercase_empty [simp]: "to_ascii_lowercase s = [] \<longleftrightarrow> s = []"
  using length_to_ascii_lowercase [of s] by (cases s) auto

lemma or_default_insert [simp]:
  "or_default a (rt\<lparr>rt_clients := al_insert b e (rt_clients rt)\<rparr>) = (if a = b then e else or_default a rt)"
  by (simp add: or_default_def map_of_al_insert)

definition runtime_after :: "runtime_event list \<Rightarrow> runtime" where
  "runtime_after evs = fold runtime_step evs runtime_new"

definition known_as :: "runtime_client \<Rightarrow> (str \<times> source) option \<Rightarrow> str list \<Rightarrow> bool" where
  "known_as c best macs \<longleftrightarrow>
     (case best of None \<Rightarrow> rc_name c = [] \<and> rc_source c = None
      | Some (n, s) \<Rightarrow> rc_name c = n \<and> n \<noteq> [] \<and> rc_source c = Some s) \<and>
     rc_mac c = (if macs = [] then None else Some (last macs))"

lemma runtime_after_known:
  "known_as (or_default a (runtime_after evs)) (best_name a evs) (macs_seen a evs) \<and>
   distinct (map fst (rt_clients (runtime_after evs)))"
proof (induction evs rule: rev_induct)
  case Nil
  then show ?case
    by (simp add: runtime_after_def runtime_new_def or_default_def runtime_client_default_def known_as_def max_by_key_def)
next
  case (snoc ev evs)
  let ?rt = "runtime_after evs"
  have step: "runtime_after (evs @ [ev]) = runtime_step ev ?rt" by (simp add: runtime_after_def)
  show ?case
  proof (cases ev)
    case (NameSeen b n s)
    show ?thesis
    proof (cases "b = a \<and> n \<noteq> []")
      case True
      then show ?thesis using snoc NameSeen unfolding step
        by (cases "best_name a evs")
          (auto simp: seen_snoc set_name_def Let_def distinct_al_insert max_by_key_snoc known_as_def rank_of_def)
    next
      case False
      then show ?thesis using snoc NameSeen unfolding step
        by (auto simp: seen_snoc set_name_def Let_def distinct_al_insert)
    qed
  next
    case (MacSeen b m)
    then show ?thesis using snoc unfolding step
      by (cases "best_name a evs"; cases "a = b") (auto simp: seen_snoc set_mac_def Let_def distinct_al_insert known_as_def)
  next
    case (WhoisSeen b fs)
    then show ?thesis using snoc unfolding step
      by (cases "best_name a evs"; cases "a = b") (auto simp: seen_snoc set_whois_def distinct_al_insert known_as_def)
  next
    case (SourcesSet x)
    then show ?thesis using snoc unfolding step by (simp add: seen_snoc set_sources_def or_default_def)
  next
    case Forgotten
    then show ?thesis unfolding step
      by (simp add: seen_snoc runtime_clear_def or_default_def runtime_client_default_def known_as_def max_by_key_def)
  qed
qed

section \<open>Properties\<close>

text \<open>
  C35. A request belongs to the persistent client with the most specific identifier that names it: a
  ClientID before a hardware address, before the address itself, before its subnets, a longer subnet
  before a shorter one; among equals the client configured last.  No client is found exactly when
  no identifier of any client names the request.  A subnet names the addresses of its family that
  agree with it on its leading bits.
\<close>

theorem registry_find_best:
  "case registry_find r addr cid mac of
     None \<Rightarrow> \<forall>c \<in> set r. \<forall>i \<in> set (p_ids c). \<not> identifies i addr cid mac
   | Some c \<Rightarrow> \<exists>k < length r. r ! k = c \<and>
       (\<exists>i \<in> set (p_ids c). identifies i addr cid mac \<and>
          (\<forall>j < length r. \<forall>i' \<in> set (p_ids (r ! j)). identifies i' addr cid mac \<longrightarrow>
             id_specificity i' \<le> id_specificity i \<and> (id_specificity i' = id_specificity i \<longrightarrow> j \<le> k)))"
proof (cases "registry_find r addr cid mac")
  case None
  then have "\<forall>c \<in> set r. \<forall>i \<in> set (p_ids c). \<not> identifies i addr cid mac"
    by (simp add: registry_find_None score_None id_matches_identifies)
  with None show ?thesis by simp
next
  case (Some c)
  then obtain k s where k: "k < length r" "r ! k = c" "score c addr cid mac = Some s"
    and best: "\<And>j t. j < length r \<Longrightarrow> score (r ! j) addr cid mac = Some t \<Longrightarrow> t \<le> s \<and> (t = s \<longrightarrow> j \<le> k)"
    by (rule registry_find_Some) blast
  from k(3) obtain i where i: "i \<in> set (p_ids c)" "id_matches i addr cid mac" "id_specificity i = s"
    by (auto simp: score_Some)
  have "id_specificity i' \<le> s \<and> (id_specificity i' = s \<longrightarrow> j \<le> k)"
    if j: "j < length r" "i' \<in> set (p_ids (r ! j))" "id_matches i' addr cid mac" for j i'
  proof -
    have "score (r ! j) addr cid mac \<noteq> None" using j by (auto simp: score_None)
    then obtain t where t: "score (r ! j) addr cid mac = Some t" by auto
    then have "id_specificity i' \<le> t" using j by (auto simp: score_Some)
    then show ?thesis using best [OF j(1) t] by auto
  qed
  then show ?thesis using Some k i by (auto simp: id_matches_identifies)
qed

definition sample_client :: "str \<Rightarrow> client_id list \<Rightarrow> unit persistent" where
  "sample_client n ids = \<lparr>p_name = n, p_tags = [], p_upstreams = [], p_upstream_key = None,
     p_use_global_settings = True, p_filtering_enabled = True, p_use_global_blocked_services = True,
     p_schedule = weekly_new [] [], p_ignore_querylog = False, p_ignore_statistics = False,
     p_services = None, p_safe_search = None, p_ids = ids\<rparr>"

theorem registry_find_best_witness:
  "\<exists>c. registry_find [sample_client ''net'' [IdNet (V4 0xC0000200) 24], sample_client ''host'' [IdAddr (V4 0xC0000205)]]
     (Some (V4 0xC0000205)) None None = Some c \<and> p_name c = ''host''"
proof -
  let ?r = "[sample_client ''net'' [IdNet (V4 0xC0000200) 24], sample_client ''host'' [IdAddr (V4 0xC0000205)]]"
  have "identifies (IdAddr (V4 0xC0000205)) (Some (V4 0xC0000205)) None None" by simp
  then obtain c k i where c: "registry_find ?r (Some (V4 0xC0000205)) None None = Some c" "k < 2" "?r ! k = c"
    "i \<in> set (p_ids c)" "\<And>j i'. j < 2 \<Longrightarrow> i' \<in> set (p_ids (?r ! j)) \<Longrightarrow>
       identifies i' (Some (V4 0xC0000205)) None None \<Longrightarrow> id_specificity i' \<le> id_specificity i"
    using registry_find_best [of ?r "Some (V4 0xC0000205)" None None]
    by (cases "registry_find ?r (Some (V4 0xC0000205)) None None") (auto simp: sample_client_def numeral_2_eq_2)
  then have "id_specificity i \<ge> 800" using c(5) [of 1 "IdAddr (V4 0xC0000205)"] by (simp add: sample_client_def)
  moreover have "k = 0 \<or> k = 1" using c(2) by auto
  ultimately have "k = 1" using c(3,4) by (auto simp: sample_client_def)
  then have "p_name c = ''host''" using c(3) by (auto simp: sample_client_def)
  with c(1) show ?thesis by blast
qed

text \<open>
  C36. The name shown for an address is the one from the most trusted source that named it since the
  store was last cleared (the hosts file before DHCP, the ARP table, reverse lookups and WHOIS), the
  latest of those, whatever was recorded in between; the hardware address is the latest one, in lower
  case; and the listing of all clients is sorted by address without duplicates.
\<close>

theorem runtime_most_trusted_name:
  "name_of (runtime_after evs) a = (case best_name a evs of None \<Rightarrow> [] | Some (n, _) \<Rightarrow> n) \<and>
   mac_of (runtime_after evs) a = (if macs_seen a evs = [] then None else Some (last (macs_seen a evs))) \<and>
   sorted (map fst (all_clients (runtime_after evs))) \<and> distinct (map fst (all_clients (runtime_after evs)))"
proof -
  let ?rt = "runtime_after evs"
  have eq: "name_of ?rt a = rc_name (or_default a ?rt)" "mac_of ?rt a = rc_mac (or_default a ?rt)"
    by (auto simp: name_of_def mac_of_def or_default_def runtime_client_default_def split: option.splits)
  have "distinct (map fst (all_clients ?rt))"
    using runtime_after_known [of a evs] by (simp add: all_clients_def distinct_map)
  then show ?thesis using runtime_after_known [of a evs]
    by (cases "best_name a evs") (auto simp: eq known_as_def all_clients_def)
qed

end
