(* ===== verification/Message.thy ===== *)
theory Message
  imports Ipaddr
begin

text \<open>
  DNS messages as the server handles them: the construction and shaping of responses
  (\<open>crates/sift-dns/src/msg.rs\<close>) and the EDNS record (\<open>crates/sift-dns/src/edns.rs\<close>).

  The message type belongs to the \<open>hickory_proto\<close> crate.  Its public fields are the fields of the
  records below, with names (\<open>'n\<close>) and OPT records (\<open>'e\<close>) left abstract; its functions are the
  fields of the record \<open>hickory\<close>, which every definition that calls into the crate takes as its
  argument \<open>H\<close>.
\<close>

section \<open>Messages\<close>

datatype response_code = NoError | FormErr | ServFail | NXDomain | NotImp | Refused | OtherCode u16

datatype record_type =
  TA | TAAAA | TCNAME | TSOA | TPTR | THTTPS | TRRSIG | TDNSKEY | TDS | TNSEC | TNSEC3
| TAXFR | TIXFR | TANY | TOther u16

fun type_u16 :: "record_type \<Rightarrow> u16" where
  "type_u16 TA = 1" | "type_u16 TAAAA = 28" | "type_u16 TCNAME = 5" | "type_u16 TSOA = 6"
| "type_u16 TPTR = 12" | "type_u16 THTTPS = 65" | "type_u16 TRRSIG = 46" | "type_u16 TDNSKEY = 48"
| "type_u16 TDS = 43" | "type_u16 TNSEC = 47" | "type_u16 TNSEC3 = 50" | "type_u16 TAXFR = 252"
| "type_u16 TIXFR = 251" | "type_u16 TANY = 255" | "type_u16 (TOther n) = n"

datatype dns_class = ClassIN | ClassOther u16

fun class_u16 :: "dns_class \<Rightarrow> u16" where
  "class_u16 ClassIN = 1"
| "class_u16 (ClassOther n) = n"

record 'n soa =
  soa_mname :: 'n
  soa_rname :: 'n
  soa_serial :: nat
  soa_refresh :: int
  soa_retry :: int
  soa_expire :: int
  soa_minimum :: nat

datatype 'n rdata = RA u32 | RAAAA u128 | RCNAME 'n | RSOA "'n soa" | ROther record_type "u8 list"

record 'n dns_record =
  rr_name :: 'n
  rr_class :: dns_class
  rr_ttl :: u32
  rr_data :: "'n rdata"

fun rdata_type :: "'n rdata \<Rightarrow> record_type" where
  "rdata_type (RA _) = TA"
| "rdata_type (RAAAA _) = TAAAA"
| "rdata_type (RCNAME _) = TCNAME"
| "rdata_type (RSOA _) = TSOA"
| "rdata_type (ROther t _) = t"

abbreviation rr_type :: "'n dns_record \<Rightarrow> record_type" where
  "rr_type r \<equiv> rdata_type (rr_data r)"

record 'n query =
  q_name :: 'n
  q_type :: record_type
  q_class :: dns_class

datatype message_type = Query | Response

record metadata =
  md_id :: u16
  md_message_type :: message_type
  md_op_code :: u8
  md_truncation :: bool
  md_recursion_desired :: bool
  md_recursion_available :: bool
  md_authentic_data :: bool
  md_checking_disabled :: bool
  md_response_code :: response_code

record ('n, 'e) message =
  metadata :: metadata
  queries :: "'n query list"
  answers :: "'n dns_record list"
  authorities :: "'n dns_record list"
  additionals :: "'n dns_record list"
  edns :: "'e option"

record ('n, 'e) hickory =
  message_query :: "('n, 'e) message"
  message_bytes :: "('n, 'e) message \<Rightarrow> u8 list option"
  from_rdata :: "'n \<Rightarrow> u32 \<Rightarrow> 'n rdata \<Rightarrow> 'n dns_record"
  name_root :: 'n
  name_is_root :: "'n \<Rightarrow> bool"
  name_ascii :: "'n \<Rightarrow> str"
  name_show :: "'n \<Rightarrow> str"
  name_len :: "'n \<Rightarrow> nat"
  name_eq :: "'n \<Rightarrow> 'n \<Rightarrow> bool"
  name_lower :: "'n \<Rightarrow> 'n"
  name_from_ascii :: "str \<Rightarrow> 'n option"
  name_from_utf8 :: "str \<Rightarrow> 'n option"
  edns_new :: 'e
  edns_max_payload :: "'e \<Rightarrow> u16"
  edns_set_max_payload :: "u16 \<Rightarrow> 'e \<Rightarrow> 'e"
  edns_dnssec_ok :: "'e \<Rightarrow> bool"
  edns_set_dnssec_ok :: "bool \<Rightarrow> 'e \<Rightarrow> 'e"
  edns_subnet :: "'e \<Rightarrow> (ip_addr \<times> u8) option"
  edns_remove_subnet :: "'e \<Rightarrow> 'e"
  edns_insert_subnet :: "ip_addr \<times> u8 \<Rightarrow> 'e \<Rightarrow> 'e"

section \<open>The OPT record\<close>

definition DEFAULT_PREFIX_V4 :: u8 where
  "DEFAULT_PREFIX_V4 = 24"

definition DEFAULT_PREFIX_V6 :: u8 where
  "DEFAULT_PREFIX_V6 = 56"

definition UDP_PAYLOAD :: u16 where
  "UDP_PAYLOAD = 4096"

record subnet =
  sn_addr :: ip_addr
  sn_prefix :: u8

definition to_cidr :: "subnet \<Rightarrow> str" where
  "to_cidr s = show_ip (sn_addr s) @ ''/'' @ show_nat (unat (sn_prefix s))"

text \<open>
  \<open>MAX.checked_shl(w - prefix).unwrap_or(0)\<close>: a shift by the whole width (prefix 0) is \<open>None\<close>.
\<close>

definition keep_bits :: "nat \<Rightarrow> 'a :: len word" where
  "keep_bits p =
     (if p \<ge> LENGTH('a) then - 1
      else if LENGTH('a) - p < LENGTH('a) then push_bit (LENGTH('a) - p) (- 1) else 0)"

fun mask_addr :: "ip_addr \<Rightarrow> u8 \<Rightarrow> ip_addr" where
  "mask_addr (V4 a) p = V4 (a AND keep_bits (unat p))"
| "mask_addr (V6 a) p = V6 (a AND keep_bits (unat p))"

fun default_prefix :: "ip_addr \<Rightarrow> u8" where
  "default_prefix (V4 _) = DEFAULT_PREFIX_V4"
| "default_prefix (V6 _) = DEFAULT_PREFIX_V6"

definition subnet_of :: "('n, 'e) hickory \<Rightarrow> ('n, 'e) message \<Rightarrow> subnet option" where
  "subnet_of H msg =
     (case edns msg of
        None \<Rightarrow> None
      | Some e \<Rightarrow> (case edns_subnet H e of None \<Rightarrow> None | Some (a, p) \<Rightarrow> Some \<lparr>sn_addr = a, sn_prefix = p\<rparr>))"

definition fresh_edns :: "('n, 'e) hickory \<Rightarrow> 'e" where
  "fresh_edns H = edns_set_max_payload H UDP_PAYLOAD (edns_new H)"

definition get_or_insert :: "'a \<Rightarrow> 'a option \<Rightarrow> 'a" where
  "get_or_insert d x = (case x of Some e \<Rightarrow> e | None \<Rightarrow> d)"

definition set_subnet ::
  "('n, 'e) hickory \<Rightarrow> ('n, 'e) message \<Rightarrow> ip_addr \<Rightarrow> u8 \<Rightarrow> subnet \<times> ('n, 'e) message" where
  "set_subnet H msg addr p =
     (let addr = mask_addr addr p;
          e = get_or_insert (fresh_edns H) (edns msg);
          e = edns_insert_subnet H (addr, p) (edns_remove_subnet H e)
      in (\<lparr>sn_addr = addr, sn_prefix = p\<rparr>, msg\<lparr>edns := Some e\<rparr>))"

definition strip_subnet :: "('n, 'e) hickory \<Rightarrow> ('n, 'e) message \<Rightarrow> ('n, 'e) message" where
  "strip_subnet H msg = msg\<lparr>edns := map_option (edns_remove_subnet H) (edns msg)\<rparr>"

definition set_dnssec_ok :: "('n, 'e) hickory \<Rightarrow> ('n, 'e) message \<Rightarrow> bool \<Rightarrow> ('n, 'e) message" where
  "set_dnssec_ok H msg ok =
     (if \<not> ok \<and> edns msg = None then msg
      else msg\<lparr>edns := Some (edns_set_dnssec_ok H ok (get_or_insert (fresh_edns H) (edns msg)))\<rparr>)"

definition dnssec_ok :: "('n, 'e) hickory \<Rightarrow> ('n, 'e) message \<Rightarrow> bool" where
  "dnssec_ok H msg = (case edns msg of None \<Rightarrow> False | Some e \<Rightarrow> edns_dnssec_ok H e)"

definition wants_dnssec :: "('n, 'e) hickory \<Rightarrow> ('n, 'e) message \<Rightarrow> bool" where
  "wants_dnssec H msg \<longleftrightarrow> dnssec_ok H msg \<or> md_authentic_data (metadata msg)"

definition mirror_request ::
  "('n, 'e) hickory \<Rightarrow> ('n, 'e) message \<Rightarrow> ('n, 'e) message \<Rightarrow> ('n, 'e) message" where
  "mirror_request H req resp =
     (case edns req of
        None \<Rightarrow> resp\<lparr>edns := None\<rparr>
      | Some asked \<Rightarrow>
          let e = get_or_insert (edns_new H) (edns resp);
              e = edns_set_dnssec_ok H (edns_dnssec_ok H asked) e;
              e = edns_set_max_payload H (edns_max_payload H asked) e
          in resp\<lparr>edns := Some e\<rparr>)"

section \<open>Building responses\<close>

definition DEFAULT_BLOCKED_TTL :: u32 where
  "DEFAULT_BLOCKED_TTL = 3600"

definition NEG_CACHE_NS :: str where
  "NEG_CACHE_NS = ''fake-for-negative-caching.adguard.com.''"

datatype blocking_mode = DefaultMode | CustomIp | NxdomainMode | NullIp | RefusedMode

record blocking_config =
  bc_mode :: blocking_mode
  bc_custom_v4 :: "u32 option"
  bc_custom_v6 :: "u128 option"
  bc_ttl :: u32

definition blocking_default :: blocking_config where
  "blocking_default = \<lparr>bc_mode = DefaultMode, bc_custom_v4 = None, bc_custom_v6 = None, bc_ttl = 10\<rparr>"

definition reply :: "('n, 'e) hickory \<Rightarrow> ('n, 'e) message \<Rightarrow> response_code \<Rightarrow> ('n, 'e) message" where
  "reply H req rcode =
     (let resp = message_query H; m = metadata req in
      resp\<lparr>metadata := (metadata resp)\<lparr>
             md_id := md_id m,
             md_message_type := Response,
             md_op_code := md_op_code m,
             md_recursion_desired := md_recursion_desired m,
             md_recursion_available := True,
             md_checking_disabled := md_checking_disabled m,
             md_response_code := rcode\<rparr>,
           queries := queries req\<rparr>)"

definition qname :: "('n, 'e) hickory \<Rightarrow> ('n, 'e) message \<Rightarrow> 'n" where
  "qname H req = (case queries req of [] \<Rightarrow> name_root H | q # _ \<Rightarrow> q_name q)"

definition qtype_of :: "('n, 'e) message \<Rightarrow> record_type" where
  "qtype_of req = (case queries req of [] \<Rightarrow> TA | q # _ \<Rightarrow> q_type q)"

definition name_or_root :: "('n, 'e) hickory \<Rightarrow> str \<Rightarrow> 'n" where
  "name_or_root H s = (case name_from_ascii H s of Some n \<Rightarrow> n | None \<Rightarrow> name_root H)"

definition soa_record :: "('n, 'e) hickory \<Rightarrow> ('n, 'e) message \<Rightarrow> u32 \<Rightarrow> 'n dns_record" where
  "soa_record H req ttl =
     (let zone = qname H req;
          ttl = (if ttl = 0 then DEFAULT_BLOCKED_TTL else ttl);
          mbox = (if name_is_root H zone then ''hostmaster.'' else ''hostmaster.'' @ name_show H zone);
          soa = \<lparr>soa_mname = name_or_root H NEG_CACHE_NS, soa_rname = name_or_root H mbox,
                 soa_serial = 100500, soa_refresh = 1800, soa_retry = 900, soa_expire = 604800,
                 soa_minimum = 86400\<rparr>
      in from_rdata H zone ttl (RSOA soa))"

definition nodata :: "('n, 'e) hickory \<Rightarrow> ('n, 'e) message \<Rightarrow> u32 \<Rightarrow> ('n, 'e) message" where
  "nodata H req ttl = (reply H req NoError)\<lparr>authorities := [soa_record H req ttl]\<rparr>"

definition nxdomain :: "('n, 'e) hickory \<Rightarrow> ('n, 'e) message \<Rightarrow> u32 \<Rightarrow> ('n, 'e) message" where
  "nxdomain H req ttl = (reply H req NXDomain)\<lparr>authorities := [soa_record H req ttl]\<rparr>"

definition refused :: "('n, 'e) hickory \<Rightarrow> ('n, 'e) message \<Rightarrow> ('n, 'e) message" where
  "refused H req = reply H req Refused"

definition servfail :: "('n, 'e) hickory \<Rightarrow> ('n, 'e) message \<Rightarrow> ('n, 'e) message" where
  "servfail H req = reply H req ServFail"

fun addr_rdata :: "record_type \<Rightarrow> ip_addr \<Rightarrow> 'n rdata option" where
  "addr_rdata TA (V4 a) = Some (RA a)"
| "addr_rdata TAAAA (V6 a) = Some (RAAAA a)"
| "addr_rdata _ _ = None"

definition with_addrs ::
  "('n, 'e) hickory \<Rightarrow> ('n, 'e) message \<Rightarrow> ip_addr list \<Rightarrow> u32 \<Rightarrow> ('n, 'e) message" where
  "with_addrs H req addrs ttl =
     (let resp = reply H req NoError; name = qname H req in
      resp\<lparr>answers := List.map_filter
             (\<lambda>a. map_option (from_rdata H name ttl) (addr_rdata (qtype_of req) a)) addrs\<rparr>)"

definition with_cname ::
  "('n, 'e) hickory \<Rightarrow> ('n, 'e) message \<Rightarrow> str \<Rightarrow> ip_addr list \<Rightarrow> u32 \<Rightarrow> ('n, 'e) message" where
  "with_cname H req cname addrs ttl =
     (let resp = reply H req NoError in
      case name_from_utf8 H cname of
        None \<Rightarrow> resp
      | Some target \<Rightarrow>
          let target = name_lower H target in
          resp\<lparr>answers := from_rdata H (qname H req) ttl (RCNAME target) #
             List.map_filter
               (\<lambda>a. map_option (from_rdata H target ttl) (addr_rdata (qtype_of req) a)) addrs\<rparr>)"

fun null_addr :: "record_type \<Rightarrow> ip_addr list" where
  "null_addr TA = [V4 0]"
| "null_addr TAAAA = [V6 0]"
| "null_addr _ = []"

definition custom_addrs :: "blocking_config \<Rightarrow> record_type \<Rightarrow> ip_addr list" where
  "custom_addrs cfg qt =
     (case qt of
        TA \<Rightarrow> (case bc_custom_v4 cfg of Some a \<Rightarrow> [V4 a] | None \<Rightarrow> [])
      | TAAAA \<Rightarrow> (case bc_custom_v6 cfg of Some a \<Rightarrow> [V6 a] | None \<Rightarrow> [])
      | _ \<Rightarrow> [])"

fun family_fits :: "record_type \<Rightarrow> ip_addr \<Rightarrow> bool" where
  "family_fits TA (V4 _) = True"
| "family_fits TAAAA (V6 _) = True"
| "family_fits _ _ = False"

definition blocked ::
  "('n, 'e) hickory \<Rightarrow> ('n, 'e) message \<Rightarrow> blocking_config \<Rightarrow> ip_addr list \<Rightarrow> ('n, 'e) message" where
  "blocked H req cfg rule_addrs =
     (let qt = qtype_of req in
      if qt \<noteq> TA \<and> qt \<noteq> TAAAA \<and> qt \<noteq> THTTPS
      then (if bc_mode cfg = NullIp then reply H req NoError else nodata H req (bc_ttl cfg))
      else case bc_mode cfg of
        RefusedMode \<Rightarrow> refused H req
      | NxdomainMode \<Rightarrow> nxdomain H req (bc_ttl cfg)
      | CustomIp \<Rightarrow> with_addrs H req (custom_addrs cfg qt) (bc_ttl cfg)
      | NullIp \<Rightarrow> with_addrs H req (null_addr qt) (bc_ttl cfg)
      | DefaultMode \<Rightarrow>
          let usable = filter (family_fits qt) rule_addrs in
          if usable = [] then with_addrs H req (null_addr qt) (bc_ttl cfg)
          else with_addrs H req usable (bc_ttl cfg))"

section \<open>Shaping responses\<close>

definition is_dnssec_record :: "record_type \<Rightarrow> bool" where
  "is_dnssec_record t \<longleftrightarrow> t = TRRSIG \<or> t = TDNSKEY \<or> t = TDS \<or> t = TNSEC \<or> t = TNSEC3"

definition strip_dnssec :: "('n, 'e) message \<Rightarrow> record_type \<Rightarrow> ('n, 'e) message" where
  "strip_dnssec resp qt =
     (let keep = (\<lambda>r. rr_type r = qt \<or> \<not> is_dnssec_record (rr_type r)) in
      resp\<lparr>answers := filter keep (answers resp), authorities := filter keep (authorities resp),
           additionals := filter keep (additionals resp)\<rparr>)"

definition shape_to_request ::
  "('n, 'e) hickory \<Rightarrow> ('n, 'e) message \<Rightarrow> ('n, 'e) message \<Rightarrow> ('n, 'e) message" where
  "shape_to_request H req resp =
     (let resp = (if \<not> dnssec_ok H req then strip_dnssec resp (qtype_of req) else resp);
          resp = (if \<not> wants_dnssec H req
                  then resp\<lparr>metadata := (metadata resp)\<lparr>md_authentic_data := False\<rparr>\<rparr> else resp)
      in mirror_request H req resp)"

definition map_records ::
  "('n dns_record \<Rightarrow> 'n dns_record) \<Rightarrow> ('n, 'e) message \<Rightarrow> ('n, 'e) message" where
  "map_records f msg =
     msg\<lparr>answers := map f (answers msg), authorities := map f (authorities msg),
         additionals := map f (additionals msg)\<rparr>"

definition clamp_ttl :: "u32 \<Rightarrow> u32 \<Rightarrow> u32 \<Rightarrow> u32" where
  "clamp_ttl mn mx t =
     (let t = (if mn > 0 \<and> t < mn then mn else t) in if mx > 0 \<and> t > mx then mx else t)"

definition clamp_ttls :: "('n, 'e) message \<Rightarrow> u32 \<Rightarrow> u32 \<Rightarrow> ('n, 'e) message" where
  "clamp_ttls msg mn mx = map_records (\<lambda>r. r\<lparr>rr_ttl := clamp_ttl mn mx (rr_ttl r)\<rparr>) msg"

definition min_ttl :: "('n, 'e) message \<Rightarrow> u32 option" where
  "min_ttl msg =
     (case map rr_ttl (answers msg @ authorities msg) of [] \<Rightarrow> None | t # ts \<Rightarrow> Some (foldl min t ts))"

section \<open>Truncation\<close>

definition MIN_UDP_PAYLOAD :: nat where
  "MIN_UDP_PAYLOAD = 512"

definition udp_limit :: "('n, 'e) hickory \<Rightarrow> ('n, 'e) message \<Rightarrow> nat" where
  "udp_limit H req =
     max (case edns req of None \<Rightarrow> MIN_UDP_PAYLOAD | Some e \<Rightarrow> unat (edns_max_payload H e)) MIN_UDP_PAYLOAD"

definition encoded_len :: "('n, 'e) hickory \<Rightarrow> ('n, 'e) message \<Rightarrow> nat" where
  "encoded_len H msg = (case message_bytes H msg of None \<Rightarrow> u64_max | Some b \<Rightarrow> length b)"

text \<open>\<open>all[a..b]\<close>: \<open>None\<close> is the panic of a slice out of range.\<close>

definition slice_range :: "'a list \<Rightarrow> nat \<Rightarrow> nat \<Rightarrow> 'a list option" where
  "slice_range xs a b = (if a \<le> b \<and> b \<le> length xs then Some (take (b - a) (drop a xs)) else None)"

definition set_prefix ::
  "('n, 'e) message \<Rightarrow> 'n dns_record list \<Rightarrow> nat \<Rightarrow> nat \<Rightarrow> nat \<Rightarrow> ('n, 'e) message option" where
  "set_prefix resp all na nb keep =
     (let a = min keep na; b = min keep (na + nb) in
      case (slice_range all 0 a, slice_range all a b, slice_range all b keep) of
        (Some xs, Some ys, Some zs) \<Rightarrow> Some (resp\<lparr>answers := xs, authorities := ys, additionals := zs\<rparr>)
      | _ \<Rightarrow> None)"

function truncate_loop ::
  "('n, 'e) hickory \<Rightarrow> nat \<Rightarrow> 'n dns_record list \<Rightarrow> nat \<Rightarrow> nat \<Rightarrow> nat \<Rightarrow> nat
     \<Rightarrow> ('n, 'e) message \<Rightarrow> (nat \<times> ('n, 'e) message) option" where
  "truncate_loop H limit all na nb lo hi resp =
     (if lo < hi then
        let mid = (lo + hi + 1) div 2 in
        case set_prefix resp all na nb mid of
          None \<Rightarrow> None
        | Some resp \<Rightarrow>
            if encoded_len H resp \<le> limit then truncate_loop H limit all na nb mid hi resp
            else truncate_loop H limit all na nb lo (mid - 1) resp
      else Some (lo, resp))"
  by pat_completeness auto
termination
  by (relation "measure (\<lambda>(H, limit, all, na, nb, lo, hi, resp). hi - lo)") auto

declare truncate_loop.simps [simp del]

definition truncate_msg ::
  "('n, 'e) hickory \<Rightarrow> ('n, 'e) message \<Rightarrow> nat \<Rightarrow> (bool \<times> ('n, 'e) message) option" where
  "truncate_msg H resp limit =
     (if encoded_len H resp \<le> limit then Some (False, resp)
      else
        let na = length (answers resp); nb = length (authorities resp);
            all = answers resp @ authorities resp @ additionals resp;
            resp = resp\<lparr>answers := [], authorities := [], additionals := []\<rparr>
        in case truncate_loop H limit all na nb 0 (length all) resp of
             None \<Rightarrow> None
           | Some (lo, resp) \<Rightarrow>
               (case set_prefix resp all na nb lo of
                  None \<Rightarrow> None
                | Some resp \<Rightarrow>
                    Some (lo < length all,
                          resp\<lparr>metadata := (metadata resp)\<lparr>md_truncation := lo < length all\<rparr>\<rparr>)))"

section \<open>Lemmas\<close>

lemma bit_keep_bits: "bit (keep_bits p :: 'a :: len word) i \<longleftrightarrow> i < LENGTH('a) \<and> LENGTH('a) \<le> i + p"
  by (auto simp: keep_bits_def bit_push_bit_iff bit_simps)

lemma mask_addr_idem: "mask_addr (mask_addr a p) q = mask_addr a p" if "unat p \<le> unat q"
  using that by (cases a) (auto intro!: bit_word_eqI simp: bit_keep_bits bit_and_iff)

lemma set_prefix_at:
  assumes "keep \<le> length all"
  shows "set_prefix resp all na nb keep =
    Some (resp\<lparr>answers := take (min keep na) all,
               authorities := take (min keep (na + nb) - min keep na) (drop (min keep na) all),
               additionals := take (keep - min keep (na + nb)) (drop (min keep (na + nb)) all)\<rparr>)"
  using assms by (simp add: set_prefix_def slice_range_def Let_def min_le_iff_disj)

text \<open>The response that keeps the first \<open>k\<close> records of all three sections.\<close>

definition keep_first :: "('n, 'e) message \<Rightarrow> nat \<Rightarrow> ('n, 'e) message" where
  "keep_first m k =
     m\<lparr>answers := take k (answers m),
       authorities := take (k - length (answers m)) (authorities m),
       additionals := take (k - length (answers m) - length (authorities m)) (additionals m)\<rparr>"

definition record_count :: "('n, 'e) message \<Rightarrow> nat" where
  "record_count m = length (answers m) + length (authorities m) + length (additionals m)"

lemma set_prefix_keep_first:
  assumes "k \<le> record_count m"
    and "all = answers m @ authorities m @ additionals m"
    and "r\<lparr>answers := answers m, authorities := authorities m, additionals := additionals m\<rparr> = m"
  shows "set_prefix r all (length (answers m)) (length (authorities m)) k = Some (keep_first m k)"
proof -
  let ?na = "length (answers m)" and ?nb = "length (authorities m)"
  have len: "k \<le> length all" using assms(1,2) by (simp add: record_count_def)
  have "take (min k (?na + ?nb) - min k ?na) (drop (min k ?na) all) = take (k - ?na) (authorities m)"
    unfolding assms(2) by (simp add: min_def) 
  moreover have "take (k - min k (?na + ?nb)) (drop (min k (?na + ?nb)) all) =
      take (k - ?na - ?nb) (additionals m)"
    unfolding assms(2) by (simp add: min_def)
  moreover have "take (min k ?na) all = take k (answers m)"
    unfolding assms(2) by (simp add: min_def)
  ultimately have "set_prefix r all ?na ?nb k =
      Some (r\<lparr>answers := take k (answers m), authorities := take (k - ?na) (authorities m),
              additionals := take (k - ?na - ?nb) (additionals m)\<rparr>)"
    by (simp add: set_prefix_at [OF len])
  also have "r\<lparr>answers := take k (answers m), authorities := take (k - ?na) (authorities m),
              additionals := take (k - ?na - ?nb) (additionals m)\<rparr> = keep_first m k"
    unfolding keep_first_def by (subst (5 6 7) assms(3) [symmetric]) simp
  finally show ?thesis .
qed

text \<open>
  The search returns a prefix that fits; that it is the longest one (\<open>opt\<close>) needs that a longer
  prefix is never encoded shorter.
\<close>

lemma truncate_loop_result:
  assumes "hi \<le> record_count m"
    and "all = answers m @ authorities m @ additionals m"
    and "r\<lparr>answers := answers m, authorities := authorities m, additionals := additionals m\<rparr> = m"
    and "lo \<le> hi" and "lo = 0 \<or> encoded_len H (keep_first m lo) \<le> limit"
    and "\<And>k. opt \<Longrightarrow> hi < k \<Longrightarrow> k \<le> record_count m \<Longrightarrow> encoded_len H (keep_first m k) > limit"
    and "\<And>j k. opt \<Longrightarrow> j \<le> k \<Longrightarrow> k \<le> record_count m \<Longrightarrow>
           encoded_len H (keep_first m j) \<le> encoded_len H (keep_first m k)"
  shows "\<exists>k r'. truncate_loop H limit all (length (answers m)) (length (authorities m)) lo hi r = Some (k, r') \<and>
     k \<le> record_count m \<and> (k = 0 \<or> encoded_len H (keep_first m k) \<le> limit) \<and>
     (opt \<longrightarrow> (\<forall>j. k < j \<longrightarrow> j \<le> record_count m \<longrightarrow> encoded_len H (keep_first m j) > limit)) \<and>
     r'\<lparr>answers := answers m, authorities := authorities m, additionals := additionals m\<rparr> = m"
  using assms
proof (induction H limit all "length (answers m)" "length (authorities m)" lo hi r rule: truncate_loop.induct)
  case (1 H limit all lo hi r)
  let ?na = "length (answers m)" and ?nb = "length (authorities m)" and ?mid = "(lo + hi + 1) div 2"
  let ?k = "keep_first m ?mid"
  show ?case
  proof (cases "lo < hi")
    case False
    with "1.prems" show ?thesis by (subst truncate_loop.simps) auto
  next
    case True
    then have mid: "lo < ?mid" "?mid \<le> hi" by auto
    have sp: "set_prefix r all ?na ?nb ?mid = Some ?k"
      using "1.prems"(1-3) mid by (intro set_prefix_keep_first) auto
    have step: "truncate_loop H limit all ?na ?nb lo hi r =
        (if encoded_len H ?k \<le> limit then truncate_loop H limit all ?na ?nb ?mid hi ?k
         else truncate_loop H limit all ?na ?nb lo (?mid - 1) ?k)"
      by (subst truncate_loop.simps) (simp only: True if_True Let_def sp option.case)
    have restored: "?k\<lparr>answers := answers m, authorities := authorities m, additionals := additionals m\<rparr> = m"
      by (simp add: keep_first_def)
    show ?thesis
    proof (cases "encoded_len H ?k \<le> limit")
      case fits: True
      then show ?thesis
        using "1.hyps"(1) [OF True refl sp fits "1.prems"(1,2) restored mid(2) _ "1.prems"(6,7)]
        by (simp only: step if_True simp_thms)
    next
      case cut: False
      have up: "encoded_len H (keep_first m k) > limit" if "opt" "?mid - 1 < k" "k \<le> record_count m" for k
        using "1.prems"(7) [of ?mid k] that cut by fastforce
      have b: "?mid - 1 \<le> record_count m" "lo \<le> ?mid - 1" using mid "1.prems"(1) by auto
      show ?thesis
        unfolding step if_not_P [OF cut]
        by (rule "1.hyps"(2) [OF True refl sp cut b(1) "1.prems"(2) restored b(2) "1.prems"(5)])
          (use up "1.prems"(7) in auto)
    qed
  qed
qed

lemma truncate_msg_fits:
  obtains b k where "truncate_msg H m limit = Some (b, (keep_first m k)\<lparr>metadata := (metadata m)\<lparr>md_truncation := b\<rparr>\<rparr>)"
      "k = 0 \<or> encoded_len H (keep_first m k) \<le> limit"
    | "truncate_msg H m limit = Some (False, m)" "encoded_len H m \<le> limit"
proof (cases "encoded_len H m \<le> limit")
  case True
  then show ?thesis using that(2) by (simp add: truncate_msg_def)
next
  case False
  let ?all = "answers m @ authorities m @ additionals m"
  let ?r = "m\<lparr>answers := [], authorities := [], additionals := []\<rparr>"
  have n: "length ?all \<le> record_count m" by (simp add: record_count_def)
  have restored: "?r\<lparr>answers := answers m, authorities := authorities m, additionals := additionals m\<rparr> = m"
    by simp
  obtain k r where k: "truncate_loop H limit ?all (length (answers m)) (length (authorities m)) 0 (length ?all) ?r = Some (k, r)"
    "k \<le> record_count m" "k = 0 \<or> encoded_len H (keep_first m k) \<le> limit"
    "r\<lparr>answers := answers m, authorities := authorities m, additionals := additionals m\<rparr> = m"
    using truncate_loop_result [OF n refl restored, of 0 H limit False] by auto
  have "set_prefix r ?all (length (answers m)) (length (authorities m)) k = Some (keep_first m k)"
    using k(2,4) by (intro set_prefix_keep_first) auto
  moreover have "metadata (keep_first m k) = metadata m" by (simp add: keep_first_def)
  ultimately have "truncate_msg H m limit =
      Some (k < length ?all, (keep_first m k)\<lparr>metadata := (metadata m)\<lparr>md_truncation := k < length ?all\<rparr>\<rparr>)"
    unfolding truncate_msg_def Let_def by (simp only: False if_False k(1) option.case prod.case)
  then show ?thesis using that(1) k(3) by blast
qed

section \<open>A concrete instance\<close>

text \<open>
  Names as strings and OPT records as triples of \<open>DO\<close> bit, payload size and client subnet: an
  instance of the parameter \<open>H\<close> with which the hypotheses below hold.
\<close>

definition sample_hickory :: "(str, bool \<times> u16 \<times> (ip_addr \<times> u8) option) hickory" where
  "sample_hickory = \<lparr>
     message_query = \<lparr>metadata = \<lparr>md_id = 0, md_message_type = Query, md_op_code = 0, md_truncation = False,
         md_recursion_desired = False, md_recursion_available = False, md_authentic_data = False,
         md_checking_disabled = False, md_response_code = NoError\<rparr>,
       queries = [], answers = [], authorities = [], additionals = [], edns = None\<rparr>,
     message_bytes = (\<lambda>m. Some (replicate (12 + 16 * record_count m) 0)),
     from_rdata = (\<lambda>n t d. \<lparr>rr_name = n, rr_class = ClassIN, rr_ttl = t, rr_data = d\<rparr>),
     name_root = ''.'', name_is_root = (\<lambda>n. n = ''.''), name_ascii = (\<lambda>n. n), name_show = (\<lambda>n. n),
     name_len = length, name_eq = (\<lambda>m n. to_ascii_lowercase m = to_ascii_lowercase n), name_lower = to_ascii_lowercase, name_from_ascii = Some, name_from_utf8 = Some,
     edns_new = (False, 512, None), edns_max_payload = (\<lambda>(_, p, _). p),
     edns_set_max_payload = (\<lambda>p (d, _, s). (d, p, s)), edns_dnssec_ok = (\<lambda>(d, _, _). d),
     edns_set_dnssec_ok = (\<lambda>d (_, p, s). (d, p, s)), edns_subnet = (\<lambda>(_, _, s). s),
     edns_remove_subnet = (\<lambda>(d, p, _). (d, p, None)), edns_insert_subnet = (\<lambda>s (d, p, _). (d, p, Some s))\<rparr>"

definition sample_query :: "record_type \<Rightarrow> (str, bool \<times> u16 \<times> (ip_addr \<times> u8) option) message" where
  "sample_query t =
     (message_query sample_hickory)\<lparr>queries := [\<lparr>q_name = ''ads.com.'', q_type = t, q_class = ClassIN\<rparr>]\<rparr>"

definition sample_response ::
  "record_type \<Rightarrow> str rdata list \<Rightarrow> (str, bool \<times> u16 \<times> (ip_addr \<times> u8) option) message" where
  "sample_response t ds =
     (reply sample_hickory (sample_query t) NoError)\<lparr>answers := map (from_rdata sample_hickory ''ads.com.'' 60) ds\<rparr>"

section \<open>Properties\<close>

text \<open>
  C31. Truncation keeps as much as fits.  When adding a record never makes the encoding smaller, a
  response over the limit is cut to its longest prefix of records that fits (to none if not even the
  header fits), in the order answers, authorities, additionals, with nothing else changed but the
  truncation bit, which says whether a record went; a response within the limit is left alone.
  The search always returns and never slices out of range.
\<close>

theorem truncate_longest_prefix:
  assumes "\<forall>k \<le> record_count m. \<forall>j \<le> k. encoded_len H (keep_first m j) \<le> encoded_len H (keep_first m k)"
  shows "if encoded_len H m \<le> limit then truncate_msg H m limit = Some (False, m)
    else \<exists>k \<le> record_count m.
      truncate_msg H m limit =
        Some (k < record_count m,
              (keep_first m k)\<lparr>metadata := (metadata m)\<lparr>md_truncation := k < record_count m\<rparr>\<rparr>) \<and>
      (k = 0 \<or> encoded_len H (keep_first m k) \<le> limit) \<and>
      (\<forall>j. k < j \<and> j \<le> record_count m \<longrightarrow> encoded_len H (keep_first m j) > limit)"
proof (cases "encoded_len H m \<le> limit")
  case True
  then show ?thesis by (simp add: truncate_msg_def)
next
  case False
  let ?all = "answers m @ authorities m @ additionals m"
  let ?r = "m\<lparr>answers := [], authorities := [], additionals := []\<rparr>"
  have n: "record_count m = length ?all" by (simp add: record_count_def)
  have restored: "?r\<lparr>answers := answers m, authorities := authorities m, additionals := additionals m\<rparr> = m"
    by simp
  obtain k r where k: "truncate_loop H limit ?all (length (answers m)) (length (authorities m)) 0 (length ?all) ?r = Some (k, r)"
    "k \<le> record_count m" "k = 0 \<or> encoded_len H (keep_first m k) \<le> limit"
    "\<forall>j. k < j \<longrightarrow> j \<le> record_count m \<longrightarrow> encoded_len H (keep_first m j) > limit"
    "r\<lparr>answers := answers m, authorities := authorities m, additionals := additionals m\<rparr> = m"
    using truncate_loop_result [of "length ?all" m ?all ?r 0 H limit True, OF _ refl restored] assms n by auto
  have "set_prefix r ?all (length (answers m)) (length (authorities m)) k = Some (keep_first m k)"
    using k(2,5) by (intro set_prefix_keep_first) auto
  moreover have "metadata (keep_first m k) = metadata m" by (simp add: keep_first_def)
  ultimately have "truncate_msg H m limit =
      Some (k < record_count m,
            (keep_first m k)\<lparr>metadata := (metadata m)\<lparr>md_truncation := k < record_count m\<rparr>\<rparr>)"
    unfolding truncate_msg_def Let_def n by (simp only: False if_False k(1) option.case prod.case)
  with False k(2-4) show ?thesis by auto
qed

theorem truncate_longest_prefix_witness:
  "truncate_msg sample_hickory (sample_response TA [RA 1, RA 2, RA 3]) 50 =
     Some (True, (sample_response TA [RA 1, RA 2])\<lparr>metadata :=
       (metadata (sample_response TA []))\<lparr>md_truncation := True\<rparr>\<rparr>)"
proof -
  let ?m = "sample_response TA [RA 1, RA 2, RA 3]"
  have len: "encoded_len sample_hickory m = 12 + 16 * record_count m" for m
    by (simp add: encoded_len_def sample_hickory_def)
  have n: "record_count ?m = 3" by code_simp
  have kf: "record_count (keep_first ?m k) = k" if "k \<le> 3" for k
    using that by (simp add: record_count_def keep_first_def sample_response_def reply_def sample_hickory_def Let_def)
  have mono: "\<forall>k \<le> record_count ?m. \<forall>j \<le> k.
      encoded_len sample_hickory (keep_first ?m j) \<le> encoded_len sample_hickory (keep_first ?m k)"
    by (simp add: len n kf)
  have over: "(encoded_len sample_hickory ?m \<le> 50) = False" by (simp add: len n)
  obtain k where k: "k \<le> 3" "truncate_msg sample_hickory ?m 50 =
        Some (k < 3, (keep_first ?m k)\<lparr>metadata := (metadata ?m)\<lparr>md_truncation := k < 3\<rparr>\<rparr>)"
      "k = 0 \<or> encoded_len sample_hickory (keep_first ?m k) \<le> 50"
      "\<forall>j. k < j \<and> j \<le> 3 \<longrightarrow> encoded_len sample_hickory (keep_first ?m j) > 50"
    using truncate_longest_prefix [of ?m sample_hickory 50, OF mono] unfolding over if_False n
    by (elim exE conjE)
  have "k = 2" using k(1,3) spec [OF k(4), of 2] spec [OF k(4), of 3] by (auto simp: len kf)
  moreover have "keep_first ?m 2 = sample_response TA [RA 1, RA 2]" by code_simp
  moreover have "metadata ?m = metadata (sample_response TA [])" by code_simp
  ultimately show ?thesis using k(2) by simp
qed

text \<open>
  C33. What leaves the server answers the client's question.  A response shaped to a request without
  the \<open>DO\<close> bit holds exactly the records that are not DNSSEC data or are of the type asked for, in
  their order; it claims validation only to a client that set \<open>DO\<close> or \<open>AD\<close>; and it carries an OPT
  record exactly if the request did, with the request's \<open>DO\<close> bit and payload size, given that
  hickory's setters set what they name and that setting the one leaves the other alone.
\<close>

theorem shaped_response:
  assumes "\<And>b e. edns_dnssec_ok H (edns_set_dnssec_ok H b e) = b"
    and "\<And>p e. edns_dnssec_ok H (edns_set_max_payload H p e) = edns_dnssec_ok H e"
    and "\<And>e e'. edns_max_payload H (edns_set_max_payload H (edns_max_payload H e) e') = edns_max_payload H e"
  shows "let out = shape_to_request H req resp;
             kept = (\<lambda>r. dnssec_ok H req \<or> rr_type r = qtype_of req \<or> \<not> is_dnssec_record (rr_type r)) in
         answers out = filter kept (answers resp) \<and>
         authorities out = filter kept (authorities resp) \<and>
         additionals out = filter kept (additionals resp) \<and>
         (md_authentic_data (metadata out) \<longleftrightarrow> md_authentic_data (metadata resp) \<and> wants_dnssec H req) \<and>
         md_response_code (metadata out) = md_response_code (metadata resp) \<and>
         dnssec_ok H out = dnssec_ok H req \<and>
         map_option (edns_max_payload H) (edns out) = map_option (edns_max_payload H) (edns req)"
  using assms
  by (cases "edns req")
    (auto simp: shape_to_request_def mirror_request_def strip_dnssec_def wants_dnssec_def dnssec_ok_def Let_def)

theorem shaped_response_witness:
  "answers (shape_to_request sample_hickory (sample_query TA) (sample_response TA [RA 1, ROther TRRSIG []])) =
     [from_rdata sample_hickory ''ads.com.'' 60 (RA 1)]"
proof -
  let ?resp = "sample_response TA [RA 1, ROther TRRSIG []]"
  have "answers (shape_to_request sample_hickory (sample_query TA) ?resp) =
      filter (\<lambda>r. dnssec_ok sample_hickory (sample_query TA) \<or> rr_type r = qtype_of (sample_query TA) \<or>
        \<not> is_dnssec_record (rr_type r)) (answers ?resp)"
    using shaped_response [of sample_hickory "sample_query TA" ?resp]
    by (simp add: sample_hickory_def split_beta Let_def)
  also have "\<dots> = [from_rdata sample_hickory ''ads.com.'' 60 (RA 1)]" by code_simp
  finally show ?thesis .
qed

text \<open>The addresses a blocked response may carry.\<close>

definition allowed_addrs :: "blocking_config \<Rightarrow> ip_addr list \<Rightarrow> ip_addr set" where
  "allowed_addrs cfg rule_addrs =
     (case bc_mode cfg of
        DefaultMode \<Rightarrow> set rule_addrs \<union> {V4 0, V6 0}
      | NullIp \<Rightarrow> {V4 0, V6 0}
      | CustomIp \<Rightarrow> V4 ` set_option (bc_custom_v4 cfg) \<union> V6 ` set_option (bc_custom_v6 cfg)
      | _ \<Rightarrow> {})"

lemma reply_fields [simp]:
  "queries (reply H req c) = queries req"
  "answers (reply H req c) = answers (message_query H)"
  "authorities (reply H req c) = authorities (message_query H)"
  "md_response_code (metadata (reply H req c)) = c"
  "md_id (metadata (reply H req c)) = md_id (metadata req)"
  "md_message_type (metadata (reply H req c)) = Response"
  by (simp_all add: reply_def Let_def)

lemma addr_rdata_None: "addr_rdata t a = None \<longleftrightarrow> \<not> family_fits t a"
  by (cases "(t, a)" rule: family_fits.cases) auto

lemma answers_with_addrs:
  "answers (with_addrs H req addrs ttl) =
     map (\<lambda>a. from_rdata H (qname H req) ttl (the (addr_rdata (qtype_of req) a)))
       (filter (family_fits (qtype_of req)) addrs)"
  unfolding with_addrs_def Let_def List.map_filter_def
  by (auto simp: comp_def addr_rdata_None option.map_sel)

lemma with_addrs_fields [simp]:
  "queries (with_addrs H req addrs ttl) = queries req"
  "md_response_code (metadata (with_addrs H req addrs ttl)) = NoError"
  "md_id (metadata (with_addrs H req addrs ttl)) = md_id (metadata req)"
  by (simp_all add: with_addrs_def Let_def)

text \<open>What a response to an address question answers with.\<close>

definition blocked_addrs :: "blocking_config \<Rightarrow> record_type \<Rightarrow> ip_addr list \<Rightarrow> ip_addr list" where
  "blocked_addrs cfg qt rule_addrs =
     (case bc_mode cfg of
        DefaultMode \<Rightarrow> (let usable = filter (family_fits qt) rule_addrs in if usable = [] then null_addr qt else usable)
      | NullIp \<Rightarrow> null_addr qt
      | CustomIp \<Rightarrow> custom_addrs cfg qt
      | _ \<Rightarrow> [])"

lemma null_addr_set: "set (null_addr qt) \<subseteq> {V4 0, V6 0}" "null_addr TA \<noteq> []" "null_addr TAAAA \<noteq> []"
  by (cases qt; simp)+

lemma blocked_addrs_allowed: "set (blocked_addrs cfg qt rule_addrs) \<subseteq> allowed_addrs cfg rule_addrs"
  using null_addr_set(1) [of qt]
  by (auto simp: blocked_addrs_def allowed_addrs_def custom_addrs_def Let_def
      split: blocking_mode.splits if_splits record_type.splits option.splits)

lemma blocked_addrs_fit: "filter (family_fits qt) (blocked_addrs cfg qt rule_addrs) = blocked_addrs cfg qt rule_addrs"
  by (cases qt) (auto simp: blocked_addrs_def custom_addrs_def Let_def
      split: blocking_mode.splits option.splits)

lemma answers_blocked:
  assumes "answers (message_query H) = []"
  shows "answers (blocked H req cfg rule_addrs) =
    (if qtype_of req = TA \<or> qtype_of req = TAAAA
     then map (\<lambda>a. from_rdata H (qname H req) (bc_ttl cfg) (the (addr_rdata (qtype_of req) a)))
            (blocked_addrs cfg (qtype_of req) rule_addrs)
     else [])"
proof -
  have "family_fits t a \<Longrightarrow> t = TA \<or> t = TAAAA" for t a by (cases "(t, a)" rule: family_fits.cases) auto
  then have none: "filter (family_fits t) xs = []" if "t \<noteq> TA" "t \<noteq> TAAAA" for t xs
    using that by (auto simp: filter_empty_conv)
  show ?thesis
    using assms blocked_addrs_fit [of "qtype_of req" cfg rule_addrs]
    by (auto simp: blocked_def blocked_addrs_def Let_def answers_with_addrs nodata_def nxdomain_def
        refused_def none split: blocking_mode.splits)
qed

text \<open>
  C32. A blocked query never gets an address from outside the configuration.  Every record in the
  answer section of a blocked response is an address record of the type asked for, at the name asked
  for and with the configured TTL; its address is the null address, the configured custom one (in
  custom mode) or one the matching rules carry (in default mode only).  The code is \<open>NXDOMAIN\<close> or
  \<open>REFUSED\<close> in the modes of that name for an address-shaped question and \<open>NOERROR\<close> otherwise, and in
  default and null mode an \<open>A\<close> or \<open>AAAA\<close> question gets at least one address.
\<close>

theorem blocked_answers_safe:
  assumes "answers (message_query H) = []"
  shows "let out = blocked H req cfg rule_addrs; qt = qtype_of req in
    queries out = queries req \<and> md_id (metadata out) = md_id (metadata req) \<and>
    (\<forall>r \<in> set (answers out). \<exists>a \<in> allowed_addrs cfg rule_addrs. family_fits qt a \<and>
       r = from_rdata H (qname H req) (bc_ttl cfg) (the (addr_rdata qt a))) \<and>
    md_response_code (metadata out) =
      (if qt = TA \<or> qt = TAAAA \<or> qt = THTTPS
       then (case bc_mode cfg of NxdomainMode \<Rightarrow> NXDomain | RefusedMode \<Rightarrow> Refused | _ \<Rightarrow> NoError)
       else NoError) \<and>
    ((qt = TA \<or> qt = TAAAA) \<and> (bc_mode cfg = DefaultMode \<or> bc_mode cfg = NullIp) \<longrightarrow> answers out \<noteq> [])"
proof -
  have b: "blocked_addrs cfg (qtype_of req) rule_addrs \<noteq> []"
    if "qtype_of req = TA \<or> qtype_of req = TAAAA" "bc_mode cfg = DefaultMode \<or> bc_mode cfg = NullIp"
    using that null_addr_set(2,3) by (auto simp: blocked_addrs_def Let_def split: if_splits)
  have "md_response_code (metadata (blocked H req cfg rule_addrs)) =
      (if qtype_of req = TA \<or> qtype_of req = TAAAA \<or> qtype_of req = THTTPS
       then (case bc_mode cfg of NxdomainMode \<Rightarrow> NXDomain | RefusedMode \<Rightarrow> Refused | _ \<Rightarrow> NoError)
       else NoError)"
    "queries (blocked H req cfg rule_addrs) = queries req"
    "md_id (metadata (blocked H req cfg rule_addrs)) = md_id (metadata req)"
    by (auto simp: blocked_def Let_def nodata_def nxdomain_def refused_def split: blocking_mode.splits)
  moreover have "\<exists>a \<in> allowed_addrs cfg rule_addrs. family_fits (qtype_of req) a \<and>
       r = from_rdata H (qname H req) (bc_ttl cfg) (the (addr_rdata (qtype_of req) a))"
    if "r \<in> set (answers (blocked H req cfg rule_addrs))" for r
  proof -
    from that obtain a where "a \<in> set (blocked_addrs cfg (qtype_of req) rule_addrs)"
      "r = from_rdata H (qname H req) (bc_ttl cfg) (the (addr_rdata (qtype_of req) a))"
      by (auto simp: answers_blocked [OF assms] split: if_splits)
    then show ?thesis
      using blocked_addrs_allowed [of cfg "qtype_of req" rule_addrs] blocked_addrs_fit [of "qtype_of req" cfg rule_addrs]
      by (metis filter_eq_ConsD filter_id_conv subsetD)
  qed
  ultimately show ?thesis
    using b by (auto simp: Let_def answers_blocked [OF assms])
qed

theorem blocked_answers_safe_witness:
  "md_response_code (metadata (blocked sample_hickory (sample_query TA) blocking_default [V6 1])) = NoError \<and>
   rr_data ` set (answers (blocked sample_hickory (sample_query TA) blocking_default [V6 1])) = {RA 0}"
proof -
  have q: "qtype_of (sample_query TA) = TA" "bc_mode blocking_default = DefaultMode"
    "allowed_addrs blocking_default [V6 1] = {V6 1, V4 0, V6 0}"
    by (auto simp: qtype_of_def sample_query_def blocking_default_def allowed_addrs_def)
  have fr: "rr_data (from_rdata sample_hickory n t d) = d" for n t d by (simp add: sample_hickory_def)
  let ?out = "blocked sample_hickory (sample_query TA) blocking_default [V6 1]"
  have out: "md_response_code (metadata ?out) = NoError" "answers ?out \<noteq> []"
    "\<forall>r \<in> set (answers ?out). rr_data r = RA 0"
    using blocked_answers_safe [of sample_hickory "sample_query TA" blocking_default "[V6 1]"]
    by (auto simp: sample_hickory_def [THEN arg_cong [where f = message_query]] Let_def q fr)
  then have "\<exists>r. r \<in> set (answers ?out)" by (simp add: ex_in_conv)
  with out show ?thesis by (auto intro: rev_image_eqI)
qed

text \<open>
  A client subnet is written masked and reads back.  After \<open>set_subnet\<close> the message carries
  exactly the subnet that was returned, with the prefix length asked for and an address of the same
  family whose leading prefix bits are the client's and whose other bits are zero, so no host bit
  leaves the server; \<open>strip_subnet\<close> removes it again.  The hypotheses are that hickory's option map
  returns an option after inserting it and not after removing it.
\<close>

theorem set_subnet_masked:
  assumes "\<And>s e. edns_subnet H (edns_insert_subnet H s e) = Some s"
    and "\<And>e. edns_subnet H (edns_remove_subnet H e) = None"
  shows "\<exists>sn msg'. set_subnet H msg addr p = (sn, msg') \<and>
    subnet_of H msg' = Some sn \<and> sn_prefix sn = p \<and>
    (case addr of
       V4 a \<Rightarrow> \<exists>b. sn_addr sn = V4 b \<and> (\<forall>i. bit b i \<longleftrightarrow> bit a i \<and> 32 \<le> i + unat p)
     | V6 a \<Rightarrow> \<exists>b. sn_addr sn = V6 b \<and> (\<forall>i. bit b i \<longleftrightarrow> bit a i \<and> 128 \<le> i + unat p)) \<and>
    subnet_of H (strip_subnet H msg') = None"
  using assms
  by (cases addr)
    (auto simp: set_subnet_def subnet_of_def strip_subnet_def Let_def bit_and_iff bit_keep_bits
      dest: bit_imp_le_length)

theorem set_subnet_masked_witness:
  "fst (set_subnet sample_hickory (sample_query TA) (V4 0xC000024D) 24) = \<lparr>sn_addr = V4 0xC0000200, sn_prefix = 24\<rparr> \<and>
   subnet_of sample_hickory (snd (set_subnet sample_hickory (sample_query TA) (V4 0xC000024D) 24)) =
     Some \<lparr>sn_addr = V4 0xC0000200, sn_prefix = 24\<rparr>"
proof -
  have f: "fst (set_subnet sample_hickory (sample_query TA) (V4 0xC000024D) 24) =
      \<lparr>sn_addr = V4 0xC0000200, sn_prefix = 24\<rparr>" by code_simp
  have "\<exists>sn msg'. set_subnet sample_hickory (sample_query TA) (V4 0xC000024D) 24 = (sn, msg') \<and>
      subnet_of sample_hickory msg' = Some sn"
    using set_subnet_masked [of sample_hickory "sample_query TA" "V4 0xC000024D" 24]
    by (fastforce simp: sample_hickory_def split_beta)
  with f show ?thesis by auto
qed

end
