(* ===== verification/Pool.thy ===== *)
theory Pool
  imports Addr Clients Message Name
begin

text \<open>
  Upstream selection and exchange: \<open>crates/sift-dns/src/pool.rs\<close> and \<open>is_failure\<close> of \<open>client.rs\<close>.
  Shows which group serves a name, that a query is answered exactly when some upstream it may go to
  answers, from whom the answer is, and the order and bookkeeping of load balancing.
\<close>

section \<open>Members\<close>

datatype pool_mode = LoadBalance | Parallel | FastestAddr

record 'c member =
  mb_client :: 'c
  mb_rtt_ewma_us :: u64
  mb_failures :: u64

definition member_new :: "'c \<Rightarrow> 'c member" where
  "member_new c = \<lparr>mb_client = c, mb_rtt_ewma_us = 20000, mb_failures = 0\<rparr>"

definition member_success :: "nat \<Rightarrow> 'c member \<Rightarrow> 'c member" where
  "member_success rtt m =
     (let sample = of_nat (min (rtt div 1000) (2 ^ 64 - 1)); prev = mb_rtt_ewma_us m; nxt = prev - prev div 4 + sample div 4
      in m\<lparr>mb_rtt_ewma_us := max nxt 1, mb_failures := 0\<rparr>)"

definition member_failure :: "'c member \<Rightarrow> 'c member" where
  "member_failure m = m\<lparr>mb_failures := mb_failures m + 1\<rparr>"

definition sat_mul :: "u64 \<Rightarrow> u64 \<Rightarrow> u64" where
  "sat_mul a b = (if unat a * unat b \<ge> 2 ^ 64 then - 1 else a * b)"

definition member_score :: "'c member \<Rightarrow> u64" where
  "member_score m = sat_mul (mb_rtt_ewma_us m) (push_bit (unat (min (mb_failures m) 8)) 1)"

definition mean_rtt :: "'c member \<Rightarrow> nat" where
  "mean_rtt m = unat (mb_rtt_ewma_us m) * 1000"

text \<open>
  An \<open>Arc<Member>\<close> is an index into the list of all members, because their statistics change in
  place while pools and tasks share them.
\<close>

type_synonym 'c members = "'c member list"

record pool_group =
  pg_domains :: "str list"
  pg_members :: "nat list"

record pool =
  pl_defaults :: "nat list"
  pl_groups :: "pool_group list"
  pl_fallbacks :: "nat list"
  pl_mode :: pool_mode
  pl_timeout :: nat
  pl_fastest_timeout :: nat

definition wrap :: "'c list \<Rightarrow> 'c members \<Rightarrow> nat list \<times> 'c members" where
  "wrap cs st = ([length st..<length st + length cs], st @ map member_new cs)"

fun wrap_groups :: "(str list \<times> 'c list) list \<Rightarrow> 'c members \<Rightarrow> pool_group list \<times> 'c members" where
  "wrap_groups [] st = ([], st)"
| "wrap_groups ((ds, cs) # gs) st =
     (let (ms, st) = wrap cs st; (gs, st) = wrap_groups gs st in (\<lparr>pg_domains = ds, pg_members = ms\<rparr> # gs, st))"

definition pool_new ::
  "'c list \<Rightarrow> (str list \<times> 'c list) list \<Rightarrow> 'c list \<Rightarrow> pool_mode \<Rightarrow> nat \<Rightarrow> nat \<Rightarrow> pool \<times> 'c members" where
  "pool_new defaults groups fallbacks mode timeout fastest =
     (let (ds, st) = wrap defaults []; (gs, st) = wrap_groups groups st; (fs, st) = wrap fallbacks st
      in (\<lparr>pl_defaults = ds, pl_groups = gs, pl_fallbacks = fs, pl_mode = mode, pl_timeout = timeout,
           pl_fastest_timeout = fastest\<rparr>, st))"

definition pool_is_empty :: "pool \<Rightarrow> bool" where
  "pool_is_empty p \<longleftrightarrow> pl_defaults p = [] \<and> pl_groups p = []"

section \<open>Selection\<close>

definition domain_hit :: "str \<Rightarrow> str \<Rightarrow> bool" where
  "domain_hit host d = (if d = [] then CHR ''.'' \<notin> set host else is_subdomain_of host d)"

definition group_matches :: "pool_group \<Rightarrow> str \<Rightarrow> nat option" where
  "group_matches g host =
     foldl (\<lambda>best d. if domain_hit host d
                     then Some (case best of None \<Rightarrow> length d | Some b \<Rightarrow> max b (length d)) else best)
       None (pg_domains g)"

definition best_group :: "str \<Rightarrow> (nat \<times> pool_group) option \<Rightarrow> pool_group \<Rightarrow> (nat \<times> pool_group) option" where
  "best_group host best g =
     (case group_matches g host of
        Some len \<Rightarrow> (case best of None \<Rightarrow> Some (len, g) | Some (b, _) \<Rightarrow> if len > b then Some (len, g) else best)
      | None \<Rightarrow> best)"

definition pool_select :: "pool \<Rightarrow> str \<Rightarrow> nat list" where
  "pool_select p host =
     (case foldl (best_group host) None (pl_groups p) of
        Some (_, g) \<Rightarrow> if pg_members g \<noteq> [] then pg_members g else pl_defaults p
      | None \<Rightarrow> pl_defaults p)"

section \<open>Exchange\<close>

text \<open>
  The network and the scheduler are the parameter \<open>W\<close>: what asking a member comes to (an answer
  after so many nanoseconds, the client's error, or a task that did not finish), the order in which
  \<open>JoinSet::join_next\<close> yields the tasks, which tasks still finish after \<open>abort_all\<close>, and the address
  probes.
\<close>

datatype ('m, 'x) outcome = Answered 'm nat | Errored 'x | Crashed

record ('m, 'x) pool_world =
  pw_outcome :: "nat \<Rightarrow> ('m, 'x) outcome"
  pw_order :: "nat list \<Rightarrow> nat list"
  pw_late :: "nat \<Rightarrow> bool"
  pw_connect :: "ip_addr \<Rightarrow> u16 \<Rightarrow> bool"
  pw_probe_time :: "ip_addr \<Rightarrow> nat"
  pw_probe_order :: "ip_addr list \<Rightarrow> ip_addr list"

datatype 'x exchange_error = ClientError 'x | BadCode "nat option" response_code | TaskFailed | NoUpstreams | NoneTried

definition is_failure :: "('n, 'e) message \<Rightarrow> bool" where
  "is_failure resp \<longleftrightarrow> md_response_code (metadata resp) \<in> {ServFail, Refused, NotImp}"

text \<open>What a task records about its member once its exchange ends.\<close>

definition record_outcome :: "(('n, 'e) message, 'x) pool_world \<Rightarrow> 'c members \<Rightarrow> nat \<Rightarrow> 'c members" where
  "record_outcome W st m =
     (case pw_outcome W m of
        Answered resp t \<Rightarrow> st[m := (if is_failure resp then member_failure (st ! m) else member_success t (st ! m))]
      | Errored _ \<Rightarrow> st[m := member_failure (st ! m)]
      | Crashed \<Rightarrow> st)"

fun try_in_order ::
  "(('n, 'e) message, 'x) pool_world \<Rightarrow> nat list \<Rightarrow> 'x exchange_error option \<Rightarrow> 'c members
     \<Rightarrow> (('n, 'e) message \<times> nat, 'x exchange_error) rust_result \<times> 'c members" where
  "try_in_order W [] last_err st = (Err (case last_err of Some e \<Rightarrow> e | None \<Rightarrow> NoneTried), st)"
| "try_in_order W (m # ms) last_err st =
     (case pw_outcome W m of
        Answered resp t \<Rightarrow>
          if \<not> is_failure resp then (Ok (resp, m), record_outcome W st m)
          else try_in_order W ms (Some (BadCode (Some m) (md_response_code (metadata resp)))) (record_outcome W st m)
      | Errored e \<Rightarrow> try_in_order W ms (Some (ClientError e)) (record_outcome W st m)
      | Crashed \<Rightarrow> (Panic, st))"

definition exchange_load_balance ::
  "(('n, 'e) message, 'x) pool_world \<Rightarrow> nat list \<Rightarrow> 'c members
     \<Rightarrow> (('n, 'e) message \<times> nat, 'x exchange_error) rust_result \<times> 'c members" where
  "exchange_load_balance W ms st = try_in_order W (sort_key (\<lambda>m. member_score (st ! m)) ms) None st"

fun join_first ::
  "(('n, 'e) message, 'x) pool_world \<Rightarrow> nat list \<Rightarrow> 'x exchange_error option \<Rightarrow> 'c members
     \<Rightarrow> (('n, 'e) message \<times> nat, 'x exchange_error) rust_result \<times> 'c members" where
  "join_first W [] last_err st = (Err (case last_err of Some e \<Rightarrow> e | None \<Rightarrow> NoneTried), st)"
| "join_first W (m # ms) last_err st =
     (let st = record_outcome W st m in
      case pw_outcome W m of
        Answered resp t \<Rightarrow>
          if \<not> is_failure resp then (Ok (resp, m), foldl (record_outcome W) st (filter (pw_late W) ms))
          else join_first W ms (Some (BadCode None (md_response_code (metadata resp)))) st
      | Errored e \<Rightarrow> join_first W ms (Some (ClientError e)) st
      | Crashed \<Rightarrow> join_first W ms (Some TaskFailed) st)"

definition exchange_parallel ::
  "(('n, 'e) message, 'x) pool_world \<Rightarrow> nat list \<Rightarrow> 'c members
     \<Rightarrow> (('n, 'e) message \<times> nat, 'x exchange_error) rust_result \<times> 'c members" where
  "exchange_parallel W ms st = join_first W (pw_order W ms) None st"

definition PROBE_PORTS :: "u16 list" where
  "PROBE_PORTS = [443, 80]"

definition fastest_of :: "(('n, 'e) message, 'x) pool_world \<Rightarrow> ip_addr list \<Rightarrow> ip_addr option" where
  "fastest_of W addrs =
     map_option snd (foldl (\<lambda>best ip.
       if list_ex (pw_connect W ip) PROBE_PORTS
       then (case best of None \<Rightarrow> Some (pw_probe_time W ip, ip)
             | Some (bd, _) \<Rightarrow> if pw_probe_time W ip < bd then Some (pw_probe_time W ip, ip) else best)
       else best) None (pw_probe_order W addrs))"

fun join_all ::
  "(('n, 'e) message, 'x) pool_world \<Rightarrow> nat list \<Rightarrow> (('n, 'e) message \<times> nat) list \<Rightarrow> 'x exchange_error option \<Rightarrow> 'c members
     \<Rightarrow> (('n, 'e) message \<times> nat) list \<times> 'x exchange_error option \<times> 'c members" where
  "join_all W [] responses last_err st = (responses, last_err, st)"
| "join_all W (m # ms) responses last_err st =
     (let st = record_outcome W st m in
      case pw_outcome W m of
        Answered resp t \<Rightarrow>
          if \<not> is_failure resp then join_all W ms (responses @ [(resp, m)]) last_err st
          else join_all W ms responses (Some (BadCode None (md_response_code (metadata resp)))) st
      | Errored e \<Rightarrow> join_all W ms responses (Some (ClientError e)) st
      | Crashed \<Rightarrow> join_all W ms responses (Some TaskFailed) st)"

fun rdata_addr :: "'n rdata \<Rightarrow> ip_addr list" where
  "rdata_addr (RA a) = [V4 a]"
| "rdata_addr (RAAAA a) = [V6 a]"
| "rdata_addr _ = []"

definition offered_addrs :: "(('n, 'e) message \<times> nat) list \<Rightarrow> ip_addr list" where
  "offered_addrs responses =
     remdups_adj (sort (concat (map (\<lambda>(r, _). concat (map (\<lambda>rec. rdata_addr (rr_data rec)) (answers r))) responses)))"

definition exchange_fastest_addr ::
  "('n, 'e) hickory \<Rightarrow> (('n, 'e) message, 'x) pool_world \<Rightarrow> ('n, 'e) message \<Rightarrow> nat list \<Rightarrow> 'c members
     \<Rightarrow> (('n, 'e) message \<times> nat, 'x exchange_error) rust_result \<times> 'c members" where
  "exchange_fastest_addr H W req ms st =
     (let (responses, last_err, st) = join_all W (pw_order W ms) [] None st in
      case responses of
        [] \<Rightarrow> (Err (case last_err of Some e \<Rightarrow> e | None \<Rightarrow> NoneTried), st)
      | (first, won) # _ \<Rightarrow>
          let addrs = offered_addrs responses in
          if length addrs < 2 then (Ok (first, won), st)
          else (case fastest_of W addrs of
                  Some best \<Rightarrow>
                    (Ok (with_addrs H req [best] (case min_ttl first of Some t \<Rightarrow> t | None \<Rightarrow> 300), won), st)
                | None \<Rightarrow> (Ok (first, won), st)))"

definition pool_exchange ::
  "('n, 'e) hickory \<Rightarrow> (('n, 'e) message, 'x) pool_world \<Rightarrow> pool \<Rightarrow> ('n, 'e) message \<Rightarrow> str \<Rightarrow> 'c members
     \<Rightarrow> (('n, 'e) message \<times> nat, 'x exchange_error) rust_result \<times> 'c members" where
  "pool_exchange H W p req host st =
     (let ms = pool_select p host in
      if ms = [] then (Err NoUpstreams, st)
      else
        let (r, st) = (case pl_mode p of
              LoadBalance \<Rightarrow> exchange_load_balance W ms st
            | Parallel \<Rightarrow> exchange_parallel W ms st
            | FastestAddr \<Rightarrow> exchange_fastest_addr H W req ms st)
        in case r of
             Err e \<Rightarrow>
               if pl_fallbacks p \<noteq> []
               then (case exchange_parallel W (pl_fallbacks p) st of
                       (Err _, st) \<Rightarrow> (Err e, st)
                     | won \<Rightarrow> won)
               else (Err e, st)
           | r \<Rightarrow> (r, st))"

section \<open>Configuration\<close>

type_synonym upstream_group = "str list \<times> upstream list"

fun push_group :: "str list \<Rightarrow> upstream \<Rightarrow> upstream_group list \<Rightarrow> upstream_group list" where
  "push_group ds u [] = [(ds, [u])]"
| "push_group ds u ((d, us) # gs) = (if d = ds then (d, us @ [u]) # gs else (d, us) # push_group ds u gs)"

definition partition_step :: "upstream list \<times> upstream_group list \<Rightarrow> upstream_entry \<Rightarrow> upstream list \<times> upstream_group list" where
  "partition_step = (\<lambda>(defaults, groups) e.
     case ue_upstream e of
       None \<Rightarrow> (defaults, if ue_domains e \<noteq> [] then groups @ [(ue_domains e, [])] else groups)
     | Some u \<Rightarrow>
         if ue_domains e = [] then (defaults @ [u], groups)
         else (defaults, push_group (ue_domains e) u groups))"

definition partition_upstreams :: "upstream_entry list \<Rightarrow> upstream list \<times> upstream_group list" where
  "partition_upstreams es = foldl partition_step ([], []) es"

definition is_address_query :: "record_type \<Rightarrow> bool" where
  "is_address_query qt \<longleftrightarrow> qt = TA \<or> qt = TAAAA"

section \<open>The most specific group\<close>

lemma group_matches_cases:
  "group_matches g host = None \<and> (\<forall>d \<in> set (pg_domains g). \<not> domain_hit host d) \<or>
   (\<exists>n. group_matches g host = Some n \<and> (\<exists>d \<in> set (pg_domains g). domain_hit host d \<and> length d = n)
      \<and> (\<forall>d \<in> set (pg_domains g). domain_hit host d \<longrightarrow> length d \<le> n))"
proof -
  let ?f = "\<lambda>best d. if domain_hit host d then Some (case best of None \<Rightarrow> length d | Some b \<Rightarrow> max b (length d)) else best"
  have "foldl ?f None ds = None \<and> (\<forall>d \<in> set ds. \<not> domain_hit host d) \<or>
    (\<exists>n. foldl ?f None ds = Some n \<and> (\<exists>d \<in> set ds. domain_hit host d \<and> length d = n)
      \<and> (\<forall>d \<in> set ds. domain_hit host d \<longrightarrow> length d \<le> n))" for ds
  proof (induction ds rule: rev_induct)
    case (snoc d ds)
    show ?case
    proof (cases "foldl ?f None ds")
      case None
      then show ?thesis using snoc by auto
    next
      case (Some n)
      then have n: "\<exists>d \<in> set ds. domain_hit host d \<and> length d = n" "\<forall>d \<in> set ds. domain_hit host d \<longrightarrow> length d \<le> n"
        using snoc by auto
      show ?thesis
      proof (cases "domain_hit host d \<and> n \<le> length d")
        case True
        then show ?thesis using Some n by (intro disjI2 exI [of _ "length d"]) (auto simp: max_def intro: le_trans)
      next
        case False
        then show ?thesis using Some n by (intro disjI2 exI [of _ n]) (auto simp: max_def)
      qed
    qed
  qed simp
  then show ?thesis by (simp add: group_matches_def)
qed

lemma best_group_below:
  "\<forall>g \<in> set gs. \<forall>n. group_matches g host = Some n \<longrightarrow> n < k \<Longrightarrow> (\<forall>n g. best = Some (n, g) \<longrightarrow> n < k)
     \<Longrightarrow> foldl (best_group host) best gs = Some (n, g) \<Longrightarrow> n < k"
proof (induction gs arbitrary: best)
  case (Cons x gs)
  have "\<forall>n g. best_group host best x = Some (n, g) \<longrightarrow> n < k"
    using Cons.prems by (auto simp: best_group_def split: option.splits if_splits)
  then show ?case using Cons.IH [of "best_group host best x"] Cons.prems by simp
qed simp

lemma best_group_stays:
  "\<forall>g \<in> set gs. \<forall>n. group_matches g host = Some n \<longrightarrow> n \<le> k \<Longrightarrow> foldl (best_group host) (Some (k, g)) gs = Some (k, g)"
  by (induction gs) (auto simp: best_group_def split: option.splits)

lemma best_group_none:
  "\<forall>g \<in> set gs. group_matches g host = None \<Longrightarrow> foldl (best_group host) None gs = None"
  by (induction gs) (auto simp: best_group_def)

definition group_hit :: "str \<Rightarrow> pool_group \<Rightarrow> str \<Rightarrow> bool" where
  "group_hit host g d \<longleftrightarrow> d \<in> set (pg_domains g) \<and> domain_hit host d"

lemma group_matches_Some: "group_matches g host = Some n \<Longrightarrow> \<exists>d. group_hit host g d \<and> length d = n"
  using group_matches_cases [of g host] by (auto simp: group_hit_def)

text \<open>
  C7.  A name is served by the group with the longest domain that covers it, the first of several
  equally specific ones; by the defaults when that group has no members or when no group covers
  it.
\<close>

theorem pool_select_most_specific:
  "((\<forall>g \<in> set (pl_groups p). \<forall>d. \<not> group_hit host g d) \<longrightarrow> pool_select p host = pl_defaults p) \<and>
   (\<forall>before g after d. pl_groups p = before @ g # after \<and> group_hit host g d
      \<and> (\<forall>g' \<in> set before. \<forall>d'. group_hit host g' d' \<longrightarrow> length d' < length d)
      \<and> (\<forall>g' \<in> set (g # after). \<forall>d'. group_hit host g' d' \<longrightarrow> length d' \<le> length d)
      \<longrightarrow> pool_select p host = (if pg_members g = [] then pl_defaults p else pg_members g))"
proof (intro conjI impI allI, goal_cases)
  case 1
  then have "\<forall>g \<in> set (pl_groups p). group_matches g host = None"
    by (metis group_matches_Some option.exhaust)
  then show ?case by (simp add: pool_select_def best_group_none)
next
  case (2 before g after d)
  have m: "group_matches g host = Some (length d)"
  proof -
    obtain n d' where n: "group_matches g host = Some n" "d' \<in> set (pg_domains g)" "domain_hit host d'" "length d' = n"
      "\<forall>d \<in> set (pg_domains g). domain_hit host d \<longrightarrow> length d \<le> n"
      using group_matches_cases [of g host] 2 unfolding group_hit_def by blast
    then have "n \<le> length d" "length d \<le> n" using 2 unfolding group_hit_def by auto
    then show ?thesis using n(1) by simp
  qed
  have b: "\<forall>g' \<in> set before. \<forall>n. group_matches g' host = Some n \<longrightarrow> n < length d"
    using 2 by (metis group_matches_Some)
  have a: "\<forall>g' \<in> set after. \<forall>n. group_matches g' host = Some n \<longrightarrow> n \<le> length d"
    using 2 by (metis group_matches_Some list.set_intros(2))
  have "best_group host (foldl (best_group host) None before) g = Some (length d, g)"
    using best_group_below [OF b, of None] m by (auto simp: best_group_def split: option.splits)
  moreover have "pl_groups p = before @ g # after" using 2 by blast
  ultimately show ?case using best_group_stays [OF a, of g] by (simp add: pool_select_def)
qed

section \<open>Who answers\<close>

definition good :: "(('n, 'e) message, 'x) pool_world \<Rightarrow> nat \<Rightarrow> bool" where
  "good W m \<longleftrightarrow> (\<exists>resp t. pw_outcome W m = Answered resp t \<and> \<not> is_failure resp)"

definition reply_of :: "(('n, 'e) message, 'x) pool_world \<Rightarrow> nat \<Rightarrow> ('n, 'e) message" where
  "reply_of W m = (case pw_outcome W m of Answered resp _ \<Rightarrow> resp | _ \<Rightarrow> undefined)"

text \<open>\<open>join_next\<close> yields every task once; the exchange of a client does not panic.\<close>

definition pool_world_ok :: "(('n, 'e) message, 'x) pool_world \<Rightarrow> bool" where
  "pool_world_ok W \<longleftrightarrow> (\<forall>ms. set (pw_order W ms) = set ms) \<and> (\<forall>as. set (pw_probe_order W as) = set as)
     \<and> (\<forall>m. pw_outcome W m \<noteq> Crashed)"

lemma try_in_order_result:
  assumes "\<forall>m. pw_outcome W m \<noteq> Crashed"
  shows "(\<exists>pre m post. ms = pre @ m # post \<and> (\<forall>x \<in> set pre. \<not> good W x) \<and> good W m
      \<and> try_in_order W ms e st = (Ok (reply_of W m, m), foldl (record_outcome W) st (pre @ [m])))
    \<or> (\<forall>x \<in> set ms. \<not> good W x) \<and> (\<exists>e'. try_in_order W ms e st = (Err e', foldl (record_outcome W) st ms))"
proof (induction ms arbitrary: e st)
  case (Cons m ms)
  show ?case
  proof (cases "good W m")
    case True
    then have "try_in_order W (m # ms) e st = (Ok (reply_of W m, m), foldl (record_outcome W) st ([] @ [m]))"
      by (auto simp: good_def reply_of_def)
    then show ?thesis using True by (intro disjI1 exI [of _ "[]"] exI [of _ m] exI [of _ ms]) auto
  next
    case False
    then obtain e' where e': "try_in_order W (m # ms) e st = try_in_order W ms (Some e') (record_outcome W st m)"
      using assms by (cases "pw_outcome W m") (auto simp: good_def)
    from Cons [of "Some e'" "record_outcome W st m"] show ?thesis
    proof (elim disjE exE conjE)
      fix pre m' post
      assume "ms = pre @ m' # post" "\<forall>x \<in> set pre. \<not> good W x" "good W m'"
        "try_in_order W ms (Some e') (record_outcome W st m)
          = (Ok (reply_of W m', m'), foldl (record_outcome W) (record_outcome W st m) (pre @ [m']))"
      then show ?thesis using False e' by (intro disjI1 exI [of _ "m # pre"] exI [of _ m'] exI [of _ post]) auto
    qed (use False e' in auto)
  qed
qed simp

lemma join_first_result:
  "(\<exists>pre m post. ms = pre @ m # post \<and> (\<forall>x \<in> set pre. \<not> good W x) \<and> good W m
      \<and> join_first W ms e st = (Ok (reply_of W m, m), foldl (record_outcome W) st (pre @ m # filter (pw_late W) post)))
    \<or> (\<forall>x \<in> set ms. \<not> good W x) \<and> (\<exists>e'. join_first W ms e st = (Err e', foldl (record_outcome W) st ms))"
proof (induction ms arbitrary: e st)
  case (Cons m ms)
  show ?case
  proof (cases "good W m")
    case True
    then have "join_first W (m # ms) e st = (Ok (reply_of W m, m), foldl (record_outcome W) st ([] @ m # filter (pw_late W) ms))"
      by (auto simp: good_def reply_of_def)
    then show ?thesis using True by (intro disjI1 exI [of _ "[]"] exI [of _ m] exI [of _ ms]) auto
  next
    case False
    then obtain e' where e': "join_first W (m # ms) e st = join_first W ms (Some e') (record_outcome W st m)"
      by (cases "pw_outcome W m") (auto simp: good_def Let_def)
    from Cons [of "Some e'" "record_outcome W st m"] show ?thesis
    proof (elim disjE exE conjE)
      fix pre m' post
      assume "ms = pre @ m' # post" "\<forall>x \<in> set pre. \<not> good W x" "good W m'"
        "join_first W ms (Some e') (record_outcome W st m)
          = (Ok (reply_of W m', m'), foldl (record_outcome W) (record_outcome W st m) (pre @ m' # filter (pw_late W) post))"
      then show ?thesis using False e' by (intro disjI1 exI [of _ "m # pre"] exI [of _ m'] exI [of _ post]) auto
    qed (use False e' in auto)
  qed
qed simp

lemma join_all_result:
  "\<exists>e'. join_all W ms rs e st =
     (rs @ map (\<lambda>m. (reply_of W m, m)) (filter (good W) ms), e', foldl (record_outcome W) st ms)"
proof (induction ms arbitrary: rs e st)
  case (Cons m ms)
  show ?case
  proof (cases "good W m")
    case True
    then have "join_all W (m # ms) rs e st = join_all W ms (rs @ [(reply_of W m, m)]) e (record_outcome W st m)"
      by (auto simp: good_def reply_of_def)
    then show ?thesis using Cons [of "rs @ [(reply_of W m, m)]" e "record_outcome W st m"] True by simp
  next
    case False
    then obtain e' where "join_all W (m # ms) rs e st = join_all W ms rs e' (record_outcome W st m)"
      by (cases "pw_outcome W m") (auto simp: good_def Let_def)
    then show ?thesis using Cons [of rs e' "record_outcome W st m"] False by simp
  qed
qed simp

text \<open>What the first three modes have in common: an answer exactly when a member gives one.\<close>

definition answers_from ::
  "(('n, 'e) message, 'x) pool_world \<Rightarrow> nat list \<Rightarrow> (('n, 'e) message \<Rightarrow> nat \<Rightarrow> bool)
     \<Rightarrow> (('n, 'e) message \<times> nat, 'x exchange_error) rust_result \<Rightarrow> bool" where
  "answers_from W ms P r \<longleftrightarrow>
     (\<exists>resp m. r = Ok (resp, m) \<and> m \<in> set ms \<and> good W m \<and> P resp m)
     \<or> (\<exists>e. r = Err e) \<and> (\<forall>m \<in> set ms. \<not> good W m)"

lemma load_balance_answers:
  "pool_world_ok W \<Longrightarrow> answers_from W ms (\<lambda>resp m. resp = reply_of W m) (fst (exchange_load_balance W ms st))"
  using try_in_order_result [of W "sort_key (\<lambda>m. member_score (st ! m)) ms" None st]
  by (auto simp: pool_world_ok_def exchange_load_balance_def answers_from_def)
     (metis in_set_conv_decomp set_sort)+

lemma parallel_answers:
  "pool_world_ok W \<Longrightarrow> answers_from W ms (\<lambda>resp m. resp = reply_of W m) (fst (exchange_parallel W ms st))"
  using join_first_result [of "pw_order W ms" W None st]
  by (auto simp: pool_world_ok_def exchange_parallel_def answers_from_def) (metis in_set_conv_decomp)+


lemma fastest_member: "set (pw_probe_order W as) = set as \<Longrightarrow> fastest_of W as = Some best \<Longrightarrow> best \<in> set as"
proof -
  let ?f = "\<lambda>best ip. if list_ex (pw_connect W ip) PROBE_PORTS
       then (case best of None \<Rightarrow> Some (pw_probe_time W ip, ip)
             | Some (bd, _) \<Rightarrow> if pw_probe_time W ip < bd then Some (pw_probe_time W ip, ip) else best) else best"
  have "foldl ?f None xs = Some (t, a) \<Longrightarrow> a \<in> set xs" for xs t a
    by (induction xs arbitrary: t a rule: rev_induct) (auto split: if_splits option.splits)
  then show "set (pw_probe_order W as) = set as \<Longrightarrow> fastest_of W as = Some best \<Longrightarrow> best \<in> set as"
    by (force simp: fastest_of_def)
qed

definition offers :: "(('n, 'e) message, 'x) pool_world \<Rightarrow> nat list \<Rightarrow> ip_addr \<Rightarrow> bool" where
  "offers W ms a \<longleftrightarrow> (\<exists>m \<in> set ms. good W m \<and> (\<exists>rec \<in> set (answers (reply_of W m)). a \<in> set (rdata_addr (rr_data rec))))"

definition synthesized ::
  "('n, 'e) hickory \<Rightarrow> (('n, 'e) message, 'x) pool_world \<Rightarrow> ('n, 'e) message \<Rightarrow> nat list \<Rightarrow> ('n, 'e) message \<Rightarrow> bool" where
  "synthesized H W req ms resp \<longleftrightarrow> (\<exists>a ttl. offers W ms a \<and> resp = with_addrs H req [a] ttl)"

definition fastest_reply ::
  "('n, 'e) hickory \<Rightarrow> (('n, 'e) message, 'x) pool_world \<Rightarrow> ('n, 'e) message \<Rightarrow> nat list \<Rightarrow> ('n, 'e) message \<Rightarrow> nat \<Rightarrow> bool" where
  "fastest_reply H W req ms resp m \<longleftrightarrow>
     resp = reply_of W m \<or> synthesized H W req ms resp"

lemma fastest_answers:
  assumes "pool_world_ok W"
  shows "answers_from W ms (fastest_reply H W req ms) (fst (exchange_fastest_addr H W req ms st))"
proof -
  have o: "set (pw_order W ms) = set ms" "\<And>as. set (pw_probe_order W as) = set as" using assms by (simp_all add: pool_world_ok_def)
  let ?g = "filter (good W) (pw_order W ms)"
  obtain e where j: "join_all W (pw_order W ms) [] None st
    = (map (\<lambda>m. (reply_of W m, m)) ?g, e, foldl (record_outcome W) st (pw_order W ms))"
    using join_all_result [of W "pw_order W ms" "[]" None st] by auto
  show ?thesis
  proof (cases ?g)
    case Nil
    then have "\<forall>m \<in> set ms. \<not> good W m" using o(1) by (metis filter_empty_conv)
    then show ?thesis using j Nil by (simp add: exchange_fastest_addr_def answers_from_def)
  next
    case (Cons m rest)
    have "m \<in> set ?g" by (simp only: Cons list.set_intros)
    then have m: "m \<in> set ms" "good W m" using o(1) by simp_all
    let ?as = "offered_addrs (map (\<lambda>m. (reply_of W m, m)) ?g)"
    have off: "offers W ms a" if "a \<in> set ?as" for a
      using that o(1) by (force simp: offered_addrs_def offers_def)
    have best: "offers W ms b" if "fastest_of W ?as = Some b" for b
      using fastest_member [OF o(2) that] off by blast
    show ?thesis
      using m best j Cons
      by (auto simp: exchange_fastest_addr_def answers_from_def fastest_reply_def synthesized_def Let_def split: option.splits)
  qed
qed

lemma pool_exchange_answers:
  assumes "pool_world_ok W" "pool_select p host \<noteq> []"
  shows "fst (pool_exchange H W p req host st) \<noteq> Panic
    \<and> ((\<exists>x. fst (pool_exchange H W p req host st) = Ok x)
        \<longleftrightarrow> (\<exists>m \<in> set (pool_select p host) \<union> set (pl_fallbacks p). good W m))
    \<and> (\<forall>resp m. fst (pool_exchange H W p req host st) = Ok (resp, m) \<longrightarrow> good W m
        \<and> (m \<in> set (pool_select p host) \<or> m \<in> set (pl_fallbacks p) \<and> (\<forall>x \<in> set (pool_select p host). \<not> good W x))
        \<and> (resp = reply_of W m \<or> pl_mode p = FastestAddr \<and> synthesized H W req (pool_select p host) resp))"
proof -
  let ?ms = "pool_select p host"
  define q where "q = (case pl_mode p of
              LoadBalance \<Rightarrow> exchange_load_balance W ?ms st
            | Parallel \<Rightarrow> exchange_parallel W ?ms st
            | FastestAddr \<Rightarrow> exchange_fastest_addr H W req ?ms st)"
  let ?P = "\<lambda>resp m. resp = reply_of W m \<or> pl_mode p = FastestAddr \<and> synthesized H W req ?ms resp"
  have a: "answers_from W ?ms ?P (fst q)"
    using load_balance_answers [OF assms(1), of ?ms st] parallel_answers [OF assms(1), of ?ms st]
      fastest_answers [OF assms(1), of ?ms H req st]
    unfolding q_def answers_from_def fastest_reply_def by (cases "pl_mode p") auto
  have f: "answers_from W (pl_fallbacks p) (\<lambda>resp m. resp = reply_of W m) (fst (exchange_parallel W (pl_fallbacks p) (snd q)))"
    by (rule parallel_answers [OF assms(1)])
  have e: "pool_exchange H W p req host st = (case fst q of
      Err e \<Rightarrow> if pl_fallbacks p \<noteq> [] then (case exchange_parallel W (pl_fallbacks p) (snd q) of (Err _, st) \<Rightarrow> (Err e, st) | won \<Rightarrow> won)
               else (Err e, snd q)
    | r \<Rightarrow> (r, snd q))"
    using assms(2) by (simp add: pool_exchange_def q_def [symmetric] Let_def case_prod_unfold)
  show ?thesis
    using a f unfolding e answers_from_def
    by (cases "exchange_parallel W (pl_fallbacks p) (snd q)") (auto split: rust_result.splits)
qed

text \<open>
  C6.  In every mode and under every scheduling of the tasks the exchange returns, without a panic, and
  a query is answered exactly when the name has an upstream at all and one of the selected upstreams or
  a fallback gives an answer that is not a failure; with no upstream selected it is refused and no
  fallback is asked.  A fallback answers only when no selected upstream does.  The answer is the one of
  the upstream it is attributed to or, in the fastest-address mode, one made from an address that a
  selected upstream offered.
\<close>

theorem pool_answers:
  assumes "pool_world_ok W"
  shows "fst (pool_exchange H W p req host st) \<noteq> Panic
    \<and> ((\<exists>x. fst (pool_exchange H W p req host st) = Ok x)
        \<longleftrightarrow> pool_select p host \<noteq> [] \<and> (\<exists>m \<in> set (pool_select p host) \<union> set (pl_fallbacks p). good W m))
    \<and> (pool_select p host = [] \<longrightarrow> pool_exchange H W p req host st = (Err NoUpstreams, st))
    \<and> (\<forall>resp m. fst (pool_exchange H W p req host st) = Ok (resp, m) \<longrightarrow> good W m
        \<and> (m \<in> set (pool_select p host) \<or> m \<in> set (pl_fallbacks p) \<and> (\<forall>x \<in> set (pool_select p host). \<not> good W x))
        \<and> (resp = reply_of W m \<or> pl_mode p = FastestAddr \<and> synthesized H W req (pool_select p host) resp))"
proof (cases "pool_select p host = []")
  case True
  then show ?thesis by (simp add: pool_exchange_def)
next
  case False
  from pool_exchange_answers [OF assms this, of H req st] False show ?thesis by blast
qed

section \<open>Load balancing\<close>

lemma record_outcome_other: "x \<notin> set ms \<Longrightarrow> foldl (record_outcome W) st ms ! x = st ! x"
  by (induction ms arbitrary: st) (auto simp: record_outcome_def split: outcome.splits)

lemma load_balance_ranked:
  assumes "pool_world_ok W" "distinct ms" "exchange_load_balance W ms st = (Ok (resp, m), st')"
  shows "\<forall>x \<in> set ms. member_score (st ! x) < member_score (st ! m) \<longrightarrow> \<not> good W x"
    and "\<forall>x \<in> set ms. member_score (st ! m) < member_score (st ! x) \<longrightarrow> st' ! x = st ! x"
proof -
  let ?o = "sort_key (\<lambda>m. member_score (st ! m)) ms"
  obtain pre post where o: "?o = pre @ m # post" "\<forall>x \<in> set pre. \<not> good W x" "st' = foldl (record_outcome W) st (pre @ [m])"
    using try_in_order_result [of W ?o None st] assms by (auto simp: pool_world_ok_def exchange_load_balance_def)
  have "sorted (map (\<lambda>m. member_score (st ! m)) (pre @ m # post))" using o(1) sorted_sort_key by metis
  then have s: "\<forall>x \<in> set pre. member_score (st ! x) \<le> member_score (st ! m)" "\<forall>x \<in> set post. member_score (st ! m) \<le> member_score (st ! x)"
    by (auto simp: sorted_append)
  have ms: "set ms = set pre \<union> {m} \<union> set post" using o(1) by (metis Un_insert_left Un_insert_right list.simps(15) set_append set_sort sup_bot.right_neutral sup_commute insert_is_Un Un_assoc)
  show "\<forall>x \<in> set ms. member_score (st ! x) < member_score (st ! m) \<longrightarrow> \<not> good W x"
    using o(2) s(2) unfolding ms by (auto dest: leD)
  show "\<forall>x \<in> set ms. member_score (st ! m) < member_score (st ! x) \<longrightarrow> st' ! x = st ! x"
  proof (intro ballI impI)
    fix x assume "x \<in> set ms" "member_score (st ! m) < member_score (st ! x)"
    then have "x \<notin> set (pre @ [m])" using s(1) by auto
    then show "st' ! x = st ! x" unfolding o(3) by (rule record_outcome_other)
  qed
qed

section \<open>Round-trip times\<close>

text \<open>The smoothed time never overflows and stays between the old one and the new sample.\<close>

lemma ewma_between: "min p s \<le> p - p div 4 + s div 4 \<and> p - p div 4 + s div 4 \<le> max p s" for p s :: nat
proof (cases "p \<le> s")
  case True
  then have "p - p div 4 + s div 4 \<le> s" "p \<le> p - p div 4 + s div 4" by linarith+
  then show ?thesis using True by simp
next
  case False
  then have "p - p div 4 + s div 4 \<le> p" "s \<le> p - p div 4 + s div 4" by linarith+
  then show ?thesis using False by simp
qed

lemma member_success_between:
  fixes m :: "'c member"
  defines "prev \<equiv> unat (mb_rtt_ewma_us m)"
  shows "min prev (min (rtt div 1000) (2 ^ 64 - 1)) \<le> unat (mb_rtt_ewma_us (member_success rtt m))
    \<and> unat (mb_rtt_ewma_us (member_success rtt m)) \<le> max 1 (max prev (min (rtt div 1000) (2 ^ 64 - 1)))"
proof -
  let ?s = "min (rtt div 1000) (2 ^ 64 - 1)" and ?p = "mb_rtt_ewma_us m"
  let ?w = "of_nat ?s :: u64"
  have s: "unat ?w = ?s" by (rule unat_of_nat_small) (simp add: min_def)
  have p: "prev < 2 ^ 64" unfolding prev_def using unsigned_less [of ?p, where 'a = nat] by simp
  have sub: "unat (?p - ?p div 4) = prev - prev div 4"
    by (subst unat_sub) (simp_all add: prev_def unat_div word_le_nat_alt)
  have bound: "prev - prev div 4 + ?s div 4 < 2 ^ 64" using p by (simp add: min_def) linarith
  have "unat (?p - ?p div 4 + ?w div 4) = prev - prev div 4 + ?s div 4"
    using bound sub s by (subst unat_add_lem [THEN iffD1]) (simp_all add: unat_div)
  then have v: "unat (mb_rtt_ewma_us (member_success rtt m)) = max (prev - prev div 4 + ?s div 4) 1"
    by (simp add: member_success_def Let_def max_def word_le_nat_alt)
  have "l \<le> a \<and> a \<le> u \<Longrightarrow> v = max a 1 \<Longrightarrow> l \<le> v \<and> v \<le> max 1 u" for l a u v :: nat by auto
  from this [OF ewma_between v] show ?thesis .
qed

section \<open>Witnesses\<close>

definition sample_pool :: pool where
  "sample_pool = \<lparr>pl_defaults = [0], pl_groups = [\<lparr>pg_domains = [''lan''], pg_members = [1]\<rparr>, \<lparr>pg_domains = [''a.lan'', []], pg_members = [2]\<rparr>],
     pl_fallbacks = [3], pl_mode = LoadBalance, pl_timeout = 0, pl_fastest_timeout = 0\<rparr>"

theorem pool_select_most_specific_witness: "pool_select sample_pool ''x.a.lan'' = [2]"
proof -
  have "pool_select sample_pool ''x.a.lan'' = (if [2 :: nat] = [] then pl_defaults sample_pool else [2])"
    using conjunct2 [OF pool_select_most_specific [of sample_pool "''x.a.lan''"], rule_format,
        of "[\<lparr>pg_domains = [''lan''], pg_members = [1]\<rparr>]" "\<lparr>pg_domains = [''a.lan'', []], pg_members = [2]\<rparr>" "[]" "''a.lan''"]
    by (simp add: sample_pool_def group_hit_def domain_hit_def is_subdomain_of_iff)
  then show ?thesis by simp
qed


definition sample_pool_world :: "((str, bool \<times> u16 \<times> (ip_addr \<times> u8) option) message, str) pool_world" where
  "sample_pool_world = \<lparr>pw_outcome = (\<lambda>m. if m = 3 then Answered (sample_response TA [RA 1]) 5000 else Errored ''refused''),
     pw_order = rev, pw_late = (\<lambda>_. False), pw_connect = (\<lambda>_ _. False), pw_probe_time = (\<lambda>_. 0), pw_probe_order = rev\<rparr>"

theorem pool_answers_witness:
  "\<exists>x. fst (pool_exchange sample_hickory sample_pool_world sample_pool (sample_query TA) ''b.com'' (replicate 4 (member_new ''c''))) = Ok x"
proof -
  have w: "pool_world_ok sample_pool_world" by (simp add: pool_world_ok_def sample_pool_world_def)
  have "pool_select sample_pool ''b.com'' = [0]" by code_simp
  then have s: "pool_select sample_pool ''b.com'' \<noteq> []" by simp
  have "is_failure (sample_response TA [RA 1]) = False" by code_simp
  then have "good sample_pool_world 3" by (simp add: good_def sample_pool_world_def)
  moreover have "3 \<in> set (pl_fallbacks sample_pool)" by (simp add: sample_pool_def)
  ultimately show ?thesis
    using s pool_answers [OF w, of sample_hickory sample_pool "sample_query TA" "''b.com''" "replicate 4 (member_new ''c'')"] by blast
qed

end
