(* ===== verification/Gob.thy ===== *)
theory Gob
  imports Utf8 Rust_Result
begin

text \<open>
  The gob codec of the statistics database: \<open>crates/sift-gob/src/codec.rs\<close> and \<open>unit.rs\<close>.

  A \<open>put_\<close> function returns the bytes its Rust counterpart appends.  A \<open>get_\<close> function takes the
  bytes left and returns the value with the bytes after it, as the advancing slice does.  An \<open>i64\<close>
  is a 64-bit word read with \<open>sint\<close>; index arithmetic wraps as it does in the release build.
\<close>

section \<open>Results\<close>

text \<open>
  The formatted messages of \<open>Invalid\<close> and \<open>Unsupported\<close> are kept as the data they format.
  \<open>Panic\<close> is the capacity overflow of \<open>Vec::with_capacity\<close>.
\<close>

datatype gob_invalid =
    BadLengthByte u8
  | NotUtf8
  | WrongDelta u64 u64
  | NotTerminated u64
  | UnknownFieldType u64
  | NotStruct u64
  | PastFields u64
  | UnknownPairField u64

datatype gob_unsupported = WireVariant u64 | UnknownUnitField str

datatype gob_error = Truncated | Invalid gob_invalid | Unsupported gob_unsupported

type_synonym 'a gob_result = "('a, gob_error) rust_result"

section \<open>Integers\<close>

definition to_be_bytes :: "u64 \<Rightarrow> u8 list" where
  "to_be_bytes v = map (\<lambda>i. ucast (drop_bit (8 * i) v)) (rev [0..<8])"

definition put_uint :: "u64 \<Rightarrow> u8 list" where
  "put_uint v =
     (if v < 0x80 then [ucast v]
      else let bytes = to_be_bytes v;
               first = (case position (\<lambda>b. b \<noteq> 0) bytes of Some i \<Rightarrow> i | None \<Rightarrow> 7);
               used = drop first bytes
           in (0 - of_nat (length used)) # used)"

definition put_int :: "u64 \<Rightarrow> u8 list" where
  "put_int v = put_uint (if sint v < 0 then push_bit 1 (NOT v) OR 1 else push_bit 1 v)"

definition put_string :: "str \<Rightarrow> u8 list" where
  "put_string s = put_uint (of_nat (length (as_bytes s))) @ as_bytes s"

definition be_word :: "u8 list \<Rightarrow> u64" where
  "be_word bs = foldl (\<lambda>v byte. push_bit 8 v OR ucast byte) 0 bs"

definition get_uint :: "u8 list \<Rightarrow> (u64 \<times> u8 list) gob_result" where
  "get_uint b =
     (case b of
        [] \<Rightarrow> Err Truncated
      | first # b \<Rightarrow>
          if first < 0x80 then Ok (ucast first, b)
          else let n = unat (0 - first) in
               if n = 0 \<or> n > 8 then Err (Invalid (BadLengthByte first))
               else if length b < n then Err Truncated
               else Ok (be_word (take n b), drop n b))"

definition get_int :: "u8 list \<Rightarrow> (u64 \<times> u8 list) gob_result" where
  "get_int b = and_then (get_uint b) (\<lambda>(u, b).
     Ok (if u AND 1 \<noteq> 0 then NOT (drop_bit 1 u) else drop_bit 1 u, b))"

definition get_string :: "u8 list \<Rightarrow> (str \<times> u8 list) gob_result" where
  "get_string b = and_then (get_uint b) (\<lambda>(n, b).
     let n = unat n in
     if length b < n then Err Truncated
     else (case from_utf8 (take n b) of
             None \<Rightarrow> Err (Invalid NotUtf8)
           | Some s \<Rightarrow> Ok (s, drop n b)))"

definition skip_bytes :: "u8 list \<Rightarrow> u8 list gob_result" where
  "skip_bytes b = and_then (get_uint b) (\<lambda>(n, b).
     if length b < unat n then Err Truncated else Ok (drop (unat n) b))"

definition frame :: "u8 list \<Rightarrow> u8 list" where
  "frame payload = put_uint (of_nat (length payload)) @ payload"

definition unframe :: "u8 list \<Rightarrow> (u8 list \<times> u8 list) gob_result" where
  "unframe b = and_then (get_uint b) (\<lambda>(n, b).
     if length b < unat n then Err Truncated else Ok (take (unat n) b, drop (unat n) b))"

section \<open>Integers and strings read back\<close>

lemma be_word_drop:
  assumes "n \<le> 8"
  shows "be_word (map (\<lambda>i. ucast (drop_bit (8 * i) v)) (rev [n..<8])) = drop_bit (8 * n) v"
  using assms
proof (induction rule: inc_induct)
  case base
  show ?case by (simp add: be_word_def)
next
  case (step n)
  have e: "rev [n..<8] = rev [Suc n..<8] @ [n]" using step.hyps by (simp add: upt_conv_Cons)
  have "push_bit 8 (drop_bit (8 * Suc n) v) OR ucast (ucast (drop_bit (8 * n) v) :: u8) = drop_bit (8 * n) v"
    by (rule bit_word_eqI) (auto simp: bit_simps algebra_simps)
  then show ?case using step.IH by (simp add: e be_word_def del: upt_Suc)
qed

lemma be_word_to_be_bytes: "be_word (to_be_bytes v) = v"
  using be_word_drop [of 0 v] by (simp add: to_be_bytes_def del: upt_Suc)

lemma be_word_zeros: "be_word (replicate k 0 @ bs) = be_word bs"
  by (induction k) (simp_all add: be_word_def)

lemma be_word_drop_zeros:
  assumes "\<forall>j < i. bs ! j = 0" "i \<le> length bs"
  shows "be_word (drop i bs) = be_word bs"
proof -
  have "take i bs = replicate i 0" using assms by (auto intro!: nth_equalityI)
  then have "bs = replicate i 0 @ drop i bs" by (metis append_take_drop_id)
  then show ?thesis by (metis be_word_zeros)
qed

lemma length_to_be_bytes [simp]: "length (to_be_bytes v) = 8"
  by (simp add: to_be_bytes_def)

lemma first_used:
  assumes "\<not> v < 0x80"
  obtains i where "position (\<lambda>b. b \<noteq> 0) (to_be_bytes v) = Some i" "i < 8"
    "be_word (drop i (to_be_bytes v)) = v"
proof (cases "position (\<lambda>b. b \<noteq> 0) (to_be_bytes v)")
  case None
  then have "to_be_bytes v = replicate 8 0"
    by (auto simp: position_None intro!: nth_equalityI)
  then have "be_word (to_be_bytes v) = 0" using be_word_zeros [of 8 "[]"] by (simp add: be_word_def)
  then show ?thesis using assms by (simp add: be_word_to_be_bytes)
next
  case (Some i)
  then have "i < 8" "\<forall>j < i. to_be_bytes v ! j = 0" by (auto simp: position_Some)
  then show ?thesis using Some that [of i] by (simp add: be_word_drop_zeros be_word_to_be_bytes)
qed

lemma length_byte:
  assumes "1 \<le> n" "n \<le> 8"
  shows "\<not> (0 - of_nat n :: u8) < 0x80" "unat (0 - (0 - of_nat n :: u8)) = n"
proof -
  have "n \<in> {1, 2, 3, 4, 5, 6, 7, 8}" using assms by auto
  then show "\<not> (0 - of_nat n :: u8) < 0x80" "unat (0 - (0 - of_nat n :: u8)) = n" by auto
qed

lemma get_long:
  assumes "1 \<le> length used" "length used \<le> 8"
  shows "get_uint ((0 - of_nat (length used)) # used @ rest) = Ok (be_word used, rest)"
  using assms(1) length_byte [OF assms]
  by (simp only: get_uint_def list.case Let_def) (use assms in auto)

lemma get_put_uint: "get_uint (put_uint v @ rest) = Ok (v, rest)"
proof (cases "v < 0x80")
  case True
  then have v: "unat v < 128" by (simp add: word_less_nat_alt)
  then have "take_bit 8 (unat v) = unat v" by (intro take_bit_nat_eq_self) simp
  then have u: "unat (ucast v :: u8) = unat v" "unat (take_bit 8 v) = unat v"
    by (simp add: unsigned_ucast_eq) (use \<open>take_bit 8 (unat v) = unat v\<close> in \<open>simp only: unsigned_take_bit_eq\<close>)
  then have "(ucast v :: u8) < 0x80" using v by (simp add: word_less_nat_alt)
  moreover have "ucast (ucast v :: u8) = v"
    by (rule word_unat_eq_iff [THEN iffD2]) (use u(2) in \<open>simp add: unsigned_ucast_eq\<close>)
  ultimately show ?thesis using True by (simp add: put_uint_def get_uint_def)
next
  case False
  then obtain i where i: "position (\<lambda>b. b \<noteq> 0) (to_be_bytes v) = Some i" "i < 8"
    "be_word (drop i (to_be_bytes v)) = v" by (rule first_used)
  then have "put_uint v = (0 - of_nat (length (drop i (to_be_bytes v)))) # drop i (to_be_bytes v)"
    using False by (simp add: put_uint_def Let_def)
  then show ?thesis using i get_long [of "drop i (to_be_bytes v)" rest] by simp
qed

lemma sign_bit: "sint v < 0 \<longleftrightarrow> bit v 63" for v :: u64
  using bit_last_iff [of v] by simp

lemma top_bit: "n < 64 \<Longrightarrow> n = 63 \<or> n < 63" for n :: nat
  by auto

lemma get_put_int: "get_int (put_int v @ rest) = Ok (v, rest)"
proof (cases "bit v 63")
  case True
  have "NOT (drop_bit 1 (push_bit 1 (NOT v) OR 1)) = v"
    by (rule bit_word_eqI) (use True in \<open>auto dest!: top_bit simp: bit_simps simp del: push_bit_Suc drop_bit_Suc One_nat_def\<close>)
  moreover have "(push_bit 1 (NOT v) OR 1) AND 1 = 1"
    by (rule bit_word_eqI) (auto simp: bit_simps simp del: push_bit_Suc One_nat_def)
  moreover have "sint v < 0" using True by (simp add: sign_bit)
  ultimately show ?thesis by (simp add: put_int_def get_int_def get_put_uint)
next
  case False
  have "drop_bit 1 (push_bit 1 v) = v"
    by (rule bit_word_eqI) (use False in \<open>auto dest!: top_bit simp: bit_simps simp del: push_bit_Suc drop_bit_Suc One_nat_def\<close>)
  moreover have "push_bit 1 v AND 1 = 0"
    by (rule bit_word_eqI) (auto simp: bit_simps simp del: push_bit_Suc One_nat_def)
  moreover have "\<not> sint v < 0" using False by (simp add: sign_bit)
  ultimately show ?thesis by (simp add: put_int_def get_int_def get_put_uint)
qed

lemma get_put_string:
  assumes "valid_str s" "length s < 2 ^ 64"
  shows "get_string (put_string s @ rest) = Ok (s, rest)"
  using assms by (simp add: put_string_def get_string_def get_put_uint unat_of_nat_small from_utf8_as_bytes)

lemma unframe_frame:
  assumes "length p < 2 ^ 64"
  shows "unframe (frame p @ rest) = Ok (p, rest)"
  using assms by (simp add: frame_def unframe_def get_put_uint unat_of_nat_small)

lemma get_uint_shrinks: "get_uint b = Ok (v, b') \<Longrightarrow> length b' < length b"
  by (auto simp: get_uint_def Let_def split: list.splits if_splits)

lemma get_string_reads: "get_string b = Ok (s, b') \<Longrightarrow> valid_str s \<and> length s + length b' < length b"
  by (auto simp: get_string_def and_then_Ok Let_def dest!: get_uint_shrinks from_utf8_valid split: if_splits option.splits)

lemma get_int_shrinks: "get_int b = Ok (v, b') \<Longrightarrow> length b' < length b"
  by (auto simp: get_int_def and_then_Ok dest!: get_uint_shrinks)

lemma get_no_panic [simp]: "get_uint b \<noteq> Panic" "get_int b \<noteq> Panic" "get_string b \<noteq> Panic"
  by (auto simp: get_uint_def get_int_def get_string_def and_then_Panic Let_def split: list.splits if_splits option.splits)

section \<open>Repeated reads\<close>

text \<open>\<open>for _ in 0..n { v.push(get(b)?) }\<close>.\<close>

fun get_many :: "(u8 list \<Rightarrow> ('a \<times> u8 list) gob_result) \<Rightarrow> nat \<Rightarrow> u8 list \<Rightarrow> ('a list \<times> u8 list) gob_result" where
  "get_many get n b =
     (if n = 0 then Ok ([], b)
      else and_then (get b) (\<lambda>(x, b). and_then (get_many get (n - 1) b) (\<lambda>(xs, b). Ok (x # xs, b))))"

declare get_many.simps [simp del]

text \<open>A reader consumes at least one byte, yields only good values and never panics.\<close>

locale reader =
  fixes get :: "u8 list \<Rightarrow> ('a \<times> u8 list) gob_result" and good :: "'a \<Rightarrow> bool"
  assumes reads: "get b = Ok (x, b') \<Longrightarrow> good x \<and> length b' < length b"
    and calm: "get b \<noteq> Panic"
begin

lemma many_reads: "get_many get n b = Ok (xs, b') \<Longrightarrow> list_all good xs \<and> length xs = n \<and> length xs + length b' \<le> length b"
proof (induction n arbitrary: b xs)
  case (Suc n)
  then obtain x b1 ys where "get b = Ok (x, b1)" "get_many get n b1 = Ok (ys, b')" "xs = x # ys"
    by (subst (asm) get_many.simps) (auto simp: and_then_Ok)
  then show ?case using Suc.IH [of b1 ys] reads [of b x b1] by auto
qed (simp add: get_many.simps)

lemma many_calm: "get_many get n b \<noteq> Panic"
proof (induction n arbitrary: b)
  case (Suc n)
  then show ?case by (subst get_many.simps) (auto simp: and_then_Panic calm)
qed (simp add: get_many.simps)

end

text \<open>A codec reads back what it wrote, whatever follows.\<close>

locale codec =
  fixes put :: "'a \<Rightarrow> u8 list" and get :: "u8 list \<Rightarrow> ('a \<times> u8 list) gob_result" and ok :: "'a \<Rightarrow> bool"
  assumes get_put: "ok x \<Longrightarrow> get (put x @ rest) = Ok (x, rest)"
begin

lemma many_put: "list_all ok xs \<Longrightarrow> get_many get (length xs) (concat (map put xs) @ rest) = Ok (xs, rest)"
  by (induction xs) (simp_all add: get_many.simps get_put)

end

interpretation uint_reader: reader get_uint "\<lambda>_. True"
  by unfold_locales (auto dest: get_uint_shrinks)

interpretation uint_codec: codec put_uint get_uint "\<lambda>_. True"
  by unfold_locales (rule get_put_uint)

interpretation int_codec: codec put_int get_int "\<lambda>_. True"
  by unfold_locales (rule get_put_int)

definition fits_str :: "str \<Rightarrow> bool" where
  "fits_str s \<longleftrightarrow> valid_str s \<and> length s < 2 ^ 64"

interpretation string_reader: reader get_string valid_str
  by unfold_locales (auto dest: get_string_reads)

interpretation string_codec: codec put_string get_string fits_str
  by unfold_locales (simp add: fits_str_def get_put_string)

section \<open>Units\<close>

definition T_STRING :: u64 where "T_STRING = 6"
definition T_UINT :: u64 where "T_UINT = 3"
definition FIRST_USER_ID :: u64 where "FIRST_USER_ID = 64"
definition ID_UNIT :: u64 where "ID_UNIT = 64"
definition ID_UINT_SLICE :: u64 where "ID_UINT_SLICE = 65"
definition ID_PAIR_SLICE :: u64 where "ID_PAIR_SLICE = 66"
definition ID_PAIR :: u64 where "ID_PAIR = 67"

record count_pair =
  cp_name :: str
  cp_count :: u64

record unit_db =
  ud_n_result :: "u64 list"
  ud_domains :: "count_pair list"
  ud_blocked_domains :: "count_pair list"
  ud_clients :: "count_pair list"
  ud_upstreams_responses :: "count_pair list"
  ud_upstreams_time_sum :: "count_pair list"
  ud_n_total :: u64
  ud_time_avg :: u32

definition unit_db_default :: unit_db where
  "unit_db_default = \<lparr>ud_n_result = [], ud_domains = [], ud_blocked_domains = [], ud_clients = [],
     ud_upstreams_responses = [], ud_upstreams_time_sum = [], ud_n_total = 0, ud_time_avg = 0\<rparr>"

definition FIELDS :: "str list" where
  "FIELDS = [''NResult'', ''Domains'', ''BlockedDomains'', ''Clients'', ''UpstreamsResponses'',
     ''UpstreamsTimeSum'', ''NTotal'', ''TimeAvg'']"

subsection \<open>Encoding\<close>

definition put_common :: "str \<Rightarrow> u64 \<Rightarrow> u8 list" where
  "put_common name tid = put_uint 1 @ put_string name @ put_uint 1 @ put_int tid @ put_uint 0"

definition put_field :: "str \<times> u64 \<Rightarrow> u8 list" where
  "put_field = (\<lambda>(name, tid). put_uint 1 @ put_string name @ put_uint 1 @ put_int tid @ put_uint 0)"

definition field_id :: "nat \<Rightarrow> u64" where
  "field_id i = (if i = 0 then ID_UINT_SLICE else if i \<le> 5 then ID_PAIR_SLICE else T_UINT)"

definition struct_def :: "u64 \<Rightarrow> str \<Rightarrow> (str \<times> u64) list \<Rightarrow> u8 list" where
  "struct_def tid name fs =
     put_int (- tid) @ put_uint 3 @ put_uint 1 @ put_common name tid @ put_uint 1
       @ put_uint (of_nat (length fs)) @ concat (map put_field fs) @ put_uint 0 @ put_uint 0"

definition slice_def :: "u64 \<Rightarrow> str \<Rightarrow> u64 \<Rightarrow> u8 list" where
  "slice_def tid name elem = frame (put_int (- tid) @ put_uint 2 @ put_uint 1 @ put_common name tid
     @ put_uint 1 @ put_int elem @ put_uint 0 @ put_uint 0)"

definition type_defs :: "u8 list" where
  "type_defs =
     frame (struct_def ID_UNIT ''unitDB'' (map (\<lambda>(i, name). (name, field_id i)) (enumerate 0 FIELDS)))
     @ slice_def ID_UINT_SLICE ''[]uint64'' T_UINT
     @ slice_def ID_PAIR_SLICE ''[]stats.countPair'' ID_PAIR
     @ frame (struct_def ID_PAIR ''countPair'' [(''Name'', T_STRING), (''Count'', T_UINT)])"

definition put_pair :: "count_pair \<Rightarrow> u8 list" where
  "put_pair p =
     (let prev = (if cp_name p \<noteq> [] then 1 else 0) in
      (if cp_name p \<noteq> [] then put_uint 1 @ put_string (cp_name p) else [])
      @ (if cp_count p \<noteq> 0 then put_uint (2 - prev) @ put_uint (cp_count p) else [])
      @ put_uint 0)"

definition put_pairs :: "count_pair list \<Rightarrow> u8 list" where
  "put_pairs ps = put_uint (of_nat (length ps)) @ concat (map put_pair ps)"

text \<open>The closure \<open>field\<close>: each field sent is preceded by its distance from the last one.\<close>

fun put_fields :: "nat \<Rightarrow> (nat \<times> u8 list) list \<Rightarrow> u8 list" where
  "put_fields prev [] = []"
| "put_fields prev ((index, w) # fs) = put_uint (of_nat (index + 1 - prev)) @ w @ put_fields (index + 1) fs"

definition put_nonempty :: "nat \<times> count_pair list \<Rightarrow> (nat \<times> u8 list) list" where
  "put_nonempty = (\<lambda>(i, ps). if ps = [] then [] else [(i + 1, put_pairs ps)])"

definition sent_fields :: "unit_db \<Rightarrow> (nat \<times> u8 list) list" where
  "sent_fields u =
     (if ud_n_result u \<noteq> []
      then [(0, put_uint (of_nat (length (ud_n_result u))) @ concat (map put_uint (ud_n_result u)))] else [])
     @ concat (map put_nonempty (enumerate 0
         [ud_domains u, ud_blocked_domains u, ud_clients u, ud_upstreams_responses u, ud_upstreams_time_sum u]))
     @ (if ud_n_total u \<noteq> 0 then [(6, put_uint (ud_n_total u))] else [])
     @ (if ud_time_avg u \<noteq> 0 then [(7, put_uint (ucast (ud_time_avg u)))] else [])"

definition encode_unit_value :: "unit_db \<Rightarrow> u8 list" where
  "encode_unit_value u = put_int ID_UNIT @ put_fields 0 (sent_fields u) @ put_uint 0"

definition encode_unit :: "unit_db \<Rightarrow> u8 list" where
  "encode_unit u = type_defs @ frame (encode_unit_value u)"

subsection \<open>Decoding\<close>

datatype type_def = Slice | Struct "(str \<times> u64) list"

definition expect_delta :: "u8 list \<Rightarrow> u64 \<Rightarrow> u8 list gob_result" where
  "expect_delta b want = and_then (get_uint b) (\<lambda>(got, b).
     if got \<noteq> want then Err (Invalid (WrongDelta want got)) else Ok b)"

function skip_common :: "u8 list \<Rightarrow> u8 list gob_result" where
  "skip_common b = and_then (get_uint b) (\<lambda>(delta, b).
     if delta = 0 then Ok b
     else if delta = 1 \<and> b \<noteq> []
     then (case get_string b of
             Ok (_, b) \<Rightarrow> skip_common b
           | _ \<Rightarrow> and_then (get_int b) (\<lambda>(_, b). skip_common b))
     else and_then (get_int b) (\<lambda>(_, b). skip_common b))"
  by pat_completeness auto
termination
  by (relation "measure length") (auto dest!: get_uint_shrinks get_string_reads get_int_shrinks)

declare skip_common.simps [simp del]

definition skip_struct_end :: "u8 list \<Rightarrow> u8 list gob_result" where
  "skip_struct_end b = and_then (get_uint b) (\<lambda>(end', b).
     if end' \<noteq> 0 then Err (Invalid (NotTerminated end')) else Ok b)"

function parse_field_from :: "u64 \<Rightarrow> str \<times> u64 \<Rightarrow> u8 list \<Rightarrow> ((str \<times> u64) \<times> u8 list) gob_result" where
  "parse_field_from seen f b = and_then (get_uint b) (\<lambda>(delta, b).
     if delta = 0 then Ok (f, b)
     else let seen = seen + delta in
       if seen = 1 then and_then (get_string b) (\<lambda>(name, b). parse_field_from seen (name, snd f) b)
       else if seen = 2 then and_then (get_int b) (\<lambda>(tid, b). parse_field_from seen (fst f, tid) b)
       else Err (Invalid (UnknownFieldType seen)))"
  by pat_completeness auto
termination
  by (relation "measure (\<lambda>(seen, f, b). length b)") (auto dest!: get_uint_shrinks get_string_reads get_int_shrinks)

declare parse_field_from.simps [simp del]

definition parse_field :: "u8 list \<Rightarrow> ((str \<times> u64) \<times> u8 list) gob_result" where
  "parse_field b = parse_field_from 0 ([], 0) b"

text \<open>\<open>Vec::with_capacity\<close> panics when the elements, 32 bytes each here, would exceed \<open>isize::MAX\<close>.\<close>

definition capacity_overflow :: "nat \<Rightarrow> bool" where
  "capacity_overflow n \<longleftrightarrow> n * 32 \<ge> 2 ^ 63"

definition parse_type_def :: "u64 \<Rightarrow> u8 list \<Rightarrow> (u64 \<times> type_def) gob_result" where
  "parse_type_def tid b = and_then (get_uint b) (\<lambda>(kind, b).
     if kind = 2
     then and_then (expect_delta b 1) (\<lambda>b. and_then (skip_common b) (\<lambda>b. and_then (expect_delta b 1) (\<lambda>b.
          and_then (get_int b) (\<lambda>(_, b). and_then (skip_struct_end b) (\<lambda>_. Ok (tid, Slice))))))
     else if kind = 3
     then and_then (expect_delta b 1) (\<lambda>b. and_then (skip_common b) (\<lambda>b. and_then (expect_delta b 1) (\<lambda>b.
          and_then (get_uint b) (\<lambda>(n, b).
            if capacity_overflow (unat n) then Panic
            else and_then (get_many parse_field (unat n) b) (\<lambda>(fs, b).
                 and_then (skip_struct_end b) (\<lambda>_. Ok (tid, Struct fs)))))))
     else Err (Unsupported (WireVariant kind)))"

function get_pair_from :: "u64 \<Rightarrow> count_pair \<Rightarrow> u8 list \<Rightarrow> (count_pair \<times> u8 list) gob_result" where
  "get_pair_from seen p b = and_then (get_uint b) (\<lambda>(delta, b).
     if delta = 0 then Ok (p, b)
     else let seen = seen + delta in
       if seen = 1 then and_then (get_string b) (\<lambda>(s, b). get_pair_from seen (p\<lparr>cp_name := s\<rparr>) b)
       else if seen = 2 then and_then (get_uint b) (\<lambda>(c, b). get_pair_from seen (p\<lparr>cp_count := c\<rparr>) b)
       else Err (Invalid (UnknownPairField seen)))"
  by pat_completeness auto
termination
  by (relation "measure (\<lambda>(seen, p, b). length b)") (auto dest!: get_uint_shrinks get_string_reads)

declare get_pair_from.simps [simp del]

definition get_pair :: "u8 list \<Rightarrow> (count_pair \<times> u8 list) gob_result" where
  "get_pair b = get_pair_from 0 \<lparr>cp_name = [], cp_count = 0\<rparr> b"

definition get_pairs :: "u8 list \<Rightarrow> (count_pair list \<times> u8 list) gob_result" where
  "get_pairs b = and_then (get_uint b) (\<lambda>(n, b). get_many get_pair (unat n) b)"

definition get_uints :: "u8 list \<Rightarrow> (u64 list \<times> u8 list) gob_result" where
  "get_uints b = and_then (get_uint b) (\<lambda>(n, b). get_many get_uint (unat n) b)"

definition read_field :: "str \<Rightarrow> unit_db \<Rightarrow> u8 list \<Rightarrow> (unit_db \<times> u8 list) gob_result" where
  "read_field name u b =
     (if name = ''NResult'' then and_then (get_uints b) (\<lambda>(v, b). Ok (u\<lparr>ud_n_result := v\<rparr>, b))
      else if name = ''Domains'' then and_then (get_pairs b) (\<lambda>(v, b). Ok (u\<lparr>ud_domains := v\<rparr>, b))
      else if name = ''BlockedDomains'' then and_then (get_pairs b) (\<lambda>(v, b). Ok (u\<lparr>ud_blocked_domains := v\<rparr>, b))
      else if name = ''Clients'' then and_then (get_pairs b) (\<lambda>(v, b). Ok (u\<lparr>ud_clients := v\<rparr>, b))
      else if name = ''UpstreamsResponses''
      then and_then (get_pairs b) (\<lambda>(v, b). Ok (u\<lparr>ud_upstreams_responses := v\<rparr>, b))
      else if name = ''UpstreamsTimeSum''
      then and_then (get_pairs b) (\<lambda>(v, b). Ok (u\<lparr>ud_upstreams_time_sum := v\<rparr>, b))
      else if name = ''NTotal'' then and_then (get_uint b) (\<lambda>(v, b). Ok (u\<lparr>ud_n_total := v\<rparr>, b))
      else if name = ''TimeAvg'' then and_then (get_uint b) (\<lambda>(v, b). Ok (u\<lparr>ud_time_avg := ucast v\<rparr>, b))
      else Err (Unsupported (UnknownUnitField name)))"

lemma get_pair_from_Ok:
  assumes "get_pair_from seen p b = Ok (q, b')"
  obtains (stop) "get_uint b = Ok (0, b')" "q = p"
  | (name) delta b1 s b2 where "get_uint b = Ok (delta, b1)" "get_string b1 = Ok (s, b2)"
      "get_pair_from (seen + delta) (p\<lparr>cp_name := s\<rparr>) b2 = Ok (q, b')"
  | (count) delta b1 c b2 where "get_uint b = Ok (delta, b1)" "get_uint b1 = Ok (c, b2)"
      "get_pair_from (seen + delta) (p\<lparr>cp_count := c\<rparr>) b2 = Ok (q, b')"
  using assms by (subst (asm) get_pair_from.simps) (auto simp: and_then_Ok Let_def split: if_splits)

lemma parse_field_from_Ok:
  assumes "parse_field_from seen f b = Ok (q, b')"
  obtains (stop) "get_uint b = Ok (0, b')" "q = f"
  | (name) delta b1 s b2 where "get_uint b = Ok (delta, b1)" "get_string b1 = Ok (s, b2)"
      "parse_field_from (seen + delta) (s, snd f) b2 = Ok (q, b')"
  | (count) delta b1 c b2 where "get_uint b = Ok (delta, b1)" "get_int b1 = Ok (c, b2)"
      "parse_field_from (seen + delta) (fst f, c) b2 = Ok (q, b')"
  using assms by (subst (asm) parse_field_from.simps) (auto simp: and_then_Ok Let_def split: if_splits)

lemma get_pair_from_reads:
  "valid_str (cp_name p) \<Longrightarrow> get_pair_from seen p b = Ok (q, b') \<Longrightarrow> valid_str (cp_name q) \<and> length b' < length b"
proof (induction "length b" arbitrary: seen p b rule: less_induct)
  case less
  from less.prems(2) show ?case
  proof (cases rule: get_pair_from_Ok)
    case stop
    then show ?thesis using less.prems get_uint_shrinks [of b 0 b'] by simp
  next
    case (name delta b1 s b2)
    then show ?thesis
      using less.hyps [of b2 "p\<lparr>cp_name := s\<rparr>"] get_uint_shrinks [of b] get_string_reads [of b1] by fastforce
  next
    case (count delta b1 c b2)
    then show ?thesis
      using less.hyps [of b2 "p\<lparr>cp_count := c\<rparr>"] less.prems get_uint_shrinks [of b] get_uint_shrinks [of b1] by fastforce
  qed
qed

lemma parse_field_from_reads:
  "valid_str (fst f) \<Longrightarrow> parse_field_from seen f b = Ok (q, b') \<Longrightarrow> valid_str (fst q) \<and> length b' < length b"
proof (induction "length b" arbitrary: seen f b rule: less_induct)
  case less
  from less.prems(2) show ?case
  proof (cases rule: parse_field_from_Ok)
    case stop
    then show ?thesis using less.prems get_uint_shrinks [of b 0 b'] by simp
  next
    case (name delta b1 s b2)
    then show ?thesis
      using less.hyps [of b2 "(s, snd f)"] get_uint_shrinks [of b] get_string_reads [of b1] by fastforce
  next
    case (count delta b1 c b2)
    then show ?thesis
      using less.hyps [of b2 "(fst f, c)"] less.prems get_uint_shrinks [of b] get_int_shrinks [of b1] by fastforce
  qed
qed

lemma get_pair_from_calm: "get_pair_from seen p b \<noteq> Panic"
  by (induction seen p b rule: get_pair_from.induct)
    (subst get_pair_from.simps, auto simp: and_then_Panic Let_def)

lemma parse_field_from_calm: "parse_field_from seen f b \<noteq> Panic"
  by (induction seen f b rule: parse_field_from.induct)
    (subst parse_field_from.simps, auto simp: and_then_Panic Let_def)

interpretation pair_reader: reader get_pair "\<lambda>p. valid_str (cp_name p)"
  by unfold_locales (auto simp: get_pair_def get_pair_from_calm dest: get_pair_from_reads [rotated])

interpretation field_reader: reader parse_field "\<lambda>f. valid_str (fst f)"
  by unfold_locales (auto simp: parse_field_def parse_field_from_calm dest: parse_field_from_reads [rotated])

lemma get_pairs_reads:
  "get_pairs b = Ok (ps, b') \<Longrightarrow> list_all (\<lambda>p. valid_str (cp_name p)) ps \<and> length ps + length b' < length b"
  by (auto simp: get_pairs_def and_then_Ok dest!: pair_reader.many_reads get_uint_shrinks)

lemma get_uints_reads: "get_uints b = Ok (vs, b') \<Longrightarrow> length vs + length b' < length b"
  by (auto simp: get_uints_def and_then_Ok dest!: uint_reader.many_reads get_uint_shrinks)

text \<open>The strings of a unit are valid, as their type demands; and how many list entries it has.\<close>

definition unit_pairs :: "unit_db \<Rightarrow> count_pair list" where
  "unit_pairs u = ud_domains u @ ud_blocked_domains u @ ud_clients u @ ud_upstreams_responses u @ ud_upstreams_time_sum u"

definition unit_typed :: "unit_db \<Rightarrow> bool" where
  "unit_typed u \<longleftrightarrow> list_all (\<lambda>p. valid_str (cp_name p)) (unit_pairs u)"

definition unit_size :: "unit_db \<Rightarrow> nat" where
  "unit_size u = length (ud_n_result u) + length (unit_pairs u)"

lemma read_field_reads:
  assumes "read_field name u b = Ok (u', b')"
  shows "length b' < length b" "unit_size u' + length b' \<le> unit_size u + length b" "unit_typed u \<Longrightarrow> unit_typed u'"
  using assms
  by (auto simp: read_field_def and_then_Ok unit_size_def unit_typed_def unit_pairs_def
      dest!: get_pairs_reads get_uints_reads get_uint_shrinks split: if_splits)

lemma read_field_calm: "read_field name u b \<noteq> Panic"
  by (auto simp: read_field_def get_pairs_def get_uints_def and_then_Panic pair_reader.many_calm uint_reader.many_calm)

function decode_fields :: "(str \<times> u64) list \<Rightarrow> u64 \<Rightarrow> unit_db \<Rightarrow> u8 list \<Rightarrow> unit_db gob_result" where
  "decode_fields fs seen u b = and_then (get_uint b) (\<lambda>(delta, b).
     if delta = 0 then Ok u
     else let seen = seen + delta; i = unat (seen - 1) in
       if i < length fs
       then and_then (read_field (fst (fs ! i)) u b) (\<lambda>(u, b). decode_fields fs seen u b)
       else Err (Invalid (PastFields seen)))"
  by pat_completeness auto
termination
  by (relation "measure (\<lambda>(fs, seen, u, b). length b)") (auto dest!: get_uint_shrinks read_field_reads(1))

declare decode_fields.simps [simp del]

definition decode_value :: "u64 \<Rightarrow> (u64 \<rightharpoonup> type_def) \<Rightarrow> u8 list \<Rightarrow> unit_db gob_result" where
  "decode_value tid types b =
     (case types tid of
        Some (Struct fs) \<Rightarrow> decode_fields fs 0 unit_db_default b
      | _ \<Rightarrow> Err (Invalid (NotStruct tid)))"

lemma unframe_shrinks: "unframe b = Ok (m, b') \<Longrightarrow> length m + length b' < length b"
  by (auto simp: unframe_def and_then_Ok dest!: get_uint_shrinks split: if_splits)

function decode_from :: "(u64 \<rightharpoonup> type_def) \<Rightarrow> u8 list \<Rightarrow> unit_db gob_result" where
  "decode_from types b =
     (if b = [] then Err Truncated
      else and_then (unframe b) (\<lambda>(msg, b). and_then (get_int msg) (\<lambda>(tid, msg).
        if sint tid < 0
        then and_then (parse_type_def (- tid) msg) (\<lambda>(tid, def). decode_from (types(tid \<mapsto> def)) b)
        else decode_value tid types msg)))"
  by pat_completeness auto
termination
  by (relation "measure (\<lambda>(types, b). length b)") (auto dest!: unframe_shrinks)

declare decode_from.simps [simp del]

definition decode_unit :: "u8 list \<Rightarrow> unit_db gob_result" where
  "decode_unit b = decode_from Map.empty b"

definition is_user_type :: "u64 \<Rightarrow> bool" where
  "is_user_type tid \<longleftrightarrow> sint FIRST_USER_ID \<le> sint tid"

section \<open>What a decoded unit can be\<close>

lemma decode_fields_bounds:
  "decode_fields fs seen u b = Ok v \<Longrightarrow> unit_typed u \<Longrightarrow> unit_typed v \<and> unit_size v \<le> unit_size u + length b"
proof (induction fs seen u b rule: decode_fields.induct)
  case (1 fs seen u b)
  obtain delta b1 where g: "get_uint b = Ok (delta, b1)" "length b1 < length b"
    using 1(2) by (subst (asm) decode_fields.simps) (auto simp: and_then_Ok dest: get_uint_shrinks)
  show ?case
  proof (cases "delta = 0")
    case True
    then show ?thesis using 1(2,3) g by (subst (asm) decode_fields.simps) auto
  next
    case False
    let ?i = "unat (seen + delta - 1)"
    obtain w b2 where i: "?i < length fs" and r: "read_field (fst (fs ! ?i)) u b1 = Ok (w, b2)"
      and d: "decode_fields fs (seen + delta) w b2 = Ok v"
      using 1(2) g False by (subst (asm) decode_fields.simps) (auto simp: and_then_Ok Let_def split: if_splits)
    have "unit_typed v \<and> unit_size v \<le> unit_size w + length b2"
      by (rule 1(1) [OF g(1) refl False refl refl i r refl d]) (use r 1(3) read_field_reads(3) in blast)
    then show ?thesis using read_field_reads(2) [OF r] g(2) by linarith
  qed
qed

lemma decode_from_bounds: "decode_from types b = Ok v \<Longrightarrow> unit_typed v \<and> unit_size v \<le> length b"
proof (induction "length b" arbitrary: types b rule: less_induct)
  case less
  obtain m b1 tid m1 where u: "unframe b = Ok (m, b1)" "get_int m = Ok (tid, m1)"
    using less.prems by (subst (asm) decode_from.simps) (auto simp: and_then_Ok split: if_splits)
  note s = unframe_shrinks [OF u(1)] get_int_shrinks [OF u(2)]
  show ?case
  proof (cases "sint tid < 0")
    case True
    then obtain t where "decode_from t b1 = Ok v"
      using less.prems u by (subst (asm) decode_from.simps) (auto simp: and_then_Ok split: if_splits)
    then show ?thesis using less.hyps [of b1] s by fastforce
  next
    case False
    then obtain fs where "decode_fields fs 0 unit_db_default m1 = Ok v"
      using less.prems u
      by (subst (asm) decode_from.simps) (auto simp: decode_value_def split: if_splits option.splits type_def.splits)
    then show ?thesis
      using decode_fields_bounds [of fs 0 unit_db_default m1 v] s
      by (auto simp: unit_db_default_def unit_typed_def unit_pairs_def unit_size_def)
  qed
qed

section \<open>Reading back what was written\<close>

lemma get_pair_from_put:
  "get_pair_from seen p (put_uint d @ b) =
     (if d = 0 then Ok (p, b)
      else if seen + d = 1 then and_then (get_string b) (\<lambda>(s, b). get_pair_from 1 (p\<lparr>cp_name := s\<rparr>) b)
      else if seen + d = 2 then and_then (get_uint b) (\<lambda>(c, b). get_pair_from 2 (p\<lparr>cp_count := c\<rparr>) b)
      else Err (Invalid (UnknownPairField (seen + d))))"
  by (subst get_pair_from.simps) (simp add: get_put_uint Let_def)

lemma parse_field_from_put:
  "parse_field_from seen f (put_uint d @ b) =
     (if d = 0 then Ok (f, b)
      else if seen + d = 1 then and_then (get_string b) (\<lambda>(s, b). parse_field_from 1 (s, snd f) b)
      else if seen + d = 2 then and_then (get_int b) (\<lambda>(c, b). parse_field_from 2 (fst f, c) b)
      else Err (Invalid (UnknownFieldType (seen + d))))"
  by (subst parse_field_from.simps) (simp add: get_put_uint Let_def)

interpretation pair_codec: codec put_pair get_pair "\<lambda>p. fits_str (cp_name p)"
  by unfold_locales
    (auto simp: put_pair_def get_pair_def get_pair_from_put string_codec.get_put get_put_uint Let_def)

interpretation field_codec: codec put_field parse_field "\<lambda>f. fits_str (fst f)"
  by unfold_locales
    (auto simp: put_field_def parse_field_def parse_field_from_put string_codec.get_put get_put_int)

lemma get_put_pairs:
  assumes "list_all (\<lambda>p. fits_str (cp_name p)) ps" "length ps < 2 ^ 64"
  shows "get_pairs (put_pairs ps @ rest) = Ok (ps, rest)"
  using assms by (simp add: get_pairs_def put_pairs_def get_put_uint pair_codec.many_put unat_of_nat_small)

lemma get_put_uints:
  assumes "length vs < 2 ^ 64"
  shows "get_uints (put_uint (of_nat (length vs)) @ concat (map put_uint vs) @ rest) = Ok (vs, rest)"
  using assms uint_codec.many_put [of vs rest]
  by (simp add: get_uints_def get_put_uint unat_of_nat_small list_all_iff)

definition unit_fields :: "(str \<times> u64) list" where
  "unit_fields = map (\<lambda>(i, name). (name, field_id i)) (enumerate 0 FIELDS)"

lemma length_FIELDS [simp]: "length FIELDS = 8"
  by (simp add: FIELDS_def)

lemma unit_fields_nth: "i < 8 \<Longrightarrow> fst (unit_fields ! i) = FIELDS ! i" "length unit_fields = 8"
  by (simp_all add: unit_fields_def nth_enumerate_eq split_beta)

text \<open>\<open>fields_read k fs u v\<close>: the fields \<open>fs\<close>, all at or after position \<open>k\<close>, turn the unit \<open>u\<close> into \<open>v\<close>.\<close>

definition fields_read :: "nat \<Rightarrow> (nat \<times> u8 list) list \<Rightarrow> unit_db \<Rightarrow> unit_db \<Rightarrow> bool" where
  "fields_read k fs u v \<longleftrightarrow>
     (\<forall>prev \<le> k. \<forall>r. decode_fields unit_fields (of_nat prev) u (put_fields prev fs @ put_uint 0 @ r) = Ok v)"

lemma decode_fields_put:
  assumes "prev \<le> i" "i < 8"
  shows "decode_fields unit_fields (of_nat prev) u (put_uint (of_nat (i + 1 - prev)) @ b) =
    and_then (read_field (FIELDS ! i) u b) (\<lambda>(u, b). decode_fields unit_fields (of_nat (i + 1)) u b)"
proof -
  have s: "of_nat prev + of_nat (i + 1 - prev) = (of_nat (i + 1) :: u64)"
    using assms by (simp only: of_nat_add [symmetric]) simp
  have n: "unat (of_nat (i + 1 - prev) :: u64) = i + 1 - prev" using assms by (intro unat_of_nat_small) simp
  then have d: "(of_nat (i + 1 - prev) :: u64) \<noteq> 0" using assms by (metis Suc_eq_plus1 diff_is_0_eq not_less_eq_eq unat_0)
  have i: "unat (of_nat (i + 1) - 1 :: u64) = i"
    using assms by (simp add: unat_of_nat_small)
  show ?thesis
    by (subst decode_fields.simps)
      (use d i assms in \<open>simp only: get_put_uint and_then.simps prod.case s Let_def unit_fields_nth if_False if_True\<close>)
qed

lemma fields_read_Nil: "fields_read k [] u u"
  by (simp add: fields_read_def) (subst decode_fields.simps, simp add: get_put_uint)

lemma fields_read_opt:
  assumes "i < 8" "fields_read (i + 1) fs u1 v"
    and "c \<Longrightarrow> (\<And>r. read_field (FIELDS ! i) u (w @ r) = Ok (u1, r))" "\<not> c \<Longrightarrow> u1 = u"
  shows "fields_read i ((if c then [(i, w)] else []) @ fs) u v"
  unfolding fields_read_def
proof (intro allI impI)
  fix prev r assume p: "prev \<le> i"
  show "decode_fields unit_fields (of_nat prev) u
    (put_fields prev ((if c then [(i, w)] else []) @ fs) @ put_uint 0 @ r) = Ok v"
  proof (cases c)
    case True
    have "decode_fields unit_fields (of_nat (i + 1)) u1 (put_fields (i + 1) fs @ put_uint 0 @ r) = Ok v"
      using assms(2) unfolding fields_read_def by blast
    then show ?thesis
      using True assms(3) decode_fields_put [OF p assms(1)] by simp
  next
    case False
    then show ?thesis using assms(2,4) p by (simp add: fields_read_def)
  qed
qed

text \<open>The unit consists of valid strings, and its encoding fits in memory.\<close>

definition unit_fits :: "unit_db \<Rightarrow> bool" where
  "unit_fits u \<longleftrightarrow> length (ud_n_result u) < 2 ^ 64
     \<and> list_all (\<lambda>ps. length ps < 2 ^ 64 \<and> list_all (\<lambda>p. fits_str (cp_name p)) ps)
         [ud_domains u, ud_blocked_domains u, ud_clients u, ud_upstreams_responses u, ud_upstreams_time_sum u]
     \<and> length (encode_unit_value u) < 2 ^ 64"

lemma ucast_time: "(ucast (ucast t :: u64) :: u32) = t" for t :: u32
  by (rule bit_word_eqI) (simp add: bit_simps)

lemma sent_fields_eq:
  "sent_fields u =
     (if ud_n_result u \<noteq> []
      then [(0, put_uint (of_nat (length (ud_n_result u))) @ concat (map put_uint (ud_n_result u)))] else [])
     @ (if ud_domains u \<noteq> [] then [(1, put_pairs (ud_domains u))] else [])
     @ (if ud_blocked_domains u \<noteq> [] then [(2, put_pairs (ud_blocked_domains u))] else [])
     @ (if ud_clients u \<noteq> [] then [(3, put_pairs (ud_clients u))] else [])
     @ (if ud_upstreams_responses u \<noteq> [] then [(4, put_pairs (ud_upstreams_responses u))] else [])
     @ (if ud_upstreams_time_sum u \<noteq> [] then [(5, put_pairs (ud_upstreams_time_sum u))] else [])
     @ (if ud_n_total u \<noteq> 0 then [(6, put_uint (ud_n_total u))] else [])
     @ (if ud_time_avg u \<noteq> 0 then [(7, put_uint (ucast (ud_time_avg u)))] else []) @ []"
  by (simp add: sent_fields_def put_nonempty_def enumerate_eq_zip)

lemma sent_fields_read:
  assumes "unit_fits u"
  shows "fields_read 0 (sent_fields u) unit_db_default u"
proof -
  have pairs: "get_pairs (put_pairs ps @ r) = Ok (ps, r)"
    if "ps \<in> set [ud_domains u, ud_blocked_domains u, ud_clients u, ud_upstreams_responses u, ud_upstreams_time_sum u]"
    for ps r
    using that assms by (intro get_put_pairs) (auto simp: unit_fits_def)
  have uints: "length (ud_n_result u) < 2 ^ 64" using assms by (simp add: unit_fits_def)
  let ?u1 = "unit_db_default\<lparr>ud_n_result := ud_n_result u\<rparr>"
  let ?u2 = "?u1\<lparr>ud_domains := ud_domains u\<rparr>"
  let ?u3 = "?u2\<lparr>ud_blocked_domains := ud_blocked_domains u\<rparr>"
  let ?u4 = "?u3\<lparr>ud_clients := ud_clients u\<rparr>"
  let ?u5 = "?u4\<lparr>ud_upstreams_responses := ud_upstreams_responses u\<rparr>"
  let ?u6 = "?u5\<lparr>ud_upstreams_time_sum := ud_upstreams_time_sum u\<rparr>"
  let ?u7 = "?u6\<lparr>ud_n_total := ud_n_total u\<rparr>"
  let ?u8 = "?u7\<lparr>ud_time_avg := ud_time_avg u\<rparr>"
  have e: "?u8 = u" by (simp add: unit_db_default_def)
  note read = FIELDS_def read_field_def pairs get_put_uint get_put_uints [OF uints] ucast_time unit_db_default_def
  have chain: "fields_read (i + 1) fs u1 v \<Longrightarrow> i < 8
    \<Longrightarrow> (c \<Longrightarrow> (\<And>r. read_field (FIELDS ! i) w (b @ r) = Ok (u1, r))) \<Longrightarrow> (\<not> c \<Longrightarrow> u1 = w)
    \<Longrightarrow> j = i \<Longrightarrow> fields_read j ((if c then [(i, b)] else []) @ fs) w v" for i j fs u1 v c w b
    using fields_read_opt by blast
  have "fields_read 0 (sent_fields u) unit_db_default ?u8"
    unfolding sent_fields_eq
    by (rule chain [where ?u1.0 = ?u1], rule chain [where ?u1.0 = ?u2], rule chain [where ?u1.0 = ?u3],
        rule chain [where ?u1.0 = ?u4], rule chain [where ?u1.0 = ?u5], rule chain [where ?u1.0 = ?u6],
        rule chain [where ?u1.0 = ?u7], rule chain [where ?u1.0 = ?u8], rule fields_read_Nil)
      (simp_all add: read)
  then show ?thesis using e by simp
qed

text \<open>A message that defines a type, and what a run of such messages leaves in the table.\<close>

definition declares :: "u8 list \<Rightarrow> u64 \<times> type_def \<Rightarrow> bool" where
  "declares p td \<longleftrightarrow> length p < 2 ^ 64 \<and>
     (\<exists>tid m. get_int p = Ok (tid, m) \<and> sint tid < 0 \<and> parse_type_def (- tid) m = Ok td)"

lemma put_uint_nonempty [simp]: "put_uint v \<noteq> []"
  by (simp add: put_uint_def Let_def)

lemma frame_nonempty [simp]: "frame p \<noteq> []"
  by (simp add: frame_def)

lemma decode_frame:
  assumes "length p < 2 ^ 64"
  shows "decode_from T (frame p @ rest) = and_then (get_int p) (\<lambda>(tid, msg).
    if sint tid < 0
    then and_then (parse_type_def (- tid) msg) (\<lambda>(tid, def). decode_from (T(tid \<mapsto> def)) rest)
    else decode_value tid T msg)"
  by (subst decode_from.simps) (simp add: unframe_frame [OF assms])

lemma decode_declares: "declares p (t, d) \<Longrightarrow> decode_from T (frame p @ rest) = decode_from (T(t \<mapsto> d)) rest"
  by (auto simp: declares_def decode_frame)

text \<open>A stream cut short.\<close>

lemma get_uint_cut:
  assumes "k < length (put_uint v)"
  shows "get_uint (take k (put_uint v)) = Err Truncated"
proof (cases k)
  case 0
  then show ?thesis by (simp add: get_uint_def)
next
  case (Suc k')
  then have n: "\<not> v < 0x80" using assms by (auto simp: put_uint_def)
  then obtain i where i: "position (\<lambda>b. b \<noteq> 0) (to_be_bytes v) = Some i" "i < 8" by (rule first_used)
  let ?used = "drop i (to_be_bytes v)"
  have p: "put_uint v = (0 - of_nat (length ?used)) # ?used"
    using n i by (simp add: put_uint_def Let_def)
  have "1 \<le> length ?used" "length ?used \<le> 8" using i by auto
  note l = length_byte [OF this]
  have "length (take k' ?used) < length ?used" using assms Suc p by simp
  then show ?thesis
    unfolding p Suc take_Suc_Cons get_uint_def list.case Let_def l(2)
    using l(1) i by auto
qed

lemma unframe_cut:
  assumes "length p < 2 ^ 64" "k < length (frame p)"
  shows "unframe (take k (frame p)) = Err Truncated"
proof (cases "k < length (put_uint (of_nat (length p)))")
  case True
  then show ?thesis by (simp add: unframe_def frame_def get_uint_cut)
next
  case False
  then show ?thesis using assms
    by (simp add: unframe_def frame_def get_put_uint unat_of_nat_small)
qed

lemma decode_cut:
  assumes "length p < 2 ^ 64" "k < length (frame p)"
  shows "decode_from T (take k (frame p)) = Err Truncated"
  by (subst decode_from.simps) (simp add: unframe_cut [OF assms])

lemma decode_cut_after:
  assumes "declares p (t, d)" "\<And>k T. k < length rest \<Longrightarrow> decode_from T (take k rest) = Err Truncated"
    and "k < length (frame p @ rest)"
  shows "decode_from T (take k (frame p @ rest)) = Err Truncated"
  using assms decode_cut [of p k T] decode_declares [OF assms(1)]
  by (cases "k < length (frame p)") (auto simp: declares_def)

section \<open>The type definitions\<close>

definition unit_types :: "u64 \<rightharpoonup> type_def" where
  "unit_types = [ID_UNIT \<mapsto> Struct unit_fields, ID_UINT_SLICE \<mapsto> Slice, ID_PAIR_SLICE \<mapsto> Slice,
     ID_PAIR \<mapsto> Struct [(''Name'', T_STRING), (''Count'', T_UINT)]]"

text \<open>
  \<open>skip_common\<close> tries the identifier as a string first, so it relies on that failing: either too few
  bytes are left, or a byte of a later identifier is not UTF-8.
\<close>

lemma utf8_valid_no_FF: "utf8_valid bs \<Longrightarrow> 0xFF \<notin> set bs"
  by (induction bs rule: utf8_valid.induct) (auto simp: continuation_def split: if_splits list.splits)

lemma skip_common_put:
  assumes "fits_str name" "get_string (put_int tid @ put_uint 0 @ b) = Err e"
  shows "skip_common (put_common name tid @ b) = Ok b"
proof -
  have ne: "put_string name \<noteq> []" "put_int tid \<noteq> []" by (simp_all add: put_string_def put_int_def)
  have "skip_common (put_uint 0 @ b) = Ok b" by (subst skip_common.simps) (simp add: get_put_uint)
  then have "skip_common (put_uint 1 @ put_int tid @ put_uint 0 @ b) = Ok b"
    by (subst skip_common.simps) (simp add: get_put_uint get_put_int ne assms)
  then show ?thesis
    by (subst skip_common.simps) (simp add: put_common_def get_put_uint string_codec.get_put assms ne)
qed

lemma parse_struct_put:
  assumes "fits_str name" "list_all (\<lambda>f. fits_str (fst f)) fs" "length fs < 2 ^ 58"
    and "get_string (put_int tid @ put_uint 0 @ put_uint 1 @ put_uint (of_nat (length fs))
           @ concat (map put_field fs) @ put_uint 0 @ b) = Err e"
  shows "parse_type_def t (put_uint 3 @ put_uint 1 @ put_common name tid @ put_uint 1
    @ put_uint (of_nat (length fs)) @ concat (map put_field fs) @ put_uint 0 @ b) = Ok (t, Struct fs)"
proof -
  have u: "unat (of_nat (length fs) :: u64) = length fs" using assms(3) by (intro unat_of_nat_small) simp
  show ?thesis
    using assms(2,3) skip_common_put [OF assms(1,4)]
    by (simp add: parse_type_def_def expect_delta_def get_put_uint u capacity_overflow_def
        field_codec.many_put skip_struct_end_def)
qed

lemma parse_slice_put:
  assumes "fits_str name"
    and "get_string (put_int tid @ put_uint 0 @ put_uint 1 @ put_int elem @ put_uint 0 @ b) = Err e"
  shows "parse_type_def t (put_uint 2 @ put_uint 1 @ put_common name tid @ put_uint 1 @ put_int elem @ put_uint 0 @ b)
    = Ok (t, Slice)"
  using skip_common_put [OF assms]
  by (simp add: parse_type_def_def expect_delta_def get_put_uint get_put_int skip_struct_end_def)

lemma put_lengths: "length (put_uint v) \<le> 9" "length (put_int v) \<le> 9" "length (put_string s) \<le> 9 + length s"
  "length (put_common name tid) \<le> 45 + length name" "length (put_field f) \<le> 45 + length (fst f)"
proof -
  have u: "length (put_uint v) \<le> 9" for v by (auto simp: put_uint_def Let_def)
  then have i: "length (put_int v) \<le> 9" for v by (simp add: put_int_def)
  have s: "length (put_string s) \<le> 9 + length s" for s using u by (simp add: put_string_def)
  show "length (put_uint v) \<le> 9" "length (put_int v) \<le> 9" "length (put_string s) \<le> 9 + length s"
    by (rule u, rule i, rule s)
  show "length (put_common name tid) \<le> 45 + length name"
    using u [of 1] u [of 0] i [of tid] s [of name] by (simp add: put_common_def)
  show "length (put_field f) \<le> 45 + length (fst f)"
    using u [of 1] u [of 0] i [of "snd f"] s [of "fst f"] by (cases f) (simp add: put_field_def)
qed

lemma length_concat_le: "(\<And>x. x \<in> set xs \<Longrightarrow> length (f x) \<le> n) \<Longrightarrow> length (concat (map f xs)) \<le> n * length xs"
  by (induction xs) (auto simp: add_mono)

lemma declaresI:
  assumes "sint (- t) < 0" "length m < 2 ^ 63" "parse_type_def t m = Ok td"
  shows "declares (put_int (- t) @ m) td"
proof -
  show ?thesis using assms put_lengths(2) [of "- t"] by (auto simp: declares_def get_put_int)
qed

lemma get_string_refuses:
  assumes "length b < unat n \<or> (\<exists>i. i < unat n \<and> i < length b \<and> b ! i = 0xFF)"
  shows "\<exists>e. get_string (put_uint n @ b) = Err e"
proof (cases "length b < unat n")
  case False
  then obtain i where i: "i < unat n" "i < length b" "b ! i = 0xFF" using assms by blast
  then have "take (unat n) b ! i \<in> set (take (unat n) b)" by (intro nth_mem) simp
  then have "0xFF \<in> set (take (unat n) b)" using i by simp
  then have "\<not> utf8_valid (take (unat n) b)" using utf8_valid_no_FF by blast
  then show ?thesis using False by (simp add: get_string_def get_put_uint from_utf8_def)
qed (simp add: get_string_def get_put_uint)

lemma ids_put: "put_int ID_UNIT = put_uint 128" "put_int ID_UINT_SLICE = put_uint 130"
  "put_int ID_PAIR_SLICE = put_uint 132" "put_int ID_PAIR = put_uint 134"
  by (simp_all add: put_int_def ID_UNIT_def ID_UINT_SLICE_def ID_PAIR_SLICE_def ID_PAIR_def)

lemma unit_def_sniffed:
  "\<exists>e. get_string (put_int ID_UNIT @ put_uint 0 @ put_uint 1 @ put_uint (of_nat (length unit_fields))
     @ concat (map put_field unit_fields) @ put_uint 0 @ put_uint 0) = Err e"
proof -
  obtain fs where f: "unit_fields = (''NResult'', ID_UINT_SLICE) # fs"
    by (simp add: unit_fields_def FIELDS_def field_id_def)
  have p: "put_uint 0 @ put_uint 1 @ put_uint 8 @ put_field (''NResult'', ID_UINT_SLICE)
    = [0, 1, 8, 1, 7, 0x4E, 0x52, 0x65, 0x73, 0x75, 0x6C, 0x74, 1, 0xFF, 0x82, 0]"
    by code_simp
  define b where "b = concat (map put_field fs) @ put_uint 0 @ put_uint 0"
  have "(([0, 1, 8, 1, 7, 0x4E, 0x52, 0x65, 0x73, 0x75, 0x6C, 0x74, 1, 0xFF, 0x82, 0] :: u8 list) @ b) ! 13 = 0xFF"
    by simp
  then have "\<exists>e. get_string (put_uint 128 @ (put_uint 0 @ put_uint 1 @ put_uint 8
    @ put_field (''NResult'', ID_UINT_SLICE)) @ b) = Err e"
    unfolding p by (intro get_string_refuses disjI2 exI [of _ 13]) simp
  then show ?thesis
    by (simp add: ids_put unit_fields_nth b_def) (simp add: f)
qed

definition type_messages :: "(u8 list \<times> u64 \<times> type_def) list" where
  "type_messages =
     [(struct_def ID_UNIT ''unitDB'' unit_fields, ID_UNIT, Struct unit_fields),
      (put_int (- ID_UINT_SLICE) @ put_uint 2 @ put_uint 1 @ put_common ''[]uint64'' ID_UINT_SLICE
         @ put_uint 1 @ put_int T_UINT @ put_uint 0 @ put_uint 0, ID_UINT_SLICE, Slice),
      (put_int (- ID_PAIR_SLICE) @ put_uint 2 @ put_uint 1 @ put_common ''[]stats.countPair'' ID_PAIR_SLICE
         @ put_uint 1 @ put_int ID_PAIR @ put_uint 0 @ put_uint 0, ID_PAIR_SLICE, Slice),
      (struct_def ID_PAIR ''countPair'' [(''Name'', T_STRING), (''Count'', T_UINT)], ID_PAIR,
         Struct [(''Name'', T_STRING), (''Count'', T_UINT)])]"

lemma type_defs_messages: "type_defs = concat (map (frame \<circ> fst) type_messages)"
  by (simp add: type_defs_def type_messages_def slice_def_def unit_fields_def)

lemma fits_names:
  "list_all fits_str ([''unitDB'', ''[]uint64'', ''[]stats.countPair'', ''countPair'', ''Name'', ''Count''] @ FIELDS)"
  by code_simp

lemma unit_declared: "declares (struct_def ID_UNIT ''unitDB'' unit_fields) (ID_UNIT, Struct unit_fields)"
  unfolding struct_def_def
proof (rule declaresI)
  have "length (fst f) \<le> 20" if "f \<in> set unit_fields" for f
    using that by (auto simp: unit_fields_def FIELDS_def)
  then have "length (put_field f) \<le> 65" if "f \<in> set unit_fields" for f
    using that put_lengths(5) [of f] by fastforce
  then have fields: "length (concat (map put_field unit_fields)) \<le> 65 * 8"
    using length_concat_le [of unit_fields put_field 65] by (simp add: unit_fields_nth)
  have "list_all (\<lambda>f. fits_str (fst f)) unit_fields" "fits_str ''unitDB''"
    using fits_names by (simp_all add: unit_fields_def FIELDS_def)
  then show "parse_type_def ID_UNIT (put_uint 3 @ put_uint 1 @ put_common ''unitDB'' ID_UNIT @ put_uint 1
    @ put_uint (word_of_nat (length unit_fields)) @ concat (map put_field unit_fields) @ put_uint 0 @ put_uint 0)
    = Ok (ID_UNIT, Struct unit_fields)"
    using unit_def_sniffed parse_struct_put [of "''unitDB''" unit_fields ID_UNIT "put_uint 0" _ ID_UNIT]
    by (auto simp: unit_fields_nth)
  show "sint (- ID_UNIT) < 0" by code_simp
  show "length (put_uint 3 @ put_uint 1 @ put_common ''unitDB'' ID_UNIT @ put_uint 1
    @ put_uint (word_of_nat (length unit_fields)) @ concat (map put_field unit_fields) @ put_uint 0 @ put_uint 0) < 2 ^ 63"
    using fields put_lengths(1) [of 3] put_lengths(1) [of 1] put_lengths(1) [of 0]
      put_lengths(1) [of "word_of_nat (length unit_fields)"] put_lengths(4) [of "''unitDB''" ID_UNIT]
    by simp
qed

lemma pair_declared:
  "declares (struct_def ID_PAIR ''countPair'' [(''Name'', T_STRING), (''Count'', T_UINT)])
     (ID_PAIR, Struct [(''Name'', T_STRING), (''Count'', T_UINT)])"
  unfolding struct_def_def
proof (rule declaresI)
  let ?fs = "[(''Name'', T_STRING), (''Count'', T_UINT)]"
  have "length (put_uint 0 @ put_uint 1 @ put_uint (of_nat (length ?fs)) @ concat (map put_field ?fs) @ put_uint 0 @ put_uint 0)
    < unat (134 :: u64)" by code_simp
  then obtain e where "get_string (put_int ID_PAIR @ put_uint 0 @ put_uint 1 @ put_uint (of_nat (length ?fs))
    @ concat (map put_field ?fs) @ put_uint 0 @ put_uint 0) = Err e"
    using get_string_refuses ids_put(4) by metis
  moreover have "list_all (\<lambda>f. fits_str (fst f)) ?fs" "fits_str ''countPair''" "length ?fs < 2 ^ 58"
    using fits_names by simp_all
  ultimately show "parse_type_def ID_PAIR (put_uint 3 @ put_uint 1 @ put_common ''countPair'' ID_PAIR @ put_uint 1
    @ put_uint (of_nat (length ?fs)) @ concat (map put_field ?fs) @ put_uint 0 @ put_uint 0) = Ok (ID_PAIR, Struct ?fs)"
    using parse_struct_put by blast
qed code_simp+

lemma slice_declared:
  assumes "fits_str name" "put_int tid = put_uint n" "sint (- tid) < 0"
    and "length (put_uint 0 @ put_uint 1 @ put_int elem @ put_uint 0 @ put_uint 0) < unat n"
    and "length (put_uint 2 @ put_uint 1 @ put_common name tid @ put_uint 1 @ put_int elem @ put_uint 0 @ put_uint 0) < 2 ^ 63"
  shows "declares (put_int (- tid) @ put_uint 2 @ put_uint 1 @ put_common name tid
    @ put_uint 1 @ put_int elem @ put_uint 0 @ put_uint 0) (tid, Slice)"
proof -
  obtain e where "get_string (put_int tid @ put_uint 0 @ put_uint 1 @ put_int elem @ put_uint 0 @ put_uint 0) = Err e"
    using assms(4) get_string_refuses unfolding assms(2) by metis
  then show ?thesis using assms(3,5) parse_slice_put [OF assms(1)] by (intro declaresI) auto
qed

lemma type_messages_declare: "list_all (\<lambda>(p, td). declares p td) type_messages"
proof -
  have "declares (put_int (- ID_UINT_SLICE) @ put_uint 2 @ put_uint 1 @ put_common ''[]uint64'' ID_UINT_SLICE
      @ put_uint 1 @ put_int T_UINT @ put_uint 0 @ put_uint 0) (ID_UINT_SLICE, Slice)"
    by (rule slice_declared [OF _ ids_put(2)]) code_simp+
  moreover have "declares (put_int (- ID_PAIR_SLICE) @ put_uint 2 @ put_uint 1 @ put_common ''[]stats.countPair'' ID_PAIR_SLICE
      @ put_uint 1 @ put_int ID_PAIR @ put_uint 0 @ put_uint 0) (ID_PAIR_SLICE, Slice)"
    by (rule slice_declared [OF _ ids_put(3)]) code_simp+
  ultimately show ?thesis using unit_declared pair_declared by (simp add: type_messages_def)
qed

lemma decode_messages:
  "list_all (\<lambda>(p, td). declares p td) ms \<Longrightarrow>
   decode_from T (concat (map (frame \<circ> fst) ms) @ rest) = decode_from (foldl (\<lambda>T (p, t, d). T(t \<mapsto> d)) T ms) rest"
  by (induction ms arbitrary: T) (auto simp: decode_declares)

lemma decode_messages_cut:
  assumes "list_all (\<lambda>(p, td). declares p td) ms" "\<And>k T. k < length rest \<Longrightarrow> decode_from T (take k rest) = Err Truncated"
    and "k < length (concat (map (frame \<circ> fst) ms) @ rest)"
  shows "decode_from T (take k (concat (map (frame \<circ> fst) ms) @ rest)) = Err Truncated"
  using assms(1,3)
proof (induction ms arbitrary: k T)
  case Nil
  then show ?case using assms(2) by simp
next
  case (Cons m ms)
  obtain p t d where m: "m = (p, t, d)" by (cases m)
  let ?rest = "concat (map (frame \<circ> fst) ms) @ rest"
  have "decode_from T (take k (frame p @ ?rest)) = Err Truncated"
  proof (rule decode_cut_after)
    show "declares p (t, d)" using Cons.prems m by simp
    show "k < length (frame p @ ?rest)" using Cons.prems m by (simp add: comp_def)
    show "decode_from T (take k ?rest) = Err Truncated" if "k < length ?rest" for k T
      by (rule Cons.IH [OF _ that]) (use Cons.prems in simp)
  qed
  then show ?case by (simp add: m comp_def)
qed

lemma length_messages: "length ms \<le> length (concat (map (frame \<circ> fst) ms))"
proof (induction ms)
  case (Cons m ms)
  have "0 < length (frame (fst m))" by simp
  then show ?case using Cons by (simp only: list.map concat.simps comp_apply length_append list.size)
qed simp

lemma unit_value_decoded:
  assumes "unit_fits u"
  shows "decode_from (foldl (\<lambda>T (p, t, d). T(t \<mapsto> d)) Map.empty type_messages) (frame (encode_unit_value u)) = Ok u"
proof -
  have ids: "ID_UNIT \<noteq> ID_UINT_SLICE" "ID_UNIT \<noteq> ID_PAIR_SLICE" "ID_UNIT \<noteq> ID_PAIR" "\<not> sint ID_UNIT < 0" by code_simp+
  have l: "length (encode_unit_value u) < 2 ^ 64" using assms by (simp add: unit_fits_def)
  have "decode_fields unit_fields 0 unit_db_default (put_fields 0 (sent_fields u) @ put_uint 0 @ []) = Ok u"
    using sent_fields_read [OF assms, unfolded fields_read_def, rule_format, of 0 "[]"] by simp
  then show ?thesis
    using decode_frame [OF l, of _ "[]"] ids
    by (simp add: encode_unit_value_def get_put_int decode_value_def type_messages_def)
qed

lemma encoded_decoded: "unit_fits u \<Longrightarrow> decode_unit (encode_unit u) = Ok u"
  using decode_messages [OF type_messages_declare] unit_value_decoded
  by (simp add: decode_unit_def encode_unit_def type_defs_messages)

text \<open>A stream whose first type definition announces more fields than a vector can hold.\<close>

lemma gob_capacity_panic:
  "decode_unit (frame (put_int (- ID_UNIT) @ put_uint 3 @ put_uint 1 @ put_uint 0 @ put_uint 1 @ put_uint (2 ^ 58))) = Panic"
proof -
  have "skip_common (put_uint 0 @ b) = Ok b" for b by (subst skip_common.simps) (simp add: get_put_uint)
  moreover have "length (put_int (- ID_UNIT) @ put_uint 3 @ put_uint 1 @ put_uint 0 @ put_uint 1 @ put_uint (2 ^ 58)) < 2 ^ 64"
    "sint (- ID_UNIT) < 0" by code_simp+
  ultimately show ?thesis
    using decode_frame [of "put_int (- ID_UNIT) @ put_uint 3 @ put_uint 1 @ put_uint 0 @ put_uint 1 @ put_uint (2 ^ 58)" Map.empty "[]"]
      get_put_uint [of "2 ^ 58" "[]"]
    by (simp add: decode_unit_def get_put_int get_put_uint parse_type_def_def expect_delta_def capacity_overflow_def)
qed

definition sample_unit :: unit_db where
  "sample_unit = unit_db_default\<lparr>ud_n_result := [0, 2, 1], ud_clients := [\<lparr>cp_name = ''lan'', cp_count = 300\<rparr>],
     ud_n_total := 3\<rparr>"

lemma sample_unit_fits: "unit_fits sample_unit"
  by code_simp

section \<open>Properties\<close>

text \<open>
  Decoding the stream written for a statistics unit returns that unit.  The unit's strings are
  valid UTF-8, as their type demands, and its encoding fits in memory.
\<close>

theorem gob_unit_roundtrip:
  assumes "unit_fits u"
  shows "decode_unit (encode_unit u) = Ok u"
  using assms by (rule encoded_decoded)

theorem gob_unit_roundtrip_witness: "unit_fits sample_unit \<and> decode_unit (encode_unit sample_unit) = Ok sample_unit"
  using gob_unit_roundtrip [OF sample_unit_fits] sample_unit_fits by blast

text \<open>
  C24. A stream that was cut anywhere before its end is refused as truncated: no proper prefix of an
  encoded unit decodes to a unit, to another error or to a panic.
\<close>

theorem gob_cut_refused:
  assumes "unit_fits u" "k < length (encode_unit u)"
  shows "decode_unit (take k (encode_unit u)) = Err Truncated"
proof -
  have "length (encode_unit_value u) < 2 ^ 64" using assms by (simp add: unit_fits_def)
  then show ?thesis
    using decode_messages_cut [OF type_messages_declare, of "frame (encode_unit_value u)" k Map.empty] assms decode_cut
    by (simp add: decode_unit_def encode_unit_def type_defs_messages)
qed

theorem gob_cut_refused_witness: "decode_unit (take 4 (encode_unit sample_unit)) = Err Truncated"
proof -
  have "length type_messages \<le> length type_defs"
    unfolding type_defs_messages by (rule length_messages)
  then have "4 \<le> length type_defs" by (simp add: type_messages_def)
  then have "4 < length (encode_unit sample_unit)"
    using frame_nonempty [of "encode_unit_value sample_unit"]
    by (simp only: encode_unit_def length_append length_greater_0_conv [symmetric])
  then show ?thesis using gob_cut_refused [OF sample_unit_fits] by blast
qed

text \<open>
  C25. Whatever bytes are decoded, a unit that comes out is well typed, every string of it being valid
  UTF-8, and all its lists together have no more entries than the input has bytes: a corrupt count
  cannot make the result larger than the file.
\<close>

theorem gob_decoded_typed:
  assumes "decode_unit b = Ok u"
  shows "unit_typed u \<and> unit_size u \<le> length b"
  using assms decode_from_bounds by (simp add: decode_unit_def)

theorem gob_decoded_typed_witness:
  "unit_typed sample_unit \<and> unit_size sample_unit \<le> length (encode_unit sample_unit)"
  using gob_decoded_typed [OF encoded_decoded [OF sample_unit_fits]] by blast

end
