(* ===== verification/Bolt.thy ===== *)
theory Bolt
  imports Rust_Result "HOL-Library.List_Lexorder"
begin

text \<open>
  The bbolt database of the statistics: \<open>crates/sift-bolt/src/lib.rs\<close>, \<open>page.rs\<close>, \<open>write.rs\<close> and \<open>read.rs\<close>.

  A page image is a list of bytes and a fixed-offset field access is \<open>bytes_at\<close>.  A \<open>usize\<close> is a natural
  number, with the 64-bit checks the code makes, and the one sum that may wrap, written out; the sums of
  32-bit fields cannot reach 2^64.  Page ids stay 64-bit words.  The theory ends
  with the shape of a leaf page: \<open>encode_leaf_eq\<close> is what the writer produces and \<open>walk_leaf_image\<close> what the
  reader makes of it.
\<close>

section \<open>Bytes\<close>

text \<open>\<open>to_le_bytes\<close> and \<open>from_le_bytes\<close>, and a write into a slice.\<close>

definition le_put :: "nat \<Rightarrow> 'a::len word \<Rightarrow> u8 list" where
  "le_put n v = map (\<lambda>i. ucast (drop_bit (8 * i) v)) [0..<n]"

definition le_get :: "u8 list \<Rightarrow> 'a::len word" where
  "le_get bs = foldr (\<lambda>b v. ucast b OR push_bit 8 v) bs 0"

definition bytes_at :: "nat \<Rightarrow> nat \<Rightarrow> u8 list \<Rightarrow> u8 list" where
  "bytes_at off n b = take n (drop off b)"

definition write_at :: "nat \<Rightarrow> u8 list \<Rightarrow> u8 list \<Rightarrow> u8 list" where
  "write_at off w b = take off b @ w @ drop (off + length w) b"

definition is_power_of_two :: "nat \<Rightarrow> bool" where
  "is_power_of_two n \<longleftrightarrow> list_ex (\<lambda>k. n = 2 ^ k) [0..<64]"

text \<open>A \<open>BTreeMap\<close> is an association list in the order of its keys.\<close>

fun bt_insert :: "'k::linorder \<Rightarrow> 'v \<Rightarrow> ('k \<times> 'v) list \<Rightarrow> ('k \<times> 'v) list" where
  "bt_insert k v [] = [(k, v)]"
| "bt_insert k v ((k', v') # m) =
     (if k < k' then (k, v) # (k', v') # m else if k = k' then (k, v) # m else (k', v') # bt_insert k v m)"

section \<open>The format\<close>

definition MAGIC :: u32 where "MAGIC = 0xED0CDAED"
definition VERSION :: u32 where "VERSION = 2"
definition DEFAULT_PAGE_SIZE :: nat where "DEFAULT_PAGE_SIZE = 4096"

text \<open>Errors carry the data their messages format; \<open>Io\<close> errors are outside the model.\<close>

datatype bolt_error =
    NotBoltShort
  | NotBoltMagic u32
  | CorruptHeader
  | CorruptMeta
  | CorruptLeaf
  | CorruptBranch
  | CorruptBucket
  | CorruptPageSize nat
  | CorruptNoMeta
  | CorruptOffset
  | CorruptPastEnd u64
  | CorruptEntry
  | CorruptFlags u16
  | UnsupportedVersion u32
  | UnsupportedPageSize nat
  | UnsupportedKeys nat
  | UnsupportedBucket
  | UnsupportedKey
  | UnsupportedValue
  | UnsupportedPages

definition FNV_OFFSET :: u64 where "FNV_OFFSET = 0xcbf29ce484222325"
definition FNV_PRIME :: u64 where "FNV_PRIME = 0x00000100000001b3"

definition fnv1a64 :: "u8 list \<Rightarrow> u64" where
  "fnv1a64 bs = foldl (\<lambda>h b. (h XOR ucast b) * FNV_PRIME) FNV_OFFSET bs"

definition PAGE_HEADER :: nat where "PAGE_HEADER = 16"
definition LEAF_ELEM :: nat where "LEAF_ELEM = 16"
definition BRANCH_ELEM :: nat where "BRANCH_ELEM = 16"
definition BUCKET_HEADER :: nat where "BUCKET_HEADER = 16"
definition META_CHECKSUMMED :: nat where "META_CHECKSUMMED = 56"
definition FLAG_BRANCH :: u16 where "FLAG_BRANCH = 0x01"
definition FLAG_LEAF :: u16 where "FLAG_LEAF = 0x02"
definition FLAG_META :: u16 where "FLAG_META = 0x04"
definition FLAG_FREELIST :: u16 where "FLAG_FREELIST = 0x10"
definition BUCKET_LEAF_FLAG :: u32 where "BUCKET_LEAF_FLAG = 0x01"

record page_header =
  ph_id :: u64
  ph_flags :: u16
  ph_count :: u16
  ph_overflow :: u32

definition header_parse :: "u8 list \<Rightarrow> (page_header, bolt_error) rust_result" where
  "header_parse b =
     (if length b < PAGE_HEADER then Err CorruptHeader
      else Ok \<lparr>ph_id = le_get (bytes_at 0 8 b), ph_flags = le_get (bytes_at 8 2 b),
               ph_count = le_get (bytes_at 10 2 b), ph_overflow = le_get (bytes_at 12 4 b)\<rparr>)"

definition header_bytes :: "page_header \<Rightarrow> u8 list" where
  "header_bytes h = le_put 8 (ph_id h) @ le_put 2 (ph_flags h) @ le_put 2 (ph_count h) @ le_put 4 (ph_overflow h)"

definition header_write :: "page_header \<Rightarrow> u8 list \<Rightarrow> u8 list" where
  "header_write h b = write_at 0 (header_bytes h) b"

record bolt_meta =
  mt_magic :: u32
  mt_version :: u32
  mt_page_size :: u32
  mt_flags :: u32
  mt_root :: u64
  mt_root_sequence :: u64
  mt_freelist :: u64
  mt_pgid :: u64
  mt_txid :: u64
  mt_checksum :: u64

definition meta_parse :: "u8 list \<Rightarrow> (bolt_meta, bolt_error) rust_result" where
  "meta_parse page =
     (if length page < PAGE_HEADER + META_CHECKSUMMED + 8 then Err CorruptMeta
      else
        let b = drop PAGE_HEADER page;
            m = \<lparr>mt_magic = le_get (bytes_at 0 4 b), mt_version = le_get (bytes_at 4 4 b),
                 mt_page_size = le_get (bytes_at 8 4 b), mt_flags = le_get (bytes_at 12 4 b),
                 mt_root = le_get (bytes_at 16 8 b), mt_root_sequence = le_get (bytes_at 24 8 b),
                 mt_freelist = le_get (bytes_at 32 8 b), mt_pgid = le_get (bytes_at 40 8 b),
                 mt_txid = le_get (bytes_at 48 8 b), mt_checksum = le_get (bytes_at 56 8 b)\<rparr>
        in if mt_magic m \<noteq> MAGIC then Err (NotBoltMagic (mt_magic m))
           else if mt_version m \<noteq> VERSION then Err (UnsupportedVersion (mt_version m))
           else Ok m)"

definition checksum_ok :: "bolt_meta \<Rightarrow> u8 list \<Rightarrow> bool" where
  "checksum_ok m page \<longleftrightarrow> \<not> length page < PAGE_HEADER + META_CHECKSUMMED
     \<and> fnv1a64 (bytes_at PAGE_HEADER META_CHECKSUMMED page) = mt_checksum m"

definition meta_body :: "bolt_meta \<Rightarrow> u8 list" where
  "meta_body m = le_put 4 (mt_magic m) @ le_put 4 (mt_version m) @ le_put 4 (mt_page_size m) @ le_put 4 (mt_flags m)
     @ le_put 8 (mt_root m) @ le_put 8 (mt_root_sequence m) @ le_put 8 (mt_freelist m) @ le_put 8 (mt_pgid m)
     @ le_put 8 (mt_txid m)"

definition meta_write :: "bolt_meta \<Rightarrow> u64 \<Rightarrow> u8 list \<Rightarrow> u8 list" where
  "meta_write m pid page =
     (let page = header_write \<lparr>ph_id = pid, ph_flags = FLAG_META, ph_count = 0, ph_overflow = 0\<rparr> page;
          page = write_at PAGE_HEADER (meta_body m) page;
          sum = fnv1a64 (bytes_at PAGE_HEADER META_CHECKSUMMED page)
      in write_at (PAGE_HEADER + 56) (le_put 8 sum) page)"

record leaf_elem =
  le_flags :: u32
  le_pos :: u32
  le_ksize :: u32
  le_vsize :: u32

definition leaf_parse :: "u8 list \<Rightarrow> (leaf_elem, bolt_error) rust_result" where
  "leaf_parse b =
     (if length b < LEAF_ELEM then Err CorruptLeaf
      else Ok \<lparr>le_flags = le_get (bytes_at 0 4 b), le_pos = le_get (bytes_at 4 4 b),
               le_ksize = le_get (bytes_at 8 4 b), le_vsize = le_get (bytes_at 12 4 b)\<rparr>)"

definition leaf_bytes :: "leaf_elem \<Rightarrow> u8 list" where
  "leaf_bytes e = le_put 4 (le_flags e) @ le_put 4 (le_pos e) @ le_put 4 (le_ksize e) @ le_put 4 (le_vsize e)"

definition is_bucket :: "leaf_elem \<Rightarrow> bool" where
  "is_bucket e \<longleftrightarrow> le_flags e AND BUCKET_LEAF_FLAG \<noteq> 0"

record branch_elem =
  be_pos :: u32
  be_ksize :: u32
  be_pgid :: u64

definition branch_parse :: "u8 list \<Rightarrow> (branch_elem, bolt_error) rust_result" where
  "branch_parse b =
     (if length b < BRANCH_ELEM then Err CorruptBranch
      else Ok \<lparr>be_pos = le_get (bytes_at 0 4 b), be_ksize = le_get (bytes_at 4 4 b), be_pgid = le_get (bytes_at 8 8 b)\<rparr>)"

record bucket_header =
  bh_root :: u64
  bh_sequence :: u64

definition bucket_parse :: "u8 list \<Rightarrow> (bucket_header, bolt_error) rust_result" where
  "bucket_parse b =
     (if length b < BUCKET_HEADER then Err CorruptBucket
      else Ok \<lparr>bh_root = le_get (bytes_at 0 8 b), bh_sequence = le_get (bytes_at 8 8 b)\<rparr>)"

definition bucket_bytes :: "bucket_header \<Rightarrow> u8 list" where
  "bucket_bytes h = le_put 8 (bh_root h) @ le_put 8 (bh_sequence h)"

definition is_inline :: "bucket_header \<Rightarrow> bool" where
  "is_inline h \<longleftrightarrow> bh_root h = 0"

section \<open>Writing\<close>

type_synonym bucket_data = "(u8 list \<times> u8 list) list"
type_synonym buckets = "(u8 list \<times> bucket_data) list"

definition max_inline :: "nat \<Rightarrow> nat" where
  "max_inline page_size = page_size div 4"

definition leaf_step ::
  "u32 \<Rightarrow> (nat \<times> u8 list \<times> u8 list) \<Rightarrow> u8 list \<Rightarrow> (u8 list, bolt_error) rust_result" where
  "leaf_step flags = (\<lambda>(i, k, v) body.
     let elem_off = PAGE_HEADER + i * LEAF_ELEM; pos = length body - elem_off in
     if pos \<ge> 2 ^ 32 then Err UnsupportedBucket
     else if length k \<ge> 2 ^ 32 then Err UnsupportedKey
     else if length v \<ge> 2 ^ 32 then Err UnsupportedValue
     else Ok (write_at elem_off
                (leaf_bytes \<lparr>le_flags = flags, le_pos = of_nat pos, le_ksize = of_nat (length k), le_vsize = of_nat (length v)\<rparr>)
                body @ k @ v))"

fun leaf_loop :: "u32 \<Rightarrow> (nat \<times> u8 list \<times> u8 list) list \<Rightarrow> u8 list \<Rightarrow> (u8 list, bolt_error) rust_result" where
  "leaf_loop flags [] body = Ok body"
| "leaf_loop flags (e # es) body = and_then (leaf_step flags e body) (leaf_loop flags es)"

definition encode_leaf_body_flagged :: "bucket_data \<Rightarrow> u32 \<Rightarrow> (u8 list, bolt_error) rust_result" where
  "encode_leaf_body_flagged d flags =
     (if length d \<ge> 2 ^ 16 then Err (UnsupportedKeys (length d))
      else
        let body = replicate (PAGE_HEADER + length d * LEAF_ELEM) 0;
            body = header_write \<lparr>ph_id = 0, ph_flags = FLAG_LEAF, ph_count = of_nat (length d), ph_overflow = 0\<rparr> body
        in leaf_loop flags (enumerate 0 d) body)"

definition encode_leaf_body :: "bucket_data \<Rightarrow> (u8 list, bolt_error) rust_result" where
  "encode_leaf_body d = encode_leaf_body_flagged d 0"

definition pages_for :: "nat \<Rightarrow> nat \<Rightarrow> nat" where
  "pages_for n page_size = max ((n + page_size - 1) div page_size) 1"

definition build_leaf_page_flagged ::
  "u64 \<Rightarrow> bucket_data \<Rightarrow> nat \<Rightarrow> u32 \<Rightarrow> (u8 list, bolt_error) rust_result" where
  "build_leaf_page_flagged pid d page_size flags =
     and_then (encode_leaf_body_flagged d flags) (\<lambda>body.
       let pages = pages_for (length body) page_size;
           body = body @ replicate (pages * page_size - length body) 0
       in if pages - 1 \<ge> 2 ^ 32 then Err UnsupportedPages
          else Ok (header_write \<lparr>ph_id = pid, ph_flags = FLAG_LEAF, ph_count = of_nat (length d),
                                 ph_overflow = of_nat (pages - 1)\<rparr> body))"

definition build_leaf_page :: "u64 \<Rightarrow> bucket_data \<Rightarrow> nat \<Rightarrow> (u8 list, bolt_error) rust_result" where
  "build_leaf_page pid d page_size = build_leaf_page_flagged pid d page_size 0"

datatype planned = Inline "u8 list" | Spilled "u8 list" nat

definition plan_bucket :: "nat \<Rightarrow> bucket_data \<Rightarrow> (planned, bolt_error) rust_result" where
  "plan_bucket page_size d =
     and_then (encode_leaf_body d) (\<lambda>body.
       if BUCKET_HEADER + length body \<le> max_inline page_size then Ok (Inline body)
       else and_then (build_leaf_page 0 d page_size) (\<lambda>page. Ok (Spilled page (length page div page_size))))"

fun plan_buckets :: "nat \<Rightarrow> buckets \<Rightarrow> ((u8 list \<times> planned) list, bolt_error) rust_result" where
  "plan_buckets page_size [] = Ok []"
| "plan_buckets page_size ((name, d) # bs) =
     and_then (plan_bucket page_size d) (\<lambda>p. and_then (plan_buckets page_size bs) (\<lambda>ps. Ok ((name, p) # ps)))"

fun planned_len :: "planned \<Rightarrow> nat" where
  "planned_len (Inline body) = BUCKET_HEADER + length body"
| "planned_len (Spilled _ _) = BUCKET_HEADER"

text \<open>Pass three: the value stored under each name, the pages placed and the next free page.\<close>

fun place_buckets ::
  "(u8 list \<times> planned) list \<Rightarrow> u64 \<Rightarrow> bucket_data \<Rightarrow> (u64 \<times> u8 list) list
     \<Rightarrow> (u64 \<times> bucket_data \<times> (u64 \<times> u8 list) list, bolt_error) rust_result" where
  "place_buckets [] next_page entries spilled = Ok (next_page, entries, spilled)"
| "place_buckets ((name, Inline body) # ps) next_page entries spilled =
     place_buckets ps next_page (bt_insert name (bucket_bytes \<lparr>bh_root = 0, bh_sequence = 0\<rparr> @ body) entries) spilled"
| "place_buckets ((name, Spilled page pages) # ps) next_page entries spilled =
     (if pages - 1 \<ge> 2 ^ 32 then Err UnsupportedPages
      else
        let page = header_write \<lparr>ph_id = next_page, ph_flags = FLAG_LEAF, ph_count = le_get (bytes_at 10 2 page),
                                 ph_overflow = of_nat (pages - 1)\<rparr> page
        in place_buckets ps (next_page + of_nat pages)
             (bt_insert name (bucket_bytes \<lparr>bh_root = next_page, bh_sequence = 0\<rparr>) entries)
             (spilled @ [(next_page, page)]))"

definition ROOT :: u64 where "ROOT = 3"
definition FREELIST :: u64 where "FREELIST = 2"

definition put_page :: "nat \<Rightarrow> u64 \<times> u8 list \<Rightarrow> u8 list \<Rightarrow> u8 list" where
  "put_page page_size = (\<lambda>(pid, page) out. write_at (unat pid * page_size) page out)"

definition build_image :: "nat \<Rightarrow> u64 \<Rightarrow> u8 list \<Rightarrow> (u64 \<times> u8 list) list \<Rightarrow> u8 list" where
  "build_image page_size npages root_page spilled =
     (let out = replicate (unat npages * page_size) 0;
          out = write_at (unat FREELIST * page_size)
                  (header_bytes \<lparr>ph_id = FREELIST, ph_flags = FLAG_FREELIST, ph_count = 0, ph_overflow = 0\<rparr>) out;
          out = put_page page_size (ROOT, root_page) out;
          out = foldl (\<lambda>out p. put_page page_size p out) out spilled;
          meta = \<lparr>mt_magic = MAGIC, mt_version = VERSION, mt_page_size = of_nat page_size, mt_flags = 0, mt_root = ROOT,
                  mt_root_sequence = 0, mt_freelist = FREELIST, mt_pgid = npages, mt_txid = 2, mt_checksum = 0\<rparr>;
          out = put_page page_size (0, meta_write meta 0 (replicate page_size 0)) out
      in put_page page_size (1, meta_write (meta\<lparr>mt_txid := 3\<rparr>) 1 (replicate page_size 0)) out)"

definition build_bolt :: "buckets \<Rightarrow> nat \<Rightarrow> (u8 list, bolt_error) rust_result" where
  "build_bolt bs page_size =
     (if page_size < 512 \<or> \<not> is_power_of_two page_size then Err (UnsupportedPageSize page_size)
      else and_then (plan_buckets page_size bs) (\<lambda>ps.
        let sizing = foldl (\<lambda>m (name, p). bt_insert name (replicate (planned_len p) 0) m) [] ps in
        and_then (build_leaf_page_flagged ROOT sizing page_size BUCKET_LEAF_FLAG) (\<lambda>sized.
        let root_pages = length sized div page_size in
        and_then (place_buckets ps (ROOT + of_nat root_pages) [] []) (\<lambda>(next_page, entries, spilled).
        and_then (build_leaf_page_flagged ROOT entries page_size BUCKET_LEAF_FLAG) (\<lambda>root_page.
          Ok (build_image page_size next_page root_page spilled))))))"

section \<open>Reading\<close>

record bolt_db =
  db_data :: "u8 list"
  db_page_size :: nat
  db_root :: u64

definition page_bytes :: "bolt_db \<Rightarrow> u64 \<Rightarrow> (u8 list, bolt_error) rust_result" where
  "page_bytes db pid =
     (let start = unat pid * db_page_size db; end' = start + db_page_size db in
      if start \<ge> 2 ^ 64 \<or> end' \<ge> 2 ^ 64 then Err CorruptOffset
      else if end' > length (db_data db) then Err (CorruptPastEnd pid)
      else Ok (bytes_at start (db_page_size db) (db_data db)))"

text \<open>
  The end of a page with its overflow, in arithmetic that wraps at the width of a \<open>usize\<close>; a slice that
  ends before it starts panics.  The model is that of a 64-bit build.
\<close>

definition overflow_end :: "nat \<Rightarrow> nat \<Rightarrow> nat \<Rightarrow> nat \<Rightarrow> nat" where
  "overflow_end width start pages page_size = (start + pages * page_size) mod 2 ^ width"

definition page_with_overflow :: "bolt_db \<Rightarrow> u64 \<Rightarrow> (u8 list, bolt_error) rust_result" where
  "page_with_overflow db pid =
     and_then (page_bytes db pid) (\<lambda>page. and_then (header_parse page) (\<lambda>h.
       let pages = 1 + unat (ph_overflow h);
           start = unat pid * db_page_size db;
           end' = min (overflow_end 64 start pages (db_page_size db)) (length (db_data db))
       in if end' < start then Panic
          else Ok (bytes_at start (end' - start) (db_data db))))"

type_synonym entry = "u8 list \<times> u32 \<times> u8 list"

text \<open>Indexing a page from an offset past its end panics.\<close>

definition leaf_entry :: "u8 list \<Rightarrow> nat \<Rightarrow> (entry, bolt_error) rust_result" where
  "leaf_entry page i =
     (let eo = PAGE_HEADER + i * LEAF_ELEM in
      if eo > length page then Panic
      else and_then (leaf_parse (drop eo page)) (\<lambda>e.
        let key_at = eo + unat (le_pos e); val_at = key_at + unat (le_ksize e) in
        if val_at + unat (le_vsize e) > length page then Err CorruptEntry
        else Ok (bytes_at key_at (unat (le_ksize e)) page, le_flags e, bytes_at val_at (unat (le_vsize e)) page)))"

fun leaf_entries :: "u8 list \<Rightarrow> nat list \<Rightarrow> (entry list, bolt_error) rust_result" where
  "leaf_entries page [] = Ok []"
| "leaf_entries page (i # is) = and_then (leaf_entry page i) (\<lambda>e. and_then (leaf_entries page is) (\<lambda>es. Ok (e # es)))"

text \<open>
  A branch page makes the walk recursive.  The recursion of the code has no limit: the first argument of
  \<open>walk_db\<close> is the depth of calls that are followed, and \<open>None\<close> says that the walk goes deeper.  A walk that
  is \<open>None\<close> for every depth does not return: the program runs out of stack.
\<close>

fun walk_children ::
  "(u64 \<Rightarrow> (entry list, bolt_error) rust_result option) \<Rightarrow> u8 list \<Rightarrow> nat list \<Rightarrow> (entry list, bolt_error) rust_result option" where
  "walk_children rec page [] = Some (Ok [])"
| "walk_children rec page (i # is) =
     (let eo = PAGE_HEADER + i * BRANCH_ELEM in
      if eo > length page then Some Panic
      else case branch_parse (drop eo page) of
             Panic \<Rightarrow> Some Panic
           | Err e \<Rightarrow> Some (Err e)
           | Ok e \<Rightarrow>
               (case rec (be_pgid e) of
                  Some (Ok es) \<Rightarrow> map_option (\<lambda>r. and_then r (\<lambda>es'. Ok (es @ es'))) (walk_children rec page is)
                | r \<Rightarrow> r))"

definition walk_page_with ::
  "(u64 \<Rightarrow> (entry list, bolt_error) rust_result option) \<Rightarrow> u8 list \<Rightarrow> (entry list, bolt_error) rust_result option" where
  "walk_page_with rec page =
     (case header_parse page of
        Panic \<Rightarrow> Some Panic
      | Err e \<Rightarrow> Some (Err e)
      | Ok h \<Rightarrow>
          if ph_flags h AND FLAG_LEAF \<noteq> 0 then Some (leaf_entries page [0..<unat (ph_count h)])
          else if ph_flags h AND FLAG_BRANCH \<noteq> 0 then walk_children rec page [0..<unat (ph_count h)]
          else Some (Err (CorruptFlags (ph_flags h))))"

primrec walk_db :: "nat \<Rightarrow> bolt_db \<Rightarrow> u64 \<Rightarrow> (entry list, bolt_error) rust_result option" where
  "walk_db 0 db pid = None"
| "walk_db (Suc n) db pid =
     (case page_with_overflow db pid of
        Panic \<Rightarrow> Some Panic
      | Err e \<Rightarrow> Some (Err e)
      | Ok page \<Rightarrow> walk_page_with (walk_db n db) page)"

definition read_bucket :: "nat \<Rightarrow> bolt_db \<Rightarrow> u8 list \<Rightarrow> (bucket_data, bolt_error) rust_result option" where
  "read_bucket n db value =
     (case bucket_parse value of
        Panic \<Rightarrow> Some Panic
      | Err e \<Rightarrow> Some (Err e)
      | Ok hdr \<Rightarrow>
          map_option (\<lambda>r. and_then r (\<lambda>es. Ok (foldl (\<lambda>m (k, _, v). bt_insert k v m) [] es)))
            (if is_inline hdr then walk_page_with (walk_db n db) (drop BUCKET_HEADER value) else walk_db n db (bh_root hdr)))"

fun read_buckets :: "nat \<Rightarrow> bolt_db \<Rightarrow> entry list \<Rightarrow> buckets \<Rightarrow> (buckets, bolt_error) rust_result option" where
  "read_buckets n db [] out = Some (Ok out)"
| "read_buckets n db ((name, flags, value) # es) out =
     (if flags AND BUCKET_LEAF_FLAG = 0 then read_buckets n db es out
      else case read_bucket n db value of
             Some (Ok d) \<Rightarrow> read_buckets n db es (bt_insert name d out)
           | Some (Err e) \<Rightarrow> Some (Err e)
           | Some Panic \<Rightarrow> Some Panic
           | None \<Rightarrow> None)"

definition db_buckets :: "nat \<Rightarrow> bolt_db \<Rightarrow> (buckets, bolt_error) rust_result option" where
  "db_buckets n db =
     (case walk_db n db (db_root db) of
        Some (Ok es) \<Rightarrow> read_buckets n db es []
      | Some (Err e) \<Rightarrow> Some (Err e)
      | Some Panic \<Rightarrow> Some Panic
      | None \<Rightarrow> None)"

definition meta_candidate :: "bolt_db \<Rightarrow> bolt_meta option \<Rightarrow> u64 \<Rightarrow> bolt_meta option" where
  "meta_candidate db best i =
     (case page_bytes db i of
        Ok page \<Rightarrow>
          (case meta_parse page of
             Ok m \<Rightarrow>
               if \<not> checksum_ok m page then best
               else (case best of None \<Rightarrow> Some m | Some b \<Rightarrow> if mt_txid m > mt_txid b then Some m else best)
           | _ \<Rightarrow> best)
      | _ \<Rightarrow> best)"

definition from_bytes :: "u8 list \<Rightarrow> (bolt_db, bolt_error) rust_result" where
  "from_bytes d =
     (if length d < 64 then Err NotBoltShort
      else and_then (meta_parse (take (min (length d) 4096) d)) (\<lambda>m0.
        let page_size = unat (mt_page_size m0) in
        if \<not> (512 \<le> page_size \<and> page_size \<le> 2 ^ 20) \<or> \<not> is_power_of_two page_size
        then Err (CorruptPageSize page_size)
        else
          let db = \<lparr>db_data = d, db_page_size = page_size, db_root = 0\<rparr> in
          case foldl (meta_candidate db) None [0, 1] of
            None \<Rightarrow> Err CorruptNoMeta
          | Some m \<Rightarrow> Ok (db\<lparr>db_root := mt_root m\<rparr>)))"

section \<open>Bytes read back\<close>

lemma length_le_put [simp]: "length (le_put n v) = n"
  by (simp add: le_put_def)

lemma le_get_from:
  assumes "k \<le> n"
  shows "le_get (map (\<lambda>i. ucast (drop_bit (8 * i) v)) [k..<n]) = take_bit (8 * (n - k)) (drop_bit (8 * k) v)"
  using assms
proof (induction rule: inc_induct)
  case (step k)
  have "ucast (ucast (drop_bit (8 * k) v) :: u8) OR push_bit 8 (take_bit (8 * (n - Suc k)) (drop_bit (8 * Suc k) v))
    = take_bit (8 * (n - k)) (drop_bit (8 * k) v)"
    using step.hyps by (intro bit_word_eqI) (auto simp: bit_simps algebra_simps)
  then show ?case using step by (simp add: upt_conv_Cons le_get_def)
qed (simp add: le_get_def)

lemma le_get_put: "8 * n = LENGTH('a) \<Longrightarrow> le_get (le_put n v) = v" for v :: "'a::len word"
  using le_get_from [of 0 n v] by (simp add: le_put_def)

lemma le_back [simp]:
  "le_get (le_put 2 v2) = v2" "le_get (le_put 4 v4) = v4" "le_get (le_put 8 v8) = v8"
  for v2 :: u16 and v4 :: u32 and v8 :: u64
  by (simp_all add: le_get_put)

lemma length_bytes [simp]:
  "length (header_bytes h) = 16" "length (leaf_bytes e) = 16" "length (bucket_bytes b) = 16" "length (meta_body m) = 56"
  by (simp_all add: header_bytes_def leaf_bytes_def bucket_bytes_def meta_body_def)

lemma bytes_at_skip: "length a = off \<Longrightarrow> bytes_at off n (a @ b) = take n b"
  by (simp add: bytes_at_def)

lemma header_back: "header_parse (header_bytes h @ rest) = Ok h"
  by (simp add: header_parse_def PAGE_HEADER_def header_bytes_def bytes_at_def)

lemma leaf_back: "leaf_parse (leaf_bytes e @ rest) = Ok e"
  by (simp add: leaf_parse_def LEAF_ELEM_def leaf_bytes_def bytes_at_def)

lemma bucket_back: "bucket_parse (bucket_bytes h @ rest) = Ok h"
  by (simp add: bucket_parse_def BUCKET_HEADER_def bucket_bytes_def bytes_at_def)

lemma header_write_eq: "header_write h b = header_bytes h @ drop 16 b"
  by (simp add: header_write_def write_at_def)

lemma write_at_mid: "length a = off \<Longrightarrow> length z = length w \<Longrightarrow> write_at off w (a @ z @ c) = a @ w @ c"
  by (simp add: write_at_def)

lemma meta_write_eq:
  assumes "80 \<le> n"
  shows "meta_write m pid (replicate n 0) =
    header_bytes \<lparr>ph_id = pid, ph_flags = FLAG_META, ph_count = 0, ph_overflow = 0\<rparr> @ meta_body m
      @ le_put 8 (fnv1a64 (meta_body m)) @ replicate (n - 80) 0"
proof -
  let ?h = "header_bytes \<lparr>ph_id = pid, ph_flags = FLAG_META, ph_count = 0, ph_overflow = 0\<rparr>"
  have e: "replicate (n - 16) (0 :: u8) = replicate 56 0 @ replicate 8 0 @ replicate (n - 80) 0"
    using assms by (simp add: replicate_add [symmetric])
  have "meta_write m pid (replicate n 0) =
    (let page = write_at 16 (meta_body m) (?h @ replicate 56 0 @ replicate 8 0 @ replicate (n - 80) 0)
     in write_at 72 (le_put 8 (fnv1a64 (bytes_at 16 56 page))) page)"
    by (simp add: meta_write_def header_write_eq PAGE_HEADER_def META_CHECKSUMMED_def e)
  also have "\<dots> = write_at 72 (le_put 8 (fnv1a64 (meta_body m))) ((?h @ meta_body m) @ replicate 8 0 @ replicate (n - 80) 0)"
    by (simp add: write_at_mid bytes_at_skip)
  also have "\<dots> = (?h @ meta_body m) @ le_put 8 (fnv1a64 (meta_body m)) @ replicate (n - 80) 0"
    by (rule write_at_mid) simp_all
  finally show ?thesis by simp
qed

lemma meta_back:
  assumes "mt_magic m = MAGIC" "mt_version m = VERSION"
  shows "meta_parse (header_bytes h @ meta_body m @ le_put 8 cs @ rest) = Ok (m\<lparr>mt_checksum := cs\<rparr>)"
  using assms by (simp add: meta_parse_def PAGE_HEADER_def META_CHECKSUMMED_def meta_body_def bytes_at_def Let_def)

lemma checksum_back:
  "checksum_ok (m\<lparr>mt_checksum := fnv1a64 (meta_body m)\<rparr>) (header_bytes h @ meta_body m @ rest)"
  by (simp add: checksum_ok_def PAGE_HEADER_def META_CHECKSUMMED_def bytes_at_skip)

section \<open>Leaf pages\<close>

text \<open>The element table of a leaf whose first element is at \<open>eo\<close> and first key at \<open>dp\<close>.\<close>

fun leaf_table :: "u32 \<Rightarrow> nat \<Rightarrow> nat \<Rightarrow> bucket_data \<Rightarrow> u8 list" where
  "leaf_table flags eo dp [] = []"
| "leaf_table flags eo dp ((k, v) # d) =
     leaf_bytes \<lparr>le_flags = flags, le_pos = of_nat (dp - eo), le_ksize = of_nat (length k), le_vsize = of_nat (length v)\<rparr>
     @ leaf_table flags (eo + 16) (dp + length k + length v) d"

definition leaf_data :: "bucket_data \<Rightarrow> u8 list" where
  "leaf_data d = concat (map (\<lambda>(k, v). k @ v) d)"

definition leaf_image :: "page_header \<Rightarrow> u32 \<Rightarrow> bucket_data \<Rightarrow> u8 list" where
  "leaf_image h flags d = header_bytes h @ leaf_table flags 16 (16 + 16 * length d) d @ leaf_data d"

definition leaf_size :: "bucket_data \<Rightarrow> nat" where
  "leaf_size d = 16 + 16 * length d + length (leaf_data d)"

definition leaf_fits :: "bucket_data \<Rightarrow> bool" where
  "leaf_fits d \<longleftrightarrow> length d < 2 ^ 16 \<and> leaf_size d < 2 ^ 32"

lemma length_leaf_table [simp]: "length (leaf_table flags eo dp d) = 16 * length d"
  by (induction flags eo dp d rule: leaf_table.induct) auto

lemma length_leaf_image [simp]: "length (leaf_image h flags d) = leaf_size d"
  by (simp add: leaf_image_def leaf_size_def)

lemma leaf_data_simps [simp]: "leaf_data [] = []" "leaf_data ((k, v) # d) = k @ v @ leaf_data d"
  by (simp_all add: leaf_data_def)

lemma leaf_loop_eq:
  assumes "length P = 16 + 16 * i" "16 + 16 * i + 16 * length d + length D + length (leaf_data d) < 2 ^ 32"
  shows "leaf_loop flags (enumerate i d) (P @ replicate (16 * length d) 0 @ D) =
    Ok (P @ leaf_table flags (16 + 16 * i) (16 + 16 * i + 16 * length d + length D) d @ D @ leaf_data d)"
  using assms
proof (induction d arbitrary: P i D)
  case (Cons e d)
  obtain k v where e: "e = (k, v)" by (cases e)
  let ?n = "16 * length d"
  let ?el = "leaf_bytes \<lparr>le_flags = flags, le_pos = of_nat (16 + ?n + length D), le_ksize = of_nat (length k), le_vsize = of_nat (length v)\<rparr>"
  have w: "write_at (16 + 16 * i) ?el (P @ replicate 16 0 @ replicate ?n 0 @ D) = P @ ?el @ replicate ?n 0 @ D"
    by (rule write_at_mid) (use Cons.prems in simp_all)
  have r: "replicate (16 * length (e # d)) (0 :: u8) = replicate 16 0 @ replicate ?n 0"
    by (simp add: replicate_add [symmetric] del: replicate_Suc)
  have "leaf_step flags (i, k, v) (P @ replicate (16 * length (e # d)) 0 @ D)
    = Ok ((P @ ?el) @ replicate ?n 0 @ (D @ k @ v))"
    using Cons.prems w unfolding r by (simp add: leaf_step_def Let_def PAGE_HEADER_def LEAF_ELEM_def e mult.commute add.assoc)
  moreover have "leaf_loop flags (enumerate (Suc i) d) ((P @ ?el) @ replicate ?n 0 @ (D @ k @ v)) =
    Ok ((P @ ?el) @ leaf_table flags (16 + 16 * Suc i) (16 + 16 * Suc i + ?n + length (D @ k @ v)) d @ (D @ k @ v) @ leaf_data d)"
    by (rule Cons.IH) (use Cons.prems in \<open>simp_all add: e\<close>)
  ultimately show ?case by (simp add: e ac_simps)
qed simp

lemma encode_leaf_eq:
  assumes "leaf_fits d"
  shows "encode_leaf_body_flagged d flags =
    Ok (leaf_image \<lparr>ph_id = 0, ph_flags = FLAG_LEAF, ph_count = of_nat (length d), ph_overflow = 0\<rparr> flags d)"
proof -
  let ?h = "header_bytes \<lparr>ph_id = 0, ph_flags = FLAG_LEAF, ph_count = of_nat (length d), ph_overflow = 0\<rparr>"
  have "drop 16 (replicate (16 + length d * 16) (0 :: u8)) = replicate (16 * length d) 0 @ []"
    by (simp add: mult.commute)
  then show ?thesis
    using leaf_loop_eq [of ?h 0 d "[]" flags] assms
    by (simp add: mult.commute [of "length d" 16] encode_leaf_body_flagged_def leaf_fits_def leaf_size_def leaf_image_def header_write_eq Let_def
        PAGE_HEADER_def LEAF_ELEM_def)
qed

lemma leaf_entries_eq:
  assumes "length P = 16 + 16 * i" "16 + 16 * i + 16 * length d + length D + length (leaf_data d) < 2 ^ 32"
  shows "leaf_entries (P @ leaf_table flags (16 + 16 * i) (16 + 16 * i + 16 * length d + length D) d @ D @ leaf_data d @ pad)
    [i..<i + length d] = Ok (map (\<lambda>(k, v). (k, flags, v)) d)"
  using assms
proof (induction d arbitrary: P i D)
  case (Cons e d)
  obtain k v where e: "e = (k, v)" by (cases e)
  let ?n = "16 * length d"
  let ?el = "\<lparr>le_flags = flags, le_pos = of_nat (16 + ?n + length D), le_ksize = of_nat (length k), le_vsize = of_nat (length v)\<rparr> :: leaf_elem"
  let ?t = "leaf_table flags (32 + 16 * i) (32 + 16 * i + ?n + length D + length k + length v) d"
  let ?page = "P @ leaf_bytes ?el @ ?t @ D @ k @ v @ leaf_data d @ pad"
  have page: "P @ leaf_table flags (16 + 16 * i) (16 + 16 * i + 16 * length (e # d) + length D) (e # d) @ D @ leaf_data (e # d) @ pad = ?page"
    by (simp add: e add.commute add.left_commute)
  have u: "unat (le_pos ?el) = 16 + ?n + length D" "unat (le_ksize ?el) = length k" "unat (le_vsize ?el) = length v"
    using Cons.prems by (simp_all add: e unat_of_nat_small del: of_nat_add of_nat_mult)
  have "bytes_at (16 + 16 * i + (16 + ?n + length D)) (length k) ((P @ leaf_bytes ?el @ ?t @ D) @ k @ v @ leaf_data d @ pad)
    = take (length k) (k @ v @ leaf_data d @ pad)"
    by (rule bytes_at_skip) (use Cons.prems in simp)
  moreover have "bytes_at (16 + 16 * i + (16 + ?n + length D) + length k) (length v) ((P @ leaf_bytes ?el @ ?t @ D @ k) @ v @ leaf_data d @ pad)
    = take (length v) (v @ leaf_data d @ pad)"
    by (rule bytes_at_skip) (use Cons.prems in simp)
  ultimately have "leaf_entry ?page i = Ok (k, flags, v)"
    using Cons.prems u
    by (simp add: leaf_entry_def PAGE_HEADER_def LEAF_ELEM_def mult.commute [of i] leaf_back Let_def)
  moreover have "leaf_entries ((P @ leaf_bytes ?el) @ leaf_table flags (16 + 16 * Suc i) (16 + 16 * Suc i + ?n + length (D @ k @ v)) d
    @ (D @ k @ v) @ leaf_data d @ pad) [Suc i..<Suc i + length d] = Ok (map (\<lambda>(k, v). (k, flags, v)) d)"
    by (rule Cons.IH) (use Cons.prems in \<open>simp_all add: e\<close>)
  then have "leaf_entries ?page [Suc i..<Suc i + length d] = Ok (map (\<lambda>(k, v). (k, flags, v)) d)"
    by (simp add: ac_simps del: upt_Suc upt.simps)
  moreover have "[i..<i + length (e # d)] = i # [Suc i..<Suc i + length d]" by (simp add: upt_conv_Cons del: upt_Suc)
  ultimately show ?case unfolding page by (simp add: e)
qed simp

lemma walk_leaf_image:
  assumes "leaf_fits d" "ph_flags h = FLAG_LEAF" "ph_count h = of_nat (length d)"
  shows "walk_page_with w (leaf_image h flags d @ pad) = Some (Ok (map (\<lambda>(k, v). (k, flags, v)) d))"
proof -
  have "unat (ph_count h) = length d" using assms by (simp add: leaf_fits_def unat_of_nat_small)
  moreover have "header_parse (leaf_image h flags d @ pad) = Ok h" by (simp add: leaf_image_def header_back)
  moreover have "FLAG_LEAF AND FLAG_LEAF \<noteq> 0" by (simp add: FLAG_LEAF_def)
  moreover have "leaf_entries (leaf_image h flags d @ pad) [0..<length d] = Ok (map (\<lambda>(k, v). (k, flags, v)) d)"
    using leaf_entries_eq [of "header_bytes h" 0 d "[]" flags pad] assms(1)
    by (simp add: leaf_image_def leaf_fits_def leaf_size_def)
  ultimately show ?thesis using assms(2) by (simp add: walk_page_with_def)
qed

end
