(* ===== verification/Bolt_Roundtrip.thy ===== *)
theory Bolt_Roundtrip
  imports Bolt
begin

text \<open>
  A database file as a whole: what \<open>build\<close> writes is the two meta pages, an empty free list, the root
  leaf and the spilled buckets (\<open>build_bolt_eq\<close>), and \<open>Db::from_bytes\<close> and \<open>Db::buckets\<close> read it back
  (\<open>bolt_read_back\<close>).  The reader returns without a panic on any bytes in which no branch page leads back
  to itself (\<open>walk_returns\<close>); one that is its own child makes it run forever (\<open>bolt_self_branch_file\<close>).
\<close>

section \<open>Whole files\<close>

lemma bt_insert_last: "\<forall>x \<in> fst ` set m. x < k \<Longrightarrow> bt_insert k v m = m @ [(k, v)]"
proof (induction m)
  case (Cons a m)
  then show ?case by (cases a) (auto dest: less_asym)
qed simp

lemma map_of_bt_insert: "map_of (bt_insert k v m) k' = (if k = k' then Some v else map_of m k')"
  by (induction k v m rule: bt_insert.induct) auto

lemma bt_insert_sorted:
  "sorted_wrt (<) (map fst (m @ [(k, w)])) \<Longrightarrow> bt_insert k v m = m @ [(k, v)]"
  by (rule bt_insert_last) (auto simp: sorted_wrt_append)

lemma foldl_bt_insert:
  "sorted_wrt (<) (map fst m @ map fst xs) \<Longrightarrow> foldl (\<lambda>m (k, v). bt_insert k v m) m xs = m @ xs"
proof (induction xs arbitrary: m)
  case (Cons a xs)
  obtain k v where a: "a = (k, v)" by (cases a)
  have "bt_insert k v m = m @ [(k, v)]"
    by (rule bt_insert_last) (use Cons.prems in \<open>auto simp: a sorted_wrt_append\<close>)
  moreover have "sorted_wrt (<) (map fst (m @ [(k, v)]) @ map fst xs)" using Cons.prems by (simp add: a)
  ultimately show ?case using Cons.IH [of "m @ [(k, v)]"] by (simp add: a)
qed simp

lemma pages_for_pos: "0 < pages_for n ps"
  by (simp add: pages_for_def)

lemma pages_for_covers:
  assumes "0 < ps"
  shows "n \<le> pages_for n ps * ps"
proof -
  have "n \<le> (n + ps - 1) div ps * ps"
    using dividend_less_div_times [OF assms, of "n + ps - 1"] assms by linarith
  also have "\<dots> \<le> pages_for n ps * ps" by (simp add: pages_for_def)
  finally show ?thesis .
qed

lemma pages_for_tight:
  assumes "0 < ps"
  shows "pages_for n ps * ps \<le> n + ps"
proof -
  have "(n + ps - 1) div ps * ps \<le> n + ps - 1" by (rule div_times_less_eq_dividend)
  then have "(n + ps - 1) div ps * ps \<le> n + ps" by linarith
  then show ?thesis by (simp add: pages_for_def max_def)
qed

lemma pages_for_small:
  assumes "0 < ps" "n < 2 ^ 32"
  shows "pages_for n ps - 1 < 2 ^ 32"
proof -
  have "(n + ps - 1) div ps \<le> (n + ps) div ps" by (rule div_le_mono) simp
  also have "\<dots> = n div ps + 1" using assms(1) by (simp add: div_add_self2)
  also have "\<dots> \<le> n + 1" by simp
  finally show ?thesis using assms(2) by (simp add: pages_for_def)
qed

text \<open>A leaf page with its padding, and the size a bucket takes in the root.\<close>

definition leaf_page :: "nat \<Rightarrow> u64 \<Rightarrow> u32 \<Rightarrow> bucket_data \<Rightarrow> u8 list" where
  "leaf_page ps pid flags d =
     leaf_image \<lparr>ph_id = pid, ph_flags = FLAG_LEAF, ph_count = of_nat (length d),
                 ph_overflow = of_nat (pages_for (leaf_size d) ps - 1)\<rparr> flags d
     @ replicate (pages_for (leaf_size d) ps * ps - leaf_size d) 0"

lemma length_leaf_page: "0 < ps \<Longrightarrow> length (leaf_page ps pid flags d) = pages_for (leaf_size d) ps * ps"
  using pages_for_covers [of ps "leaf_size d"] by (simp add: leaf_page_def)

lemma header_write_leaf_image: "header_write h (leaf_image h' flags d @ r) = leaf_image h flags d @ r"
  by (simp add: header_write_eq leaf_image_def)

lemma header_write_leaf_page:
  "header_write \<lparr>ph_id = pid, ph_flags = FLAG_LEAF, ph_count = of_nat (length d),
                 ph_overflow = of_nat (pages_for (leaf_size d) ps - 1)\<rparr> (leaf_page ps pid' flags d) = leaf_page ps pid flags d"
  by (simp add: leaf_page_def header_write_leaf_image)

lemma build_leaf_page_eq:
  assumes "leaf_fits d" "0 < ps"
  shows "build_leaf_page_flagged pid d ps flags = Ok (leaf_page ps pid flags d)"
  using assms pages_for_small [of ps "leaf_size d"]
  by (simp add: build_leaf_page_flagged_def encode_leaf_eq header_write_leaf_image leaf_page_def leaf_fits_def Let_def)

definition inlined :: "nat \<Rightarrow> bucket_data \<Rightarrow> bool" where
  "inlined ps d \<longleftrightarrow> 16 + leaf_size d \<le> ps div 4"

definition inline_page :: "bucket_data \<Rightarrow> u8 list" where
  "inline_page d = leaf_image \<lparr>ph_id = 0, ph_flags = FLAG_LEAF, ph_count = of_nat (length d), ph_overflow = 0\<rparr> 0 d"

definition plan_of :: "nat \<Rightarrow> bucket_data \<Rightarrow> planned" where
  "plan_of ps d = (if inlined ps d then Inline (inline_page d) else Spilled (leaf_page ps 0 0 d) (pages_for (leaf_size d) ps))"

lemma plan_of_simps:
  "inlined ps d \<Longrightarrow> plan_of ps d = Inline (inline_page d)"
  "\<not> inlined ps d \<Longrightarrow> plan_of ps d = Spilled (leaf_page ps 0 0 d) (pages_for (leaf_size d) ps)"
  by (simp_all add: plan_of_def)

lemma plan_bucket_eq: "leaf_fits d \<Longrightarrow> 0 < ps \<Longrightarrow> plan_bucket ps d = Ok (plan_of ps d)"
  by (simp add: plan_bucket_def encode_leaf_body_def encode_leaf_eq build_leaf_page_def build_leaf_page_eq plan_of_def
      inlined_def max_inline_def BUCKET_HEADER_def inline_page_def length_leaf_page)

lemma plan_buckets_eq:
  "\<forall>d \<in> snd ` set bs. leaf_fits d \<Longrightarrow> 0 < ps \<Longrightarrow> plan_buckets ps bs = Ok (map (\<lambda>(name, d). (name, plan_of ps d)) bs)"
  by (induction bs) (auto simp: plan_bucket_eq)

text \<open>What the third pass produces when the next free page is \<open>p\<close>.\<close>

fun roots :: "nat \<Rightarrow> nat \<Rightarrow> buckets \<Rightarrow> bucket_data" where
  "roots ps p [] = []"
| "roots ps p ((name, d) # bs) =
     (if inlined ps d then (name, bucket_bytes \<lparr>bh_root = 0, bh_sequence = 0\<rparr> @ inline_page d) # roots ps p bs
      else (name, bucket_bytes \<lparr>bh_root = of_nat p, bh_sequence = 0\<rparr>) # roots ps (p + pages_for (leaf_size d) ps) bs)"

fun spills :: "nat \<Rightarrow> nat \<Rightarrow> buckets \<Rightarrow> (u64 \<times> u8 list) list" where
  "spills ps p [] = []"
| "spills ps p ((name, d) # bs) =
     (if inlined ps d then spills ps p bs
      else (of_nat p, leaf_page ps (of_nat p) 0 d) # spills ps (p + pages_for (leaf_size d) ps) bs)"

fun spill_pages :: "nat \<Rightarrow> buckets \<Rightarrow> nat" where
  "spill_pages ps [] = 0"
| "spill_pages ps ((name, d) # bs) = (if inlined ps d then 0 else pages_for (leaf_size d) ps) + spill_pages ps bs"

lemma leaf_page_count: "le_get (bytes_at 10 2 (leaf_page ps pid flags d)) = (of_nat (length d) :: u16)"
  by (simp add: leaf_page_def leaf_image_def header_bytes_def bytes_at_def)

lemma map_fst_roots [simp]: "map fst (roots ps p bs) = map fst bs"
  by (induction ps p bs rule: roots.induct) auto

lemma place_eq:
  assumes "\<forall>d \<in> snd ` set bs. leaf_fits d" "0 < ps" "sorted_wrt (<) (map fst es @ map fst bs)"
  shows "place_buckets (map (\<lambda>(name, d). (name, plan_of ps d)) bs) (of_nat p) es sp
    = Ok (of_nat (p + spill_pages ps bs), es @ roots ps p bs, sp @ spills ps p bs)"
  using assms
proof (induction bs arbitrary: p es sp)
  case (Cons b bs)
  obtain name d where b: "b = (name, d)" by (cases b)
  have ins: "bt_insert name v es = es @ [(name, v)]" for v
    by (rule bt_insert_last) (use Cons.prems in \<open>auto simp: b sorted_wrt_append\<close>)
  have srt: "sorted_wrt (<) (map fst (es @ [(name, v)]) @ map fst bs)" for v using Cons.prems by (simp add: b)
  have small: "pages_for (leaf_size d) ps - 1 < 2 ^ 32"
    by (rule pages_for_small) (use Cons.prems in \<open>simp_all add: b leaf_fits_def\<close>)
  show ?case
  proof (cases "inlined ps d")
    case True
    then show ?thesis using Cons.prems srt by (simp add: b plan_of_simps ins Cons.IH)
  next
    case False
    have nxt: "of_nat p + of_nat (pages_for (leaf_size d) ps) = (of_nat (p + pages_for (leaf_size d) ps) :: u64)" by simp
    show ?thesis
      using False Cons.prems srt small
      by (simp add: b plan_of_simps ins leaf_page_count header_write_leaf_page [simplified] nxt Cons.IH add.assoc del: of_nat_add)
  qed
qed simp

text \<open>The file is the two meta pages, the free list, the root's leaf page and the spilled pages.\<close>

lemma put_page_mid:
  assumes "length P = p * ps" "p < 2 ^ 64" "length z = length page"
  shows "put_page ps (of_nat p, page) (P @ z @ R) = P @ page @ R"
  using assms by (simp add: put_page_def unat_of_nat_small write_at_mid)

lemma foldl_put_pages:
  assumes "length P = p * ps" "p + spill_pages ps bs < 2 ^ 64" "0 < ps"
  shows "foldl (\<lambda>out q. put_page ps q out) (P @ replicate (spill_pages ps bs * ps) 0) (spills ps p bs)
    = P @ concat (map snd (spills ps p bs))"
  using assms
proof (induction bs arbitrary: P p)
  case (Cons b bs)
  obtain name d where b: "b = (name, d)" by (cases b)
  show ?case
  proof (cases "inlined ps d")
    case True
    then show ?thesis using Cons by (simp add: b)
  next
    case False
    let ?k = "pages_for (leaf_size d) ps" and ?page = "leaf_page ps (of_nat p) 0 d"
    have l: "length ?page = ?k * ps" using Cons.prems by (simp add: length_leaf_page)
    have r: "replicate (spill_pages ps (b # bs) * ps) (0 :: u8) = replicate (?k * ps) 0 @ replicate (spill_pages ps bs * ps) 0"
      using False by (simp add: b replicate_add [symmetric] algebra_simps)
    have "put_page ps (of_nat p, ?page) (P @ replicate (spill_pages ps (b # bs) * ps) 0)
      = (P @ ?page) @ replicate (spill_pages ps bs * ps) 0"
      unfolding r using put_page_mid [OF Cons.prems(1), of "replicate (?k * ps) 0" ?page] l Cons.prems(2) by simp
    moreover have "foldl (\<lambda>out q. put_page ps q out) ((P @ ?page) @ replicate (spill_pages ps bs * ps) 0)
      (spills ps (p + ?k) bs) = (P @ ?page) @ concat (map snd (spills ps (p + ?k) bs))"
      by (rule Cons.IH) (use Cons.prems False l in \<open>simp_all add: b algebra_simps\<close>)
    ultimately show ?thesis using False by (simp add: b)
  qed
qed simp

definition meta_for :: "nat \<Rightarrow> u64 \<Rightarrow> u64 \<Rightarrow> bolt_meta" where
  "meta_for ps npages txid =
     \<lparr>mt_magic = MAGIC, mt_version = VERSION, mt_page_size = of_nat ps, mt_flags = 0, mt_root = ROOT,
      mt_root_sequence = 0, mt_freelist = FREELIST, mt_pgid = npages, mt_txid = txid, mt_checksum = 0\<rparr>"

definition meta_page :: "nat \<Rightarrow> u64 \<Rightarrow> u64 \<Rightarrow> u64 \<Rightarrow> u8 list" where
  "meta_page ps npages txid pid =
     header_bytes \<lparr>ph_id = pid, ph_flags = FLAG_META, ph_count = 0, ph_overflow = 0\<rparr> @ meta_body (meta_for ps npages txid)
       @ le_put 8 (fnv1a64 (meta_body (meta_for ps npages txid))) @ replicate (ps - 80) 0"

definition free_page :: "nat \<Rightarrow> u8 list" where
  "free_page ps = header_bytes \<lparr>ph_id = FREELIST, ph_flags = FLAG_FREELIST, ph_count = 0, ph_overflow = 0\<rparr> @ replicate (ps - 16) 0"

lemma length_meta_page: "80 \<le> ps \<Longrightarrow> length (meta_page ps npages txid pid) = ps"
  by (simp add: meta_page_def)

lemma length_free_page: "16 \<le> ps \<Longrightarrow> length (free_page ps) = ps"
  by (simp add: free_page_def)

lemma build_image_eq:
  assumes ps: "512 \<le> ps" and rp: "length R = rp * ps" and n: "3 + rp + spill_pages ps bs < 2 ^ 64"
  shows "build_image ps (of_nat (3 + rp + spill_pages ps bs)) R (spills ps (3 + rp) bs) =
    meta_page ps (of_nat (3 + rp + spill_pages ps bs)) 2 0 @ meta_page ps (of_nat (3 + rp + spill_pages ps bs)) 3 1
      @ free_page ps @ R @ concat (map snd (spills ps (3 + rp) bs))"
proof -
  let ?n = "3 + rp + spill_pages ps bs" and ?S = "concat (map snd (spills ps (3 + rp) bs))"
  let ?z = "\<lambda>k. replicate k (0 :: u8)"
  let ?F = "header_bytes \<lparr>ph_id = FREELIST, ph_flags = FLAG_FREELIST, ph_count = 0, ph_overflow = 0\<rparr>"
  have u: "unat (of_nat ?n :: u64) = ?n" using n by (simp add: unat_of_nat_small del: of_nat_add)
  have z: "?z (?n * ps) = (?z ps @ ?z ps) @ ?z 16 @ ?z (ps - 16) @ ?z (rp * ps) @ ?z (spill_pages ps bs * ps)"
    using ps by (simp add: replicate_add [symmetric] algebra_simps)
  have m: "meta_write (meta_for ps npages txid) pid (?z ps) = meta_page ps npages txid pid" for npages txid pid
    using ps by (simp add: meta_write_eq meta_page_def)
  have f: "write_at (unat FREELIST * ps) ?F (?z (?n * ps))
    = (?z ps @ ?z ps @ free_page ps) @ ?z (rp * ps) @ ?z (spill_pages ps bs * ps)"
  proof -
    have "write_at (unat FREELIST * ps) ?F (?z (?n * ps))
      = (?z ps @ ?z ps) @ ?F @ ?z (ps - 16) @ ?z (rp * ps) @ ?z (spill_pages ps bs * ps)"
      unfolding z by (rule write_at_mid) (simp_all add: FREELIST_def)
    then show ?thesis by (simp add: free_page_def)
  qed
  have r: "put_page ps (ROOT, R) ((?z ps @ ?z ps @ free_page ps) @ ?z (rp * ps) @ ?z (spill_pages ps bs * ps))
    = (?z ps @ ?z ps @ free_page ps) @ R @ ?z (spill_pages ps bs * ps)"
    using put_page_mid [of "?z ps @ ?z ps @ free_page ps" 3 ps "?z (rp * ps)" R "?z (spill_pages ps bs * ps)"] ps rp by (simp add: ROOT_def length_free_page)
  have s: "foldl (\<lambda>out q. put_page ps q out) ((?z ps @ ?z ps @ free_page ps @ R) @ ?z (spill_pages ps bs * ps)) (spills ps (3 + rp) bs)
    = (?z ps @ ?z ps @ free_page ps @ R) @ ?S"
    by (rule foldl_put_pages) (use ps rp n in \<open>simp_all add: length_free_page algebra_simps\<close>)
  have a: "put_page ps (0, meta_page ps npages t 0) (?z ps @ rest) = meta_page ps npages t 0 @ rest" for rest npages t
    using put_page_mid [of "[]" 0 ps "?z ps" "meta_page ps npages t 0" rest] ps by (simp add: length_meta_page)
  have b: "put_page ps (1, meta_page ps npages t 1) (meta_page ps npages t' 0 @ ?z ps @ rest)
    = meta_page ps npages t' 0 @ meta_page ps npages t 1 @ rest" for rest npages t t'
    using put_page_mid [of "meta_page ps npages t' 0" 1 ps "?z ps" "meta_page ps npages t 1" rest] ps by (simp add: length_meta_page)
  show ?thesis
    unfolding build_image_def Let_def u f r
    using s by (simp add: m [unfolded meta_for_def] a b)
qed

lemma bytes_at_mid: "length P = s \<Longrightarrow> length m = n \<Longrightarrow> bytes_at s n (P @ m @ R) = m"
  by (simp add: bytes_at_def)

lemma page_bytes_mid:
  assumes "db_data db = P @ m @ R" "length P = unat pid * db_page_size db" "length m = db_page_size db" "length (db_data db) < 2 ^ 64"
  shows "page_bytes db pid = Ok m"
  using assms by (simp add: page_bytes_def bytes_at_def Let_def)

lemma page_with_overflow_leaf:
  assumes d: "db_data db = P @ leaf_page (db_page_size db) pid flags d @ R" and P: "length P = unat pid * db_page_size db"
    and n: "length (db_data db) < 2 ^ 64" and ps: "16 \<le> db_page_size db" and f: "leaf_fits d"
  shows "page_with_overflow db pid = Ok (leaf_page (db_page_size db) pid flags d)"
proof -
  let ?ps = "db_page_size db" let ?pg = "leaf_page ?ps pid flags d" and ?k = "pages_for (leaf_size d) (db_page_size db)"
  have l: "length ?pg = ?k * ?ps" using ps by (simp add: length_leaf_page)
  have k: "1 * ?ps \<le> ?k * ?ps" using pages_for_pos [of "leaf_size d" ?ps] by (intro mult_le_mono1) simp
  have a: "page_bytes db pid = Ok (take ?ps ?pg)"
    by (rule page_bytes_mid [of db P _ "drop ?ps ?pg @ R"]) (use d P n l k in simp_all)
  obtain rest where r: "take ?ps ?pg = header_bytes \<lparr>ph_id = pid, ph_flags = FLAG_LEAF, ph_count = of_nat (length d),
      ph_overflow = of_nat (?k - 1)\<rparr> @ rest"
    using ps by (simp add: leaf_page_def leaf_image_def)
  have o: "unat (of_nat (?k - 1) :: u32) = ?k - 1"
    using pages_for_small [of ?ps "leaf_size d"] f ps by (simp add: unat_of_nat_small leaf_fits_def)
  have s: "?ps + (?k - Suc 0) * ?ps = ?k * ?ps" using pages_for_pos [of "leaf_size d" ?ps] by (cases ?k) auto
  have w: "(unat pid * ?ps + ?k * ?ps) mod 2 ^ 64 = unat pid * ?ps + ?k * ?ps"
    using n by (intro mod_less) (simp add: d P [symmetric] l)
  have "page_with_overflow db pid = Ok (bytes_at (unat pid * ?ps) (?k * ?ps) (P @ ?pg @ R))"
    using l P o n w by (simp add: page_with_overflow_def overflow_end_def a r header_back d s Let_def)
  then show ?thesis using bytes_at_mid [of P "unat pid * ?ps" ?pg "?k * ?ps" R] P l by simp
qed

lemma walk_leaf_page:
  assumes "db_data db = P @ leaf_page (db_page_size db) pid flags d @ R" "length P = unat pid * db_page_size db"
    "length (db_data db) < 2 ^ 64" "16 \<le> db_page_size db" "leaf_fits d"
  shows "walk_db (Suc n) db pid = Some (Ok (map (\<lambda>(k, v). (k, flags, v)) d))"
  by (simp add: page_with_overflow_leaf [OF assms]) (simp add: leaf_page_def walk_leaf_image assms(5))

lemma collect_back:
  "sorted_wrt (<) (map fst d) \<Longrightarrow> foldl (\<lambda>m (k, _, v). bt_insert k v m) [] (map (\<lambda>(k, v). (k, flags, v)) d) = d"
  using foldl_bt_insert [of "[]" d] by (simp add: foldl_map case_prod_unfold)

definition bucket_fits :: "bucket_data \<Rightarrow> bool" where
  "bucket_fits d \<longleftrightarrow> leaf_fits d \<and> sorted_wrt (<) (map fst d)"

lemma read_buckets_eq:
  assumes "db_data db = P @ concat (map snd (spills (db_page_size db) p bs))" "length P = p * db_page_size db" "0 < p"
    "length (db_data db) < 2 ^ 64" "16 \<le> db_page_size db" "\<forall>d \<in> snd ` set bs. bucket_fits d"
    "sorted_wrt (<) (map fst out @ map fst bs)"
  shows "read_buckets (Suc n) db (map (\<lambda>(k, v). (k, BUCKET_LEAF_FLAG, v)) (roots (db_page_size db) p bs)) out = Some (Ok (out @ bs))"
  using assms
proof (induction bs arbitrary: P p out)
  case (Cons b bs)
  let ?ps = "db_page_size db"
  obtain name d where b: "b = (name, d)" by (cases b)
  have d: "leaf_fits d" "sorted_wrt (<) (map fst d)" using Cons.prems by (simp_all add: b bucket_fits_def)
  have ins: "bt_insert name d out = out @ [(name, d)]"
    by (rule bt_insert_last) (use Cons.prems in \<open>auto simp: b sorted_wrt_append\<close>)
  have fl: "BUCKET_LEAF_FLAG AND BUCKET_LEAF_FLAG \<noteq> 0" by (simp add: BUCKET_LEAF_FLAG_def)
  have srt: "sorted_wrt (<) (map fst (out @ [(name, d)]) @ map fst bs)" using Cons.prems by (simp add: b)
  show ?case
  proof (cases "inlined ?ps d")
    case True
    have "walk_page_with w (inline_page d) = Some (Ok (map (\<lambda>(k, v). (k, 0, v)) d))" for w
      using walk_leaf_image [OF d(1), of _ w 0 "[]"] by (simp add: inline_page_def)
    then have "read_bucket (Suc n) db (bucket_bytes \<lparr>bh_root = 0, bh_sequence = 0\<rparr> @ inline_page d) = Some (Ok d)"
      by (simp add: read_bucket_def bucket_back is_inline_def BUCKET_HEADER_def collect_back d(2))
    moreover have "read_buckets (Suc n) db (map (\<lambda>(k, v). (k, BUCKET_LEAF_FLAG, v)) (roots ?ps p bs)) (out @ [(name, d)])
      = Some (Ok ((out @ [(name, d)]) @ bs))"
      by (rule Cons.IH) (use Cons.prems True srt in \<open>simp_all add: b\<close>)
    ultimately show ?thesis using True fl by (simp add: b ins)
  next
    case False
    let ?pg = "leaf_page ?ps (of_nat p) 0 d" and ?k = "pages_for (leaf_size d) ?ps"
    have l: "length ?pg = ?k * ?ps" using Cons.prems by (simp add: length_leaf_page)
    have data: "db_data db = P @ ?pg @ concat (map snd (spills ?ps (p + ?k) bs))" using Cons.prems(1) False by (simp add: b)
    have "p * 1 \<le> p * ?ps" using Cons.prems(5) by (intro mult_le_mono2) simp
    also have "\<dots> \<le> length (db_data db)" using data Cons.prems(2) by simp
    finally have "p < 2 ^ 64" using Cons.prems(4) by simp
    then have u: "unat (of_nat p :: u64) = p" by (simp add: unat_of_nat_small)
    then have nz: "(of_nat p :: u64) \<noteq> 0" using \<open>0 < p\<close> by (metis unat_0 less_numeral_extra(3))
    have "walk_db (Suc n) db (of_nat p) = Some (Ok (map (\<lambda>(k, v). (k, 0, v)) d))"
      by (rule walk_leaf_page [OF data]) (use Cons.prems u d in simp_all)
    then have "read_bucket (Suc n) db (bucket_bytes \<lparr>bh_root = of_nat p, bh_sequence = 0\<rparr>) = Some (Ok d)"
      using bucket_back [of "\<lparr>bh_root = of_nat p, bh_sequence = 0\<rparr>" "[]"] nz
      by (simp add: read_bucket_def is_inline_def collect_back d(2) del: walk_db.simps)
    moreover have "read_buckets (Suc n) db (map (\<lambda>(k, v). (k, BUCKET_LEAF_FLAG, v)) (roots ?ps (p + ?k) bs)) (out @ [(name, d)])
      = Some (Ok ((out @ [(name, d)]) @ bs))"
      by (rule Cons.IH [of "P @ ?pg"]) (use Cons.prems data l srt in \<open>simp_all add: b algebra_simps\<close>)
    ultimately show ?thesis using False fl by (simp add: b ins)
  qed
qed simp

definition page_size_ok :: "nat \<Rightarrow> bool" where
  "page_size_ok ps \<longleftrightarrow> 512 \<le> ps \<and> ps \<le> 2 ^ 20 \<and> is_power_of_two ps"

lemma meta_page_back:
  "meta_parse (meta_page ps np t pid) = Ok ((meta_for ps np t)\<lparr>mt_checksum := fnv1a64 (meta_body (meta_for ps np t))\<rparr>)"
  "checksum_ok ((meta_for ps np t)\<lparr>mt_checksum := fnv1a64 (meta_body (meta_for ps np t))\<rparr>) (meta_page ps np t pid)"
  by (simp_all add: meta_page_def meta_back checksum_back) (simp add: meta_back meta_for_def)

lemma from_bytes_eq:
  assumes ps: "page_size_ok ps" and n: "2 * ps + length rest < 2 ^ 64"
  shows "from_bytes (meta_page ps np 2 0 @ meta_page ps np 3 1 @ rest)
    = Ok \<lparr>db_data = meta_page ps np 2 0 @ meta_page ps np 3 1 @ rest, db_page_size = ps, db_root = ROOT\<rparr>"
proof -
  let ?A = "meta_page ps np 2 0" and ?B = "meta_page ps np 3 1"
  let ?d = "?A @ ?B @ rest" let ?db = "\<lparr>db_data = ?d, db_page_size = ps, db_root = 0\<rparr>"
  have ps': "512 \<le> ps" "ps \<le> 2 ^ 20" "is_power_of_two ps" using ps by (simp_all add: page_size_ok_def)
  have l: "length ?A = ps" "length ?B = ps" using ps' by (simp_all add: length_meta_page)
  let ?m = "min (length ?d) 4096"
  have "80 \<le> ?m" using l ps' by simp
  then have m0: "meta_parse (take ?m ?d) = Ok ((meta_for ps np 2)\<lparr>mt_checksum := fnv1a64 (meta_body (meta_for ps np 2))\<rparr>)"
    by (simp add: meta_page_def take_Cons' meta_back) (simp add: meta_back meta_for_def)
  have u: "unat (mt_page_size (meta_for ps np 2)) = ps" using ps' by (simp add: meta_for_def unat_of_nat_small)
  have "page_bytes ?db 0 = Ok ?A"
    by (rule page_bytes_mid [of _ "[]" _ "?B @ rest"]) (use l n in simp_all)
  then have c0: "meta_candidate ?db None 0 = Some ((meta_for ps np 2)\<lparr>mt_checksum := fnv1a64 (meta_body (meta_for ps np 2))\<rparr>)"
    by (simp add: meta_candidate_def meta_page_back)
  have "page_bytes ?db 1 = Ok ?B"
    by (rule page_bytes_mid [of _ ?A _ rest]) (use l n in simp_all)
  then have c1: "meta_candidate ?db (Some ((meta_for ps np 2)\<lparr>mt_checksum := c\<rparr>)) 1
    = Some ((meta_for ps np 3)\<lparr>mt_checksum := fnv1a64 (meta_body (meta_for ps np 3))\<rparr>)" for c
    by (simp add: meta_candidate_def meta_page_back) (simp add: meta_for_def)
  have "from_bytes ?d = (case foldl (meta_candidate ?db) None [0, 1] of
      None \<Rightarrow> Err CorruptNoMeta | Some m \<Rightarrow> Ok (?db\<lparr>db_root := mt_root m\<rparr>))"
    unfolding from_bytes_def m0 using ps' l by (simp add: u Let_def)
  then show ?thesis by (simp add: c0 c1) (simp add: meta_for_def)
qed

definition root_value_len :: "nat \<Rightarrow> bucket_data \<Rightarrow> nat" where
  "root_value_len ps d = (if inlined ps d then 16 + leaf_size d else 16)"

definition bolt_fits :: "nat \<Rightarrow> buckets \<Rightarrow> bool" where
  "bolt_fits ps bs \<longleftrightarrow> page_size_ok ps \<and> sorted_wrt (<) (map fst bs) \<and> list_all (\<lambda>(_, d). bucket_fits d) bs
     \<and> leaf_fits (map (\<lambda>(name, d). (name, replicate (root_value_len ps d) 0)) bs)"

lemma leaf_size_cong:
  "map (\<lambda>(k, v). length k + length v) d = map (\<lambda>(k, v). length k + length v) d' \<Longrightarrow> leaf_size d = leaf_size d'"
proof -
  have "length (leaf_data d) = sum_list (map (\<lambda>(k, v). length k + length v) d)" for d
    by (induction d) auto
  then show "map (\<lambda>(k, v). length k + length v) d = map (\<lambda>(k, v). length k + length v) d' \<Longrightarrow> leaf_size d = leaf_size d'"
    using map_eq_imp_length_eq [of "\<lambda>(k, v). length k + length v" d "\<lambda>(k, v). length k + length v" d'] by (simp add: leaf_size_def)
qed

lemma roots_size: "leaf_size (roots ps p bs) = leaf_size (map (\<lambda>(name, d). (name, replicate (root_value_len ps d) 0)) bs)"
proof (rule leaf_size_cong)
  show "map (\<lambda>(k, v). length k + length v) (roots ps p bs)
    = map (\<lambda>(k, v). length k + length v) (map (\<lambda>(name, d). (name, replicate (root_value_len ps d) 0)) bs)"
    by (induction ps p bs rule: roots.induct) (simp_all add: root_value_len_def inline_page_def)
qed

lemma length_roots [simp]: "length (roots ps p bs) = length bs"
  by (induction ps p bs rule: roots.induct) auto

lemma length_spills:
  "0 < ps \<Longrightarrow> length (concat (map snd (spills ps p bs))) = spill_pages ps bs * ps"
  by (induction ps p bs rule: spills.induct) (auto simp: length_leaf_page algebra_simps)

lemma spill_pages_bound:
  assumes "0 < ps" "ps \<le> 2 ^ 20" "\<forall>d \<in> snd ` set bs. leaf_fits d"
  shows "spill_pages ps bs * ps \<le> length bs * 2 ^ 33"
  using assms(3)
proof (induction bs)
  case (Cons b bs)
  obtain name d where b: "b = (name, d)" by (cases b)
  have "pages_for (leaf_size d) ps * ps \<le> 2 ^ 33"
    using pages_for_tight [OF assms(1), of "leaf_size d"] assms(2) Cons.prems by (simp add: b leaf_fits_def)
  then show ?case using Cons by (simp add: b algebra_simps)
qed simp

lemma sizing_eq:
  assumes "sorted_wrt (<) (map fst bs)"
  shows "foldl (\<lambda>m (name, p). bt_insert name (replicate (planned_len p) 0) m) [] (map (\<lambda>(name, d). (name, plan_of ps d)) bs)
    = map (\<lambda>(name, d). (name, replicate (root_value_len ps d) (0 :: u8))) bs"
proof -
  have "planned_len (plan_of ps d) = root_value_len ps d" for d
    by (simp add: plan_of_def root_value_len_def BUCKET_HEADER_def inline_page_def)
  then have "foldl (\<lambda>m (name, p). bt_insert name (replicate (planned_len p) 0) m) [] (map (\<lambda>(name, d). (name, plan_of ps d)) bs)
    = foldl (\<lambda>m (k, v). bt_insert k v m) [] (map (\<lambda>(name, d). (name, replicate (root_value_len ps d) (0 :: u8))) bs)"
    by (simp add: foldl_map case_prod_unfold)
  also have "\<dots> = map (\<lambda>(name, d). (name, replicate (root_value_len ps d) 0)) bs"
    using foldl_bt_insert [of "[]" "map (\<lambda>(name, d). (name, replicate (root_value_len ps d) (0 :: u8))) bs"] assms
    by (simp add: comp_def case_prod_unfold)
  finally show ?thesis .
qed

definition root_pages :: "nat \<Rightarrow> buckets \<Rightarrow> nat" where
  "root_pages ps bs = pages_for (leaf_size (map (\<lambda>(name, d). (name, replicate (root_value_len ps d) (0 :: u8))) bs)) ps"

definition file_pages :: "nat \<Rightarrow> buckets \<Rightarrow> nat" where
  "file_pages ps bs = 3 + root_pages ps bs + spill_pages ps bs"

definition bolt_image :: "nat \<Rightarrow> buckets \<Rightarrow> u8 list" where
  "bolt_image ps bs =
     meta_page ps (of_nat (file_pages ps bs)) 2 0 @ meta_page ps (of_nat (file_pages ps bs)) 3 1 @ free_page ps
     @ leaf_page ps ROOT BUCKET_LEAF_FLAG (roots ps (3 + root_pages ps bs) bs)
     @ concat (map snd (spills ps (3 + root_pages ps bs) bs))"

lemma bolt_fits_facts:
  assumes "bolt_fits ps bs"
  shows "512 \<le> ps" "0 < ps" "ps \<le> 2 ^ 20" "page_size_ok ps" "sorted_wrt (<) (map fst bs)"
    "\<forall>d \<in> snd ` set bs. bucket_fits d" "\<forall>d \<in> snd ` set bs. leaf_fits d"
    "leaf_fits (map (\<lambda>(name, d). (name, replicate (root_value_len ps d) 0)) bs)"
    "leaf_fits (roots ps p bs)" "file_pages ps bs * ps < 2 ^ 64"
proof -
  show *: "512 \<le> ps" "0 < ps" "ps \<le> 2 ^ 20" "page_size_ok ps" "sorted_wrt (<) (map fst bs)"
    "\<forall>d \<in> snd ` set bs. bucket_fits d" "\<forall>d \<in> snd ` set bs. leaf_fits d"
    and rt: "leaf_fits (map (\<lambda>(name, d). (name, replicate (root_value_len ps d) 0)) bs)"
    using assms by (auto simp: bolt_fits_def page_size_ok_def list_all_iff bucket_fits_def)
  show "leaf_fits (roots ps p bs)" using rt by (simp add: leaf_fits_def roots_size)
  have "spill_pages ps bs * ps \<le> length bs * 2 ^ 33" using * by (intro spill_pages_bound) auto
  moreover have "root_pages ps bs * ps \<le> 2 ^ 32 + ps"
    using pages_for_tight [OF *(2)] rt unfolding root_pages_def leaf_fits_def by (meson add_le_mono1 less_imp_le order_trans)
  moreover have "length bs < 2 ^ 16" using rt by (simp add: leaf_fits_def)
  ultimately show "file_pages ps bs * ps < 2 ^ 64" using * by (simp add: file_pages_def algebra_simps)
qed

lemma build_bolt_eq:
  assumes "bolt_fits ps bs"
  shows "build_bolt bs ps = Ok (bolt_image ps bs)"
proof -
  note f = bolt_fits_facts [OF assms]
  let ?r = "root_pages ps bs"
  let ?R = "leaf_page ps ROOT BUCKET_LEAF_FLAG (roots ps (3 + ?r) bs)"
  have "file_pages ps bs * 1 \<le> file_pages ps bs * ps" using f(2) by (intro mult_le_mono2) simp
  then have n: "3 + ?r + spill_pages ps bs < 2 ^ 64" using f(10) unfolding file_pages_def mult_1_right by (rule le_less_trans)
  have rl: "length ?R = ?r * ps" using f(2) by (simp add: length_leaf_page roots_size root_pages_def)
  have pl: "place_buckets (map (\<lambda>(name, d). (name, plan_of ps d)) bs) (ROOT + of_nat ?r) [] []
    = Ok (of_nat (3 + ?r + spill_pages ps bs), roots ps (3 + ?r) bs, spills ps (3 + ?r) bs)"
    using place_eq [of bs ps "[]" "3 + ?r" "[]"] f by (simp add: ROOT_def)
  have "build_bolt bs ps = Ok (build_image ps (of_nat (3 + ?r + spill_pages ps bs)) ?R (spills ps (3 + ?r) bs))"
    using f(1) f(4) pl
    by (simp add: build_bolt_def page_size_ok_def plan_buckets_eq [OF f(7,2)] sizing_eq [OF f(5)] build_leaf_page_eq f(8,9,2)
        length_leaf_page root_pages_def [symmetric] del: of_nat_add)
  then show ?thesis
    using build_image_eq [OF f(1) rl n] by (simp add: bolt_image_def file_pages_def)
qed

lemma bolt_read_back:
  assumes "bolt_fits ps bs"
  shows "\<exists>db. from_bytes (bolt_image ps bs) = Ok db \<and> db_buckets (Suc n) db = Some (Ok bs)"
proof -
  note f = bolt_fits_facts [OF assms]
  let ?r = "root_pages ps bs" and ?np = "of_nat (file_pages ps bs) :: u64"
  let ?R = "leaf_page ps ROOT BUCKET_LEAF_FLAG (roots ps (3 + ?r) bs)" and ?S = "concat (map snd (spills ps (3 + ?r) bs))"
  let ?M = "meta_page ps ?np 2 0 @ meta_page ps ?np 3 1"
  let ?db = "\<lparr>db_data = bolt_image ps bs, db_page_size = ps, db_root = ROOT\<rparr>"
  have l: "length ?R = ?r * ps" "length ?S = spill_pages ps bs * ps" "length (?M @ free_page ps) = 3 * ps"
    using f(1,2) by (simp_all add: length_leaf_page roots_size root_pages_def length_spills length_meta_page length_free_page)
  have img: "bolt_image ps bs = (?M @ free_page ps) @ ?R @ ?S" by (simp add: bolt_image_def)
  have len: "length (bolt_image ps bs) < 2 ^ 64"
    using f(10) l unfolding img length_append [of "?M @ free_page ps"] by (simp add: file_pages_def algebra_simps)
  have open_ok: "from_bytes (bolt_image ps bs) = Ok ?db"
    using from_bytes_eq [OF f(4), of "free_page ps @ ?R @ ?S" ?np] len f(1)
    by (simp add: bolt_image_def length_meta_page)
  have "walk_db (Suc n) ?db ROOT = Some (Ok (map (\<lambda>(k, v). (k, BUCKET_LEAF_FLAG, v)) (roots ps (3 + ?r) bs)))"
    by (rule walk_leaf_page [of _ "?M @ free_page ps" _ _ _ ?S]) (use img len l f in \<open>simp_all add: ROOT_def\<close>)
  moreover have "read_buckets (Suc n) ?db (map (\<lambda>(k, v). (k, BUCKET_LEAF_FLAG, v)) (roots (db_page_size ?db) (3 + ?r) bs)) []
    = Some (Ok ([] @ bs))"
    by (rule read_buckets_eq [of _ "?M @ free_page ps @ ?R"]) (use img len l f in \<open>simp_all add: algebra_simps\<close>)
  ultimately have "db_buckets (Suc n) ?db = Some (Ok bs)" by (simp add: db_buckets_def del: walk_db.simps)
  then show ?thesis using open_ok by blast
qed

section \<open>Properties\<close>

text \<open>
  C12.  A database built from sorted buckets that fit the format opens again and lists exactly those
  buckets, whether a bucket is stored inside the root page or on pages of its own.
\<close>

theorem bolt_roundtrip:
  assumes "bolt_fits page_size bs"
  shows "\<exists>img db. build_bolt bs page_size = Ok img \<and> from_bytes img = Ok db \<and> db_buckets (Suc n) db = Some (Ok bs)"
  using build_bolt_eq [OF assms] bolt_read_back [OF assms, of n] by blast

theorem bolt_roundtrip_witness:
  "bolt_fits 512 [([0, 7], [([0], [1, 2, 3])]), ([0, 8], [([0], replicate 100 5), ([1], [])])] \<and>
   (\<exists>img db. build_bolt [([0, 7], [([0], [1, 2, 3])]), ([0, 8], [([0], replicate 100 5), ([1], [])])] 512 = Ok img \<and>
      from_bytes img = Ok db \<and>
      db_buckets 1 db = Some (Ok [([0, 7], [([0], [1, 2, 3])]), ([0, 8], [([0], replicate 100 5), ([1], [])])]))"
proof -
  have f: "bolt_fits 512 [([0, 7], [([0], [1, 2, 3])]), ([0, 8], [([0], replicate 100 5), ([1], [])])]"
    by code_simp
  show ?thesis using f bolt_roundtrip [OF f, of 0] by simp
qed













section \<open>Depth\<close>




















text \<open>On a 32-bit build the end of a page wraps, and a damaged header makes the slice end before it starts.\<close>

lemma overflow_end_wraps: "overflow_end 32 8192 (1 + (2 ^ 20 - 2)) 4096 < 8192"
  by (simp add: overflow_end_def)

text \<open>A branch page that names itself as its child is walked forever.\<close>

lemma bolt_self_branch:
  assumes "page_with_overflow db pid = Ok page" "header_parse page = Ok h" "ph_flags h = FLAG_BRANCH" "ph_count h \<noteq> 0"
    "branch_parse (drop PAGE_HEADER page) = Ok e" "be_pgid e = pid"
  shows "walk_db n db pid = None"
proof (induction n)
  case (Suc n)
  have "[0..<unat (ph_count h)] = 0 # [1..<unat (ph_count h)]" using assms(4) by (simp add: upt_conv_Cons unat_gt_0)
  moreover have "PAGE_HEADER \<le> length page" using assms(2) by (auto simp: header_parse_def split: if_splits)
  moreover have "FLAG_BRANCH AND FLAG_LEAF = 0" "FLAG_BRANCH AND FLAG_BRANCH \<noteq> 0" by (simp_all add: FLAG_BRANCH_def FLAG_LEAF_def)
  ultimately show ?case using Suc assms by (simp add: walk_page_with_def)
qed simp

lemma bolt_self_branch_file:
  "walk_db n \<lparr>db_data = header_bytes \<lparr>ph_id = 0, ph_flags = FLAG_BRANCH, ph_count = 1, ph_overflow = 0\<rparr> @ replicate 496 0,
           db_page_size = 512, db_root = 0\<rparr> 0 = None"
  (is "walk_db n ?db 0 = None")
proof (rule bolt_self_branch)
  let ?p = "header_bytes \<lparr>ph_id = 0, ph_flags = FLAG_BRANCH, ph_count = 1, ph_overflow = 0\<rparr> @ replicate 496 0"
  show "page_with_overflow ?db 0 = Ok ?p"
    by (simp add: page_with_overflow_def overflow_end_def page_bytes_def bytes_at_def header_back Let_def)
  show "header_parse ?p = Ok \<lparr>ph_id = 0, ph_flags = FLAG_BRANCH, ph_count = 1, ph_overflow = 0\<rparr>" by (rule header_back)
  show "branch_parse (drop PAGE_HEADER ?p) = Ok \<lparr>be_pos = 0, be_ksize = 0, be_pgid = 0\<rparr>"
    by (simp add: PAGE_HEADER_def) code_simp
qed simp_all

text \<open>The second meta page does not help when the first is lost.\<close>

lemma bolt_first_meta_lost:
  assumes "80 \<le> ps"
  shows "from_bytes (replicate ps 0 @ meta_page ps np 3 1 @ rest) = Err (NotBoltMagic 0)"
proof -
  let ?d = "replicate ps 0 @ meta_page ps np 3 1 @ rest :: u8 list"
  have l: "80 \<le> length ?d" using assms by simp
  obtain r where r: "take (min (length ?d) 4096) ?d = replicate 80 0 @ r"
  proof
    have "replicate ps (0 :: u8) = replicate 80 0 @ replicate (ps - 80) 0" using assms by (simp add: replicate_add [symmetric])
    then show "take (min (length ?d) 4096) ?d
      = replicate 80 0 @ take (min (length ?d) 4096 - 80) (replicate (ps - 80) 0 @ meta_page ps np 3 1 @ rest)"
      using assms by simp
  qed
  have "le_get (replicate 4 0) = (0 :: u32)" by code_simp
  then have "meta_parse (replicate 80 0 @ r) = Err (NotBoltMagic 0)"
    by (simp add: meta_parse_def PAGE_HEADER_def META_CHECKSUMMED_def bytes_at_def MAGIC_def)
  then show ?thesis using l unfolding from_bytes_def r by simp
qed

end
