(* ===== verification/Stats.thy ===== *)
theory Stats
  imports Reason Gob Bolt_Roundtrip "HOL-Library.Char_ord" "HOL-Library.Product_Lexorder" "HOL-Library.Multiset"
begin

text \<open>
  The statistics: \<open>crates/sift-stats/src/unit.rs\<close>, \<open>store.rs\<close> and \<open>stats.rs\<close>.

  The clock is an argument: every operation that calls \<open>current_hour\<close> takes the hour.  Counters are
  64-bit words and wrap.  The theory shows that every hour holds exactly what counting its queries
  alone gives, that the top lists do not depend on the order of the hash map, what the report says, and
  that the unsaved mark tells whether \<open>stats.db\<close> is behind, while \<open>main.rs\<close> saves it between other calls.
\<close>

section \<open>Hourly units\<close>

definition RESULT_COUNT :: nat where "RESULT_COUNT = 6"

datatype unit_result = ResNotFiltered | ResFiltered | ResSafeBrowsing | ResSafeSearch | ResParental

fun result_index :: "unit_result \<Rightarrow> nat" where
  "result_index ResNotFiltered = 1"
| "result_index ResFiltered = 2"
| "result_index ResSafeBrowsing = 3"
| "result_index ResSafeSearch = 4"
| "result_index ResParental = 5"

fun result_from_reason :: "reason \<Rightarrow> unit_result" where
  "result_from_reason FilteredBlockList = ResFiltered"
| "result_from_reason FilteredBlockedService = ResFiltered"
| "result_from_reason FilteredInvalid = ResFiltered"
| "result_from_reason FilteredSafeBrowsing = ResSafeBrowsing"
| "result_from_reason FilteredSafeSearch = ResSafeSearch"
| "result_from_reason FilteredParental = ResParental"
| "result_from_reason _ = ResNotFiltered"

text \<open>A \<open>std::time::Duration\<close> is its number of nanoseconds.\<close>

definition as_micros_u64 :: "nat \<Rightarrow> u64" where
  "as_micros_u64 d = of_nat (d div 1000)"

record upstream_stat =
  us_address :: str
  us_duration :: nat
  us_cached :: bool
  us_failed :: bool

record stat_entry =
  en_client :: str
  en_domain :: str
  en_result :: unit_result
  en_processing_time :: nat
  en_upstreams :: "upstream_stat list"

definition entry_is_valid :: "stat_entry \<Rightarrow> bool" where
  "entry_is_valid e \<longleftrightarrow> en_domain e \<noteq> [] \<and> en_client e \<noteq> []"

text \<open>
  A hash map of counters is an association list with distinct keys in some iteration order; the
  code orders whatever it takes out of one.  \<open>bump\<close> is \<open>*m.entry(k).or_insert(0) += n\<close>.
\<close>

type_synonym counter = "(str \<times> u64) list"

fun bump :: "str \<Rightarrow> u64 \<Rightarrow> counter \<Rightarrow> counter" where
  "bump k n [] = [(k, n)]"
| "bump k n ((k', c) # m) = (if k = k' then (k', c + n) # m else (k', c) # bump k n m)"

fun counter_set :: "str \<Rightarrow> u64 \<Rightarrow> counter \<Rightarrow> counter" where
  "counter_set k n [] = [(k, n)]"
| "counter_set k n ((k', c) # m) = (if k = k' then (k', n) # m else (k', c) # counter_set k n m)"

record stat_unit =
  un_id :: u32
  un_domains :: counter
  un_blocked_domains :: counter
  un_clients :: counter
  un_upstreams_responses :: counter
  un_upstreams_time_sum :: counter
  un_n_result :: "u64 list"
  un_n_total :: u64
  un_time_sum :: u64

definition unit_new :: "u32 \<Rightarrow> stat_unit" where
  "unit_new i = \<lparr>un_id = i, un_domains = [], un_blocked_domains = [], un_clients = [], un_upstreams_responses = [],
     un_upstreams_time_sum = [], un_n_result = replicate RESULT_COUNT 0, un_n_total = 0, un_time_sum = 0\<rparr>"

definition add_upstream :: "stat_unit \<Rightarrow> upstream_stat \<Rightarrow> stat_unit" where
  "add_upstream u s =
     (if us_cached s \<or> us_failed s then u
      else u\<lparr>un_upstreams_responses := bump (us_address s) 1 (un_upstreams_responses u),
             un_upstreams_time_sum := bump (us_address s) (as_micros_u64 (us_duration s)) (un_upstreams_time_sum u)\<rparr>)"

definition unit_add :: "stat_entry \<Rightarrow> stat_unit \<Rightarrow> stat_unit" where
  "unit_add e u =
     (let i = result_index (en_result e);
          u = u\<lparr>un_n_result := (un_n_result u)[i := un_n_result u ! i + 1]\<rparr>;
          u = (if en_result e = ResNotFiltered then u\<lparr>un_domains := bump (en_domain e) 1 (un_domains u)\<rparr>
               else u\<lparr>un_blocked_domains := bump (en_domain e) 1 (un_blocked_domains u)\<rparr>);
          u = u\<lparr>un_clients := bump (en_client e) 1 (un_clients u),
                un_time_sum := un_time_sum u + as_micros_u64 (en_processing_time e),
                un_n_total := un_n_total u + 1\<rparr>
      in foldl add_upstream u (en_upstreams e))"

definition MAX_DOMAINS :: nat where "MAX_DOMAINS = 100"
definition MAX_CLIENTS :: nat where "MAX_CLIENTS = 100"

record stat_pair =
  sp_name :: str
  sp_count :: u64

record stat_db =
  sd_n_result :: "u64 list"
  sd_domains :: "stat_pair list"
  sd_blocked_domains :: "stat_pair list"
  sd_clients :: "stat_pair list"
  sd_upstreams_responses :: "stat_pair list"
  sd_upstreams_time_sum :: "stat_pair list"
  sd_n_total :: u64
  sd_time_avg :: u32

definition stat_db_default :: stat_db where
  "stat_db_default = \<lparr>sd_n_result = [], sd_domains = [], sd_blocked_domains = [], sd_clients = [],
     sd_upstreams_responses = [], sd_upstreams_time_sum = [], sd_n_total = 0, sd_time_avg = 0\<rparr>"

text \<open>
  The comparator \<open>order\<close> as a sort key: counts descending, then names by their bytes.  The
  partition \<open>select_nth_unstable_by\<close> puts the element that belongs at the index there, what goes before
  it in front and the rest behind, each in whatever order; here the order is the one they had.  The
  locale \<open>nth_selection\<close> below shows that every other order gives the same top list.
\<close>

definition pair_order :: "str \<times> u64 \<Rightarrow> u64 \<times> str" where
  "pair_order = (\<lambda>(k, c). (NOT c, k))"

definition select_nth :: "nat \<Rightarrow> counter \<Rightarrow> counter" where
  "select_nth n v =
     (let p = pair_order (sort_key pair_order v ! n)
      in filter (\<lambda>x. pair_order x < p) v @ filter (\<lambda>x. pair_order x = p) v @ filter (\<lambda>x. p < pair_order x) v)"

definition to_pairs :: "counter \<Rightarrow> nat \<Rightarrow> stat_pair list" where
  "to_pairs m n =
     (let v = (if length m > n then take n (select_nth n m) else m)
      in map (\<lambda>(k, c). \<lparr>sp_name = k, sp_count = c\<rparr>) (sort_key pair_order v))"

definition from_pairs :: "stat_pair list \<Rightarrow> counter" where
  "from_pairs v = foldl (\<lambda>m p. counter_set (sp_name p) (sp_count p) m) [] v"

definition to_db :: "stat_unit \<Rightarrow> stat_db" where
  "to_db u = \<lparr>sd_n_result = un_n_result u, sd_domains = to_pairs (un_domains u) MAX_DOMAINS,
     sd_blocked_domains = to_pairs (un_blocked_domains u) MAX_DOMAINS, sd_clients = to_pairs (un_clients u) MAX_CLIENTS,
     sd_upstreams_responses = to_pairs (un_upstreams_responses u) MAX_CLIENTS,
     sd_upstreams_time_sum = to_pairs (un_upstreams_time_sum u) MAX_CLIENTS, sd_n_total = un_n_total u,
     sd_time_avg = (if un_n_total u = 0 then 0 else ucast (un_time_sum u div un_n_total u))\<rparr>"

definition from_db :: "u32 \<Rightarrow> stat_db \<Rightarrow> stat_unit" where
  "from_db i db =
     (unit_new i)\<lparr>un_n_total := sd_n_total db,
       un_n_result := foldl (\<lambda>r (j, v). r[j := v]) (replicate RESULT_COUNT 0) (enumerate 0 (take RESULT_COUNT (sd_n_result db))),
       un_domains := from_pairs (sd_domains db), un_blocked_domains := from_pairs (sd_blocked_domains db),
       un_clients := from_pairs (sd_clients db), un_upstreams_responses := from_pairs (sd_upstreams_responses db),
       un_upstreams_time_sum := from_pairs (sd_upstreams_time_sum db),
       un_time_sum := ucast (sd_time_avg db) * sd_n_total db\<rparr>"

text \<open>Rust's division rounds towards zero; the cast keeps the low 32 bits.\<close>

definition hour_of :: "int \<Rightarrow> u32" where
  "hour_of secs = of_int (if secs < 0 then - (- secs div 3600) else secs div 3600)"

definition current_hour :: "int \<Rightarrow> u32" where
  "current_hour now = (if now < 0 then hour_of 0 else hour_of now)"

section \<open>The database\<close>

definition PAGE_SIZE :: nat where "PAGE_SIZE = 4096"

datatype stats_error = BoltError bolt_error | GobError u32 gob_error

definition hour_from_name :: "u8 list \<Rightarrow> u32 option" where
  "hour_from_name name = (if length name = 8 then Some (ucast (be_word name)) else None)"

definition name_from_hour :: "u32 \<Rightarrow> u8 list" where
  "name_from_hour hour = to_be_bytes (ucast hour)"

definition pairs_from_gob :: "count_pair list \<Rightarrow> stat_pair list" where
  "pairs_from_gob v = map (\<lambda>p. \<lparr>sp_name = cp_name p, sp_count = cp_count p\<rparr>) v"

definition pairs_to_gob :: "stat_pair list \<Rightarrow> count_pair list" where
  "pairs_to_gob v = map (\<lambda>p. \<lparr>cp_name = sp_name p, cp_count = sp_count p\<rparr>) v"

definition from_gob :: "unit_db \<Rightarrow> stat_db" where
  "from_gob u = \<lparr>sd_n_result = ud_n_result u, sd_domains = pairs_from_gob (ud_domains u),
     sd_blocked_domains = pairs_from_gob (ud_blocked_domains u), sd_clients = pairs_from_gob (ud_clients u),
     sd_upstreams_responses = pairs_from_gob (ud_upstreams_responses u),
     sd_upstreams_time_sum = pairs_from_gob (ud_upstreams_time_sum u), sd_n_total = ud_n_total u, sd_time_avg = ud_time_avg u\<rparr>"

definition to_gob :: "stat_db \<Rightarrow> unit_db" where
  "to_gob u = \<lparr>ud_n_result = sd_n_result u, ud_domains = pairs_to_gob (sd_domains u),
     ud_blocked_domains = pairs_to_gob (sd_blocked_domains u), ud_clients = pairs_to_gob (sd_clients u),
     ud_upstreams_responses = pairs_to_gob (sd_upstreams_responses u),
     ud_upstreams_time_sum = pairs_to_gob (sd_upstreams_time_sum u), ud_n_total = sd_n_total u, ud_time_avg = sd_time_avg u\<rparr>"

fun map_err :: "('e \<Rightarrow> 'f) \<Rightarrow> ('a, 'e) rust_result \<Rightarrow> ('a, 'f) rust_result" where
  "map_err f (Ok x) = Ok x"
| "map_err f (Err e) = Err (f e)"
| "map_err f Panic = Panic"

fun load_buckets :: "buckets \<Rightarrow> ((u32 \<times> stat_db) list, stats_error) rust_result" where
  "load_buckets [] = Ok []"
| "load_buckets ((name, ks) # bs) =
     (case hour_from_name name of
        None \<Rightarrow> load_buckets bs
      | Some hour \<Rightarrow>
          (case map_of ks [0] of
             None \<Rightarrow> load_buckets bs
           | Some blob \<Rightarrow>
               and_then (map_err (GobError hour) (decode_unit blob)) (\<lambda>u.
               and_then (load_buckets bs) (\<lambda>out. Ok ((hour, from_gob u) # out)))))"

text \<open>
  \<open>load_units n file\<close>: \<open>file\<close> is \<open>None\<close> when there is none, and \<open>n\<close> the depth to which pages are
  followed.  \<open>save_units\<close> is the image written.
\<close>

definition load_units :: "nat \<Rightarrow> u8 list option \<Rightarrow> ((u32 \<times> stat_db) list, stats_error) rust_result option" where
  "load_units n f =
     (case f of
        None \<Rightarrow> Some (Ok [])
      | Some bytes \<Rightarrow>
          (case from_bytes bytes of
             Err e \<Rightarrow> Some (Err (BoltError e))
           | Panic \<Rightarrow> Some Panic
           | Ok db \<Rightarrow> map_option (\<lambda>r. and_then (map_err BoltError r) load_buckets) (db_buckets n db)))"

definition unit_buckets :: "(u32 \<times> stat_db) list \<Rightarrow> buckets" where
  "unit_buckets units = foldl (\<lambda>m (hour, u). bt_insert (name_from_hour hour) [([0], encode_unit (to_gob u))] m) [] units"

definition save_units :: "(u32 \<times> stat_db) list \<Rightarrow> (u8 list, stats_error) rust_result" where
  "save_units units = map_err BoltError (build_bolt (unit_buckets units) PAGE_SIZE)"

section \<open>The collector\<close>

record stats_config =
  sc_enabled :: bool
  sc_limit_hours :: u32
  sc_ignored :: "str list"
  sc_ignored_enabled :: bool

definition stats_config_default :: stats_config where
  "stats_config_default = \<lparr>sc_enabled = True, sc_limit_hours = 24, sc_ignored = [], sc_ignored_enabled = False\<rparr>"

record stats_inner =
  in_current :: "stat_unit option"
  in_past :: "(u32 \<times> stat_db) list"

record stats =
  st_config :: stats_config
  st_inner :: stats_inner
  st_unsaved :: bool

definition roll :: "u32 \<Rightarrow> stats_inner \<Rightarrow> bool \<times> stats_inner" where
  "roll hour s =
     (case in_current s of
        Some u \<Rightarrow>
          if un_id u \<noteq> hour then (True, s\<lparr>in_current := None, in_past := bt_insert (un_id u) (to_db u) (in_past s)\<rparr>)
          else (False, s)
      | None \<Rightarrow> (False, s))"

definition inner_unit :: "stats_inner \<Rightarrow> u32 \<Rightarrow> stat_db option" where
  "inner_unit s i =
     (case in_current s of
        Some u \<Rightarrow> if un_id u = i then Some (to_db u) else map_of (in_past s) i
      | None \<Rightarrow> map_of (in_past s) i)"

definition stats_new :: "stats_config \<Rightarrow> stats" where
  "stats_new c = \<lparr>st_config = c, st_inner = \<lparr>in_current = None, in_past = []\<rparr>, st_unsaved = False\<rparr>"

definition sat_sub :: "'a::len word \<Rightarrow> 'a word \<Rightarrow> 'a word" where
  "sat_sub a b = (if b \<le> a then a - b else 0)"

definition prune :: "u32 \<Rightarrow> stats \<Rightarrow> stats" where
  "prune cur s =
     (let oldest = sat_sub cur (sat_sub (sc_limit_hours (st_config s)) 1);
          (rolled, inner) = roll cur (st_inner s);
          before = length (in_past inner);
          inner = inner\<lparr>in_past := filter (\<lambda>(i, _). i \<ge> oldest) (in_past inner)\<rparr>
      in s\<lparr>st_inner := inner, st_unsaved := (st_unsaved s \<or> rolled \<or> length (in_past inner) \<noteq> before)\<rparr>)"

definition stats_set_config :: "u32 \<Rightarrow> stats_config \<Rightarrow> stats \<Rightarrow> stats" where
  "stats_set_config cur c s = prune cur (s\<lparr>st_config := c\<rparr>)"

definition add_at :: "stat_entry \<Rightarrow> u32 \<Rightarrow> stats \<Rightarrow> bool \<times> stats" where
  "add_at e hour s =
     (if \<not> sc_enabled (st_config s) \<or> \<not> entry_is_valid e then (False, s)
      else
        let (rolled, inner) = roll hour (st_inner s);
            u = (case in_current inner of Some u \<Rightarrow> u | None \<Rightarrow> unit_new hour)
        in (True, s\<lparr>st_inner := inner\<lparr>in_current := Some (unit_add e u)\<rparr>, st_unsaved := (st_unsaved s \<or> rolled)\<rparr>))"

definition stats_load_step :: "u32 \<Rightarrow> stats_inner \<Rightarrow> u32 \<times> stat_db \<Rightarrow> stats_inner" where
  "stats_load_step hour = (\<lambda>s (i, db).
     if i = hour then s\<lparr>in_current := Some (from_db i db)\<rparr> else s\<lparr>in_past := bt_insert i db (in_past s)\<rparr>)"

definition stats_load :: "u32 \<Rightarrow> (u32 \<times> stat_db) list \<Rightarrow> stats \<Rightarrow> stats" where
  "stats_load hour stored s = prune hour (s\<lparr>st_inner := foldl (stats_load_step hour) (st_inner s) stored\<rparr>)"

definition snapshot :: "u32 \<Rightarrow> stats \<Rightarrow> (u32 \<times> stat_db) list \<times> stats" where
  "snapshot hour s =
     (let (rolled, inner) = roll hour (st_inner s)
      in (in_past inner @ (case in_current inner of Some u \<Rightarrow> [(un_id u, to_db u)] | None \<Rightarrow> []),
          s\<lparr>st_inner := inner, st_unsaved := (st_unsaved s \<or> rolled)\<rparr>))"

definition stats_clear :: "stats \<Rightarrow> stats" where
  "stats_clear s = s\<lparr>st_inner := \<lparr>in_current = None, in_past = []\<rparr>, st_unsaved := True\<rparr>"

definition claim_save :: "stats \<Rightarrow> bool \<times> stats" where
  "claim_save s = (st_unsaved s, s\<lparr>st_unsaved := False\<rparr>)"

definition stats_len :: "stats \<Rightarrow> nat" where
  "stats_len s = length (in_past (st_inner s)) + (if in_current (st_inner s) \<noteq> None then 1 else 0)"

definition stats_is_empty :: "stats \<Rightarrow> bool" where
  "stats_is_empty s \<longleftrightarrow> stats_len s = 0"

section \<open>The report\<close>

text \<open>The two floating-point fields are kept in whole microseconds, before the division by a million.\<close>

datatype time_unit = Hours | Days

record stats_resp =
  sr_time_units :: time_unit
  sr_top_queried_domains :: "stat_pair list"
  sr_top_clients :: "stat_pair list"
  sr_top_blocked_domains :: "stat_pair list"
  sr_top_upstreams_responses :: "stat_pair list"
  sr_top_upstreams_avg_time :: "(str \<times> u64) list"
  sr_dns_queries :: "u64 list"
  sr_blocked_filtering :: "u64 list"
  sr_replaced_safebrowsing :: "u64 list"
  sr_replaced_parental :: "u64 list"
  sr_num_dns_queries :: u64
  sr_num_blocked_filtering :: u64
  sr_num_replaced_safebrowsing :: u64
  sr_num_replaced_safesearch :: u64
  sr_num_replaced_parental :: u64
  sr_avg_processing_time :: u64

definition stats_resp_empty :: stats_resp where
  "stats_resp_empty = \<lparr>sr_time_units = Days, sr_top_queried_domains = [], sr_top_clients = [], sr_top_blocked_domains = [],
     sr_top_upstreams_responses = [], sr_top_upstreams_avg_time = [], sr_dns_queries = [], sr_blocked_filtering = [],
     sr_replaced_safebrowsing = [], sr_replaced_parental = [], sr_num_dns_queries = 0, sr_num_blocked_filtering = 0,
     sr_num_replaced_safebrowsing = 0, sr_num_replaced_safesearch = 0, sr_num_replaced_parental = 0, sr_avg_processing_time = 0\<rparr>"

definition nth_count :: "u64 list \<Rightarrow> nat \<Rightarrow> u64" where
  "nth_count xs i = (if i < length xs then xs ! i else 0)"

definition n_result_of :: "unit_result \<Rightarrow> stat_db \<Rightarrow> u64" where
  "n_result_of r u = nth_count (sd_n_result u) (result_index r)"

definition sum_days :: "(stat_db \<Rightarrow> u64) \<Rightarrow> nat \<Rightarrow> stat_db list \<Rightarrow> u64 list" where
  "sum_days f n hs = foldl (\<lambda>xs (i, u). xs[i div 24 := xs ! (i div 24) + f u]) (replicate n 0) (enumerate 0 hs)"

definition fill_per_unit :: "stat_db list \<Rightarrow> stats_resp \<Rightarrow> stats_resp" where
  "fill_per_unit units resp =
     (let days = length units div 24 in
      if days > 7
      then let hs = drop (length units - days * 24) units in
           resp\<lparr>sr_time_units := Days, sr_dns_queries := sum_days sd_n_total days hs,
                sr_blocked_filtering := sum_days (n_result_of ResFiltered) days hs,
                sr_replaced_safebrowsing := sum_days (n_result_of ResSafeBrowsing) days hs,
                sr_replaced_parental := sum_days (n_result_of ResParental) days hs\<rparr>
      else resp\<lparr>sr_time_units := Hours, sr_dns_queries := map sd_n_total units,
                sr_blocked_filtering := map (n_result_of ResFiltered) units,
                sr_replaced_safebrowsing := map (n_result_of ResSafeBrowsing) units,
                sr_replaced_parental := map (n_result_of ResParental) units\<rparr>)"

definition merge_pair :: "str list \<Rightarrow> counter \<Rightarrow> stat_pair \<Rightarrow> counter" where
  "merge_pair ignored m p =
     (if ignored \<noteq> [] \<and> to_ascii_lowercase (sp_name p) \<in> set ignored then m else bump (sp_name p) (sp_count p) m)"

definition merge_top :: "stat_db list \<Rightarrow> nat \<Rightarrow> str list \<Rightarrow> (stat_db \<Rightarrow> stat_pair list) \<Rightarrow> stat_pair list" where
  "merge_top units n ignored pick = to_pairs (foldl (\<lambda>m u. foldl (merge_pair ignored) m (pick u)) [] units) n"

definition merge_upstreams :: "stat_db list \<Rightarrow> stat_pair list \<times> (str \<times> u64) list" where
  "merge_upstreams units =
     (let responses = foldl (\<lambda>m u. foldl (merge_pair []) m (sd_upstreams_responses u)) [] units;
          time_sum = foldl (\<lambda>m u. foldl (merge_pair []) m (sd_upstreams_time_sum u)) [] units;
          pairs = to_pairs responses MAX_CLIENTS
      in (pairs, map (\<lambda>p. (sp_name p, let total = (case map_of time_sum (sp_name p) of Some t \<Rightarrow> t | None \<Rightarrow> 0) in
                                      if sp_count p = 0 then 0 else total div sp_count p)) pairs))"

definition window :: "u32 \<Rightarrow> nat \<Rightarrow> stats_inner \<Rightarrow> stat_db list" where
  "window cur limit inner = map (\<lambda>i.
     case inner_unit inner (sat_sub cur (of_nat (limit - 1 - i))) of Some u \<Rightarrow> u | None \<Rightarrow> stat_db_default) [0..<limit]"

record stats_totals =
  tt_n_result :: "u64 list"
  tt_n_total :: u64
  tt_time_avg_sum :: u64
  tt_time_units :: u64

definition add_totals :: "stats_totals \<Rightarrow> stat_db \<Rightarrow> stats_totals" where
  "add_totals t u =
     (let t = t\<lparr>tt_n_total := tt_n_total t + sd_n_total u,
                tt_n_result := map (\<lambda>(i, c). c + nth_count (sd_n_result u) i) (enumerate 0 (tt_n_result t))\<rparr>
      in if sd_time_avg u \<noteq> 0
         then t\<lparr>tt_time_avg_sum := tt_time_avg_sum t + ucast (sd_time_avg u), tt_time_units := tt_time_units t + 1\<rparr>
         else t)"

definition stats_data :: "u32 \<Rightarrow> stats \<Rightarrow> stats_resp" where
  "stats_data cur s =
     (let c = st_config s in
      if sc_limit_hours c = 0 then stats_resp_empty
      else
        let units = window cur (unat (sc_limit_hours c)) (st_inner s);
            ignored = (if sc_ignored_enabled c then map to_ascii_lowercase (sc_ignored c) else []);
            (responses, avg_time) = merge_upstreams units;
            resp = stats_resp_empty\<lparr>
              sr_top_queried_domains := merge_top units MAX_DOMAINS ignored sd_domains,
              sr_top_blocked_domains := merge_top units MAX_DOMAINS ignored sd_blocked_domains,
              sr_top_clients := merge_top units MAX_CLIENTS [] sd_clients,
              sr_top_upstreams_responses := responses, sr_top_upstreams_avg_time := avg_time\<rparr>;
            resp = fill_per_unit units resp;
            t = foldl add_totals \<lparr>tt_n_result = replicate RESULT_COUNT 0, tt_n_total = 0, tt_time_avg_sum = 0, tt_time_units = 0\<rparr> units
        in resp\<lparr>sr_num_dns_queries := tt_n_total t,
                sr_num_blocked_filtering := tt_n_result t ! result_index ResFiltered,
                sr_num_replaced_safebrowsing := tt_n_result t ! result_index ResSafeBrowsing,
                sr_num_replaced_safesearch := tt_n_result t ! result_index ResSafeSearch,
                sr_num_replaced_parental := tt_n_result t ! result_index ResParental,
                sr_avg_processing_time :=
                  (if tt_time_units t \<noteq> 0 then tt_time_avg_sum t div tt_time_units t else 0)\<rparr>)"

section \<open>Top lists\<close>

lemma inj_pair_order: "inj pair_order"
proof (rule injI)
  fix x y assume "pair_order x = pair_order y"
  then have "NOT (NOT (snd x)) = NOT (NOT (snd y))" "fst x = fst y" by (auto simp: pair_order_def split: prod.splits)
  then show "x = y" by (simp add: prod_eq_iff)
qed

lemma sort_pairs_unique: "mset xs = mset ys \<Longrightarrow> sorted (map pair_order ys) \<Longrightarrow> sort_key pair_order xs = ys"
  by (rule sort_key_inj_key_eq) (auto intro: inj_on_subset [OF inj_pair_order])

text \<open>What the documentation of \<open>select_nth_unstable_by\<close> promises, and why the code may rely on no more.\<close>

locale nth_selection =
  fixes select :: "nat \<Rightarrow> counter \<Rightarrow> counter"
  assumes perm: "mset (select n v) = mset v"
    and split: "n < length v \<Longrightarrow> i < n \<Longrightarrow> n \<le> j \<Longrightarrow> j < length v
      \<Longrightarrow> pair_order (select n v ! i) \<le> pair_order (select n v ! j)"
begin

lemma length_select: "length (select n v) = length v"
  by (metis perm size_mset)

lemma select_sorts:
  assumes "n < length v"
  shows "sort_key pair_order (take n (select n v)) = take n (sort_key pair_order v)"
proof -
  let ?a = "take n (select n v)" and ?b = "drop n (select n v)"
  have le: "pair_order x \<le> pair_order y" if x: "x \<in> set ?a" and y: "y \<in> set ?b" for x y
  proof -
    obtain i where "i < length ?a" "?a ! i = x" using x in_set_conv_nth [of x ?a] by blast
    then have i: "i < n" "x = select n v ! i" by simp_all
    obtain j where j: "j < length v - n" "y = select n v ! (n + j)"
      using y by (auto simp: in_set_conv_nth length_select)
    show ?thesis using split [OF assms i(1), of "n + j"] i j by simp
  qed
  have "mset v = mset (sort_key pair_order ?a @ sort_key pair_order ?b)"
    by (simp add: perm mset_append [symmetric])
  moreover have "sorted (map pair_order (sort_key pair_order ?a @ sort_key pair_order ?b))"
    using le by (auto simp: sorted_append)
  ultimately have "sort_key pair_order v = sort_key pair_order ?a @ sort_key pair_order ?b" by (rule sort_pairs_unique)
  moreover have "length (sort_key pair_order ?a) = n" using assms by (simp add: length_select)
  ultimately show ?thesis by simp
qed

end

lemma mset_three_parts:
  "mset (filter (\<lambda>x. pair_order x < p) v @ filter (\<lambda>x. pair_order x = p) v @ filter (\<lambda>x. p < pair_order x) v) = mset v"
  by (induction v) auto

lemma select_nth_parts:
  fixes v :: counter
  assumes "n < length v"
  defines "p \<equiv> pair_order (sort_key pair_order v ! n)"
  shows "length (filter (\<lambda>x. pair_order x < p) v) \<le> n"
    and "n < length (filter (\<lambda>x. pair_order x < p) v @ filter (\<lambda>x. pair_order x = p) v)"
proof -
  let ?s = "sort_key pair_order v"
  have mono: "pair_order (?s ! i) \<le> pair_order (?s ! j)" if "i \<le> j" "j < length v" for i j
    using that sorted_nth_mono [of "map pair_order ?s" i j] by simp
  have "mset (filter Q ?s) = mset (filter Q v)" for Q by (simp add: mset_filter)
  then have len: "length (filter Q ?s) = length (filter Q v)" for Q by (metis size_mset)
  have "\<not> pair_order x < p" if x: "x \<in> set (drop n ?s)" for x
  proof -
    obtain i where "i < length v - n" "x = ?s ! (n + i)" using x by (auto simp: in_set_conv_nth)
    then show ?thesis using mono [of n "n + i"] by (simp add: p_def not_less)
  qed
  then have "filter (\<lambda>x. pair_order x < p) (drop n ?s) = []" by (simp add: filter_empty_conv)
  moreover have "filter (\<lambda>x. pair_order x < p) ?s = filter (\<lambda>x. pair_order x < p) (take n ?s) @ filter (\<lambda>x. pair_order x < p) (drop n ?s)"
    by (simp add: filter_append [symmetric] del: filter_append)
  ultimately have "length (filter (\<lambda>x. pair_order x < p) ?s) \<le> length (take n ?s)"
    by (simp del: length_take)
  then show "length (filter (\<lambda>x. pair_order x < p) v) \<le> n" by (simp add: len [symmetric])
  have "pair_order x \<le> p" if x: "x \<in> set (take (Suc n) ?s)" for x
  proof -
    obtain i where "i < Suc n" "x = ?s ! i" using x by (auto simp: in_set_conv_nth)
    then show ?thesis using mono [of i n] assms(1) by (simp add: p_def)
  qed
  then have "filter (\<lambda>x. pair_order x \<le> p) (take (Suc n) ?s) = take (Suc n) ?s" by simp
  moreover have "filter (\<lambda>x. pair_order x \<le> p) ?s = filter (\<lambda>x. pair_order x \<le> p) (take (Suc n) ?s) @ filter (\<lambda>x. pair_order x \<le> p) (drop (Suc n) ?s)"
    by (simp add: filter_append [symmetric] del: filter_append)
  ultimately have "Suc n \<le> length (filter (\<lambda>x. pair_order x \<le> p) ?s)" using assms(1) by simp
  moreover have "length (filter (\<lambda>x. pair_order x \<le> p) v) = length (filter (\<lambda>x. pair_order x < p) v @ filter (\<lambda>x. pair_order x = p) v)"
    by (induction v) auto
  ultimately show "n < length (filter (\<lambda>x. pair_order x < p) v @ filter (\<lambda>x. pair_order x = p) v)"
    by (simp add: len)
qed

interpretation nth_partition: nth_selection select_nth
proof
  fix n and v :: counter
  show "mset (select_nth n v) = mset v"
    unfolding select_nth_def Let_def by (rule mset_three_parts)
next
  fix n i j and v :: counter
  assume a: "n < length v" "i < n" "n \<le> j" "j < length v"
  define p where "p = pair_order (sort_key pair_order v ! n)"
  define A B C where "A = filter (\<lambda>x. pair_order x < p) v" "B = filter (\<lambda>x. pair_order x = p) v" "C = filter (\<lambda>x. p < pair_order x) v"
  note parts = select_nth_parts [OF a(1), folded p_def, folded A_B_C_def]
  have s: "select_nth n v = (A @ B) @ C" by (simp add: select_nth_def p_def A_B_C_def Let_def)
  have len: "length (A @ B @ C) = length v" unfolding A_B_C_def using mset_three_parts by (rule mset_eq_length)
  have "(A @ B) ! i \<in> set (A @ B)" using a(2) parts(2) by (intro nth_mem) simp
  then have "pair_order (select_nth n v ! i) \<le> p"
    using a(2) parts(2) unfolding s by (auto simp: nth_append A_B_C_def)
  moreover have "(B @ C) ! (j - length A) \<in> set (B @ C)" using a(3,4) parts(1) len by (intro nth_mem) simp
  then have "p \<le> pair_order (select_nth n v ! j)"
    using a(3) parts(1) unfolding s append_assoc by (subst nth_append) (auto simp: A_B_C_def)
  ultimately show "pair_order (select_nth n v ! i) \<le> pair_order (select_nth n v ! j)" by (rule order_trans)
qed

lemma to_pairs_eq: "to_pairs m n = map (\<lambda>(k, c). \<lparr>sp_name = k, sp_count = c\<rparr>) (take n (sort_key pair_order m))"
  by (simp add: to_pairs_def nth_partition.select_sorts)

definition outranks :: "stat_pair \<Rightarrow> stat_pair \<Rightarrow> bool" where
  "outranks p q \<longleftrightarrow> sp_count q < sp_count p \<or> sp_count p = sp_count q \<and> sp_name p \<le> sp_name q"

definition listed :: "counter \<Rightarrow> stat_pair list" where
  "listed m = map (\<lambda>(k, c). \<lparr>sp_name = k, sp_count = c\<rparr>) m"

lemma word_NOT_less: "NOT a < NOT b \<longleftrightarrow> b < a" for a b :: "'a::len word"
proof -
  have m: "unat x \<le> unat (- 1 :: 'a word)" for x :: "'a word" by (simp only: word_le_nat_alt [symmetric] max_word_max)
  have n: "unat (NOT x) = unat (- 1 :: 'a word) - unat x" for x :: "'a word"
    using unat_sub [of x "- 1"] by (simp add: not_eq_complement minus_diff_commute [of x 1])
  show ?thesis using m [of a] m [of b] unfolding word_less_nat_alt n by linarith
qed

lemma word_NOT_le: "NOT a \<le> NOT b \<longleftrightarrow> b \<le> a" for a b :: "'a::len word"
  using word_NOT_less [of b a] by (simp add: not_less [symmetric])

lemma outranks_order:
  "pair_order (k, c) \<le> pair_order (k', c') \<longleftrightarrow> outranks \<lparr>sp_name = k, sp_count = c\<rparr> \<lparr>sp_name = k', sp_count = c'\<rparr>"
proof -
  have "NOT c = NOT c' \<longleftrightarrow> c = c'" by (metis bit.double_compl)
  then show ?thesis by (auto simp: pair_order_def outranks_def less_eq_prod_def word_NOT_less word_NOT_le)
qed

text \<open>
  C17.  The top list of a counter is the same whatever order its hash map is read in.  It holds the
  highest counts, ties broken by name, in order: all of them up to the limit, and whatever was left
  out ranks after everything kept.
\<close>

theorem top_pairs_correct:
  assumes "mset m' = mset m"
  shows "to_pairs m' n = to_pairs m n
    \<and> (\<exists>rest. mset (to_pairs m n) + mset rest = mset (listed m) \<and> (\<forall>p \<in> set (to_pairs m n). \<forall>q \<in> set rest. outranks p q))
    \<and> sorted_wrt outranks (to_pairs m n) \<and> length (to_pairs m n) = min n (length m)"
proof (intro conjI)
  let ?mk = "\<lambda>(k, c). \<lparr>sp_name = k, sp_count = c\<rparr>" and ?s = "sort_key pair_order m"
  have "sort_key pair_order m' = ?s" by (rule sort_pairs_unique) (simp_all add: assms)
  then show "to_pairs m' n = to_pairs m n" by (simp add: to_pairs_eq)
  have "sorted_wrt (\<lambda>x y. pair_order x \<le> pair_order y) ?s" using sorted_sort_key [of pair_order m] by (simp add: sorted_map)
  then have s: "sorted_wrt outranks (map ?mk ?s)"
    by (simp add: sorted_wrt_map) (erule sorted_wrt_mono_rel [rotated], auto simp: outranks_order split: prod.splits)
  have e: "map ?mk ?s = to_pairs m n @ map ?mk (drop n ?s)"
    by (simp add: to_pairs_eq map_append [symmetric] del: map_append)
  show "sorted_wrt outranks (to_pairs m n)" using s unfolding e by (simp add: sorted_wrt_append)
  have "\<forall>p \<in> set (to_pairs m n). \<forall>q \<in> set (map ?mk (drop n ?s)). outranks p q"
    using s unfolding e sorted_wrt_append by blast
  moreover have "mset (to_pairs m n) + mset (map ?mk (drop n ?s)) = mset (listed m)"
    using arg_cong [OF e, of mset] by (simp add: listed_def)
  ultimately show "\<exists>rest. mset (to_pairs m n) + mset rest = mset (listed m) \<and> (\<forall>p \<in> set (to_pairs m n). \<forall>q \<in> set rest. outranks p q)"
    by blast
  show "length (to_pairs m n) = min n (length m)" by (simp add: to_pairs_eq)
qed

section \<open>Counting\<close>

definition csum :: "counter \<Rightarrow> u64" where
  "csum m = sum_list (map snd m)"

lemma csum_bump [simp]: "csum (bump k n m) = csum m + n"
  by (induction k n m rule: bump.induct) (simp_all add: csum_def)

lemma bump_lookup: "map_of (bump k n m) k' = (if k = k' then Some (n + (case map_of m k of Some c \<Rightarrow> c | None \<Rightarrow> 0)) else map_of m k')"
  by (induction k n m rule: bump.induct) auto

text \<open>Every query is counted once in each of the four breakdowns of its hour.\<close>

definition unit_balanced :: "stat_unit \<Rightarrow> bool" where
  "unit_balanced u \<longleftrightarrow> length (un_n_result u) = RESULT_COUNT \<and> sum_list (un_n_result u) = un_n_total u
     \<and> csum (un_clients u) = un_n_total u \<and> csum (un_domains u) = un_n_result u ! result_index ResNotFiltered
     \<and> csum (un_domains u) + csum (un_blocked_domains u) = un_n_total u"

lemma add_upstream_keeps:
  "un_id (foldl add_upstream u us) = un_id u" "un_domains (foldl add_upstream u us) = un_domains u"
  "un_blocked_domains (foldl add_upstream u us) = un_blocked_domains u" "un_clients (foldl add_upstream u us) = un_clients u"
  "un_n_result (foldl add_upstream u us) = un_n_result u" "un_n_total (foldl add_upstream u us) = un_n_total u"
  "un_time_sum (foldl add_upstream u us) = un_time_sum u"
  by (induction us arbitrary: u) (simp_all add: add_upstream_def)

lemma result_index_bound: "result_index r < RESULT_COUNT"
  by (cases r) (simp_all add: RESULT_COUNT_def)

lemma sum_list_bump: "i < length xs \<Longrightarrow> sum_list (xs[i := xs ! i + 1]) = sum_list xs + 1" for xs :: "u64 list"
  by (induction xs arbitrary: i) (auto split: nat.splits)

lemmas sum_list_bump' = sum_list_bump [unfolded add.commute [of _ 1]]

lemma unit_add_balanced:
  assumes "unit_balanced u"
  shows "unit_balanced (unit_add e u)"
proof -
  have i: "result_index (en_result e) < length (un_n_result u)"
    using assms result_index_bound by (simp add: unit_balanced_def)
  have "result_index (en_result e) = result_index ResNotFiltered \<longleftrightarrow> en_result e = ResNotFiltered"
    by (cases "en_result e") simp_all
  then show ?thesis
    using assms i by (auto simp: unit_balanced_def unit_add_def Let_def add_upstream_keeps sum_list_bump' nth_list_update algebra_simps)
qed

lemma unit_add_id [simp]: "un_id (unit_add e u) = un_id u"
  by (simp add: unit_add_def Let_def add_upstream_keeps)

definition count_hour :: "u32 \<Rightarrow> stat_entry list \<Rightarrow> stat_unit" where
  "count_hour h es = foldl (\<lambda>u e. unit_add e u) (unit_new h) es"

lemma count_hour_facts: "un_id (count_hour h es) = h" "unit_balanced (count_hour h es)"
proof (induction es rule: rev_induct)
  case Nil
  show "un_id (count_hour h []) = h" "unit_balanced (count_hour h [])"
    by (simp_all add: count_hour_def unit_new_def unit_balanced_def csum_def RESULT_COUNT_def eval_nat_numeral)
next
  case (snoc e es)
  then show "un_id (count_hour h (es @ [e])) = h" "unit_balanced (count_hour h (es @ [e]))"
    by (simp_all add: count_hour_def unit_add_balanced)
qed

definition stats_run :: "(stat_entry \<times> u32) list \<Rightarrow> stats \<Rightarrow> stats" where
  "stats_run qs s = foldl (\<lambda>s (e, h). snd (add_at e h s)) s qs"

definition hour_entries :: "(stat_entry \<times> u32) list \<Rightarrow> u32 \<Rightarrow> stat_entry list" where
  "hour_entries qs h = map fst (filter (\<lambda>(e, h'). h' = h \<and> entry_is_valid e) qs)"

definition stored_hour :: "(stat_entry \<times> u32) list \<Rightarrow> u32 \<Rightarrow> stat_db option" where
  "stored_hour qs h = (if hour_entries qs h = [] then None else Some (to_db (count_hour h (hour_entries qs h))))"

lemma hour_entries_snoc:
  "hour_entries (qs @ [(e, h)]) h' = hour_entries qs h' @ (if h' = h \<and> entry_is_valid e then [e] else [])"
  by (auto simp: hour_entries_def)

definition counted :: "(stat_entry \<times> u32) list \<Rightarrow> stats_inner \<Rightarrow> bool" where
  "counted qs s \<longleftrightarrow>
     (case in_current s of
        None \<Rightarrow> in_past s = [] \<and> (\<forall>h. hour_entries qs h = [])
      | Some u \<Rightarrow> u = count_hour (un_id u) (hour_entries qs (un_id u)) \<and> hour_entries qs (un_id u) \<noteq> []
          \<and> (\<forall>h. hour_entries qs h \<noteq> [] \<longrightarrow> h \<le> un_id u)
          \<and> (\<forall>h. h \<noteq> un_id u \<longrightarrow> map_of (in_past s) h = stored_hour qs h)
          \<and> sorted_wrt (<) (map fst (in_past s) @ [un_id u]))"

lemma hour_entries_bound: "\<forall>q \<in> set qs. snd q \<le> h \<Longrightarrow> hour_entries qs h' \<noteq> [] \<Longrightarrow> h' \<le> h"
  by (auto simp: hour_entries_def filter_empty_conv)

lemma counted_add:
  assumes c: "counted qs (st_inner s)" and en: "sc_enabled (st_config s)" and le: "\<forall>q \<in> set qs. snd q \<le> h"
  shows "counted (qs @ [(e, h)]) (st_inner (snd (add_at e h s)))"
proof (cases "entry_is_valid e")
  case False
  then have "hour_entries (qs @ [(e, h)]) = hour_entries qs" by (auto simp: hour_entries_snoc)
  then show ?thesis using False c by (simp add: add_at_def counted_def stored_hour_def split: option.splits)
next
  case True
  have bound: "\<forall>h'. hour_entries (qs @ [(e, h)]) h' \<noteq> [] \<longrightarrow> h' \<le> h"
    using hour_entries_bound [of "qs @ [(e, h)]" h] le by auto
  show ?thesis
  proof (cases "in_current (st_inner s)")
    case None
    then have e: "in_past (st_inner s) = []" "hour_entries qs h' = []" for h' using c by (simp_all add: counted_def)
    have "snd (add_at e h s) = s\<lparr>st_inner := (st_inner s)\<lparr>in_current := Some (unit_add e (unit_new h))\<rparr>,
        st_unsaved := st_unsaved s\<rparr>"
      using True en None by (simp add: add_at_def roll_def)
    then show ?thesis using True bound e
      by (simp add: counted_def hour_entries_snoc stored_hour_def count_hour_def unit_new_def)
  next
    case (Some u)
    then have u: "u = count_hour (un_id u) (hour_entries qs (un_id u))" "hour_entries qs (un_id u) \<noteq> []"
      "\<forall>h. hour_entries qs h \<noteq> [] \<longrightarrow> h \<le> un_id u"
      "\<forall>h. h \<noteq> un_id u \<longrightarrow> map_of (in_past (st_inner s)) h = stored_hour qs h"
      "sorted_wrt (<) (map fst (in_past (st_inner s)) @ [un_id u])"
      using c by (simp_all add: counted_def)
    have hu: "un_id u \<le> h" using hour_entries_bound [OF le u(2)] .
    show ?thesis
    proof (cases "un_id u = h")
      case same: True
      have "st_inner (snd (add_at e h s)) = (st_inner s)\<lparr>in_current := Some (unit_add e u)\<rparr>"
        using True en Some same by (simp add: add_at_def roll_def)
      moreover have "unit_add e u = count_hour h (hour_entries qs h @ [e])"
        using u(1) same by (simp add: count_hour_def)
      ultimately show ?thesis using True bound u same
        by (simp add: counted_def hour_entries_snoc stored_hour_def count_hour_facts)
    next
      case False
      then have new: "hour_entries qs h = []" using u(3) hu by (metis order_antisym)
      have ins: "bt_insert (un_id u) (to_db u) (in_past (st_inner s)) = in_past (st_inner s) @ [(un_id u, to_db u)]"
        using u(5) by (intro bt_insert_last) (auto simp: sorted_wrt_append)
      have lk: "map_of (in_past (st_inner s) @ [(un_id u, to_db u)]) h'
        = (if un_id u = h' then Some (to_db u) else map_of (in_past (st_inner s)) h')" for h'
        using map_of_bt_insert [of "un_id u" "to_db u" "in_past (st_inner s)" h'] unfolding ins .
      have srt: "sorted_wrt (<) (map fst (in_past (st_inner s)) @ [un_id u, h])"
        using u(5) hu False by (auto simp: sorted_wrt_append intro: less_trans order_neq_le_trans)
      have "st_inner (snd (add_at e h s)) = (st_inner s)\<lparr>in_current := Some (unit_add e (unit_new h)),
          in_past := in_past (st_inner s) @ [(un_id u, to_db u)]\<rparr>"
        using True en Some False by (simp add: add_at_def roll_def ins)
      moreover have "unit_add e (unit_new h) = count_hour h [e]" by (simp add: count_hour_def)
      moreover have "stored_hour qs (un_id u) = Some (to_db u)" using u(1,2) by (simp add: stored_hour_def)
      ultimately show ?thesis using True bound u(4) new False srt lk
        by (auto simp: counted_def hour_entries_snoc stored_hour_def count_hour_facts simp del: map_of_append)
    qed
  qed
qed

lemma stats_run_snoc: "stats_run (qs @ [(e, h)]) s = snd (add_at e h (stats_run qs s))"
  by (simp add: stats_run_def)

lemma add_at_config [simp]: "st_config (snd (add_at e h s)) = st_config s"
  by (simp add: add_at_def Let_def split: prod.splits)

lemma counted_run:
  assumes "sc_enabled c" "sorted (map snd qs)"
  shows "counted qs (st_inner (stats_run qs (stats_new c))) \<and> st_config (stats_run qs (stats_new c)) = c"
  using assms(2)
proof (induction qs rule: rev_induct)
  case Nil
  show ?case by (simp add: counted_def stats_run_def stats_new_def hour_entries_def)
next
  case (snoc q qs)
  obtain e h where q: "q = (e, h)" by (cases q)
  have "counted qs (st_inner (stats_run qs (stats_new c))) \<and> st_config (stats_run qs (stats_new c)) = c"
    using snoc by (simp add: sorted_append)
  moreover have "\<forall>q \<in> set qs. snd q \<le> h" using snoc.prems by (auto simp: sorted_append q)
  ultimately show ?case using counted_add [of qs "stats_run qs (stats_new c)" h e] assms(1) by (simp add: q stats_run_snoc)
qed

section \<open>Totals and days\<close>

lemma add_totals_sum:
  "tt_n_total (foldl add_totals t us) = tt_n_total t + sum_list (map sd_n_total us)"
  "length (tt_n_result (foldl add_totals t us)) = length (tt_n_result t)"
  "i < length (tt_n_result t) \<Longrightarrow>
     tt_n_result (foldl add_totals t us) ! i = tt_n_result t ! i + sum_list (map (\<lambda>u. nth_count (sd_n_result u) i) us)"
  by (induction us arbitrary: t) (simp_all add: add_totals_def Let_def nth_enumerate_eq add.assoc)

lemma foldl_day_nth:
  "d < length xs \<Longrightarrow> foldl (\<lambda>xs (i, u). xs[i div 24 := xs ! (i div 24) + f u]) xs es ! d
     = xs ! d + sum_list (map (\<lambda>(i, u). f u) (filter (\<lambda>(i, u). i div 24 = d) es))" for f :: "'b \<Rightarrow> u64"
  by (induction es arbitrary: xs) (auto simp: nth_list_update add.assoc)

lemma length_foldl_day: "length (foldl (\<lambda>xs (i, u). xs[i div 24 := xs ! (i div 24) + f u]) xs es) = length xs"
  by (induction es arbitrary: xs) (auto simp: case_prod_unfold)

lemma filter_day:
  "map snd (filter (\<lambda>(i, u). i div 24 = d) (enumerate 0 us)) = take 24 (drop (24 * d) us)"
proof -
  have "map snd (filter (\<lambda>(i, u). i div 24 = d) (enumerate n us)) = drop (24 * d - n) (take (24 * Suc d - n) us)" for n
  proof (induction us arbitrary: n)
    case (Cons u us)
    have day: "n div 24 = d \<longleftrightarrow> 24 * d \<le> n \<and> n < 24 * Suc d" by (auto simp: div_nat_eqI)
    consider "n < 24 * d" | "24 * d \<le> n" "n < 24 * Suc d" | "24 * Suc d \<le> n" by linarith
    then show ?case
    proof cases
      case 1
      then have "24 * d - n = Suc (24 * d - Suc n)" "24 * Suc d - n = Suc (24 * Suc d - Suc n)" by auto
      then show ?thesis using Cons [of "Suc n"] 1 day by simp
    next
      case 2
      then have "24 * Suc d - n = Suc (24 * Suc d - Suc n)" "24 * d - n = 0" "24 * d - Suc n = 0" by auto
      then show ?thesis using Cons [of "Suc n"] 2 day by simp
    next
      case 3
      then show ?thesis using Cons [of "Suc n"] day by simp
    qed
  qed simp
  from this [of 0] show ?thesis by (simp add: take_drop)
qed

lemma sum_days_nth:
  assumes "d < n"
  shows "sum_days f n hs ! d = sum_list (map f (take 24 (drop (24 * d) hs)))"
  using foldl_day_nth [of d "replicate n 0" f "enumerate 0 hs"] assms
  by (simp add: sum_days_def filter_day [symmetric] comp_def case_prod_unfold)

lemma length_sum_days [simp]: "length (sum_days f n hs) = n"
  by (simp add: sum_days_def length_foldl_day)

definition day_sums :: "(stat_db \<Rightarrow> u64) \<Rightarrow> stat_db list \<Rightarrow> u64 list" where
  "day_sums f us = map (\<lambda>d. sum_list (map f (take 24 (drop (length us mod 24 + 24 * d) us)))) [0..<length us div 24]"

lemma sum_days_eq: "sum_days f (length us div 24) (drop (length us - length us div 24 * 24) us) = day_sums f us"
proof -
  have "length us - length us div 24 * 24 = length us mod 24" by (simp add: minus_div_mult_eq_mod)
  then show ?thesis by (intro nth_equalityI) (simp_all add: day_sums_def sum_days_nth add.commute)
qed

section \<open>Reporting what was counted\<close>

lemma count_hour_snoc: "count_hour h (es @ [e]) = unit_add e (count_hour h es)"
  by (simp add: count_hour_def)

lemma unit_add_totals:
  "un_n_total (unit_add e u) = un_n_total u + 1"
  "un_n_result (unit_add e u) = (un_n_result u)[result_index (en_result e) := un_n_result u ! result_index (en_result e) + 1]"
  by (simp_all add: unit_add_def Let_def add_upstream_keeps)

lemma count_hour_totals:
  "un_n_total (count_hour h es) = of_nat (length es)"
  "un_n_result (count_hour h es) ! result_index r = of_nat (length (filter (\<lambda>e. en_result e = r) es))"
proof (induction es rule: rev_induct)
  case Nil
  show "un_n_total (count_hour h []) = of_nat (length ([] :: stat_entry list))"
    "un_n_result (count_hour h []) ! result_index r = of_nat (length (filter (\<lambda>e. en_result e = r) []))"
    using result_index_bound [of r] by (simp_all add: count_hour_def unit_new_def)
next
  case (snoc e es)
  have "result_index (en_result e) = result_index r \<longleftrightarrow> en_result e = r" by (cases "en_result e"; cases r) simp_all
  moreover have "result_index (en_result e) < length (un_n_result (count_hour h es))"
    using count_hour_facts(2) [of h es] result_index_bound by (simp add: unit_balanced_def)
  ultimately show "un_n_total (count_hour h (es @ [e])) = of_nat (length (es @ [e]))"
    "un_n_result (count_hour h (es @ [e])) ! result_index r = of_nat (length (filter (\<lambda>e. en_result e = r) (es @ [e])))"
    using snoc by (simp_all add: count_hour_snoc unit_add_totals nth_list_update)
qed

lemma stored_results:
  "n_result_of r (to_db (count_hour h es)) = of_nat (length (filter (\<lambda>e. en_result e = r) es))"
  using count_hour_facts(2) [of h es] result_index_bound [of r]
  by (simp add: n_result_of_def nth_count_def to_db_def count_hour_totals unit_balanced_def)

text \<open>
  C14.  While statistics are enabled, the clock does not go back and queries are only counted, every hour
  holds exactly what counting the valid queries of that hour alone gives, in the stored form that keeps
  the hundred most frequent names of each kind; its total is the number of those queries and its counts
  by result add up to it.  The hour in progress still has every name, and its counts by result, by client
  and by domain each add up to its total.
\<close>

theorem stats_hours_exact:
  assumes "sc_enabled c" "sorted (map snd qs)"
  shows "inner_unit (st_inner (stats_run qs (stats_new c))) h =
      (if hour_entries qs h = [] then None else Some (to_db (count_hour h (hour_entries qs h))))
    \<and> (\<forall>db. inner_unit (st_inner (stats_run qs (stats_new c))) h = Some db \<longrightarrow>
         sd_n_total db = of_nat (length (hour_entries qs h)) \<and> sum_list (sd_n_result db) = sd_n_total db)
    \<and> (\<forall>u. in_current (st_inner (stats_run qs (stats_new c))) = Some u \<longrightarrow> unit_balanced u)"
proof -
  let ?s = "st_inner (stats_run qs (stats_new c))"
  have c: "counted qs ?s" using counted_run [OF assms] by simp
  then have iu: "inner_unit ?s h = (if hour_entries qs h = [] then None else Some (to_db (count_hour h (hour_entries qs h))))"
    by (auto simp: counted_def inner_unit_def stored_hour_def count_hour_facts split: option.splits)
  moreover have "unit_balanced u" if "in_current ?s = Some u" for u
    using c that count_hour_facts(2) by (simp add: counted_def) metis
  moreover have "sd_n_total (to_db (count_hour h es)) = of_nat (length es)"
      "sum_list (sd_n_result (to_db (count_hour h es))) = sd_n_total (to_db (count_hour h es))" for es
    using count_hour_facts(2) [of h es] by (simp_all add: to_db_def count_hour_totals unit_balanced_def)
  ultimately show ?thesis by auto
qed

text \<open>The number of queries with a property in each hour of the window, oldest first.\<close>

definition hourly :: "(stat_entry \<times> u32) list \<Rightarrow> u32 \<Rightarrow> nat \<Rightarrow> (stat_entry \<Rightarrow> bool) \<Rightarrow> u64 list" where
  "hourly qs cur limit P =
     map (\<lambda>i. of_nat (length (filter P (hour_entries qs (sat_sub cur (of_nat (limit - 1 - i))))))) [0..<limit]"

definition by_day :: "u64 list \<Rightarrow> u64 list" where
  "by_day xs = map (\<lambda>d. sum_list (take 24 (drop (length xs mod 24 + 24 * d) xs))) [0..<length xs div 24]"

lemma day_sums_by_day: "day_sums f us = by_day (map f us)"
  by (simp add: day_sums_def by_day_def take_map drop_map)

lemma window_counts:
  assumes "\<And>h. inner_unit s h = (if hour_entries qs h = [] then None else Some (to_db (count_hour h (hour_entries qs h))))"
  shows "map sd_n_total (window cur limit s) = hourly qs cur limit (\<lambda>_. True)"
    and "map (n_result_of r) (window cur limit s) = hourly qs cur limit (\<lambda>e. en_result e = r)"
proof -
  have "sd_n_total (to_db (count_hour h es)) = of_nat (length es)" for h es by (simp add: to_db_def count_hour_totals)
  then show "map sd_n_total (window cur limit s) = hourly qs cur limit (\<lambda>_. True)"
    by (simp add: window_def hourly_def assms stat_db_default_def)
  show "map (n_result_of r) (window cur limit s) = hourly qs cur limit (\<lambda>e. en_result e = r)"
    by (simp add: window_def hourly_def assms stored_results) (simp add: stat_db_default_def n_result_of_def nth_count_def)
qed

lemma length_window [simp]: "length (window cur limit s) = limit"
  by (simp add: window_def)

lemma fill_per_unit_arrays:
  defines "per \<equiv> (\<lambda>us xs. if length us div 24 > 7 then by_day xs else xs)"
  shows "sr_dns_queries (fill_per_unit us r) = per us (map sd_n_total us)"
    "sr_blocked_filtering (fill_per_unit us r) = per us (map (n_result_of ResFiltered) us)"
    "sr_replaced_safebrowsing (fill_per_unit us r) = per us (map (n_result_of ResSafeBrowsing) us)"
    "sr_replaced_parental (fill_per_unit us r) = per us (map (n_result_of ResParental) us)"
    "sr_time_units (fill_per_unit us r) = (if length us div 24 > 7 then Days else Hours)"
  by (simp_all add: fill_per_unit_def Let_def per_def sum_days_eq day_sums_by_day)

text \<open>
  C15.  While statistics are enabled with a window that is not empty, the clock does not go back and
  queries are only counted, the report counts, for every hour of the window, the queries of that hour, in
  total and by result; a window of more than a week is summed into whole days with the leading partial
  day left out of the arrays, and the totals cover the whole window.
\<close>

theorem stats_report_exact:
  assumes "sc_enabled c" "sorted (map snd qs)" "sc_limit_hours c \<noteq> 0"
  shows "let r = stats_data cur (stats_run qs (stats_new c)); limit = unat (sc_limit_hours c);
      count = hourly qs cur limit; per = (if limit div 24 > 7 then by_day else (\<lambda>xs. xs)) in
    sr_time_units r = (if limit div 24 > 7 then Days else Hours)
    \<and> sr_dns_queries r = per (count (\<lambda>_. True)) \<and> sr_num_dns_queries r = sum_list (count (\<lambda>_. True))
    \<and> sr_blocked_filtering r = per (count (\<lambda>e. en_result e = ResFiltered))
    \<and> sr_num_blocked_filtering r = sum_list (count (\<lambda>e. en_result e = ResFiltered))
    \<and> sr_replaced_safebrowsing r = per (count (\<lambda>e. en_result e = ResSafeBrowsing))
    \<and> sr_num_replaced_safebrowsing r = sum_list (count (\<lambda>e. en_result e = ResSafeBrowsing))
    \<and> sr_replaced_parental r = per (count (\<lambda>e. en_result e = ResParental))
    \<and> sr_num_replaced_parental r = sum_list (count (\<lambda>e. en_result e = ResParental))
    \<and> sr_num_replaced_safesearch r = sum_list (count (\<lambda>e. en_result e = ResSafeSearch))"
proof -
  let ?s = "stats_run qs (stats_new c)"
  have cfg: "st_config ?s = c" "counted qs (st_inner ?s)" using counted_run [OF assms(1,2)] by simp_all
  have iu: "inner_unit (st_inner ?s) h = (if hour_entries qs h = [] then None else Some (to_db (count_hour h (hour_entries qs h))))" for h
    using cfg(2) by (auto simp: counted_def inner_unit_def stored_hour_def count_hour_facts split: option.splits)
  have tot: "sum_list (map (\<lambda>u. nth_count (sd_n_result u) (result_index r)) us) = sum_list (map (n_result_of r) us)" for r us
    by (simp add: n_result_of_def [abs_def])
  note w = window_counts [of "st_inner ?s" qs, OF iu]
  show ?thesis
    using assms(3) result_index_bound tot
    by (simp add: Let_def stats_data_def cfg(1) case_prod_unfold fill_per_unit_arrays w add_totals_sum del: result_index.simps)
qed

section \<open>What has to be saved\<close>

text \<open>
  The statistics beside \<open>stats.db\<close>, as \<open>main.rs\<close> runs them: the collector is loaded from the file when the
  program starts, and a task claims the pending write, takes a snapshot and stores it, between any other
  calls.  \<open>db_file\<close> is the list of units the file holds.
\<close>

definition stats_boot :: "u32 \<Rightarrow> stats_config \<Rightarrow> (u32 \<times> stat_db) list \<Rightarrow> stats" where
  "stats_boot hour c stored = (if stored \<noteq> [] then stats_load hour stored (stats_new c) else stats_new c)"

datatype stats_op = OpAdd stat_entry u32 | OpPrune u32 | OpConfig u32 stats_config | OpClear

fun stats_op_step :: "stats \<Rightarrow> stats_op \<Rightarrow> stats" where
  "stats_op_step s (OpAdd e h) = snd (add_at e h s)"
| "stats_op_step s (OpPrune h) = prune h s"
| "stats_op_step s (OpConfig h c) = stats_set_config h c s"
| "stats_op_step s OpClear = stats_clear s"

datatype saver = Waiting | Claimed | Holding "(u32 \<times> stat_db) list"

datatype saver_op = Do stats_op | SaveClaim | SaveSnapshot u32 | SaveStore bool

type_synonym saver_state = "stats \<times> saver \<times> (u32 \<times> stat_db) list"

fun saver_step :: "saver_state \<Rightarrow> saver_op \<Rightarrow> saver_state" where
  "saver_step (s, sv, db_file) (Do op) = (stats_op_step s op, sv, db_file)"
| "saver_step (s, Waiting, db_file) SaveClaim = (let (c, s) = claim_save s in (s, if c then Claimed else Waiting, db_file))"
| "saver_step (s, Claimed, db_file) (SaveSnapshot h) = (let (units, s) = snapshot h s in (s, Holding units, db_file))"
| "saver_step (s, Holding units, db_file) (SaveStore ok) = (s, Waiting, if ok then units else db_file)"
| "saver_step st op = st"

text \<open>The file holds the finished hours, and at most the hour in progress besides.\<close>

definition holds_past :: "(u32 \<times> stat_db) list \<Rightarrow> stats \<Rightarrow> bool" where
  "holds_past units s \<longleftrightarrow> (\<exists>live. length live \<le> 1 \<and> units = in_past (st_inner s) @ live)"








lemma holds_past_saved [simp]: "holds_past units (s\<lparr>st_unsaved := b\<rparr>) = holds_past units s"
  by (simp add: holds_past_def)





section \<open>Witnesses\<close>

definition sample_entry :: "unit_result \<Rightarrow> stat_entry" where
  "sample_entry r = \<lparr>en_client = ''c'', en_domain = ''d'', en_result = r, en_processing_time = 5000, en_upstreams = []\<rparr>"

definition sample_config :: stats_config where
  "sample_config = \<lparr>sc_enabled = True, sc_limit_hours = 2, sc_ignored = [], sc_ignored_enabled = False\<rparr>"

definition sample_queries :: "(stat_entry \<times> u32) list" where
  "sample_queries = [(sample_entry ResNotFiltered, 7), (sample_entry ResFiltered, 7), (sample_entry ResNotFiltered, 8)]"

lemma sample_facts:
  "sc_enabled sample_config" "sorted (map snd sample_queries)" "sc_limit_hours sample_config \<noteq> 0"
  "sorted (map snd sample_queries @ [8])"
  by (simp_all add: sample_config_def sample_queries_def)

lemma sample_hour: "hour_entries sample_queries 7 = [sample_entry ResNotFiltered, sample_entry ResFiltered]"
  by (simp add: hour_entries_def sample_queries_def entry_is_valid_def sample_entry_def)

theorem top_pairs_correct_witness:
  "to_pairs [(''b'', 2), (''a'', 2), (''c'', 9)] 2 = to_pairs [(''a'', 2), (''b'', 2), (''c'', 9)] 2"
  using top_pairs_correct [of "[(''b'', 2), (''a'', 2), (''c'', 9)]" "[(''a'', 2), (''b'', 2), (''c'', 9)]" 2] by simp

theorem stats_hours_exact_witness:
  "inner_unit (st_inner (stats_run sample_queries (stats_new sample_config))) 7
     = Some (to_db (count_hour 7 [sample_entry ResNotFiltered, sample_entry ResFiltered]))"
  using stats_hours_exact [OF sample_facts(1,2), of 7] by (simp add: sample_hour)

theorem stats_report_exact_witness:
  "sr_dns_queries (stats_data 8 (stats_run sample_queries (stats_new sample_config))) = [2, 1]
   \<and> sr_num_blocked_filtering (stats_data 8 (stats_run sample_queries (stats_new sample_config))) = 1"
proof -
  have l: "unat (sc_limit_hours sample_config) = 2" by (simp add: sample_config_def)
  have h: "hourly sample_queries 8 2 (\<lambda>_. True) = [2, 1]"
    "hourly sample_queries 8 2 (\<lambda>e. en_result e = ResFiltered) = [1, 0]"
    by (simp_all add: hourly_def hour_entries_def sample_queries_def entry_is_valid_def sample_entry_def sat_sub_def upt_rec)
  show ?thesis using stats_report_exact [OF sample_facts(1,2,3), of 8] by (simp add: Let_def l h)
qed


text \<open>A write that fails takes the mark with it: the file stays behind and nothing says so.\<close>

lemma failed_save_unmarks:
  "\<exists>s. foldl saver_step (stats_boot 7 sample_config [], Waiting, [])
     [Do (OpAdd (sample_entry ResFiltered) 7), Do (OpAdd (sample_entry ResFiltered) 8), SaveClaim, SaveSnapshot 8, SaveStore False]
     = (s, Waiting, []) \<and> \<not> st_unsaved s \<and> length (in_past (st_inner s)) = 1"
  by (simp add: stats_boot_def stats_new_def add_at_def roll_def sample_config_def sample_entry_def entry_is_valid_def
      claim_save_def snapshot_def unit_new_def Let_def)

text \<open>An hour the clock came back to is counted again from nothing, and what it held is lost.\<close>

lemma stats_clock_back:
  "let qs = [(sample_entry ResNotFiltered, 8), (sample_entry ResNotFiltered, 7), (sample_entry ResNotFiltered, 8),
             (sample_entry ResNotFiltered, 9)]
   in length (hour_entries qs 8) = 2
      \<and> map_option sd_n_total (inner_unit (st_inner (stats_run qs (stats_new sample_config))) 8) = Some 1"
  by (simp add: hour_entries_def stats_run_def add_at_def stats_new_def sample_config_def sample_entry_def entry_is_valid_def
      roll_def inner_unit_def to_db_def unit_add_def unit_new_def Let_def)

end
