(* ===== verification/Stats_Store.thy ===== *)
theory Stats_Store
  imports Stats
begin

text \<open>
  Statistics across a restart: the units go through the gob codec and the database file and come
  back (\<open>stats_db_roundtrip\<close>), a unit stored, loaded and stored again is the same (\<open>stored_again\<close>), and
  so every hour still in the window reads as before.
\<close>

section \<open>Persistence\<close>

definition be_val :: "u8 list \<Rightarrow> nat" where
  "be_val bs = foldl (\<lambda>v b. v * 256 + unat b) 0 bs"

lemma foldl_be_val: "foldl (\<lambda>v b. v * 256 + unat b) a bs = a * 256 ^ length bs + be_val bs"
proof (induction bs rule: rev_induct)
  case (snoc b bs)
  then show ?case by (simp add: be_val_def algebra_simps)
qed (simp add: be_val_def)

lemma be_val_Cons: "be_val (b # bs) = unat b * 256 ^ length bs + be_val bs"
  using foldl_be_val [of "unat b" bs] by (simp add: be_val_def)

lemma be_val_bound: "be_val bs < 256 ^ length bs"
proof (induction bs)
  case (Cons b bs)
  have "unat b < 256" using unsigned_less [of b] by simp
  then have "Suc (unat b) * 256 ^ length bs \<le> 256 * 256 ^ length bs" by (intro mult_le_mono1) simp
  then have "Suc (unat b) * 256 ^ length bs \<le> 256 ^ length (b # bs)" by (simp only: list.size power_Suc add_Suc_right add_0_right)
  moreover have "be_val (b # bs) < Suc (unat b) * 256 ^ length bs" using Cons by (simp add: be_val_Cons)
  ultimately show ?case by (rule less_le_trans [rotated])
qed (simp add: be_val_def)

lemma be_val_mono: "bs < bs' \<Longrightarrow> length bs = length bs' \<Longrightarrow> be_val bs < be_val bs'"
proof (induction bs arbitrary: bs')
  case (Cons b bs)
  then obtain b' cs where bs': "bs' = b' # cs" "length cs = length bs" by (metis length_Suc_conv)
  then consider "b < b'" | "b = b'" "bs < cs" using Cons.prems by auto
  then show ?case
  proof cases
    case 1
    then have "(unat b + 1) * 256 ^ length bs \<le> unat b' * 256 ^ length bs"
      by (intro mult_le_mono1) (simp add: word_less_nat_alt)
    then show ?thesis using be_val_bound [of bs] bs' by (simp add: be_val_Cons algebra_simps)
  next
    case 2
    then show ?thesis using Cons.IH [of cs] bs' by (simp add: be_val_Cons)
  qed
qed auto

lemma be_val_drop:
  fixes v :: u64
  assumes "n \<le> 8"
  shows "be_val (map (\<lambda>i. ucast (drop_bit (8 * i) v)) (rev [n..<8])) = unat (drop_bit (8 * n) v)"
  using assms
proof (induction rule: inc_induct)
  case base
  show ?case by (simp add: be_val_def)
next
  case (step n)
  let ?x = "unat (drop_bit (8 * n) v)"
  have e: "rev [n..<8] = rev [Suc n..<8] @ [n]" using step.hyps by (simp add: upt_conv_Cons)
  have "unat (drop_bit (8 * Suc n) v) = drop_bit 8 ?x"
    by (simp only: unat_drop_bit_eq drop_bit_drop_bit mult_Suc_right)
  also have "\<dots> = ?x div 256" by (simp only: drop_bit_eq_div) simp
  finally have "unat (drop_bit (8 * Suc n) v) = ?x div 256" .
  moreover have "unat (ucast (drop_bit (8 * n) v) :: u8) = ?x mod 256"
    by (simp add: unsigned_ucast_eq take_bit_eq_mod)
  ultimately show ?case using step.IH by (simp add: e be_val_def del: upt_Suc)
qed

lemma name_from_hour_mono: "h < h' \<Longrightarrow> name_from_hour h < name_from_hour h'"
proof -
  assume "h < h'"
  have v: "be_val (name_from_hour x) = unat x" for x
  proof -
    have "take_bit 64 (unat x) = unat x" using unsigned_less [of x, where 'a = nat] by (intro take_bit_nat_eq_self) simp
    then show ?thesis
      using be_val_drop [of 0 "ucast x"] by (simp add: name_from_hour_def to_be_bytes_def unsigned_ucast_eq del: upt_Suc)
  qed
  have "be_val (name_from_hour h) < be_val (name_from_hour h')" using \<open>h < h'\<close> by (simp add: v word_less_nat_alt)
  moreover have "length (name_from_hour h') = length (name_from_hour h)" by (simp add: name_from_hour_def)
  ultimately show ?thesis using be_val_mono [of "name_from_hour h'" "name_from_hour h"]
    by (metis less_asym linorder_neqE less_irrefl)
qed

lemma hour_name: "hour_from_name (name_from_hour h) = Some h"
proof -
  have "ucast (ucast h :: u64) = h" by (rule bit_word_eqI) (simp add: bit_simps)
  then show ?thesis by (simp add: hour_from_name_def name_from_hour_def be_word_to_be_bytes)
qed

lemma pairs_back: "map (\<lambda>p. \<lparr>sp_name = sp_name p, sp_count = sp_count p\<rparr>) ps = ps" for ps :: "stat_pair list"
proof (rule map_idI)
  fix p :: stat_pair
  show "\<lparr>sp_name = sp_name p, sp_count = sp_count p\<rparr> = p" by (cases p) simp
qed

lemma gob_back: "from_gob (to_gob u) = u"
  by (cases u) (simp add: from_gob_def to_gob_def pairs_from_gob_def pairs_to_gob_def comp_def pairs_back)

definition hour_bucket :: "u32 \<times> stat_db \<Rightarrow> u8 list \<times> bucket_data" where
  "hour_bucket = (\<lambda>(h, u). (name_from_hour h, [([0], encode_unit (to_gob u))]))"

lemma names_sorted: "sorted_wrt (<) (map fst us) \<Longrightarrow> sorted_wrt (<) (map (fst \<circ> hour_bucket) us)"
  by (induction us) (auto simp: hour_bucket_def case_prod_unfold intro!: name_from_hour_mono)

lemma unit_buckets_eq: "sorted_wrt (<) (map fst us) \<Longrightarrow> unit_buckets us = map hour_bucket us"
proof -
  assume "sorted_wrt (<) (map fst us)"
  then have "foldl (\<lambda>m (k, v). bt_insert k v m) [] (map hour_bucket us) = [] @ map hour_bucket us"
    by (intro foldl_bt_insert) (simp add: names_sorted)
  then show ?thesis by (simp add: unit_buckets_def foldl_map hour_bucket_def case_prod_unfold)
qed

text \<open>Units the format can hold: fewer than 65536 of them, each below four gigabytes.\<close>

definition units_fit :: "(u32 \<times> stat_db) list \<Rightarrow> bool" where
  "units_fit us \<longleftrightarrow> length us < 2 ^ 16 \<and> sorted_wrt (<) (map fst us)
     \<and> list_all (\<lambda>(_, u). unit_fits (to_gob u) \<and> length (encode_unit (to_gob u)) + 33 < 2 ^ 32) us"

lemma root_value_small: "root_value_len PAGE_SIZE d \<le> 1024"
  by (simp add: root_value_len_def inlined_def PAGE_SIZE_def)

lemma leaf_size_bound:
  "list_all (\<lambda>(k, v). length k + length v \<le> b) d \<Longrightarrow> leaf_size d \<le> 16 + (16 + b) * length d"
proof -
  have "list_all (\<lambda>(k, v). length k + length v \<le> b) d \<Longrightarrow> length (leaf_data d) \<le> b * length d"
    by (induction d) auto
  then show "list_all (\<lambda>(k, v). length k + length v \<le> b) d \<Longrightarrow> leaf_size d \<le> 16 + (16 + b) * length d"
    by (simp add: leaf_size_def algebra_simps)
qed

lemma units_fit_bolt:
  assumes "units_fit us"
  shows "bolt_fits PAGE_SIZE (map hour_bucket us)"
proof -
  let ?bs = "map hour_bucket us"
  let ?root = "map (\<lambda>(name, d). (name, replicate (root_value_len PAGE_SIZE d) (0 :: u8))) ?bs"
  have "list_all (\<lambda>(k, v). length k + length v \<le> 1032) ?root"
    using root_value_small by (auto simp: list_all_iff hour_bucket_def name_from_hour_def)
  then have "leaf_size ?root \<le> 16 + (16 + 1032) * length ?root" by (rule leaf_size_bound)
  then have r: "leaf_fits ?root" using assms by (simp add: leaf_fits_def units_fit_def)
  have b: "list_all (\<lambda>(_, d). bucket_fits d) ?bs"
    using assms by (auto simp: list_all_iff units_fit_def hour_bucket_def bucket_fits_def leaf_fits_def leaf_size_def)
  have p: "page_size_ok PAGE_SIZE" by (simp add: PAGE_SIZE_def) code_simp
  have "sorted_wrt (<) (map (fst \<circ> hour_bucket) us)" using assms by (intro names_sorted) (simp add: units_fit_def)
  then show ?thesis using r b p by (simp add: bolt_fits_def)
qed

lemma load_buckets_eq:
  "list_all (\<lambda>(_, u). unit_fits (to_gob u)) us \<Longrightarrow> load_buckets (map hour_bucket us) = Ok us"
  by (induction us) (auto simp: hour_bucket_def hour_name encoded_decoded gob_back)

lemma stats_db_roundtrip:
  assumes "units_fit units"
  shows "\<exists>img. save_units units = Ok img \<and> load_units (Suc n) (Some img) = Some (Ok units)"
proof -
  have s: "sorted_wrt (<) (map fst units)" "list_all (\<lambda>(_, u). unit_fits (to_gob u)) units"
    using assms by (auto simp: units_fit_def list_all_iff)
  note b = units_fit_bolt [OF assms]
  obtain db where "from_bytes (bolt_image PAGE_SIZE (map hour_bucket units)) = Ok db"
    "db_buckets (Suc n) db = Some (Ok (map hour_bucket units))"
    using bolt_read_back [OF b] by blast
  then show ?thesis
    by (simp add: save_units_def unit_buckets_eq [OF s(1)] build_bolt_eq [OF b] load_units_def load_buckets_eq [OF s(2)])
qed

lemma bump_keys: "set (map fst (bump k n m)) = insert k (set (map fst m))"
  by (induction k n m rule: bump.induct) auto

lemma bump_distinct: "distinct (map fst m) \<Longrightarrow> distinct (map fst (bump k n m))"
  using bump_keys by (induction k n m rule: bump.induct) auto

lemma counter_set_new: "k \<notin> set (map fst m) \<Longrightarrow> counter_set k n m = m @ [(k, n)]"
  by (induction k n m rule: counter_set.induct) auto

lemma from_pairs_distinct:
  assumes "distinct (map sp_name v)"
  shows "from_pairs v = map (\<lambda>p. (sp_name p, sp_count p)) v"
proof -
  have "foldl (\<lambda>m p. counter_set (sp_name p) (sp_count p) m) m v = m @ map (\<lambda>p. (sp_name p, sp_count p)) v"
    if "distinct (map fst m @ map sp_name v)" for m
    using that
  proof (induction v arbitrary: m)
    case (Cons p v)
    then have "counter_set (sp_name p) (sp_count p) m = m @ [(sp_name p, sp_count p)]" by (intro counter_set_new) auto
    then show ?case using Cons.IH [of "m @ [(sp_name p, sp_count p)]"] Cons.prems by simp
  qed simp
  from this [of "[]"] show ?thesis using assms by (simp add: from_pairs_def)
qed

lemma pairs_stored_again:
  assumes "distinct (map fst m)"
  shows "to_pairs (from_pairs (to_pairs m n)) n = to_pairs m n"
proof -
  let ?s = "take n (sort_key pair_order m)"
  have "mset (map fst (sort_key pair_order m)) = mset (map fst m)" by simp
  then have "distinct (map fst (sort_key pair_order m))" using assms by (metis mset_eq_imp_distinct_iff)
  then have "distinct (map fst ?s)" by (metis distinct_take take_map)
  then have "from_pairs (to_pairs m n) = ?s"
    by (simp add: from_pairs_distinct to_pairs_eq comp_def case_prod_unfold)
  moreover have "sort_key pair_order ?s = ?s"
    using sorted_sort_key [of pair_order m] by (intro sort_key_id_if_sorted) (simp add: take_map [symmetric] sorted_wrt_take)
  ultimately show ?thesis by (simp add: to_pairs_eq)
qed

definition unit_keys :: "stat_unit \<Rightarrow> bool" where
  "unit_keys u \<longleftrightarrow> distinct (map fst (un_domains u)) \<and> distinct (map fst (un_blocked_domains u)) \<and> distinct (map fst (un_clients u))
     \<and> distinct (map fst (un_upstreams_responses u)) \<and> distinct (map fst (un_upstreams_time_sum u))"

lemma add_upstreams_keys: "unit_keys u \<Longrightarrow> unit_keys (foldl add_upstream u us)"
  by (induction us arbitrary: u) (simp_all add: unit_keys_def add_upstream_def bump_distinct)

lemma unit_add_keys: "unit_keys u \<Longrightarrow> unit_keys (unit_add e u)"
  unfolding unit_add_def Let_def by (intro add_upstreams_keys) (simp add: unit_keys_def bump_distinct)

lemma count_hour_keys: "unit_keys (count_hour h es)"
  by (induction es rule: rev_induct) (simp_all add: count_hour_def unit_add_keys, simp add: unit_keys_def unit_new_def)

lemma copy_results:
  "length r = k \<Longrightarrow> length vs \<le> k \<Longrightarrow> foldl (\<lambda>r (j, v). r[j := v]) r (enumerate 0 vs) = vs @ drop (length vs) r"
proof (induction vs rule: rev_induct)
  case (snoc v vs)
  then have "foldl (\<lambda>r (j, v). r[j := v]) r (enumerate 0 vs) = vs @ drop (length vs) r" by simp
  moreover obtain x xs where "drop (length vs) r = x # xs" using snoc.prems by (cases "drop (length vs) r") auto
  moreover have "drop (Suc (length vs)) r = tl (drop (length vs) r)" by (simp add: drop_Suc tl_drop)
  ultimately show ?case by (simp add: enumerate_append_eq list_update_append)
qed simp

lemma mean_again:
  fixes t n :: u64
  assumes "n \<noteq> 0"
  shows "ucast ((ucast (ucast (t div n) :: u32) * n) div n) = (ucast (t div n) :: u32)"
proof -
  let ?a = "ucast (ucast (t div n) :: u32) :: u64"
  have a: "unat ?a \<le> unat t div unat n"
  proof -
    have "?a = take_bit 32 (t div n)" by (rule bit_word_eqI) (auto simp: bit_simps)
    then have "unat ?a = take_bit 32 (unat (t div n))" by (simp only: unsigned_take_bit_eq)
    also have "\<dots> \<le> unat (t div n)" by (rule take_bit_nat_less_eq_self)
    finally show ?thesis by (simp add: unat_div)
  qed
  then have "unat ?a * unat n \<le> unat t" by (metis div_times_less_eq_dividend le_trans mult_le_mono1)
  then have "unat (?a * n) = unat ?a * unat n"
    using unsigned_less [of t, where 'a = nat] by (intro unat_mult_lem [THEN iffD1]) simp
  moreover have "0 < unat n" using assms by (simp add: unat_gt_0)
  ultimately have "unat (?a * n div n) = unat ?a" by (simp add: unat_div)
  then have "?a * n div n = ?a" by (rule word_unat_eq_iff [THEN iffD2])
  then have "(ucast (?a * n div n) :: u32) = ucast ?a" by (rule arg_cong)
  also have "\<dots> = ucast (t div n)" by (rule bit_word_eqI) (auto simp: bit_simps)
  finally show ?thesis .
qed

text \<open>A unit stored, loaded and stored again is the same.\<close>

lemma stored_again:
  assumes "unit_keys u" "length (un_n_result u) = RESULT_COUNT"
  shows "to_db (from_db i (to_db u)) = to_db u"
  using assms
  by (simp add: to_db_def from_db_def unit_keys_def pairs_stored_again mean_again copy_results)

lemma map_of_filter_key: "P k \<Longrightarrow> map_of (filter (\<lambda>(i, _). P i) m) k = map_of m k"
  by (induction m) auto

lemma load_past:
  assumes "sorted_wrt (<) (map fst (p @ us))" "hour \<notin> fst ` set us"
  shows "foldl (stats_load_step hour) \<lparr>in_current = c, in_past = p\<rparr> us = \<lparr>in_current = c, in_past = p @ us\<rparr>"
  using assms
proof (induction us arbitrary: p)
  case (Cons x us)
  obtain i db where x: "x = (i, db)" by (cases x)
  have "bt_insert i db p = p @ [(i, db)]"
    by (rule bt_insert_last) (use Cons.prems in \<open>auto simp: x sorted_wrt_append\<close>)
  then show ?case using Cons.IH [of "p @ [(i, db)]"] Cons.prems by (auto simp: x stats_load_step_def)
qed simp

lemma prune_quiet:
  assumes "\<And>u. in_current (st_inner s) = Some u \<Longrightarrow> un_id u = cur"
    and "sat_sub cur (sat_sub (sc_limit_hours (st_config s)) 1) \<le> h"
  shows "inner_unit (st_inner (prune cur s)) h = inner_unit (st_inner s) h"
  using assms map_of_filter_key [of "\<lambda>i. sat_sub cur (sat_sub (sc_limit_hours (st_config s)) 1) \<le> i" h "in_past (st_inner s)"]
  by (auto simp: prune_def roll_def inner_unit_def Let_def split: option.splits)

lemma restart_unit:
  assumes c: "counted qs (st_inner s)" and le: "\<forall>q \<in> set qs. snd q \<le> hour"
    and h: "sat_sub hour (sat_sub (sc_limit_hours c') 1) \<le> h"
  shows "inner_unit (st_inner (stats_load hour (fst (snapshot hour s)) (stats_new c'))) h = inner_unit (st_inner s) h"
proof (cases "in_current (st_inner s)")
  case None
  then have "in_past (st_inner s) = []" using c by (simp add: counted_def)
  then show ?thesis using None
    by (simp add: snapshot_def roll_def stats_load_def stats_new_def prune_def inner_unit_def)
next
  case (Some u)
  let ?p = "in_past (st_inner s)"
  have u: "u = count_hour (un_id u) (hour_entries qs (un_id u))" "hour_entries qs (un_id u) \<noteq> []"
    "sorted_wrt (<) (map fst ?p @ [un_id u])"
    using c Some by (simp_all add: counted_def)
  have hu: "un_id u \<le> hour" using hour_entries_bound [OF le u(2)] .
  have again: "to_db (from_db i (to_db u)) = to_db u" for i
    by (rule stored_again) (use u(1) count_hour_keys count_hour_facts(2) in \<open>metis, metis unit_balanced_def\<close>)
  have lt: "\<forall>x \<in> fst ` set ?p. x < un_id u" using u(3) by (auto simp: sorted_wrt_append)
  let ?new = "\<lambda>us. st_inner (stats_new c')\<lparr>in_past := us\<rparr>"
  show ?thesis
  proof (cases "un_id u = hour")
    case True
    have "fst (snapshot hour s) = ?p @ [(hour, to_db u)]" using Some True by (simp add: snapshot_def roll_def)
    moreover have "foldl (stats_load_step hour) \<lparr>in_current = None, in_past = []\<rparr> ?p = \<lparr>in_current = None, in_past = [] @ ?p\<rparr>"
      by (rule load_past) (use u(3) lt True in \<open>auto simp: sorted_wrt_append\<close>)
    ultimately have l: "foldl (stats_load_step hour) (st_inner (stats_new c')) (fst (snapshot hour s))
      = \<lparr>in_current = Some (from_db hour (to_db u)), in_past = ?p\<rparr>"
      by (simp add: stats_load_step_def stats_new_def)
    have i: "un_id (from_db hour (to_db u)) = hour" by (simp add: from_db_def unit_new_def)
    show ?thesis
      unfolding stats_load_def l
      by (subst prune_quiet) (use h i again Some True in \<open>auto simp: stats_new_def inner_unit_def\<close>)
  next
    case False
    have ins: "bt_insert (un_id u) (to_db u) ?p = ?p @ [(un_id u, to_db u)]" by (rule bt_insert_last) (rule lt)
    then have "fst (snapshot hour s) = ?p @ [(un_id u, to_db u)]" using Some False by (simp add: snapshot_def roll_def)
    moreover have "foldl (stats_load_step hour) \<lparr>in_current = None, in_past = []\<rparr> (?p @ [(un_id u, to_db u)])
      = \<lparr>in_current = None, in_past = [] @ ?p @ [(un_id u, to_db u)]\<rparr>"
      by (rule load_past) (use u(3) lt hu False in auto)
    ultimately have l: "foldl (stats_load_step hour) (st_inner (stats_new c')) (fst (snapshot hour s))
      = \<lparr>in_current = None, in_past = bt_insert (un_id u) (to_db u) ?p\<rparr>"
      by (simp add: stats_new_def ins)
    show ?thesis
      unfolding stats_load_def l
      by (subst prune_quiet) (use h Some in \<open>auto simp: stats_new_def inner_unit_def map_of_bt_insert\<close>)
  qed
qed

text \<open>
  C11.  A restart loses nothing: the units of a snapshot are saved to a database file that loads back, and
  a collector that loads them answers for every hour of its window as the one before the restart
  did.
\<close>

theorem stats_survive_restart:
  assumes "sc_enabled c" "sorted (map snd qs @ [hour])"
    and "units_fit (fst (snapshot hour (stats_run qs (stats_new c))))"
    and "sat_sub hour (sat_sub (sc_limit_hours c') 1) \<le> h"
  shows "\<exists>img loaded. save_units (fst (snapshot hour (stats_run qs (stats_new c)))) = Ok img
    \<and> load_units (Suc n) (Some img) = Some (Ok loaded)
    \<and> inner_unit (st_inner (stats_load hour loaded (stats_new c'))) h = inner_unit (st_inner (stats_run qs (stats_new c))) h"
proof -
  have "sorted (map snd qs)" "\<forall>q \<in> set qs. snd q \<le> hour" using assms(2) by (auto simp: sorted_append)
  then show ?thesis
    using stats_db_roundtrip [OF assms(3), of n] restart_unit [of qs _ hour c' h] counted_run [OF assms(1)] assms(4) by blast
qed

lemma put_uint_len: "length (put_uint v) \<le> 9"
  by (simp add: put_uint_def Let_def)

lemma put_int_len: "length (put_int v) \<le> 9"
  by (simp add: put_int_def put_uint_len)

lemma put_common_len: "length (put_common n t) \<le> 45 + length n"
  using put_uint_len [of 1] put_uint_len [of 0] put_uint_len [of "of_nat (length n)"] put_int_len [of t]
  by (simp add: put_common_def put_string_def)

lemma put_field_len: "length (put_field f) \<le> 45 + length (fst f)"
  using put_uint_len [of 1] put_uint_len [of 0] put_uint_len [of "of_nat (length (fst f))"] put_int_len [of "snd f"]
  by (simp add: put_field_def put_string_def case_prod_unfold)

lemma put_fields_len: "length (concat (map put_field fs)) \<le> sum_list (map (\<lambda>f. 45 + length (fst f)) fs)"
  by (induction fs) (auto intro: add_mono put_field_len)

lemma frame_len: "length (frame p) \<le> 9 + length p"
  using put_uint_len [of "of_nat (length p)"] by (simp add: frame_def)

lemma struct_def_len: "length (struct_def t n fs) \<le> 108 + length n + sum_list (map (\<lambda>f. 45 + length (fst f)) fs)"
  using put_uint_len [of 1] put_uint_len [of 0] put_uint_len [of 3] put_uint_len [of "of_nat (length fs)"] put_int_len [of "- t"]
    put_common_len [of n t] put_fields_len [of fs]
  by (simp add: struct_def_def)

lemma slice_def_len: "length (slice_def t n e) \<le> 126 + length n"
proof -
  have "length (put_int (- t) @ put_uint 2 @ put_uint 1 @ put_common n t @ put_uint 1 @ put_int e @ put_uint 0 @ put_uint 0) \<le> 117 + length n"
    using put_uint_len [of 1] put_uint_len [of 0] put_uint_len [of 2] put_int_len [of "- t"] put_int_len [of e] put_common_len [of n t] by simp
  then show ?thesis
    using frame_len [of "put_int (- t) @ put_uint 2 @ put_uint 1 @ put_common n t @ put_uint 1 @ put_int e @ put_uint 0 @ put_uint 0"]
    unfolding slice_def_def by linarith
qed

lemma type_defs_len: "length type_defs \<le> 1200"
proof -
  have "length (struct_def ID_UNIT ''unitDB'' (map (\<lambda>(i, name). (name, field_id i)) (enumerate 0 FIELDS))) \<le> 108 + 6 + (360 + 87)"
    using struct_def_len [of ID_UNIT "''unitDB''" "map (\<lambda>(i, name). (name, field_id i)) (enumerate 0 FIELDS)"] by (simp add: FIELDS_def)
  moreover have "length (struct_def ID_PAIR ''countPair'' [(''Name'', T_STRING), (''Count'', T_UINT)]) \<le> 108 + 9 + 99"
    using struct_def_len [of ID_PAIR "''countPair''" "[(''Name'', T_STRING), (''Count'', T_UINT)]"] by simp
  moreover note slice_def_len [of ID_UINT_SLICE "''[]uint64''" T_UINT] slice_def_len [of ID_PAIR_SLICE "''[]stats.countPair''" ID_PAIR]
    frame_len [of "struct_def ID_UNIT ''unitDB'' (map (\<lambda>(i, name). (name, field_id i)) (enumerate 0 FIELDS))"]
    frame_len [of "struct_def ID_PAIR ''countPair'' [(''Name'', T_STRING), (''Count'', T_UINT)]"]
  ultimately show ?thesis unfolding type_defs_def by simp
qed

lemma encode_unit_len: "length (encode_unit u) \<le> 1209 + length (encode_unit_value u)"
  using type_defs_len frame_len [of "encode_unit_value u"] by (simp add: encode_unit_def)

definition sample_stored :: stat_db where
  "sample_stored = \<lparr>sd_n_result = [0, 1, 0, 0, 0, 0], sd_domains = [\<lparr>sp_name = ''d'', sp_count = 1\<rparr>], sd_blocked_domains = [],
        sd_clients = [\<lparr>sp_name = ''c'', sp_count = 1\<rparr>], sd_upstreams_responses = [], sd_upstreams_time_sum = [],
        sd_n_total = 1, sd_time_avg = 5\<rparr>"

lemma sample_snapshot:
  "fst (snapshot 8 (stats_run [(sample_entry ResNotFiltered, 8)] (stats_new sample_config))) = [(8, sample_stored)]"
  by code_simp

lemma sample_fits: "unit_fits (to_gob sample_stored)" 
  by code_simp
lemma sample_len: "length (encode_unit_value (to_gob sample_stored)) < 100"
  by code_simp


theorem stats_survive_restart_witness:
  "\<exists>img loaded. save_units [(8, sample_stored)] = Ok img \<and> load_units 1 (Some img) = Some (Ok loaded)
     \<and> inner_unit (st_inner (stats_load 8 loaded (stats_new sample_config))) 8
       = inner_unit (st_inner (stats_run [(sample_entry ResNotFiltered, 8)] (stats_new sample_config))) 8"
proof -
  have "units_fit [(8, sample_stored)]"
    using sample_fits sample_len encode_unit_len [of "to_gob sample_stored"] by (simp add: units_fit_def)
  moreover have "sat_sub 8 (sat_sub (sc_limit_hours sample_config) 1) \<le> (8 :: u32)" by (simp add: sample_config_def sat_sub_def)
  ultimately show ?thesis
    using stats_survive_restart [of sample_config "[(sample_entry ResNotFiltered, 8)]" 8 sample_config 8 0]
    by (simp add: sample_snapshot sample_facts)
qed

end
