(* ===== verification/Blocked.thy ===== *)
theory Blocked
  imports Clients
begin

text \<open>
  The hosts refused by the access settings: \<open>crates/sift-dns/src/blocked.rs\<close>.  Every entry is made a
  rule and the rules are compiled by the filtering engine.
\<close>

section \<open>Definitions\<close>

record 'rx blocked_hosts =
  bh_engine :: "'rx engine"
  bh_entries :: nat

definition is_plain_host :: "str \<Rightarrow> bool" where
  "is_plain_host s \<longleftrightarrow>
     s \<noteq> [] \<and> length s \<le> 253 \<and>
     list_all (\<lambda>l. l \<noteq> [] \<and> length l \<le> 63 \<and> \<not> starts_with l ''-'' \<and> \<not> ends_with l ''-'' \<and>
                  list_all (\<lambda>b. is_ascii_alphanumeric b \<or> b = CHR ''-'') l)
       (split_char CHR ''.'' s)"

definition rule_for :: "str \<Rightarrow> str" where
  "rule_for entry =
     (let e = to_ascii_lowercase (trim entry) in if is_plain_host e then ''0.0.0.0 '' @ e else e)"

definition blocked_build :: "(str \<Rightarrow> 'rx option) \<Rightarrow> str list \<Rightarrow> 'rx blocked_hosts option" where
  "blocked_build rx_new ents =
     map_option (\<lambda>e. \<lparr>bh_engine = e, bh_entries = length ents\<rparr>)
       (build_engine rx_new [(0, concat (map (\<lambda>e. rule_for e @ [CHR 0x0A]) ents))] [])"

definition blocked_is_empty :: "'rx blocked_hosts \<Rightarrow> bool" where
  "blocked_is_empty b \<longleftrightarrow> bh_entries b = 0"

definition blocks ::
  "(str \<Rightarrow> 'rx option) \<Rightarrow> ('rx \<Rightarrow> str \<Rightarrow> bool) \<Rightarrow> 'rx blocked_hosts \<Rightarrow> str \<Rightarrow> u16 \<Rightarrow> bool option" where
  "blocks rx_new rx_match b host qt =
     (if blocked_is_empty b \<or> host = [] then Some False
      else map_option (\<lambda>m. mr_rules m \<noteq> [])
             (match_request rx_new rx_match (bh_engine b)
                \<lparr>hostname = host, qtype = qt, client_ip = None, client_name = None, client_tags = []\<rparr>))"

end
