(* ===== verification/Ddr.thy ===== *)
theory Ddr
  imports Message
begin

text \<open>
  Discovery of designated resolvers: \<open>crates/sift-dns/src/ddr.rs\<close>.  The \<open>SVCB\<close> record data is built by
  the \<open>hickory_proto\<close> crate, so its constructor is the argument \<open>svcb\<close>.
\<close>

section \<open>Definitions\<close>

definition DDR_HOST :: str where
  "DDR_HOST = ''_dns.resolver.arpa''"

definition DOHPATH_KEY :: u16 where
  "DOHPATH_KEY = 7"

definition DOHPATH :: str where
  "DOHPATH = ''/dns-query{?dns}''"

definition DDR_TTL :: u32 where
  "DDR_TTL = 3600"

record endpoints =
  ep_server_name :: str
  ep_https :: "u16 option"
  ep_tls :: "u16 option"
  ep_quic :: "u16 option"

datatype svc_param = ParamAlpn "str list" | ParamPort u16 | ParamUnknown u16 str

definition endpoints_is_empty :: "endpoints \<Rightarrow> bool" where
  "endpoints_is_empty ep \<longleftrightarrow>
     ep_server_name ep = [] \<or> (ep_https ep = None \<and> ep_tls ep = None \<and> ep_quic ep = None)"

definition is_ddr_query :: "('n, 'e) hickory \<Rightarrow> ('n, 'e) message \<Rightarrow> bool" where
  "is_ddr_query H req =
     (case queries req of
        [] \<Rightarrow> False
      | q # _ \<Rightarrow> eq_ignore_ascii_case (trim_end_matches CHR ''.'' (name_ascii H (q_name q))) DDR_HOST)"

text \<open>\<open>RecordType::SVCB\<close> is type 64.\<close>

abbreviation TSVCB :: record_type where
  "TSVCB \<equiv> TOther 64"

definition ddr_record ::
  "('n, 'e) hickory \<Rightarrow> (u16 \<Rightarrow> 'n \<Rightarrow> svc_param list \<Rightarrow> 'n rdata) \<Rightarrow> 'n \<Rightarrow> 'n \<Rightarrow> str \<Rightarrow> u16 \<Rightarrow> bool \<Rightarrow> 'n dns_record" where
  "ddr_record H svcb name target alpn port dohpath =
     (from_rdata H name DDR_TTL
        (svcb 1 target ([ParamAlpn [alpn], ParamPort port] @
                        (if dohpath then [ParamUnknown DOHPATH_KEY DOHPATH] else []))))\<lparr>rr_class := ClassIN\<rparr>"

definition ddr_respond ::
  "('n, 'e) hickory \<Rightarrow> (u16 \<Rightarrow> 'n \<Rightarrow> svc_param list \<Rightarrow> 'n rdata) \<Rightarrow> ('n, 'e) message \<Rightarrow> endpoints \<Rightarrow> ('n, 'e) message" where
  "ddr_respond H svcb req ep =
     (let resp = reply H req NoError in
      case queries req of
        [] \<Rightarrow> resp
      | q # _ \<Rightarrow>
          if q_type q \<noteq> TSVCB \<or> endpoints_is_empty ep then resp
          else case name_from_utf8 H (trim_end_matches CHR ''.'' (ep_server_name ep) @ ''.'') of
            None \<Rightarrow> resp
          | Some target \<Rightarrow>
              let push = (\<lambda>alpn p doh. case p of None \<Rightarrow> [] | Some port \<Rightarrow> [ddr_record H svcb (q_name q) target alpn port doh])
              in resp\<lparr>answers := answers resp @ push ''h2'' (ep_https ep) True @
                        push ''dot'' (ep_tls ep) False @ push ''doq'' (ep_quic ep) False\<rparr>)"

end
