(* ===== verification/Cache.thy ===== *)
theory Cache
  imports Message
begin

text \<open>
  The response cache of \<open>crates/sift-dns/src/cache.rs\<close>: sixteen shards, each a hash map with an
  eviction queue and a byte budget, in front of the upstreams.

  An \<open>Instant\<close> and a \<open>Duration\<close> are nanoseconds; the operations that read the clock take the time
  as an argument.  A shard's hash map is an association list with distinct keys.  What the sources
  leave to the platform is the argument \<open>E\<close>: the hash of a key (\<open>ahash\<close>) and the sizes in memory
  of the two structures whose weight is counted.  Every operation holds the lock of the one shard
  it works on, so it is a function on that shard; a sequence number is a \<open>nat\<close>, since a shard would
  have to store 2^64 responses before it wraps.
\<close>

section \<open>Data\<close>

datatype freshness = Fresh | Stale

record ('n, 'e) hit =
  hit_msg :: "('n, 'e) message"
  hit_freshness :: freshness
  hit_refresh :: bool

record cache_key =
  ck_name :: str
  ck_qtype :: u16
  ck_qclass :: u16
  ck_dnssec_ok :: bool
  ck_upstreams :: "str option"

record cache_env =
  ce_hash :: "cache_key \<Rightarrow> u64"
  ce_entry_size :: nat
  ce_key_size :: nat

record ('n, 'e) cache_entry =
  e_msg :: "('n, 'e) message"
  e_stored :: nat
  e_ttl :: nat
  e_weight :: nat
  e_hits :: u32
  e_refreshing :: bool
  e_seq :: nat

record cache_config =
  cc_size_bytes :: nat
  cc_ttl_min :: u32
  cc_ttl_max :: u32
  cc_optimistic :: bool
  cc_optimistic_answer_ttl :: nat
  cc_optimistic_max_age :: nat

record ('n, 'e) shard =
  sh_map :: "(cache_key \<times> ('n, 'e) cache_entry) list"
  sh_order :: "(nat \<times> cache_key) list"
  sh_bytes :: nat
  sh_budget :: nat
  sh_next_seq :: nat

record ('n, 'e) cache =
  shards :: "('n, 'e) shard list"
  cfg :: cache_config

section \<open>Keys, entries and configuration\<close>

definition SECOND :: nat where
  "SECOND = 1000000000"

definition key_from_request :: "('n, 'e) hickory \<Rightarrow> ('n, 'e) message \<Rightarrow> cache_key option" where
  "key_from_request H req =
     (case queries req of
        [] \<Rightarrow> None
      | q # _ \<Rightarrow> Some \<lparr>
          ck_name = to_ascii_lowercase (trim_end_matches CHR ''.'' (name_ascii H (q_name q))),
          ck_qtype = type_u16 (q_type q), ck_qclass = class_u16 (q_class q),
          ck_dnssec_ok = wants_dnssec H req, ck_upstreams = None\<rparr>)"

definition for_upstreams :: "str option \<Rightarrow> cache_key \<Rightarrow> cache_key" where
  "for_upstreams u k = k\<lparr>ck_upstreams := u\<rparr>"

definition key_weight :: "cache_env \<Rightarrow> cache_key \<Rightarrow> nat" where
  "key_weight E k =
     length (ck_name k) + (case ck_upstreams k of None \<Rightarrow> 0 | Some u \<Rightarrow> length u) + ce_key_size E"

definition entry_age :: "('n, 'e) cache_entry \<Rightarrow> nat \<Rightarrow> nat" where
  "entry_age e now = now - e_stored e"

definition is_expired :: "('n, 'e) cache_entry \<Rightarrow> nat \<Rightarrow> bool" where
  "is_expired e now \<longleftrightarrow> entry_age e now \<ge> e_ttl e"

definition config_default :: cache_config where
  "config_default = \<lparr>cc_size_bytes = 4 * 1024 * 1024, cc_ttl_min = 0, cc_ttl_max = 0,
     cc_optimistic = False, cc_optimistic_answer_ttl = 30 * SECOND,
     cc_optimistic_max_age = 12 * 3600 * SECOND\<rparr>"

definition SHARDS :: nat where
  "SHARDS = 16"

definition REFRESH_MIN_HITS :: u32 where
  "REFRESH_MIN_HITS = 2"

definition COMPACT_SLACK :: nat where
  "COMPACT_SLACK = 64"

section \<open>One shard\<close>

definition slot_live :: "(cache_key \<times> ('n, 'e) cache_entry) list \<Rightarrow> nat \<times> cache_key \<Rightarrow> bool" where
  "slot_live m s = (case map_of m (snd s) of None \<Rightarrow> False | Some e \<Rightarrow> e_seq e = fst s)"

function evict_to_fit :: "('n, 'e) shard \<Rightarrow> ('n, 'e) shard" where
  "evict_to_fit sh =
     (if sh_bytes sh > sh_budget sh then
        (case sh_order sh of
           [] \<Rightarrow> sh
         | (sq, k) # rest \<Rightarrow>
             let sh = sh\<lparr>sh_order := rest\<rparr> in
             if slot_live (sh_map sh) (sq, k)
             then (case map_of (sh_map sh) k of
                     Some e \<Rightarrow> evict_to_fit (sh\<lparr>sh_map := al_remove k (sh_map sh),
                                               sh_bytes := sh_bytes sh - e_weight e\<rparr>)
                   | None \<Rightarrow> evict_to_fit sh)
             else evict_to_fit sh)
      else sh)"
  by pat_completeness auto
termination by (relation "measure (\<lambda>sh. length (sh_order sh))") auto

declare evict_to_fit.simps [simp del]

definition compact_order :: "('n, 'e) shard \<Rightarrow> ('n, 'e) shard" where
  "compact_order sh =
     (if length (sh_order sh) \<le> length (sh_map sh) * 2 + COMPACT_SLACK then sh
      else sh\<lparr>sh_order := filter (slot_live (sh_map sh)) (sh_order sh)\<rparr>)"

section \<open>Record TTLs and weights\<close>

definition decrement_ttls :: "u32 \<Rightarrow> ('n, 'e) message \<Rightarrow> ('n, 'e) message" where
  "decrement_ttls secs msg =
     map_records (\<lambda>r. r\<lparr>rr_ttl := max (if rr_ttl r \<ge> secs then rr_ttl r - secs else 0) 1\<rparr>) msg"

definition set_ttls :: "u32 \<Rightarrow> ('n, 'e) message \<Rightarrow> ('n, 'e) message" where
  "set_ttls secs msg = map_records (\<lambda>r. r\<lparr>rr_ttl := secs\<rparr>) msg"

definition secs_u32 :: "nat \<Rightarrow> u32" where
  "secs_u32 d = (if d div SECOND < 2 ^ 32 then of_nat (d div SECOND) else - 1)"

definition estimate_weight :: "cache_env \<Rightarrow> ('n, 'e) hickory \<Rightarrow> ('n, 'e) message \<Rightarrow> nat" where
  "estimate_weight E H msg =
     (let rs = answers msg @ authorities msg @ additionals msg;
          names = sum_list (map (\<lambda>r. name_len H (rr_name r)) rs)
      in ce_entry_size E + length rs * 64 + names)"

definition is_cacheable_type :: "record_type \<Rightarrow> bool" where
  "is_cacheable_type qt \<longleftrightarrow> \<not> (qt = TAXFR \<or> qt = TIXFR \<or> qt = TANY)"

section \<open>The operations under a shard's lock\<close>

definition shard_get ::
  "cache_config \<Rightarrow> nat \<Rightarrow> cache_key \<Rightarrow> ('n, 'e) shard \<Rightarrow> ('n, 'e) hit option \<times> ('n, 'e) shard" where
  "shard_get cf now k sh =
     (case map_of (sh_map sh) k of
        None \<Rightarrow> (None, sh)
      | Some e \<Rightarrow>
          let age = entry_age e now; expired = is_expired e now in
          if expired \<and> (\<not> cc_optimistic cf \<or> age > cc_optimistic_max_age cf)
          then (None, compact_order (sh\<lparr>sh_map := al_remove k (sh_map sh),
                                       sh_bytes := sh_bytes sh - e_weight e\<rparr>))
          else
            let e = e\<lparr>e_hits := (if e_hits e = - 1 then - 1 else e_hits e + 1)\<rparr>;
                remaining = e_ttl e - age;
                expiring = (cc_optimistic cf \<and> e_hits e \<ge> REFRESH_MIN_HITS \<and>
                            remaining \<le> max (e_ttl e div 10) SECOND);
                refresh = ((expired \<or> expiring) \<and> \<not> e_refreshing e);
                e = (if refresh then e\<lparr>e_refreshing := True\<rparr> else e);
                msg = (if expired then set_ttls (secs_u32 (cc_optimistic_answer_ttl cf)) (e_msg e)
                       else decrement_ttls (of_nat (age div SECOND)) (e_msg e))
            in (Some \<lparr>hit_msg = msg, hit_freshness = (if expired then Stale else Fresh), hit_refresh = refresh\<rparr>,
                sh\<lparr>sh_map := al_insert k e (sh_map sh)\<rparr>))"

definition shard_end_refresh :: "cache_key \<Rightarrow> ('n, 'e) shard \<Rightarrow> ('n, 'e) shard" where
  "shard_end_refresh k sh =
     (case map_of (sh_map sh) k of
        None \<Rightarrow> sh
      | Some e \<Rightarrow> sh\<lparr>sh_map := al_insert k (e\<lparr>e_refreshing := False\<rparr>) (sh_map sh)\<rparr>)"

definition shard_put ::
  "nat \<Rightarrow> nat \<Rightarrow> nat \<Rightarrow> cache_key \<Rightarrow> ('n, 'e) message \<Rightarrow> ('n, 'e) shard \<Rightarrow> bool \<times> ('n, 'e) shard" where
  "shard_put ttl weight now k msg sh =
     (if weight > sh_budget sh then (False, sh)
      else
        let sq = sh_next_seq sh;
            sh = sh\<lparr>sh_next_seq := sq + 1\<rparr>;
            old = map_of (sh_map sh) k;
            sh = sh\<lparr>sh_map := al_insert k \<lparr>e_msg = msg, e_stored = now, e_ttl = ttl, e_weight = weight,
                      e_hits = 0, e_refreshing = False, e_seq = sq\<rparr> (sh_map sh)\<rparr>;
            sh = (case old of Some o' \<Rightarrow> sh\<lparr>sh_bytes := sh_bytes sh - e_weight o'\<rparr> | None \<Rightarrow> sh);
            sh = sh\<lparr>sh_order := sh_order sh @ [(sq, k)]\<rparr>;
            sh = sh\<lparr>sh_bytes := sh_bytes sh + weight\<rparr>
        in (True, evict_to_fit (compact_order sh)))"

definition shard_resize :: "nat \<Rightarrow> ('n, 'e) shard \<Rightarrow> ('n, 'e) shard" where
  "shard_resize per_shard sh = evict_to_fit (sh\<lparr>sh_budget := per_shard\<rparr>)"

definition shard_clear :: "('n, 'e) shard \<Rightarrow> ('n, 'e) shard" where
  "shard_clear sh = sh\<lparr>sh_map := [], sh_order := [], sh_bytes := 0\<rparr>"

section \<open>The cache\<close>

definition per_shard :: "cache_config \<Rightarrow> nat" where
  "per_shard cf = max (cc_size_bytes cf div SHARDS) 1"

definition cache_new :: "cache_config \<Rightarrow> ('n, 'e) cache" where
  "cache_new cf = \<lparr>
     shards = replicate SHARDS \<lparr>sh_map = [], sh_order = [], sh_bytes = 0, sh_budget = per_shard cf, sh_next_seq = 0\<rparr>,
     cfg = cf\<rparr>"

definition is_disabled :: "('n, 'e) cache \<Rightarrow> bool" where
  "is_disabled c \<longleftrightarrow> cc_size_bytes (cfg c) = 0"

definition clear :: "('n, 'e) cache \<Rightarrow> ('n, 'e) cache" where
  "clear c = c\<lparr>shards := map shard_clear (shards c)\<rparr>"

definition set_config :: "cache_config \<Rightarrow> ('n, 'e) cache \<Rightarrow> ('n, 'e) cache" where
  "set_config cf c =
     (let c = c\<lparr>cfg := cf\<rparr>;
          c = c\<lparr>shards := map (shard_resize (per_shard cf)) (shards c)\<rparr>
      in if is_disabled c then clear c else c)"

definition shard_of :: "cache_env \<Rightarrow> cache_key \<Rightarrow> nat" where
  "shard_of E k = unat (ce_hash E k) mod SHARDS"

definition on_shard :: "nat \<Rightarrow> (('n, 'e) shard \<Rightarrow> ('n, 'e) shard) \<Rightarrow> ('n, 'e) cache \<Rightarrow> ('n, 'e) cache" where
  "on_shard i f c = c\<lparr>shards := (shards c)[i := f (shards c ! i)]\<rparr>"

definition get ::
  "cache_env \<Rightarrow> nat \<Rightarrow> cache_key \<Rightarrow> ('n, 'e) cache \<Rightarrow> ('n, 'e) hit option \<times> ('n, 'e) cache" where
  "get E now k c =
     (if cc_size_bytes (cfg c) = 0 then (None, c)
      else (fst (shard_get (cfg c) now k (shards c ! shard_of E k)),
            on_shard (shard_of E k) (\<lambda>sh. snd (shard_get (cfg c) now k sh)) c))"

definition end_refresh :: "cache_env \<Rightarrow> cache_key \<Rightarrow> ('n, 'e) cache \<Rightarrow> ('n, 'e) cache" where
  "end_refresh E k c = on_shard (shard_of E k) (shard_end_refresh k) c"

definition cache_ttl_for :: "cache_config \<Rightarrow> ('n, 'e) message \<Rightarrow> nat option" where
  "cache_ttl_for cf msg =
     (if md_response_code (metadata msg) = NoError \<or> md_response_code (metadata msg) = NXDomain
      then (case min_ttl msg of
              None \<Rightarrow> None
            | Some base \<Rightarrow>
                let ttl = base;
                    ttl = (if cc_ttl_min cf > 0 then max ttl (cc_ttl_min cf) else ttl);
                    ttl = (if cc_ttl_max cf > 0 then min ttl (cc_ttl_max cf) else ttl)
                in if ttl = 0 then None else Some (unat ttl * SECOND))
      else None)"

definition put ::
  "cache_env \<Rightarrow> ('n, 'e) hickory \<Rightarrow> nat \<Rightarrow> cache_key \<Rightarrow> ('n, 'e) message \<Rightarrow> ('n, 'e) cache
     \<Rightarrow> bool \<times> ('n, 'e) cache" where
  "put E H now k msg c =
     (if is_disabled c then (False, c)
      else case cache_ttl_for (cfg c) msg of
        None \<Rightarrow> (False, c)
      | Some ttl \<Rightarrow>
          let weight = estimate_weight E H msg + key_weight E k in
          (fst (shard_put ttl weight now k msg (shards c ! shard_of E k)),
           on_shard (shard_of E k) (\<lambda>sh. snd (shard_put ttl weight now k msg sh)) c))"

definition cache_len :: "('n, 'e) cache \<Rightarrow> nat" where
  "cache_len c = sum_list (map (\<lambda>s. length (sh_map s)) (shards c))"

definition cache_is_empty :: "('n, 'e) cache \<Rightarrow> bool" where
  "cache_is_empty c \<longleftrightarrow> cache_len c = 0"

definition cache_bytes :: "('n, 'e) cache \<Rightarrow> nat" where
  "cache_bytes c = sum_list (map sh_bytes (shards c))"

definition with_size :: "nat \<Rightarrow> ('n, 'e) cache" where
  "with_size bytes = cache_new (config_default\<lparr>cc_size_bytes := bytes\<rparr>)"

section \<open>The invariant of a shard\<close>

text \<open>
  The byte count is the weight of what is held, every entry weighs at least \<open>W\<close> and owns a slot of
  the eviction queue, and no two slots carry the same number.
\<close>

definition weights :: "(cache_key \<times> ('n, 'e) cache_entry) list \<Rightarrow> nat" where
  "weights m = sum_list (map (\<lambda>p. e_weight (snd p)) m)"

definition shard_ok :: "nat \<Rightarrow> ('n, 'e) shard \<Rightarrow> bool" where
  "shard_ok W sh \<longleftrightarrow>
     distinct (map fst (sh_map sh)) \<and> sh_bytes sh = weights (sh_map sh) \<and>
     (\<forall>p \<in> set (sh_map sh). W \<le> e_weight (snd p) \<and> (e_seq (snd p), fst p) \<in> set (sh_order sh)) \<and>
     distinct (map fst (sh_order sh)) \<and> (\<forall>s \<in> set (sh_order sh). fst s < sh_next_seq sh)"

lemma weights_remove:
  "distinct (map fst m) \<Longrightarrow> map_of m k = Some e \<Longrightarrow> weights (al_remove k m) + e_weight e = weights m"
proof (induction m)
  case (Cons p m)
  show ?case
  proof (cases "fst p = k")
    case True
    with Cons.prems have "al_remove k (p # m) = m" "e = snd p"
      using al_remove_absent [of m k] by (auto simp: al_remove_def map_of_eq_None_iff)
    then show ?thesis by (simp add: weights_def)
  next
    case False
    with Cons show ?thesis by (auto simp: weights_def al_remove_def)
  qed
qed simp

lemma weights_insert:
  "distinct (map fst m) \<Longrightarrow>
   weights (al_insert k e m) = weights m - (case map_of m k of Some x \<Rightarrow> e_weight x | None \<Rightarrow> 0) + e_weight e"
proof (induction k e m rule: al_insert.induct)
  case (2 k e k' e' m)
  show ?case
  proof (cases "map_of m k")
    case (Some x)
    then have "e_weight x \<le> weights m" using weights_remove [of m k x] "2.prems" by simp
    with 2 Some show ?thesis by (auto simp: weights_def weak_map_of_SomeI dest: map_of_SomeD)
  qed (use 2 in \<open>auto simp: weights_def\<close>)
qed (simp add: weights_def)

lemma weights_ge: "(\<And>p. p \<in> set m \<Longrightarrow> W \<le> e_weight (snd p)) \<Longrightarrow> W * length m \<le> weights m"
proof (induction m)
  case (Cons p m)
  have "W \<le> e_weight (snd p)" using Cons.prems [of p] by simp
  moreover have "W * length m \<le> weights m" using Cons by simp
  ultimately show ?case by (simp add: weights_def)
qed (simp add: weights_def)

lemma shard_ok_remove:
  assumes "shard_ok W sh" "map_of (sh_map sh) k = Some e"
  shows "shard_ok W (sh\<lparr>sh_map := al_remove k (sh_map sh), sh_bytes := sh_bytes sh - e_weight e\<rparr>)"
  using assms weights_remove [of "sh_map sh" k e] by (auto simp: shard_ok_def)

lemma shard_ok_drop_dead:
  assumes "shard_ok W sh" "sh_order sh = s # rest" "\<not> slot_live (sh_map sh) s"
  shows "shard_ok W (sh\<lparr>sh_order := rest\<rparr>)"
proof -
  have "(e_seq (snd p), fst p) \<noteq> s" if "p \<in> set (sh_map sh)" for p
  proof
    assume "(e_seq (snd p), fst p) = s"
    moreover have "map_of (sh_map sh) (fst p) = Some (snd p)" using that assms(1) by (simp add: shard_ok_def)
    ultimately have "slot_live (sh_map sh) s" by (auto simp: slot_live_def)
    with assms(3) show False ..
  qed
  with assms(1,2) show ?thesis by (auto simp: shard_ok_def)
qed

lemma shard_ok_no_slots: "shard_ok W sh \<Longrightarrow> sh_order sh = [] \<Longrightarrow> sh_map sh = []"
  by (cases "sh_map sh") (auto simp: shard_ok_def)

lemma evict_to_fit_done [simp]: "sh_bytes sh \<le> sh_budget sh \<Longrightarrow> evict_to_fit sh = sh"
  by (subst evict_to_fit.simps) simp

lemma evict_to_fit_empty: "sh_order sh = [] \<Longrightarrow> evict_to_fit sh = sh"
  by (subst evict_to_fit.simps) simp

lemma evict_to_fit_dead:
  "sh_bytes sh > sh_budget sh \<Longrightarrow> sh_order sh = s # rest \<Longrightarrow> \<not> slot_live (sh_map sh) s \<Longrightarrow>
   evict_to_fit sh = evict_to_fit (sh\<lparr>sh_order := rest\<rparr>)"
  by (cases s) (subst evict_to_fit.simps, simp add: Let_def)

lemma evict_to_fit_live:
  "sh_bytes sh > sh_budget sh \<Longrightarrow> sh_order sh = (q, k) # rest \<Longrightarrow> map_of (sh_map sh) k = Some e \<Longrightarrow> e_seq e = q \<Longrightarrow>
   evict_to_fit sh = evict_to_fit (sh\<lparr>sh_map := al_remove k (sh_map sh), sh_bytes := sh_bytes sh - e_weight e, sh_order := rest\<rparr>)"
  by (subst evict_to_fit.simps) (auto simp: Let_def slot_live_def intro!: arg_cong [where f = evict_to_fit])

text \<open>Induction along the eviction loop: within budget, out of slots, a dead slot, a live one.\<close>

lemma evict_to_fit_induct [case_names fits empty dead live]:
  assumes "\<And>sh. sh_bytes sh \<le> sh_budget sh \<Longrightarrow> P sh"
    and "\<And>sh. sh_bytes sh > sh_budget sh \<Longrightarrow> sh_order sh = [] \<Longrightarrow> P sh"
    and "\<And>sh s rest. sh_bytes sh > sh_budget sh \<Longrightarrow> sh_order sh = s # rest \<Longrightarrow>
           \<not> slot_live (sh_map sh) s \<Longrightarrow> P (sh\<lparr>sh_order := rest\<rparr>) \<Longrightarrow> P sh"
    and "\<And>sh k rest e. sh_bytes sh > sh_budget sh \<Longrightarrow> sh_order sh = (e_seq e, k) # rest \<Longrightarrow>
           map_of (sh_map sh) k = Some e \<Longrightarrow>
           P (sh\<lparr>sh_map := al_remove k (sh_map sh), sh_bytes := sh_bytes sh - e_weight e, sh_order := rest\<rparr>) \<Longrightarrow> P sh"
  shows "P sh"
proof (induction "length (sh_order sh)" arbitrary: sh)
  case 0
  then show ?case using assms(1,2) [of sh] by (cases "sh_bytes sh \<le> sh_budget sh") auto
next
  case (Suc n)
  then obtain q k rest where o: "sh_order sh = (q, k) # rest" by (cases "sh_order sh") auto
  have IH: "P sh'" if "sh_order sh' = rest" for sh' using Suc that o by simp
  show ?case
  proof (cases "sh_bytes sh \<le> sh_budget sh")
    case False
    show ?thesis
    proof (cases "slot_live (sh_map sh) (q, k)")
      case True
      then obtain e where "map_of (sh_map sh) k = Some e" "e_seq e = q"
        by (auto simp: slot_live_def split: option.splits)
      then show ?thesis using False o IH by (intro assms(4) [of sh e k rest]) auto
    next
      case dead: False
      then show ?thesis using False o IH by (intro assms(3) [of sh "(q, k)" rest]) auto
    qed
  qed (use assms(1) in auto)
qed

lemma evict_to_fit_frame:
  "sh_budget (evict_to_fit sh) = sh_budget sh \<and> sh_next_seq (evict_to_fit sh) = sh_next_seq sh \<and>
   map_of (sh_map (evict_to_fit sh)) \<subseteq>\<^sub>m map_of (sh_map sh) \<and>
   length (sh_order (evict_to_fit sh)) \<le> length (sh_order sh)"
proof (induction sh rule: evict_to_fit_induct)
  case (live sh k rest e)
  let ?sh = "evict_to_fit (sh\<lparr>sh_map := al_remove k (sh_map sh), sh_bytes := sh_bytes sh - e_weight e, sh_order := rest\<rparr>)"
  have "map_of (sh_map ?sh) \<subseteq>\<^sub>m map_of (al_remove k (sh_map sh))" using live.IH by (simp del: map_of_al_remove)
  also have "\<dots> \<subseteq>\<^sub>m map_of (sh_map sh)" by (auto simp: map_le_def split: if_splits)
  finally show ?case using live by (simp add: evict_to_fit_live)
qed (simp_all add: evict_to_fit_empty evict_to_fit_dead)

lemma evict_to_fit_ok:
  "shard_ok W sh \<Longrightarrow> shard_ok W (evict_to_fit sh) \<and> sh_bytes (evict_to_fit sh) \<le> sh_budget sh"
proof (induction sh rule: evict_to_fit_induct)
  case (empty sh)
  then have "sh_map sh = []" by (intro shard_ok_no_slots)
  with empty show ?case by (simp add: shard_ok_def weights_def)
next
  case (dead sh s rest)
  then show ?case using shard_ok_drop_dead [OF dead.prems dead.hyps(2,3)] by (simp add: evict_to_fit_dead)
next
  case (live sh k rest e)
  let ?sh = "sh\<lparr>sh_map := al_remove k (sh_map sh), sh_bytes := sh_bytes sh - e_weight e\<rparr>"
  have "shard_ok W (?sh\<lparr>sh_order := rest\<rparr>)"
    using live shard_ok_remove [of W sh k e] by (intro shard_ok_drop_dead [of W ?sh "(e_seq e, k)"]) (auto simp: slot_live_def)
  with live show ?case by (simp add: evict_to_fit_live)
qed simp

text \<open>Eviction never reaches the newest entry if that entry fits the budget by itself.\<close>

lemma evict_to_fit_keeps_last:
  "shard_ok W sh \<Longrightarrow> sh_order sh = ss @ [(e_seq x, k)] \<Longrightarrow> map_of (sh_map sh) k = Some x \<Longrightarrow>
   e_weight x \<le> sh_budget sh \<Longrightarrow> map_of (sh_map (evict_to_fit sh)) k = Some x"
proof (induction sh arbitrary: ss rule: evict_to_fit_induct)
  case (dead sh s rest)
  then obtain ss' where "ss = s # ss'" "rest = ss' @ [(e_seq x, k)]"
    by (cases ss) (auto simp: slot_live_def)
  then show ?case
    using dead shard_ok_drop_dead [OF dead.prems(1) dead.hyps(2,3)] by (simp add: evict_to_fit_dead)
next
  case (live sh k' rest e)
  let ?sh = "sh\<lparr>sh_map := al_remove k' (sh_map sh), sh_bytes := sh_bytes sh - e_weight e\<rparr>"
  have ok: "shard_ok W (?sh\<lparr>sh_order := rest\<rparr>)"
    using live shard_ok_remove [of W sh k' e] by (intro shard_ok_drop_dead [of W ?sh "(e_seq e, k')"]) (auto simp: slot_live_def)
  show ?case
  proof (cases ss)
    case Nil
    then have "k' = k" "rest = []" "e = x" using live by auto
    moreover have "sh_map ?sh = []" using shard_ok_no_slots [OF ok] \<open>rest = []\<close> by simp
    ultimately have "weights (sh_map sh) = e_weight x"
      using live.prems(1) live.hyps(3) weights_remove [of "sh_map sh" k x] by (auto simp: shard_ok_def weights_def)
    with live.hyps(1) live.prems(1,4) show ?thesis by (simp add: shard_ok_def)
  next
    case (Cons s ss')
    then have rest: "s = (e_seq e, k')" "rest = ss' @ [(e_seq x, k)]" using live by auto
    have "k' \<noteq> k"
    proof
      assume "k' = k"
      then have "e = x" using live.hyps(3) live.prems(3) by (simp del: map_of_eq_Some_iff)
      with live.prems(1) live.hyps(2) rest show False by (auto simp: shard_ok_def)
    qed
    with live ok rest show ?thesis by (simp add: evict_to_fit_live)
  qed
qed (auto simp: evict_to_fit_empty)

lemma set_al_insert:
  "distinct (map fst m) \<Longrightarrow> set (al_insert k v m) = insert (k, v) {p \<in> set m. fst p \<noteq> k}"
  by (induction k v m rule: al_insert.induct) force+

lemma compact_order_frame [simp]:
  "sh_map (compact_order sh) = sh_map sh" "sh_bytes (compact_order sh) = sh_bytes sh"
  "sh_budget (compact_order sh) = sh_budget sh" "sh_next_seq (compact_order sh) = sh_next_seq sh"
  by (simp_all add: compact_order_def)

lemma owned_slot_live: "shard_ok W sh \<Longrightarrow> p \<in> set (sh_map sh) \<Longrightarrow> slot_live (sh_map sh) (e_seq (snd p), fst p)"
  unfolding slot_live_def snd_conv
  by (subst map_of_is_SomeI [of "sh_map sh" "fst p" "snd p"]) (simp_all add: shard_ok_def)

lemma compact_order_ok: "shard_ok W sh \<Longrightarrow> shard_ok W (compact_order sh)"
  using owned_slot_live [of W sh]
  by (auto simp: compact_order_def shard_ok_def distinct_map_filter)

lemma compact_order_length:
  assumes "shard_ok W sh"
  shows "length (sh_order (compact_order sh)) \<le> 2 * length (sh_map sh) + COMPACT_SLACK"
proof -
  let ?live = "filter (slot_live (sh_map sh)) (sh_order sh)"
  have inj: "inj_on snd (set ?live)"
    by (auto simp: inj_on_def slot_live_def split: option.splits)
  have "distinct ?live" using assms by (auto simp: shard_ok_def distinct_map)
  then have "length ?live = card (snd ` set ?live)" using inj by (metis card_image distinct_card)
  also have "\<dots> \<le> card (fst ` set (sh_map sh))"
    by (intro card_mono) (auto simp: slot_live_def split: option.splits dest: map_of_SomeD intro: rev_image_eqI)
  also have "\<dots> \<le> length (sh_map sh)" using card_length [of "map fst (sh_map sh)"] by simp
  finally show ?thesis by (simp add: compact_order_def)
qed

lemma compact_order_last:
  assumes "sh_order sh = ss @ [s]" "slot_live (sh_map sh) s"
  shows "\<exists>ss'. sh_order (compact_order sh) = ss' @ [s]"
  using assms by (simp add: compact_order_def)

lemma shard_ok_update:
  assumes "shard_ok W sh" "map_of (sh_map sh) k = Some e" "e_weight e' = e_weight e" "e_seq e' = e_seq e"
  shows "shard_ok W (sh\<lparr>sh_map := al_insert k e' (sh_map sh)\<rparr>)"
proof -
  have m: "(k, e) \<in> set (sh_map sh)" using assms(2) by (rule map_of_SomeD)
  have "weights (al_insert k e' (sh_map sh)) = weights (sh_map sh)"
    using assms weights_remove [of "sh_map sh" k e] weights_insert [of "sh_map sh" k e'] by (auto simp: shard_ok_def)
  then show ?thesis using assms m by (auto simp: shard_ok_def set_al_insert)
qed

text \<open>Within the budget, and the eviction queue within a bound that depends on the budget alone.\<close>

definition shard_inv :: "nat \<Rightarrow> nat \<Rightarrow> ('n, 'e) shard \<Rightarrow> bool" where
  "shard_inv W B sh \<longleftrightarrow> shard_ok W sh \<and> sh_bytes sh \<le> sh_budget sh \<and> sh_budget sh \<le> B \<and>
     (0 < W \<longrightarrow> length (sh_order sh) \<le> 2 * (B div W + 1) + COMPACT_SLACK)"

lemma shard_count:
  assumes "shard_ok W sh" "0 < W"
  shows "length (sh_map sh) \<le> sh_bytes sh div W"
  using weights_ge [of "sh_map sh" W] assms
  by (auto simp: shard_ok_def less_eq_div_iff_mult_less_eq mult.commute)

lemma shard_get_inv [wf_intros]:
  assumes "shard_inv W B sh"
  shows "shard_inv W B (snd (shard_get cf now k sh))"
proof (cases "map_of (sh_map sh) k")
  case None
  with assms show ?thesis by (simp add: shard_get_def)
next
  case (Some e)
  let ?gone = "sh\<lparr>sh_map := al_remove k (sh_map sh), sh_bytes := sh_bytes sh - e_weight e\<rparr>"
  have ok: "shard_ok W ?gone" using assms Some by (auto simp: shard_inv_def intro: shard_ok_remove)
  have len: "length (sh_order (compact_order ?gone)) \<le> length (sh_order sh)" by (simp add: compact_order_def)
  have "shard_inv W B (compact_order ?gone)"
    using compact_order_ok [OF ok] assms len by (auto simp: shard_inv_def intro: le_trans [OF diff_le_self])
  moreover have "shard_inv W B (sh\<lparr>sh_map := al_insert k e' (sh_map sh)\<rparr>)"
    if "e_weight e' = e_weight e" "e_seq e' = e_seq e" for e'
    using assms shard_ok_update [of W sh k e e'] Some that by (simp add: shard_inv_def)
  ultimately show ?thesis using Some by (simp add: shard_get_def Let_def)
qed

lemma shard_end_refresh_inv [wf_intros]: "shard_inv W B sh \<Longrightarrow> shard_inv W B (shard_end_refresh k sh)"
  using shard_ok_update [of W sh k]
  by (auto simp: shard_end_refresh_def shard_inv_def split: option.splits simp del: map_of_eq_Some_iff)

lemma shard_resize_inv [wf_intros]:
  assumes "shard_inv W B sh" "b \<le> B"
  shows "shard_inv W B (shard_resize b sh)"
proof -
  have "shard_ok W (sh\<lparr>sh_budget := b\<rparr>)" using assms by (simp add: shard_inv_def shard_ok_def)
  then show ?thesis
    using assms evict_to_fit_ok [of W "sh\<lparr>sh_budget := b\<rparr>"] evict_to_fit_frame [of "sh\<lparr>sh_budget := b\<rparr>"]
    by (auto simp: shard_resize_def shard_inv_def)
qed

lemma shard_clear_inv [wf_intros]: "shard_inv W B sh \<Longrightarrow> shard_inv W B (shard_clear sh)"
  by (simp add: shard_clear_def shard_inv_def shard_ok_def weights_def)

text \<open>The shard after a response was stored and before the queue is compacted and entries evicted.\<close>

definition stored ::
  "nat \<Rightarrow> nat \<Rightarrow> nat \<Rightarrow> cache_key \<Rightarrow> ('n, 'e) message \<Rightarrow> ('n, 'e) shard \<Rightarrow> ('n, 'e) shard" where
  "stored ttl weight now k msg sh =
     sh\<lparr>sh_map := al_insert k \<lparr>e_msg = msg, e_stored = now, e_ttl = ttl, e_weight = weight,
          e_hits = 0, e_refreshing = False, e_seq = sh_next_seq sh\<rparr> (sh_map sh),
        sh_order := sh_order sh @ [(sh_next_seq sh, k)],
        sh_bytes := sh_bytes sh - (case map_of (sh_map sh) k of Some e \<Rightarrow> e_weight e | None \<Rightarrow> 0) + weight,
        sh_next_seq := sh_next_seq sh + 1\<rparr>"

lemma shard_put_eq:
  "shard_put ttl weight now k msg sh =
     (if weight > sh_budget sh then (False, sh)
      else (True, evict_to_fit (compact_order (stored ttl weight now k msg sh))))"
  by (auto simp: shard_put_def stored_def Let_def split: option.splits
      intro!: arg_cong [where f = evict_to_fit] arg_cong [where f = compact_order])

lemma stored_ok:
  assumes "shard_ok W sh" "W \<le> weight"
  shows "shard_ok W (stored ttl weight now k msg sh)"
  using assms weights_insert [of "sh_map sh"]
  by (auto simp: shard_ok_def stored_def set_al_insert)

lemma shard_put_inv [wf_intros]:
  assumes "shard_inv W B sh" "W \<le> weight"
  shows "shard_inv W B (snd (shard_put ttl weight now k msg sh))"
proof (cases "weight > sh_budget sh")
  case True
  with assms show ?thesis by (simp add: shard_put_eq)
next
  case False
  have queue_bound: "a \<le> 2 * m + c \<Longrightarrow> m \<le> n + 1 \<Longrightarrow> n \<le> q \<Longrightarrow> a \<le> 2 * (q + 1) + c" for a m c n q :: nat
    by simp
  let ?st = "stored ttl weight now k msg sh"
  have ok: "shard_ok W ?st" using assms by (intro stored_ok) (simp_all add: shard_inv_def)
  let ?sh = "compact_order ?st"
  have "length (sh_map ?st) \<le> length (sh_map sh) + 1"
  proof -
    have "length (al_insert k v m) \<le> length m + 1" for v m by (induction k v m rule: al_insert.induct) auto
    then show ?thesis by (simp add: stored_def)
  qed
  moreover have "length (sh_map sh) \<le> B div W" if "0 < W"
    using shard_count [of W sh] assms that by (auto simp: shard_inv_def intro: order_trans [OF _ div_le_mono])
  ultimately have "0 < W \<longrightarrow> length (sh_order ?sh) \<le> 2 * (B div W + 1) + COMPACT_SLACK"
    using compact_order_length [OF ok] queue_bound by blast
  moreover have "sh_budget ?sh = sh_budget sh" by (simp add: stored_def)
  ultimately show ?thesis
    using assms False evict_to_fit_ok [OF compact_order_ok [OF ok]] evict_to_fit_frame [of ?sh]
    by (auto simp: shard_put_eq shard_inv_def)
qed

section \<open>From one shard to the cache\<close>

text \<open>
  What the cache asks of the operations it runs under a shard's lock: they keep the shard's
  invariant.  An operation on one key leaves the budget and, for any other key, can only lose the
  entry; an operation run on every shard can only lose entries.
\<close>

definition lookup :: "cache_env \<Rightarrow> ('n, 'e) cache \<Rightarrow> cache_key \<Rightarrow> ('n, 'e) cache_entry option" where
  "lookup E c k = map_of (sh_map (shards c ! shard_of E k)) k"

definition shard_at :: "cache_env \<Rightarrow> nat \<Rightarrow> nat \<Rightarrow> cache_config \<Rightarrow> nat \<Rightarrow> ('n, 'e) shard \<Rightarrow> bool" where
  "shard_at E W B cf i sh \<longleftrightarrow> shard_inv W B sh \<and> sh_budget sh = per_shard cf \<and>
     (\<forall>k \<in> fst ` set (sh_map sh). shard_of E k = i)"

definition cache_inv :: "cache_env \<Rightarrow> nat \<Rightarrow> nat \<Rightarrow> ('n, 'e) cache \<Rightarrow> bool" where
  "cache_inv E W B c \<longleftrightarrow> length (shards c) = SHARDS \<and> (\<forall>i < SHARDS. shard_at E W B (cfg c) i (shards c ! i))"

lemma shard_of_less [simp]: "shard_of E k < SHARDS"
  by (simp add: shard_of_def SHARDS_def)

locale shard_step =
  fixes W B :: nat and f :: "('n, 'e) shard \<Rightarrow> ('n, 'e) shard"
  assumes keeps: "shard_inv W B sh \<Longrightarrow> shard_inv W B (f sh)"

locale keyed_step = shard_step +
  fixes k :: cache_key
  assumes budget_kept: "sh_budget (f sh) = sh_budget sh"
    and lossy: "k' \<noteq> k \<Longrightarrow> map_of (sh_map (f sh)) k' = Some e \<Longrightarrow> map_of (sh_map sh) k' = Some e"
begin

lemma keys_kept: "k' \<in> fst ` set (sh_map (f sh)) \<Longrightarrow> k' = k \<or> k' \<in> fst ` set (sh_map sh)"
  using lossy [of k' sh] by (metis domIff dom_map_of_conv_image_fst option.exhaust)

lemma lift_inv:
  assumes "cache_inv E W B c"
  shows "cache_inv E W B (on_shard (shard_of E k) f c)"
proof -
  have "shard_at E W B cf (shard_of E k) (f sh)" if "shard_at E W B cf (shard_of E k) sh" for cf sh
  proof -
    have "shard_of E k' = shard_of E k" if "k' \<in> fst ` set (sh_map (f sh))" for k'
      using keys_kept [OF that] \<open>shard_at E W B cf (shard_of E k) sh\<close> by (auto simp: shard_at_def)
    with that keeps [of sh] budget_kept [of sh] show ?thesis by (simp add: shard_at_def)
  qed
  with assms show ?thesis unfolding cache_inv_def on_shard_def by (auto simp: nth_list_update)
qed

lemma lift_here:
  "cache_inv E W B c \<Longrightarrow>
   lookup E (on_shard (shard_of E k) f c) k = map_of (sh_map (f (shards c ! shard_of E k))) k"
  by (simp add: lookup_def on_shard_def cache_inv_def)

lemma lift_lossy:
  "cache_inv E W B c \<Longrightarrow> k' \<noteq> k \<Longrightarrow> lookup E (on_shard (shard_of E k) f c) k' = Some e \<Longrightarrow> lookup E c k' = Some e"
  by (cases "shard_of E k' = shard_of E k") (auto simp: lookup_def on_shard_def cache_inv_def intro: lossy simp del: map_of_eq_Some_iff)

end

locale shrinking_step = shard_step +
  assumes shrinks: "map_of (sh_map (f sh)) \<subseteq>\<^sub>m map_of (sh_map sh)"
begin

lemma lift_all_inv:
  assumes "cache_inv E W B c" "\<And>sh. sh_budget sh = per_shard (cfg c) \<Longrightarrow> sh_budget (f sh) = per_shard cf"
  shows "cache_inv E W B (c\<lparr>cfg := cf, shards := map f (shards c)\<rparr>)"
proof -
  have "fst ` set (sh_map (f sh)) \<subseteq> fst ` set (sh_map sh)" for sh
    using map_le_implies_dom_le [OF shrinks [of sh]] by (simp add: dom_map_of_conv_image_fst)
  then have "shard_at E W B cf i (f sh)" if "shard_at E W B (cfg c) i sh" for i sh
    using that keeps [of sh] assms(2) [of sh] unfolding shard_at_def by blast
  with assms(1) show ?thesis by (simp add: cache_inv_def)
qed

lemma lift_all_shrinks:
  "cache_inv E W B c \<Longrightarrow> lookup E (c\<lparr>cfg := cf, shards := map f (shards c)\<rparr>) k = Some e \<Longrightarrow> lookup E c k = Some e"
  using shrinks [of "shards c ! shard_of E k"]
  by (auto simp: lookup_def cache_inv_def map_le_def dest!: bspec [of _ _ k] simp del: map_of_eq_Some_iff)

end

lemma compact_evict_frame:
  "sh_budget (evict_to_fit (compact_order sh)) = sh_budget sh"
  "map_of (sh_map (evict_to_fit (compact_order sh))) \<subseteq>\<^sub>m map_of (sh_map sh)"
  using evict_to_fit_frame [of "compact_order sh"] by auto

lemma map_le_SomeD: "m \<subseteq>\<^sub>m m' \<Longrightarrow> m k = Some v \<Longrightarrow> m' k = Some v"
  by (auto simp: map_le_def dest: bspec [of _ _ k])

lemma shard_get_frame:
  "sh_budget (snd (shard_get cf now k sh)) = sh_budget sh"
  "k' \<noteq> k \<Longrightarrow> map_of (sh_map (snd (shard_get cf now k sh))) k' = map_of (sh_map sh) k'"
  by (cases "map_of (sh_map sh) k"; simp add: shard_get_def Let_def)+

lemma shard_end_refresh_frame:
  "sh_budget (shard_end_refresh k sh) = sh_budget sh"
  "k' \<noteq> k \<Longrightarrow> map_of (sh_map (shard_end_refresh k sh)) k' = map_of (sh_map sh) k'"
  by (cases "map_of (sh_map sh) k"; simp add: shard_end_refresh_def)+

lemma shard_put_frame:
  "sh_budget (snd (shard_put ttl weight now k msg sh)) = sh_budget sh"
  "k' \<noteq> k \<Longrightarrow> map_of (sh_map (snd (shard_put ttl weight now k msg sh))) k' = Some e \<Longrightarrow> map_of (sh_map sh) k' = Some e"
  using compact_evict_frame [of "stored ttl weight now k msg sh"]
    map_le_SomeD [OF compact_evict_frame(2) [of "stored ttl weight now k msg sh"], of k' e]
  by (simp_all add: shard_put_eq stored_def split: if_splits)

lemma shard_resize_frame:
  "sh_budget (shard_resize b sh) = b" "map_of (sh_map (shard_resize b sh)) \<subseteq>\<^sub>m map_of (sh_map sh)"
  using evict_to_fit_frame [of "sh\<lparr>sh_budget := b\<rparr>"] by (simp_all add: shard_resize_def)

definition min_weight :: "cache_env \<Rightarrow> nat" where
  "min_weight E = ce_entry_size E + ce_key_size E"

lemma put_weight: "min_weight E \<le> estimate_weight E H msg + key_weight E k"
  by (simp add: min_weight_def estimate_weight_def key_weight_def Let_def)

interpretation getting: keyed_step W B "\<lambda>sh. snd (shard_get cf now k sh)" k for W B cf now k
  by unfold_locales (simp_all add: shard_get_inv shard_get_frame)

interpretation ending: keyed_step W B "shard_end_refresh k" k for W B k
  by unfold_locales (simp_all add: shard_end_refresh_inv shard_end_refresh_frame)

interpretation putting: keyed_step "min_weight E" B
    "\<lambda>sh. snd (shard_put ttl (estimate_weight E H msg + key_weight E k) now k msg sh)" k
  for E B ttl H msg now k
  by unfold_locales
    (rule shard_put_inv shard_put_frame(1), assumption?, (rule put_weight)?, rule shard_put_frame(1), erule (1) shard_put_frame(2))

interpretation clearing: shrinking_step W B shard_clear for W B
  by unfold_locales (rule shard_clear_inv, assumption, simp add: shard_clear_def)

lemma resizing: "b \<le> B \<Longrightarrow> shrinking_step W B (shard_resize b)"
  by unfold_locales (rule shard_resize_inv, assumption+, rule shard_resize_frame(2))

section \<open>Histories\<close>

datatype ('n, 'e) cache_event =
  Get nat cache_key | Put nat cache_key "('n, 'e) message" | EndRefresh cache_key
| SetConfig cache_config | Clear

fun cache_step :: "cache_env \<Rightarrow> ('n, 'e) hickory \<Rightarrow> ('n, 'e) cache_event \<Rightarrow> ('n, 'e) cache \<Rightarrow> ('n, 'e) cache" where
  "cache_step E H (Get now k) c = snd (get E now k c)"
| "cache_step E H (Put now k msg) c = snd (put E H now k msg c)"
| "cache_step E H (EndRefresh k) c = end_refresh E k c"
| "cache_step E H (SetConfig cf) c = set_config cf c"
| "cache_step E H Clear c = clear c"

definition cache_run ::
  "cache_env \<Rightarrow> ('n, 'e) hickory \<Rightarrow> ('n, 'e) cache_event list \<Rightarrow> ('n, 'e) cache \<Rightarrow> ('n, 'e) cache" where
  "cache_run E H evs c = fold (cache_step E H) evs c"

fun sizes_within :: "nat \<Rightarrow> ('n, 'e) cache_event \<Rightarrow> bool" where
  "sizes_within B (SetConfig cf) = (per_shard cf \<le> B)"
| "sizes_within B _ = True"

lemma cache_new_inv: "per_shard cf \<le> B \<Longrightarrow> cache_inv E W B (cache_new cf)"
  by (simp add: cache_inv_def shard_at_def cache_new_def shard_inv_def shard_ok_def weights_def)

lemma set_config_parts:
  "set_config cf c =
     (let c' = c\<lparr>cfg := cf, shards := map (shard_resize (per_shard cf)) (shards c)\<rparr>
      in if cc_size_bytes cf = 0 then c'\<lparr>cfg := cf, shards := map shard_clear (shards c')\<rparr> else c')"
  by (simp add: set_config_def is_disabled_def clear_def Let_def)

lemma cache_step_inv:
  assumes "cache_inv E (min_weight E) B c" "sizes_within B ev"
  shows "cache_inv E (min_weight E) B (cache_step E H ev c)"
proof (cases ev)
  case (Get now k)
  then show ?thesis using assms getting.lift_inv by (auto simp: get_def)
next
  case (Put now k msg)
  then show ?thesis
    using assms putting.lift_inv by (auto simp: put_def Let_def split: option.splits)
next
  case (EndRefresh k)
  then show ?thesis using assms ending.lift_inv by (auto simp: end_refresh_def)
next
  case (SetConfig cf)
  have b: "per_shard cf \<le> B" using assms SetConfig by simp
  let ?c = "c\<lparr>cfg := cf, shards := map (shard_resize (per_shard cf)) (shards c)\<rparr>"
  have "cache_inv E (min_weight E) B ?c"
    by (rule shrinking_step.lift_all_inv [OF resizing [OF b] assms(1)]) (rule shard_resize_frame(1))
  moreover from this have "cache_inv E (min_weight E) B (?c\<lparr>cfg := cf, shards := map shard_clear (shards ?c)\<rparr>)"
    by (rule clearing.lift_all_inv) (simp add: shard_clear_def)
  ultimately show ?thesis using SetConfig by (simp add: set_config_parts Let_def)
next
  case Clear
  then show ?thesis
    using clearing.lift_all_inv [OF assms(1), of "cfg c"] by (simp add: clear_def shard_clear_def)
qed

lemma cache_run_inv:
  assumes "list_all (sizes_within B) evs" "cache_inv E (min_weight E) B c"
  shows "cache_inv E (min_weight E) B (cache_run E H evs c)"
  using assms by (induction evs arbitrary: c) (auto simp: cache_run_def intro: cache_step_inv)

lemma sizes_within_mono: "sizes_within B ev \<Longrightarrow> B \<le> B' \<Longrightarrow> sizes_within B' ev"
  by (cases ev) auto

lemma sizes_bounded: "\<exists>B. list_all (sizes_within B) evs \<and> b \<le> B"
proof (induction evs)
  case (Cons ev evs)
  then obtain B where B: "list_all (sizes_within B) evs" "b \<le> B" by blast
  obtain B' where B': "sizes_within B' ev" by (cases ev) auto
  have "list_all (sizes_within (max B B')) (ev # evs)"
    using B B' by (auto simp: list_all_iff intro: sizes_within_mono)
  with B show ?case by (intro exI [of _ "max B B'"]) auto
qed auto

lemma reached_inv: "\<exists>B. cache_inv E (min_weight E) B (cache_run E H evs (cache_new cf))"
  using sizes_bounded [of evs "per_shard cf"] cache_run_inv cache_new_inv by metis

text \<open>What a lookup under the lock reads and leaves behind.\<close>

lemma shard_get_kept:
  assumes "map_of (sh_map sh) k = Some e"
    and "\<not> (is_expired e now \<and> (\<not> cc_optimistic cf \<or> entry_age e now > cc_optimistic_max_age cf))"
  obtains e' r where
    "shard_get cf now k sh =
       (Some \<lparr>hit_msg = (if is_expired e now then set_ttls (secs_u32 (cc_optimistic_answer_ttl cf)) (e_msg e)
                         else decrement_ttls (of_nat (entry_age e now div SECOND)) (e_msg e)),
              hit_freshness = (if is_expired e now then Stale else Fresh), hit_refresh = r\<rparr>,
        sh\<lparr>sh_map := al_insert k e' (sh_map sh)\<rparr>)"
    "e_msg e' = e_msg e" "e_stored e' = e_stored e" "e_ttl e' = e_ttl e"
    "e_refreshing e' \<longleftrightarrow> e_refreshing e \<or> r"
    "r \<longleftrightarrow> \<not> e_refreshing e \<and> (is_expired e now \<or> cc_optimistic cf \<and>
       REFRESH_MIN_HITS \<le> (if e_hits e = - 1 then - 1 else e_hits e + 1) \<and>
       e_ttl e - entry_age e now \<le> max (e_ttl e div 10) SECOND)"
proof -
  define e1 where "e1 = e\<lparr>e_hits := (if e_hits e = - 1 then - 1 else e_hits e + 1)\<rparr>"
  define r where "r \<longleftrightarrow> (is_expired e now \<or> cc_optimistic cf \<and> e_hits e1 \<ge> REFRESH_MIN_HITS \<and>
    e_ttl e1 - entry_age e now \<le> max (e_ttl e1 div 10) SECOND) \<and> \<not> e_refreshing e1"
  have same: "e_msg e1 = e_msg e" "e_stored e1 = e_stored e" "e_ttl e1 = e_ttl e" "e_refreshing e1 = e_refreshing e"
    "e_hits e1 = (if e_hits e = - 1 then - 1 else e_hits e + 1)"
    by (simp_all add: e1_def)
  have "shard_get cf now k sh =
       (Some \<lparr>hit_msg = (if is_expired e now then set_ttls (secs_u32 (cc_optimistic_answer_ttl cf)) (e_msg e)
                         else decrement_ttls (of_nat (entry_age e now div SECOND)) (e_msg e)),
              hit_freshness = (if is_expired e now then Stale else Fresh), hit_refresh = r\<rparr>,
        sh\<lparr>sh_map := al_insert k (if r then e1\<lparr>e_refreshing := True\<rparr> else e1) (sh_map sh)\<rparr>)"
    unfolding shard_get_def assms(1) option.case Let_def if_not_P [OF assms(2)] e1_def [symmetric] r_def [symmetric]
    by (simp add: same(1))
  then show thesis by (rule that) (auto simp: same r_def)
qed

lemma shard_get_gone:
  assumes "map_of (sh_map sh) k = Some e"
    and "is_expired e now \<and> (\<not> cc_optimistic cf \<or> entry_age e now > cc_optimistic_max_age cf)"
  shows "fst (shard_get cf now k sh) = None" "map_of (sh_map (snd (shard_get cf now k sh))) k = None"
  unfolding shard_get_def assms(1) option.case Let_def if_P [OF assms(2)] by simp_all

lemma shard_get_hit:
  assumes "fst (shard_get cf now k sh) = Some h"
  obtains e e' where "map_of (sh_map sh) k = Some e"
    "map_of (sh_map (snd (shard_get cf now k sh))) k = Some e'"
    "e_refreshing e' \<longleftrightarrow> e_refreshing e \<or> hit_refresh h" "hit_refresh h \<longrightarrow> \<not> e_refreshing e"
    "if hit_freshness h = Fresh
     then now - e_stored e < e_ttl e \<and> hit_msg h = decrement_ttls (of_nat ((now - e_stored e) div SECOND)) (e_msg e)
     else e_ttl e \<le> now - e_stored e \<and> cc_optimistic cf \<and> now - e_stored e \<le> cc_optimistic_max_age cf \<and>
          hit_msg h = set_ttls (secs_u32 (cc_optimistic_answer_ttl cf)) (e_msg e)"
proof -
  obtain e where e: "map_of (sh_map sh) k = Some e"
    using assms by (cases "map_of (sh_map sh) k") (simp_all add: shard_get_def)
  have nd: "\<not> (is_expired e now \<and> (\<not> cc_optimistic cf \<or> entry_age e now > cc_optimistic_max_age cf))"
    using assms shard_get_gone(1) [OF e] by fastforce
  then obtain e' r where g: "shard_get cf now k sh =
       (Some \<lparr>hit_msg = (if is_expired e now then set_ttls (secs_u32 (cc_optimistic_answer_ttl cf)) (e_msg e)
                         else decrement_ttls (of_nat (entry_age e now div SECOND)) (e_msg e)),
              hit_freshness = (if is_expired e now then Stale else Fresh), hit_refresh = r\<rparr>,
        sh\<lparr>sh_map := al_insert k e' (sh_map sh)\<rparr>)"
    "e_refreshing e' \<longleftrightarrow> e_refreshing e \<or> r" "r \<longrightarrow> \<not> e_refreshing e"
    by (rule shard_get_kept [OF e]) blast
  show thesis
  proof (cases "is_expired e now")
    case True
    with assms g nd show ?thesis
      by (intro that [OF e, of e']) (simp_all add: is_expired_def entry_age_def, auto)
  next
    case False
    with assms g show ?thesis
      by (intro that [OF e, of e']) (simp_all add: is_expired_def entry_age_def, auto)
  qed
qed

lemma shard_get_entry:
  assumes "map_of (sh_map (snd (shard_get cf now k sh))) k = Some e'"
  obtains e where "map_of (sh_map sh) k = Some e"
    "e_msg e' = e_msg e" "e_stored e' = e_stored e" "e_ttl e' = e_ttl e" "e_refreshing e \<longrightarrow> e_refreshing e'"
proof -
  obtain e where e: "map_of (sh_map sh) k = Some e"
    using assms by (cases "map_of (sh_map sh) k") (simp_all add: shard_get_def)
  have "\<not> (is_expired e now \<and> (\<not> cc_optimistic cf \<or> entry_age e now > cc_optimistic_max_age cf))"
    using assms shard_get_gone(2) [OF e] by fastforce
  then show thesis by (rule shard_get_kept [OF e]) (use assms that [OF e] in auto)
qed

lemma shard_put_here:
  assumes "map_of (sh_map (snd (shard_put ttl weight now k msg sh))) k = Some e" "fst (shard_put ttl weight now k msg sh)"
  shows "e_msg e = msg \<and> e_stored e = now \<and> e_ttl e = ttl"
proof -
  have "snd (shard_put ttl weight now k msg sh) = evict_to_fit (compact_order (stored ttl weight now k msg sh))"
    using assms(2) by (simp add: shard_put_eq split: if_splits)
  then have "map_of (sh_map (stored ttl weight now k msg sh)) k = Some e"
    using map_le_SomeD [OF compact_evict_frame(2)] assms(1) by metis
  then show ?thesis by (auto simp: stored_def)
qed

lemma shard_put_kept:
  assumes "shard_ok W sh" "W \<le> weight" "fst (shard_put ttl weight now k msg sh)"
  shows "\<exists>q. map_of (sh_map (snd (shard_put ttl weight now k msg sh))) k =
    Some \<lparr>e_msg = msg, e_stored = now, e_ttl = ttl, e_weight = weight, e_hits = 0, e_refreshing = False, e_seq = q\<rparr>"
proof -
  let ?st = "stored ttl weight now k msg sh"
  let ?x = "\<lparr>e_msg = msg, e_stored = now, e_ttl = ttl, e_weight = weight, e_hits = 0, e_refreshing = False,
              e_seq = sh_next_seq sh\<rparr>"
  have w: "weight \<le> sh_budget sh" using assms(3) by (simp add: shard_put_eq split: if_splits)
  have x: "map_of (sh_map ?st) k = Some ?x" by (simp add: stored_def)
  obtain ss where "sh_order (compact_order ?st) = ss @ [(sh_next_seq sh, k)]"
    using compact_order_last [of ?st "sh_order sh" "(sh_next_seq sh, k)"] x
    by (auto simp: stored_def slot_live_def)
  then have "map_of (sh_map (evict_to_fit (compact_order ?st))) k = Some ?x"
    using w x by (intro evict_to_fit_keeps_last [where ss = ss, OF compact_order_ok [OF stored_ok [OF assms(1,2)]]])
      (simp_all add: stored_def)
  with w show ?thesis by (simp add: shard_put_eq)
qed

lemma cfg_on_shard [simp]: "cfg (on_shard i f c) = cfg c"
  by (simp add: on_shard_def)

text \<open>
  Where the entry under a key comes from after one operation: from the response just stored there,
  or from the entry that was there before, with the same response, time and TTL, and with its
  refresh claim unless the operation released that.
\<close>

definition same_response :: "('n, 'e) cache_entry \<Rightarrow> ('n, 'e) cache_entry \<Rightarrow> bool" where
  "same_response e' e \<longleftrightarrow> e_msg e' = e_msg e \<and> e_stored e' = e_stored e \<and> e_ttl e' = e_ttl e"

lemma lookup_get:
  assumes "cache_inv E W B c" "lookup E (snd (get E now k' c)) k = Some e'"
  shows "\<exists>e. lookup E c k = Some e \<and> same_response e' e \<and> (e_refreshing e \<longrightarrow> e_refreshing e')"
proof (cases "cc_size_bytes (cfg c) = 0")
  case True
  with assms show ?thesis by (simp add: get_def same_response_def)
next
  case False
  let ?f = "\<lambda>sh. snd (shard_get (cfg c) now k' sh)"
  have l: "lookup E (on_shard (shard_of E k') ?f c) k = Some e'" using assms(2) False by (simp add: get_def)
  show ?thesis
  proof (cases "k = k'")
    case True
    with l have "map_of (sh_map (?f (shards c ! shard_of E k'))) k' = Some e'"
      using getting.lift_here [OF assms(1)] by metis
    then show ?thesis by (rule shard_get_entry) (use True in \<open>auto simp: lookup_def same_response_def\<close>)
  next
    case other: False
    then show ?thesis using getting.lift_lossy [OF assms(1) other l] by (auto simp: same_response_def)
  qed
qed

lemma lookup_end_refresh:
  assumes "cache_inv E W B c" "lookup E (end_refresh E k' c) k = Some e'"
  shows "\<exists>e. lookup E c k = Some e \<and> same_response e' e \<and> (k' \<noteq> k \<longrightarrow> e_refreshing e \<longrightarrow> e_refreshing e')"
proof (cases "k = k'")
  case True
  with assms have "map_of (sh_map (shard_end_refresh k' (shards c ! shard_of E k'))) k' = Some e'"
    using ending.lift_here [OF assms(1)] by (metis end_refresh_def)
  with True show ?thesis
    by (cases "map_of (sh_map (shards c ! shard_of E k')) k'")
      (auto simp: shard_end_refresh_def lookup_def same_response_def)
next
  case False
  then show ?thesis
    using ending.lift_lossy [OF assms(1) False] assms(2) by (auto simp: end_refresh_def same_response_def)
qed

lemma lookup_put:
  assumes "cache_inv E (min_weight E) B c" "lookup E (snd (put E H now k' msg c)) k = Some e'"
  shows "if k' = k \<and> fst (put E H now k' msg c)
    then e_msg e' = msg \<and> e_stored e' = now \<and> cache_ttl_for (cfg c) msg = Some (e_ttl e')
    else lookup E c k = Some e'"
proof (cases "is_disabled c \<or> cache_ttl_for (cfg c) msg = None")
  case True
  with assms(2) show ?thesis by (auto simp: put_def)
next
  case False
  then obtain ttl where ttl: "cache_ttl_for (cfg c) msg = Some ttl" "\<not> is_disabled c" by auto
  let ?p = "shard_put ttl (estimate_weight E H msg + key_weight E k') now k' msg"
  let ?sh = "shards c ! shard_of E k'"
  have p: "put E H now k' msg c = (fst (?p ?sh), on_shard (shard_of E k') (\<lambda>sh. snd (?p sh)) c)"
    using ttl by (simp add: put_def Let_def)
  show ?thesis
  proof (cases "k' = k")
    case True
    have l: "map_of (sh_map (snd (?p ?sh))) k = Some e'"
      using assms(2) putting.lift_here [OF assms(1), where k = k'] True unfolding p snd_conv by metis
    show ?thesis
    proof (cases "fst (?p ?sh)")
      case stored: True
      with shard_put_here [OF _ stored] l True ttl p show ?thesis by auto
    next
      case refused: False
      then have "snd (?p ?sh) = ?sh" by (simp add: shard_put_eq split: if_splits)
      with refused l True p show ?thesis by (simp add: lookup_def)
    qed
  next
    case other: False
    then have "lookup E c k = Some e'"
      using putting.lift_lossy [OF assms(1) not_sym [OF other]] assms(2) unfolding p snd_conv by blast
    with other show ?thesis by simp
  qed
qed

lemma cache_inv_mono:
  assumes "cache_inv E W B c" "B \<le> B'"
  shows "cache_inv E W B' c"
proof -
  have "shard_inv W B' sh" if "shard_inv W B sh" for sh
    using that assms(2) div_le_mono [OF assms(2), of W] unfolding shard_inv_def by fastforce
  with assms(1) show ?thesis by (auto simp: cache_inv_def shard_at_def)
qed

lemma lookup_set_config:
  assumes "cache_inv E W B c" "lookup E (set_config cf c) k = Some e"
  shows "lookup E c k = Some e"
proof -
  let ?B = "max B (per_shard cf)" and ?c = "c\<lparr>cfg := cf, shards := map (shard_resize (per_shard cf)) (shards c)\<rparr>"
  have inv: "cache_inv E W ?B c" using cache_inv_mono [OF assms(1)] by simp
  have step: "shrinking_step W ?B (shard_resize (per_shard cf))" by (rule resizing) simp
  have inv': "cache_inv E W ?B ?c"
    by (rule shrinking_step.lift_all_inv [OF step inv]) (rule shard_resize_frame(1))
  have "lookup E ?c k = Some e"
    using assms(2) clearing.lift_all_shrinks [OF inv', of cf k e]
    by (simp only: set_config_parts Let_def split: if_splits)
  then show ?thesis by (rule shrinking_step.lift_all_shrinks [OF step inv])
qed

lemma lookup_clear: "cache_inv E W B c \<Longrightarrow> lookup E (clear c) k = Some e \<Longrightarrow> lookup E c k = Some e"
  using clearing.lift_all_shrinks [of E _ _ c "cfg c" k e] by (simp add: clear_def)

lemma lookup_step:
  assumes "cache_inv E (min_weight E) B c" "lookup E (cache_step E H ev c) k = Some e'"
  shows "case ev of
      Put now k' msg \<Rightarrow> if k' = k \<and> fst (put E H now k' msg c)
        then e_msg e' = msg \<and> e_stored e' = now \<and> cache_ttl_for (cfg c) msg = Some (e_ttl e')
        else lookup E c k = Some e'
    | _ \<Rightarrow> \<exists>e. lookup E c k = Some e \<and> same_response e' e \<and>
              (ev \<noteq> EndRefresh k \<longrightarrow> e_refreshing e \<longrightarrow> e_refreshing e')"
  using assms(2) lookup_get [OF assms(1)] lookup_end_refresh [OF assms(1)] lookup_put [OF assms(1)]
    lookup_set_config [OF assms(1)] lookup_clear [OF assms(1)]
  by (cases ev) (auto simp: same_response_def)

lemma run_step_inv:
  assumes "\<exists>B. cache_inv E (min_weight E) B c"
  shows "\<exists>B. cache_inv E (min_weight E) B (cache_step E H ev c)"
proof -
  obtain B where B: "cache_inv E (min_weight E) B c" using assms ..
  obtain B' where B': "sizes_within B' ev" by (cases ev) auto
  have "cache_inv E (min_weight E) (max B B') (cache_step E H ev c)"
    using cache_inv_mono [OF B] sizes_within_mono [OF B'] by (intro cache_step_inv) auto
  then show ?thesis ..
qed

section \<open>Properties\<close>

text \<open>
  C26. The cache stays within its budget.  After any sequence of lookups, stores, refreshes,
  reconfigurations and clears, the bytes counted are the weight of the entries held and no more than
  the configured size, shard by shard and in total, and the eviction queue of a shard is bounded by a
  function of the largest shard budget \<open>B\<close> ever configured: dead slots do not accumulate.  The
  hypothesis on the sizes says that an entry and its key take up at least two bytes.
\<close>

theorem cache_within_budget:
  assumes "2 \<le> min_weight E" "per_shard cf \<le> B" "list_all (sizes_within B) evs"
  shows "let c = cache_run E H evs (cache_new cf) in
    cache_bytes c \<le> cc_size_bytes (cfg c) \<and>
    (\<forall>sh \<in> set (shards c). sh_bytes sh = weights (sh_map sh) \<and> sh_bytes sh \<le> sh_budget sh \<and>
       length (sh_order sh) \<le> 2 * (B div min_weight E + 1) + COMPACT_SLACK)"
proof -
  define c where "c = cache_run E H evs (cache_new cf)"
  have inv: "cache_inv E (min_weight E) B c"
    unfolding c_def by (rule cache_run_inv [OF assms(3) cache_new_inv [OF assms(2)]])
  have sh: "shard_inv (min_weight E) B sh" "sh_budget sh = per_shard (cfg c)" if "sh \<in> set (shards c)" for sh
    using that inv by (auto simp: cache_inv_def shard_at_def in_set_conv_nth)
  have "sh_bytes sh \<le> cc_size_bytes (cfg c) div SHARDS" if "sh \<in> set (shards c)" for sh
  proof (cases "cc_size_bytes (cfg c) div SHARDS = 0")
    case True
    then have "sh_bytes sh \<le> 1" using sh [OF that] by (simp add: shard_inv_def per_shard_def)
    moreover have "min_weight E * length (sh_map sh) \<le> sh_bytes sh"
      using sh(1) [OF that] by (auto simp: shard_inv_def shard_ok_def intro: weights_ge)
    ultimately have "sh_map sh = []" using assms(1) by (cases "sh_map sh") auto
    then show ?thesis using sh(1) [OF that] by (simp add: shard_inv_def shard_ok_def weights_def)
  next
    case False
    then show ?thesis using sh [OF that] by (simp add: shard_inv_def per_shard_def)
  qed
  then have "cache_bytes c \<le> length (shards c) * (cc_size_bytes (cfg c) div SHARDS)"
    unfolding cache_bytes_def using sum_list_mono [of "shards c" sh_bytes "\<lambda>_. cc_size_bytes (cfg c) div SHARDS"]
    by (simp add: sum_list_triv)
  also have "\<dots> \<le> cc_size_bytes (cfg c)" using inv by (simp add: cache_inv_def)
  finally have total: "cache_bytes c \<le> cc_size_bytes (cfg c)" .
  have "sh_bytes sh = weights (sh_map sh) \<and> sh_bytes sh \<le> sh_budget sh \<and>
      length (sh_order sh) \<le> 2 * (B div min_weight E + 1) + COMPACT_SLACK" if "sh \<in> set (shards c)" for sh
    using sh(1) [OF that] assms(1) by (simp add: shard_inv_def shard_ok_def)
  with total show ?thesis unfolding Let_def c_def [symmetric] by blast
qed

definition sample_env :: cache_env where
  "sample_env = \<lparr>ce_hash = (\<lambda>k. of_nat (length (ck_name k))), ce_entry_size = 120, ce_key_size = 56\<rparr>"

definition sample_key :: cache_key where
  "sample_key = \<lparr>ck_name = ''ads.com'', ck_qtype = 1, ck_qclass = 1, ck_dnssec_ok = False, ck_upstreams = None\<rparr>"

theorem cache_within_budget_witness:
  "cache_bytes (cache_run sample_env sample_hickory [Put 5 sample_key (sample_response TA [RA 1])] (cache_new config_default))
     \<le> 4194304 \<and>
   cache_len (cache_run sample_env sample_hickory [Put 5 sample_key (sample_response TA [RA 1])] (cache_new config_default)) = 1"
proof -
  let ?evs = "[Put 5 sample_key (sample_response TA [RA 1])]"
  have w: "2 \<le> min_weight sample_env" "per_shard config_default \<le> 262144" "list_all (sizes_within 262144) ?evs"
    by (simp_all add: min_weight_def sample_env_def per_shard_def config_default_def SHARDS_def)
  have "cc_size_bytes (cfg (cache_run sample_env sample_hickory ?evs (cache_new config_default))) = 4194304" by code_simp
  moreover have "cache_len (cache_run sample_env sample_hickory ?evs (cache_new config_default)) = 1" by code_simp
  ultimately show ?thesis
    using cache_within_budget [OF w, of sample_hickory] by (simp add: Let_def)
qed

lemma unat_u32: "unat (w :: u32) < 2 ^ 32"
  by (rule order_less_le_trans [OF unsigned_less]) simp

lemma max_one_of_nat:
  assumes "m < 2 ^ 32"
  shows "max (of_nat m :: u32) 1 = of_nat (max m 1)"
proof (cases "m = 0")
  case False
  then have "(1 :: u32) \<le> of_nat m" using assms by (simp add: word_le_nat_alt unat_of_nat_small)
  with False show ?thesis by (simp add: max_absorb1)
qed simp

lemma decrement_exact:
  fixes w :: u32
  assumes "n < 2 ^ 32"
  shows "max (if w \<ge> of_nat n then w - of_nat n else 0) 1 = of_nat (max (unat w - n) 1)"
proof -
  have n: "unat (of_nat n :: u32) = n" using assms by (intro unat_of_nat_small) simp
  have eq: "(if w \<ge> of_nat n then w - of_nat n else 0) = of_nat (unat w - n)"
    using n by (simp add: word_le_nat_alt of_nat_diff)
  have "unat w - n < 2 ^ 32" using unat_u32 [of w] by (rule less_imp_diff_less)
  then show ?thesis unfolding eq by (rule max_one_of_nat)
qed

lemma ttl_seconds:
  assumes "cache_ttl_for cf msg = Some ttl" "d < ttl"
  shows "d div SECOND < 2 ^ 32"
proof -
  obtain w :: u32 where "ttl = unat w * SECOND"
    using assms(1) by (auto simp: cache_ttl_for_def Let_def split: if_splits option.splits)
  then have "d div SECOND < unat w" using assms(2) by (simp add: less_mult_imp_div_less)
  also have "unat w < 2 ^ 32" using unat_u32 [of w] by simp
  finally show ?thesis .
qed

text \<open>
  What was just stored is served.  When a store returned true, a lookup of the same key before the
  TTL has run out returns exactly that response, fresh, with every TTL reduced by the whole seconds
  that have passed (which fit the 32 bits they are cast to) but not below one, and asks for no
  refresh: in particular the eviction that follows a store never evicts what was stored.
\<close>

theorem put_then_get:
  assumes "put E H t k msg (cache_run E H evs (cache_new cf)) = (True, c)"
    and "cache_ttl_for (cfg c) msg = Some ttl" and "now - t < ttl"
  shows "fst (get E now k c) = Some \<lparr>
      hit_msg = map_records (\<lambda>r. r\<lparr>rr_ttl := of_nat (max (unat (rr_ttl r) - (now - t) div SECOND) 1)\<rparr>) msg,
      hit_freshness = Fresh, hit_refresh = False\<rparr>"
proof -
  let ?c = "cache_run E H evs (cache_new cf)" and ?w = "estimate_weight E H msg + key_weight E k"
  let ?sh = "shards c ! shard_of E k"
  obtain B where inv: "cache_inv E (min_weight E) B ?c" using reached_inv by blast
  obtain ttl' where p: "cache_ttl_for (cfg ?c) msg = Some ttl'" "cc_size_bytes (cfg ?c) \<noteq> 0"
      "fst (shard_put ttl' ?w t k msg (shards ?c ! shard_of E k))"
      "c = on_shard (shard_of E k) (\<lambda>sh. snd (shard_put ttl' ?w t k msg sh)) ?c"
    using assms(1) by (auto simp: put_def is_disabled_def Let_def split: if_splits option.splits)
  have cf: "cfg c = cfg ?c" "ttl' = ttl" using p(1,4) assms(2) by simp_all
  have ok: "shard_ok (min_weight E) (shards ?c ! shard_of E k)"
    using inv by (simp add: cache_inv_def shard_at_def shard_inv_def)
  obtain q where "map_of (sh_map ?sh) k = Some
      \<lparr>e_msg = msg, e_stored = t, e_ttl = ttl, e_weight = ?w, e_hits = 0, e_refreshing = False, e_seq = q\<rparr>"
    (is "_ = Some ?e")
    using shard_put_kept [OF ok put_weight p(3)] putting.lift_here [OF inv, where k = k] p(4) cf(2)
    by (metis lookup_def)
  then obtain e' r where g: "shard_get (cfg c) now k ?sh =
       (Some \<lparr>hit_msg = decrement_ttls (of_nat ((now - t) div SECOND)) msg, hit_freshness = Fresh, hit_refresh = r\<rparr>,
        ?sh\<lparr>sh_map := al_insert k e' (sh_map ?sh)\<rparr>)" "\<not> r"
    by (rule shard_get_kept [where now = now and cf = "cfg c"])
      (use assms(3) that in \<open>auto simp: is_expired_def entry_age_def REFRESH_MIN_HITS_def word_le_nat_alt\<close>)
  have "decrement_ttls (of_nat ((now - t) div SECOND)) msg =
      map_records (\<lambda>r. r\<lparr>rr_ttl := of_nat (max (unat (rr_ttl r) - (now - t) div SECOND) 1)\<rparr>) msg"
    using ttl_seconds [OF assms(2,3)] by (simp add: decrement_ttls_def decrement_exact)
  with g p(2) cf show ?thesis by (simp add: get_def)
qed

theorem put_then_get_witness:
  "fst (get sample_env (5 + 7 * SECOND) sample_key
     (snd (put sample_env sample_hickory 5 sample_key (sample_response TA [RA 1]) (cache_new config_default)))) =
   Some \<lparr>hit_msg = map_records (\<lambda>r. r\<lparr>rr_ttl := 53\<rparr>) (sample_response TA [RA 1]),
         hit_freshness = Fresh, hit_refresh = False\<rparr>"
proof -
  let ?p = "put sample_env sample_hickory 5 sample_key (sample_response TA [RA 1]) (cache_new config_default)"
  have p: "put sample_env sample_hickory 5 sample_key (sample_response TA [RA 1])
      (cache_run sample_env sample_hickory [] (cache_new config_default)) = (True, snd ?p)"
    by code_simp
  have t: "cache_ttl_for (cfg (snd ?p)) (sample_response TA [RA 1]) = Some (60 * SECOND)" by code_simp
  have "5 + 7 * SECOND - 5 < 60 * SECOND" by (simp add: SECOND_def)
  from put_then_get [OF p t this] have "fst (get sample_env (5 + 7 * SECOND) sample_key (snd ?p)) =
     Some \<lparr>hit_msg = map_records (\<lambda>r. r\<lparr>rr_ttl := of_nat (max (unat (rr_ttl r) - (5 + 7 * SECOND - 5) div SECOND) 1)\<rparr>)
        (sample_response TA [RA 1]), hit_freshness = Fresh, hit_refresh = False\<rparr>" .
  moreover have "map_records (\<lambda>r. r\<lparr>rr_ttl := of_nat (max (unat (rr_ttl r) - (5 + 7 * SECOND - 5) div SECOND) 1)\<rparr>)
        (sample_response TA [RA 1]) = map_records (\<lambda>r. r\<lparr>rr_ttl := 53\<rparr>) (sample_response TA [RA 1])"
    by (simp add: map_records_def sample_response_def sample_hickory_def reply_def SECOND_def Let_def)
  ultimately show ?thesis by simp
qed

text \<open>
  C27. A hit is the response that was stored last.  Whatever happened before, a lookup that returns a
  response returns the one most recently stored under that key (the history \<open>last_stored\<close> keeps the
  time, TTL and response of each successful store): fresh and counted down only within its TTL, and
  stale only when optimistic serving is on, the TTL has run out and the entry is not older than the
  configured maximum, with the configured TTL on every record.
\<close>

fun remember ::
  "cache_env \<Rightarrow> ('n, 'e) hickory \<Rightarrow> ('n, 'e) cache_event \<Rightarrow> ('n, 'e) cache
     \<Rightarrow> (cache_key \<rightharpoonup> nat \<times> nat \<times> ('n, 'e) message) \<Rightarrow> (cache_key \<rightharpoonup> nat \<times> nat \<times> ('n, 'e) message)" where
  "remember E H (Put t k msg) c M =
     (case cache_ttl_for (cfg c) msg of
        Some ttl \<Rightarrow> if fst (put E H t k msg c) then M(k \<mapsto> (t, ttl, msg)) else M
      | None \<Rightarrow> M)"
| "remember E H _ c M = M"

fun last_stored ::
  "cache_env \<Rightarrow> ('n, 'e) hickory \<Rightarrow> ('n, 'e) cache_event list \<Rightarrow> ('n, 'e) cache
     \<Rightarrow> (cache_key \<rightharpoonup> nat \<times> nat \<times> ('n, 'e) message) \<Rightarrow> (cache_key \<rightharpoonup> nat \<times> nat \<times> ('n, 'e) message)" where
  "last_stored E H [] c M = M"
| "last_stored E H (ev # evs) c M = last_stored E H evs (cache_step E H ev c) (remember E H ev c M)"

definition agrees ::
  "cache_env \<Rightarrow> ('n, 'e) cache \<Rightarrow> (cache_key \<rightharpoonup> nat \<times> nat \<times> ('n, 'e) message) \<Rightarrow> bool" where
  "agrees E c M \<longleftrightarrow> (\<forall>k e. lookup E c k = Some e \<longrightarrow> M k = Some (e_stored e, e_ttl e, e_msg e))"

lemma agrees_step:
  assumes "\<exists>B. cache_inv E (min_weight E) B c" "agrees E c M"
  shows "agrees E (cache_step E H ev c) (remember E H ev c M)"
  unfolding agrees_def
proof (intro allI impI)
  fix k e'
  obtain B where inv: "cache_inv E (min_weight E) B c" using assms(1) ..
  assume l: "lookup E (cache_step E H ev c) k = Some e'"
  note s = lookup_step [OF inv l]
  show "remember E H ev c M k = Some (e_stored e', e_ttl e', e_msg e')"
  proof (cases ev)
    case (Put now k' msg)
    show ?thesis
    proof (cases "k' = k \<and> fst (put E H now k' msg c)")
      case True
      with s Put show ?thesis by auto
    next
      case False
      then have "lookup E c k = Some e'" using s Put by (auto split: if_splits)
      with False Put assms(2) show ?thesis by (auto simp: agrees_def split: option.splits)
    qed
  qed (use s assms(2) in \<open>auto simp: agrees_def same_response_def\<close>)
qed

lemma agrees_run:
  assumes "\<exists>B. cache_inv E (min_weight E) B c" "agrees E c M"
  shows "agrees E (cache_run E H evs c) (last_stored E H evs c M)"
  using assms
proof (induction evs arbitrary: c M)
  case (Cons ev evs)
  from Cons.IH [OF run_step_inv [OF Cons.prems(1)] agrees_step [OF Cons.prems]]
  show ?case by (simp add: cache_run_def)
qed (simp add: cache_run_def)

lemma get_hit:
  assumes "fst (get E now k c) = Some h"
  shows "fst (shard_get (cfg c) now k (shards c ! shard_of E k)) = Some h"
  using assms by (simp add: get_def split: if_splits)

theorem hit_is_last_stored:
  assumes "fst (get E now k (cache_run E H evs (cache_new cf))) = Some h"
  shows "let cf' = cfg (cache_run E H evs (cache_new cf)) in
    \<exists>t ttl msg. last_stored E H evs (cache_new cf) Map.empty k = Some (t, ttl, msg) \<and>
      (if hit_freshness h = Fresh
       then now - t < ttl \<and> hit_msg h = decrement_ttls (of_nat ((now - t) div SECOND)) msg
       else cc_optimistic cf' \<and> ttl \<le> now - t \<and> now - t \<le> cc_optimistic_max_age cf' \<and>
            hit_msg h = set_ttls (secs_u32 (cc_optimistic_answer_ttl cf')) msg)"
proof -
  let ?c = "cache_run E H evs (cache_new cf)"
  obtain e where e: "lookup E ?c k = Some e"
    "if hit_freshness h = Fresh
     then now - e_stored e < e_ttl e \<and> hit_msg h = decrement_ttls (of_nat ((now - e_stored e) div SECOND)) (e_msg e)
     else e_ttl e \<le> now - e_stored e \<and> cc_optimistic (cfg ?c) \<and> now - e_stored e \<le> cc_optimistic_max_age (cfg ?c) \<and>
          hit_msg h = set_ttls (secs_u32 (cc_optimistic_answer_ttl (cfg ?c))) (e_msg e)"
    by (rule shard_get_hit [OF get_hit [OF assms]], rule that, simp only: lookup_def)
  have "agrees E (cache_new cf) Map.empty"
    by (auto simp: agrees_def lookup_def cache_new_def)
  then have "agrees E ?c (last_stored E H evs (cache_new cf) Map.empty)"
    using cache_new_inv [of cf "per_shard cf"] by (intro agrees_run) auto
  with e show ?thesis unfolding Let_def agrees_def by auto
qed

theorem hit_is_last_stored_witness:
  "last_stored sample_env sample_hickory [Put 5 sample_key (sample_response TA [RA 1])] (cache_new config_default)
     Map.empty sample_key = Some (5, 60 * SECOND, sample_response TA [RA 1]) \<and>
   hit_msg (the (fst (get sample_env 6 sample_key
     (cache_run sample_env sample_hickory [Put 5 sample_key (sample_response TA [RA 1])] (cache_new config_default))))) =
     decrement_ttls 0 (sample_response TA [RA 1])"
proof -
  let ?evs = "[Put 5 sample_key (sample_response TA [RA 1])]"
  let ?g = "fst (get sample_env 6 sample_key (cache_run sample_env sample_hickory ?evs (cache_new config_default)))"
  have m: "last_stored sample_env sample_hickory ?evs (cache_new config_default) Map.empty sample_key =
      Some (5, 60 * SECOND, sample_response TA [RA 1])" by code_simp
  have "?g \<noteq> None" "hit_freshness (the ?g) = Fresh" by code_simp+
  then show ?thesis
    using hit_is_last_stored [of sample_env 6 sample_key sample_hickory ?evs config_default "the ?g"] m
    by (auto simp: SECOND_def)
qed

text \<open>
  C28. One refresh at a time.  Once a lookup has told its caller to refresh an entry, no later lookup
  of that key does so, at whatever time and whatever happens to other keys or to the configuration,
  until the claim is released by \<open>end_refresh\<close> or by storing a new response under the key.
\<close>

fun releases :: "cache_key \<Rightarrow> ('n, 'e) cache_event \<Rightarrow> bool" where
  "releases k (EndRefresh k') = (k' = k)"
| "releases k (Put _ k' _) = (k' = k)"
| "releases k _ = False"

definition claimed :: "cache_env \<Rightarrow> ('n, 'e) cache \<Rightarrow> cache_key \<Rightarrow> bool" where
  "claimed E c k \<longleftrightarrow> (\<forall>e. lookup E c k = Some e \<longrightarrow> e_refreshing e)"

lemma claimed_step:
  assumes "cache_inv E (min_weight E) B c" "claimed E c k" "\<not> releases k ev"
  shows "claimed E (cache_step E H ev c) k"
  unfolding claimed_def
proof (intro allI impI)
  fix e' assume "lookup E (cache_step E H ev c) k = Some e'"
  from lookup_step [OF assms(1) this] assms(2,3) show "e_refreshing e'"
    by (cases ev) (auto simp: claimed_def)
qed

lemma claimed_run:
  assumes "\<exists>B. cache_inv E (min_weight E) B c" "claimed E c k" "list_all (\<lambda>ev. \<not> releases k ev) evs"
  shows "claimed E (cache_run E H evs c) k"
  using assms
proof (induction evs arbitrary: c)
  case (Cons ev evs)
  then have "claimed E (cache_step E H ev c) k" using claimed_step by auto
  with Cons.IH [OF run_step_inv [OF Cons.prems(1)]] Cons.prems(3) show ?case by (simp add: cache_run_def)
qed (simp add: cache_run_def)

theorem single_refresh:
  assumes "get E now k (cache_run E H evs (cache_new cf)) = (Some h, c)" "hit_refresh h"
    and "list_all (\<lambda>ev. \<not> releases k ev) evs'"
    and "fst (get E now' k (cache_run E H evs' c)) = Some h'"
  shows "\<not> hit_refresh h'"
proof -
  let ?c = "cache_run E H evs (cache_new cf)"
  obtain B where inv: "cache_inv E (min_weight E) B ?c" using reached_inv by blast
  have c: "c = cache_step E H (Get now k) ?c" using assms(1) by simp
  have "fst (get E now k ?c) = Some h" using assms(1) by simp
  from get_hit [OF this] obtain e' where
    e': "map_of (sh_map (snd (shard_get (cfg ?c) now k (shards ?c ! shard_of E k)))) k = Some e'" "e_refreshing e'"
    by (rule shard_get_hit) (use assms(2) in blast)
  have "c = on_shard (shard_of E k) (\<lambda>sh. snd (shard_get (cfg ?c) now k sh)) ?c"
    using assms(1) by (auto simp: get_def split: if_splits)
  then have "lookup E c k = Some e'" using getting.lift_here [OF inv] e'(1) by metis
  then have "claimed E c k" using e'(2) by (simp add: claimed_def)
  moreover have reach: "\<exists>B. cache_inv E (min_weight E) B c"
    unfolding c by (rule run_step_inv) (use inv in blast)
  ultimately have "claimed E (cache_run E H evs' c) k"
    using assms(3) reach by (intro claimed_run)
  moreover obtain e where "lookup E (cache_run E H evs' c) k = Some e" "hit_refresh h' \<longrightarrow> \<not> e_refreshing e"
    by (rule shard_get_hit [OF get_hit [OF assms(4)]], rule that, simp only: lookup_def)
  ultimately show ?thesis by (auto simp: claimed_def)
qed

theorem single_refresh_witness:
  "\<exists>h h' c. get sample_env (5 + 61 * SECOND) sample_key
       (cache_run sample_env sample_hickory [Put 5 sample_key (sample_response TA [RA 1])]
         (cache_new (config_default\<lparr>cc_optimistic := True\<rparr>))) = (Some h, c) \<and> hit_refresh h \<and>
     fst (get sample_env (5 + 90 * SECOND) sample_key (cache_run sample_env sample_hickory [Clear, Clear] c)) = None \<and>
     fst (get sample_env (5 + 62 * SECOND) sample_key c) = Some h' \<and> \<not> hit_refresh h'"
proof -
  let ?evs = "[Put 5 sample_key (sample_response TA [RA 1])]" and ?cf = "config_default\<lparr>cc_optimistic := True\<rparr>"
  let ?g = "get sample_env (5 + 61 * SECOND) sample_key (cache_run sample_env sample_hickory ?evs (cache_new ?cf))"
  let ?g' = "fst (get sample_env (5 + 62 * SECOND) sample_key (cache_run sample_env sample_hickory [] (snd ?g)))"
  have h: "fst ?g \<noteq> None" "hit_refresh (the (fst ?g))" "?g' \<noteq> None" by code_simp+
  then have g: "?g = (Some (the (fst ?g)), snd ?g)" "?g' = Some (the ?g')" by (simp_all add: prod_eq_iff)
  have n: "fst (get sample_env (5 + 90 * SECOND) sample_key (cache_run sample_env sample_hickory [Clear, Clear] (snd ?g))) = None"
    by code_simp
  have "\<not> hit_refresh (the ?g')"
    by (rule single_refresh [OF g(1) h(2) _ g(2)]) simp
  moreover have "cache_run sample_env sample_hickory [] (snd ?g) = snd ?g" by (simp add: cache_run_def)
  ultimately show ?thesis using g h(2) n by metis
qed

end
