(* ===== verification/Pending.thy ===== *)
theory Pending
  imports Cache
begin

text \<open>
  Coalescing of identical requests in flight: \<open>crates/sift-dns/src/pending.rs\<close>.  The first caller
  leads, the others follow its slot until it publishes.

  Slots are shared objects, so they live in a heap and are named by their address; the leader of a
  slot is named by the same address, since each slot is created for one leader.  The \<open>watch\<close> channel
  of tokio is the flag of the slot and the number of its receivers: \<open>send\<close> sets the flag unless
  nobody is subscribed.  Every access to the map or to an answer takes a lock, so those accesses are
  the atomic steps; what a leader does when it finishes is three of them, and other callers may run
  in between.
\<close>

section \<open>Definitions\<close>

record pending_key =
  pk_key :: cache_key
  pk_subnet :: "(ip_addr \<times> u8) option"

record 'm pending_slot =
  ps_done :: bool
  ps_receivers :: nat
  ps_answer :: "'m option"

text \<open>
  A leader is resolving, has published its answer (\<open>done\<close> is set), or has taken its slot out of the
  map and is about to notify.
\<close>

datatype phase = Resolving | Published | Unlinked

record 'm pending =
  pn_inflight :: "pending_key \<rightharpoonup> nat"
  pn_slots :: "nat \<rightharpoonup> 'm pending_slot"
  pn_leaders :: "nat \<rightharpoonup> pending_key \<times> phase"
  pn_next :: nat

datatype pending_entry = Lead nat | Follow nat

definition pending_new :: "'m pending" where
  "pending_new = \<lparr>pn_inflight = Map.empty, pn_slots = Map.empty, pn_leaders = Map.empty, pn_next = 0\<rparr>"

definition on_slot :: "nat \<Rightarrow> ('m pending_slot \<Rightarrow> 'm pending_slot) \<Rightarrow> 'm pending \<Rightarrow> 'm pending" where
  "on_slot a f p = p\<lparr>pn_slots := (pn_slots p)(a := map_option f (pn_slots p a))\<rparr>"

definition enter :: "pending_key \<Rightarrow> 'm pending \<Rightarrow> pending_entry \<times> 'm pending" where
  "enter k p =
     (case pn_inflight p k of
        Some a \<Rightarrow> (Follow a, on_slot a (\<lambda>s. s\<lparr>ps_receivers := ps_receivers s + 1\<rparr>) p)
      | None \<Rightarrow>
          let a = pn_next p in
          (Lead a, \<lparr>pn_inflight = (pn_inflight p)(k \<mapsto> a),
                    pn_slots = (pn_slots p)(a \<mapsto> \<lparr>ps_done = False, ps_receivers = 0, ps_answer = None\<rparr>),
                    pn_leaders = (pn_leaders p)(a \<mapsto> (k, Resolving)),
                    pn_next = a + 1\<rparr>))"

definition publish :: "nat \<Rightarrow> 'm option \<Rightarrow> 'm pending \<Rightarrow> 'm pending" where
  "publish a answer p =
     (let p = on_slot a (\<lambda>s. s\<lparr>ps_answer := answer\<rparr>) p in
      p\<lparr>pn_leaders := (pn_leaders p)(a := map_option (\<lambda>(k, _). (k, Published)) (pn_leaders p a))\<rparr>)"

definition unlink :: "nat \<Rightarrow> 'm pending \<Rightarrow> 'm pending" where
  "unlink a p =
     (case pn_leaders p a of
        None \<Rightarrow> p
      | Some (k, _) \<Rightarrow> p\<lparr>pn_inflight := (pn_inflight p)(k := None),
                        pn_leaders := (pn_leaders p)(a \<mapsto> (k, Unlinked))\<rparr>)"

definition notify :: "nat \<Rightarrow> 'm pending \<Rightarrow> 'm pending" where
  "notify a p =
     (let p = on_slot a (\<lambda>s. if ps_receivers s > 0 then s\<lparr>ps_done := True\<rparr> else s) p in
      p\<lparr>pn_leaders := (pn_leaders p)(a := None)\<rparr>)"

definition finish_leader :: "nat \<Rightarrow> 'm option \<Rightarrow> 'm pending \<Rightarrow> 'm pending" where
  "finish_leader a answer p = notify a (unlink a (publish a answer p))"

definition drop_leader :: "nat \<Rightarrow> 'm pending \<Rightarrow> 'm pending" where
  "drop_leader a p =
     (case pn_leaders p a of
        Some (_, Resolving) \<Rightarrow> notify a (unlink a p)
      | _ \<Rightarrow> p)"

text \<open>What \<open>wait\<close> returns once the flag is up; \<open>None\<close> while it has to wait.\<close>

definition wait_poll :: "nat \<Rightarrow> 'm pending \<Rightarrow> 'm option option" where
  "wait_poll a p =
     (case pn_slots p a of
        Some s \<Rightarrow> if ps_receivers s > 0 \<and> ps_done s then Some (ps_answer s) else None
      | None \<Rightarrow> None)"

definition leave :: "nat \<Rightarrow> 'm pending \<Rightarrow> 'm pending" where
  "leave a p = on_slot a (\<lambda>s. s\<lparr>ps_receivers := ps_receivers s - 1\<rparr>) p"

definition pending_len :: "'m pending \<Rightarrow> nat" where
  "pending_len p = card (dom (pn_inflight p))"

definition pending_is_empty :: "'m pending \<Rightarrow> bool" where
  "pending_is_empty p \<longleftrightarrow> pending_len p = 0"

section \<open>Interleavings\<close>

text \<open>
  The histories of a set of requests, newest event first: callers enter, leaders publish or give up
  (\<open>drop\<close> goes straight to the removal), remove their slot and notify, followers wake up with an
  answer or are cancelled.
\<close>

datatype 'm pending_event =
  Entered pending_key | PublishedAt nat "'m option" | UnlinkedAt nat | NotifiedAt nat
| Woken nat "'m option" | Cancelled nat

inductive pending_run :: "'m pending_event list \<Rightarrow> 'm pending \<Rightarrow> bool" where
  start: "pending_run [] pending_new"
| enter: "pending_run evs p \<Longrightarrow> pending_run (Entered k # evs) (snd (enter k p))"
| publish: "pending_run evs p \<Longrightarrow> pn_leaders p a = Some (k, Resolving) \<Longrightarrow>
    pending_run (PublishedAt a m # evs) (publish a m p)"
| unlink: "pending_run evs p \<Longrightarrow> pn_leaders p a = Some (k, ph) \<Longrightarrow> ph \<noteq> Unlinked \<Longrightarrow>
    pending_run (UnlinkedAt a # evs) (unlink a p)"
| notify: "pending_run evs p \<Longrightarrow> pn_leaders p a = Some (k, Unlinked) \<Longrightarrow>
    pending_run (NotifiedAt a # evs) (notify a p)"
| wake: "pending_run evs p \<Longrightarrow> wait_poll a p = Some r \<Longrightarrow> pending_run (Woken a r # evs) (leave a p)"
| cancel: "pending_run evs p \<Longrightarrow> pn_slots p a = Some s \<Longrightarrow> ps_receivers s > 0 \<Longrightarrow>
    pending_run (Cancelled a # evs) (leave a p)"

text \<open>What the leader of a slot published, if it did.\<close>

fun outcome :: "nat \<Rightarrow> 'm pending_event list \<Rightarrow> 'm option" where
  "outcome a [] = None"
| "outcome a (PublishedAt b m # evs) = (if b = a then m else outcome a evs)"
| "outcome a (_ # evs) = outcome a evs"

section \<open>The invariant\<close>

text \<open>The map and the leaders agree: a key is in the map exactly while its leader has not removed it.\<close>

definition links_ok :: "'m pending \<Rightarrow> bool" where
  "links_ok p \<longleftrightarrow>
     (\<forall>k a. pn_inflight p k = Some a \<longleftrightarrow> (\<exists>ph. pn_leaders p a = Some (k, ph) \<and> ph \<noteq> Unlinked))"

text \<open>A slot is up once its leader is gone, if anyone is waiting, and holds what the leader published.\<close>

definition slot_ok :: "'m pending_event list \<Rightarrow> 'm pending \<Rightarrow> nat \<Rightarrow> 'm pending_slot \<Rightarrow> bool" where
  "slot_ok evs p a s \<longleftrightarrow> a < pn_next p \<and> ps_answer s = outcome a evs \<and>
     (if pn_leaders p a = None then ps_receivers s > 0 \<longrightarrow> ps_done s else \<not> ps_done s)"

definition slots_ok :: "'m pending_event list \<Rightarrow> 'm pending \<Rightarrow> bool" where
  "slots_ok evs p \<longleftrightarrow> (\<forall>a. pn_leaders p a \<noteq> None \<longrightarrow> pn_slots p a \<noteq> None) \<and>
     (\<forall>a s. pn_slots p a = Some s \<longrightarrow> slot_ok evs p a s)"

definition history_ok :: "'m pending_event list \<Rightarrow> 'm pending \<Rightarrow> bool" where
  "history_ok evs p \<longleftrightarrow>
     (\<forall>a m. PublishedAt a m \<in> set evs \<longrightarrow> a < pn_next p \<and> (\<forall>k. pn_leaders p a \<noteq> Some (k, Resolving))) \<and>
     (\<forall>a r. Woken a r \<in> set evs \<longrightarrow> a < pn_next p \<and> pn_leaders p a = None \<and> r = outcome a evs)"

definition pending_inv :: "'m pending_event list \<Rightarrow> 'm pending \<Rightarrow> bool" where
  "pending_inv evs p \<longleftrightarrow> links_ok p \<and> slots_ok evs p \<and> history_ok evs p"

lemma outcome_unpublished: "(\<And>m. PublishedAt a m \<notin> set evs) \<Longrightarrow> outcome a evs = None"
  by (induction a evs rule: outcome.induct) auto

lemma links_okD:
  "links_ok p \<Longrightarrow> pn_inflight p k = Some a \<longleftrightarrow> (\<exists>ph. pn_leaders p a = Some (k, ph) \<and> ph \<noteq> Unlinked)"
  by (simp add: links_ok_def)

lemma leader_unique:
  "links_ok p \<Longrightarrow> pn_leaders p a = Some (k, ph) \<Longrightarrow> ph \<noteq> Unlinked \<Longrightarrow>
   pn_leaders p b = Some (k, ph') \<Longrightarrow> ph' \<noteq> Unlinked \<Longrightarrow> a = b"
  unfolding links_ok_def by (metis option.inject)

lemma inv_slot: "pending_inv evs p \<Longrightarrow> pn_slots p a = Some s \<Longrightarrow> slot_ok evs p a s"
  by (simp add: pending_inv_def slots_ok_def)

lemma inv_leader:
  assumes "pending_inv evs p" "pn_leaders p a = Some l"
  obtains s where "pn_slots p a = Some s" "\<not> ps_done s" "a < pn_next p"
proof -
  obtain s where "pn_slots p a = Some s" using assms by (fastforce simp: pending_inv_def slots_ok_def)
  with assms inv_slot [OF assms(1)] that show thesis by (fastforce simp: slot_ok_def)
qed

text \<open>Events other than a publication and a wake-up say nothing about answers.\<close>

fun silent :: "'m pending_event \<Rightarrow> bool" where
  "silent (PublishedAt _ _) = False" | "silent (Woken _ _) = False" | "silent _ = True"

lemma outcome_silent [simp]: "silent ev \<Longrightarrow> outcome a (ev # evs) = outcome a evs"
  by (cases ev) auto

lemma pending_inv_silent: "silent ev \<Longrightarrow> pending_inv (ev # evs) p = pending_inv evs p"
  by (cases ev) (auto simp: pending_inv_def slots_ok_def slot_ok_def history_ok_def)

text \<open>Touching a slot without changing its answer or flag, and without new waiters once the leader is gone.\<close>

lemma on_slot_inv:
  assumes "pending_inv evs p" and "\<And>s. ps_answer (f s) = ps_answer s" and "\<And>s. ps_done (f s) = ps_done s"
    and "pn_leaders p a = None \<Longrightarrow> (\<And>s. ps_receivers (f s) \<le> ps_receivers s)"
  shows "pending_inv evs (on_slot a f p)"
proof -
  have "slot_ok evs (on_slot a f p) b t" if bt: "pn_slots (on_slot a f p) b = Some t" for b t
  proof (cases "b = a")
    case True
    then obtain s where s: "pn_slots p a = Some s" "t = f s" using bt by (auto simp: on_slot_def)
    show ?thesis
      using inv_slot [OF assms(1) s(1)] assms(2-4) [of s] s(2) True
      by (auto simp: slot_ok_def on_slot_def intro: less_le_trans split: if_splits)
  next
    case False
    with that inv_slot [OF assms(1), of b t] show ?thesis by (simp add: slot_ok_def on_slot_def)
  qed
  then show ?thesis
    using assms(1) by (auto simp: pending_inv_def slots_ok_def links_ok_def history_ok_def on_slot_def)
qed

lemma follow_inv:
  assumes "pending_inv evs p" "pn_inflight p k = Some a"
  shows "pending_inv (Entered k # evs) (snd (enter k p))"
proof -
  have "pn_leaders p a \<noteq> None" using assms by (auto simp: pending_inv_def links_ok_def)
  then show ?thesis
    using assms(2) by (auto simp: pending_inv_silent enter_def intro!: on_slot_inv [OF assms(1)])
qed

lemma lead_inv:
  assumes "pending_inv evs p" "pn_inflight p k = None"
  shows "pending_inv (Entered k # evs) (snd (enter k p))"
proof -
  let ?a = "pn_next p" and ?p = "snd (enter k p)"
  have slot: "pn_slots p ?a = None"
    using inv_slot [OF assms(1), of ?a] by (cases "pn_slots p ?a") (auto simp: slot_ok_def)
  have leader: "pn_leaders p ?a = None"
    using slot by (cases "pn_leaders p ?a") (auto elim: inv_leader [OF assms(1)])
  have hist: "PublishedAt ?a m \<notin> set evs" "Woken ?a r \<notin> set evs" for m r
    using assms(1) by (auto simp: pending_inv_def history_ok_def)
  have "pn_leaders p b \<noteq> Some (k, ph)" if "ph \<noteq> Unlinked" for b ph
    using assms that links_okD [of p k b] by (auto simp: pending_inv_def)
  then have "links_ok ?p"
    using assms leader by (auto simp: links_ok_def pending_inv_def enter_def Let_def)
  moreover have "slot_ok evs ?p b t" if "pn_slots ?p b = Some t" for b t
    using that inv_slot [OF assms(1), of b t] leader outcome_unpublished [of ?a evs] hist(1) assms(2)
    by (auto simp: slot_ok_def enter_def Let_def split: if_splits)
  then have "slots_ok evs ?p"
    using assms by (auto simp: slots_ok_def pending_inv_def enter_def Let_def)
  moreover have "history_ok evs ?p"
    using assms hist by (fastforce simp: history_ok_def pending_inv_def enter_def Let_def)
  ultimately show ?thesis by (simp add: pending_inv_silent) (simp add: pending_inv_def)
qed

lemma publish_inv:
  assumes "pending_inv evs p" "pn_leaders p a = Some (k, Resolving)"
  shows "pending_inv (PublishedAt a m # evs) (publish a m p)"
proof -
  let ?evs = "PublishedAt a m # evs" and ?p = "publish a m p"
  have "slot_ok ?evs ?p b t" if bt: "pn_slots ?p b = Some t" for b t
  proof (cases "b = a")
    case True
    then obtain s where "pn_slots p a = Some s" "t = s\<lparr>ps_answer := m\<rparr>"
      using bt by (auto simp: publish_def on_slot_def Let_def)
    with inv_slot [OF assms(1)] True assms(2) show ?thesis
      by (fastforce simp: slot_ok_def publish_def on_slot_def Let_def)
  next
    case False
    with that inv_slot [OF assms(1), of b t] show ?thesis by (simp add: slot_ok_def publish_def on_slot_def Let_def)
  qed
  then have "slots_ok ?evs ?p"
    using assms by (auto simp: slots_ok_def pending_inv_def publish_def on_slot_def Let_def)
  moreover have "links_ok ?p" using assms by (auto simp: links_ok_def pending_inv_def publish_def on_slot_def Let_def)
  moreover obtain "a < pn_next p" by (rule inv_leader [OF assms])
  then have "history_ok ?evs ?p"
    using assms by (auto simp: history_ok_def pending_inv_def publish_def on_slot_def Let_def)
  ultimately show ?thesis by (simp add: pending_inv_def)
qed

lemma unlink_inv:
  assumes "pending_inv evs p" "pn_leaders p a = Some (k, ph)" "ph \<noteq> Unlinked"
  shows "pending_inv (UnlinkedAt a # evs) (unlink a p)"
proof -
  let ?p = "unlink a p"
  have lk: "links_ok p" using assms(1) by (simp add: pending_inv_def)
  have one: "pn_leaders p b = Some (k, ph') \<Longrightarrow> ph' \<noteq> Unlinked \<Longrightarrow> b = a" for b ph'
    using leader_unique [OF lk assms(2,3)] by metis
  have "pn_inflight ?p k' = Some b \<longleftrightarrow> (\<exists>ph. pn_leaders ?p b = Some (k', ph) \<and> ph \<noteq> Unlinked)" for k' b
  proof (cases "k' = k")
    case True
    then have "pn_inflight ?p k' = None" using assms(2) by (simp add: unlink_def)
    moreover have "pn_leaders ?p b \<noteq> Some (k', ph)" if "ph \<noteq> Unlinked" for ph
      using one [of b ph] that True assms(2) by (cases "b = a") (auto simp: unlink_def)
    ultimately show ?thesis by auto
  next
    case False
    then have "pn_inflight ?p k' = pn_inflight p k'" using assms(2) by (simp add: unlink_def)
    moreover have "pn_leaders ?p b = Some (k', ph) \<longleftrightarrow> pn_leaders p b = Some (k', ph)" for ph
      using False assms(2) by (cases "b = a") (auto simp: unlink_def)
    ultimately show ?thesis using links_okD [OF lk, of k' b] by simp
  qed
  then have "links_ok ?p" by (simp add: links_ok_def)
  moreover have "slot_ok evs ?p b t" if "pn_slots ?p b = Some t" for b t
    using that inv_slot [OF assms(1), of b t] assms(2) by (auto simp: slot_ok_def unlink_def)
  then have "slots_ok evs ?p" using assms by (auto simp: slots_ok_def pending_inv_def unlink_def)
  moreover have "history_ok evs ?p" using assms by (auto simp: history_ok_def pending_inv_def unlink_def)
  ultimately show ?thesis by (simp add: pending_inv_silent) (simp add: pending_inv_def)
qed

lemma notify_inv:
  assumes "pending_inv evs p" "pn_leaders p a = Some (k, Unlinked)"
  shows "pending_inv (NotifiedAt a # evs) (notify a p)"
proof -
  let ?p = "notify a p"
  have "slot_ok evs ?p b t" if bt: "pn_slots ?p b = Some t" for b t
  proof (cases "b = a")
    case True
    then obtain s where "pn_slots p a = Some s" "t = (if ps_receivers s > 0 then s\<lparr>ps_done := True\<rparr> else s)"
      using bt by (auto simp: notify_def on_slot_def Let_def)
    with inv_slot [OF assms(1)] True show ?thesis
      by (fastforce simp: slot_ok_def notify_def on_slot_def Let_def)
  next
    case False
    with that inv_slot [OF assms(1), of b t] show ?thesis by (simp add: slot_ok_def notify_def on_slot_def Let_def)
  qed
  then have "slots_ok evs ?p" using assms by (auto simp: slots_ok_def pending_inv_def notify_def on_slot_def Let_def)
  moreover have "links_ok ?p" using assms by (auto simp: links_ok_def pending_inv_def notify_def on_slot_def Let_def)
  moreover have "history_ok evs ?p"
    using assms by (auto simp: history_ok_def pending_inv_def notify_def on_slot_def Let_def)
  ultimately show ?thesis by (simp add: pending_inv_silent) (simp add: pending_inv_def)
qed

lemma leave_inv: "pending_inv evs p \<Longrightarrow> pending_inv evs (leave a p)"
  unfolding leave_def by (rule on_slot_inv) auto

lemma wake_inv:
  assumes "pending_inv evs p" "wait_poll a p = Some r"
  shows "pending_inv (Woken a r # evs) (leave a p)"
proof -
  obtain s where s: "pn_slots p a = Some s" "ps_done s" "r = ps_answer s"
    using assms(2) by (auto simp: wait_poll_def split: option.splits if_splits)
  have "pn_leaders p a = None" "r = outcome a evs" "a < pn_next p"
    using inv_slot [OF assms(1) s(1)] s(2,3) by (auto simp: slot_ok_def split: if_splits)
  moreover have "pn_leaders (leave a p) = pn_leaders p" "pn_next (leave a p) = pn_next p"
    by (simp_all add: leave_def on_slot_def)
  moreover have "slots_ok (Woken a r # evs) (leave a p) = slots_ok evs (leave a p)"
    by (simp add: slots_ok_def slot_ok_def)
  ultimately show ?thesis
    using leave_inv [OF assms(1), of a] by (auto simp: pending_inv_def history_ok_def)
qed

lemma pending_run_inv: "pending_run evs p \<Longrightarrow> pending_inv evs p"
proof (induction rule: pending_run.induct)
  case start
  show ?case
    by (simp add: pending_inv_def pending_new_def links_ok_def slots_ok_def history_ok_def)
next
  case (enter evs p k)
  then show ?case by (cases "pn_inflight p k") (auto intro: follow_inv lead_inv)
next
  case (cancel evs p a s)
  then show ?case by (simp add: pending_inv_silent leave_inv)
qed (auto intro: publish_inv unlink_inv notify_inv wake_inv)

lemma wait_poll_notify:
  "pn_slots p a = Some s \<Longrightarrow> ps_receivers s > 0 \<Longrightarrow> wait_poll a (notify a p) = Some (ps_answer s)"
  by (simp add: wait_poll_def notify_def on_slot_def Let_def)

lemma unlink_slots [simp]: "pn_slots (unlink a p) = pn_slots p"
  by (simp add: unlink_def split: option.splits prod.splits)

lemma unlink_leader: "pn_leaders p a = Some (k, ph) \<Longrightarrow> pn_leaders (unlink a p) a = Some (k, Unlinked)"
  by (simp add: unlink_def)

lemma unlink_notify_run:
  "pending_run evs p \<Longrightarrow> pn_leaders p a = Some (k, ph) \<Longrightarrow> ph \<noteq> Unlinked \<Longrightarrow>
   pending_run (NotifiedAt a # UnlinkedAt a # evs) (notify a (unlink a p))"
  by (rule pending_run.notify [OF pending_run.unlink]) (auto intro: unlink_leader)

lemma wait_poll_dropped:
  assumes "pending_run evs p" "pn_slots p a = Some s" "ps_receivers s > 0" "pn_leaders p a = Some (k, Resolving)"
  shows "wait_poll a (drop_leader a p) = Some None"
proof -
  have inv: "pending_inv evs p" using pending_run_inv [OF assms(1)] .
  have "PublishedAt a m \<notin> set evs" for m using inv assms(4) by (auto simp: pending_inv_def history_ok_def)
  then have "ps_answer s = None"
    using inv_slot [OF inv assms(2)] outcome_unpublished [of a evs] by (simp add: slot_ok_def)
  with assms(2-4) wait_poll_notify [of "unlink a p" a s] show ?thesis by (simp add: drop_leader_def)
qed

lemma wait_poll_finished:
  assumes "pending_run evs p" "pn_slots p a = Some s" "ps_receivers s > 0" "pn_leaders p a = Some (k, Resolving)"
  shows "pending_run ([NotifiedAt a, UnlinkedAt a, PublishedAt a m] @ evs) (finish_leader a m p) \<and>
    wait_poll a (finish_leader a m p) = Some m"
proof -
  have "pn_leaders (publish a m p) a = Some (k, Published)"
    "pn_slots (publish a m p) a = Some (s\<lparr>ps_answer := m\<rparr>)"
    using assms(2,4) by (simp_all add: publish_def on_slot_def Let_def)
  then show ?thesis
    using unlink_notify_run [OF pending_run.publish [OF assms(1,4), of m]] assms(3)
      wait_poll_notify [of "unlink a (publish a m p)" a]
    by (auto simp: finish_leader_def)
qed

section \<open>Properties\<close>

text \<open>
  C30. One upstream request per question.  However callers, leaders and followers interleave, at any
  time at most one leader that has not removed its slot exists for a key, the map holds exactly the
  slots of those leaders, and every follower that has been woken was given what the leader of its own
  slot published, or nothing if that leader went away without publishing.
\<close>

theorem single_flight:
  assumes "pending_run evs p"
  shows "(\<forall>a b k ph ph'. pn_leaders p a = Some (k, ph) \<and> pn_leaders p b = Some (k, ph') \<and>
            ph \<noteq> Unlinked \<and> ph' \<noteq> Unlinked \<longrightarrow> a = b) \<and>
    (\<forall>k a. pn_inflight p k = Some a \<longleftrightarrow> (\<exists>ph. pn_leaders p a = Some (k, ph) \<and> ph \<noteq> Unlinked)) \<and>
    (\<forall>a r. Woken a r \<in> set evs \<longrightarrow> r = outcome a evs)"
proof -
  have inv: "links_ok p" "history_ok evs p" using pending_run_inv [OF assms] by (simp_all add: pending_inv_def)
  show ?thesis
    using leader_unique [OF inv(1)] links_okD [OF inv(1)] inv(2) by (auto simp: history_ok_def)
qed

definition sample_pending_key :: pending_key where
  "sample_pending_key = \<lparr>pk_key = sample_key, pk_subnet = None\<rparr>"

lemma sample_pending_run:
  "pending_run [Entered sample_pending_key, Entered sample_pending_key]
     (snd (enter sample_pending_key (snd (enter sample_pending_key (pending_new :: nat pending)))))"
  by (intro pending_run.enter pending_run.start)

theorem single_flight_witness:
  "let p = snd (enter sample_pending_key (snd (enter sample_pending_key (pending_new :: nat pending)))) in
   pn_inflight p sample_pending_key = Some 0 \<and> pn_leaders p 0 = Some (sample_pending_key, Resolving)"
proof -
  let ?p = "snd (enter sample_pending_key (snd (enter sample_pending_key (pending_new :: nat pending))))"
  have "pn_leaders ?p 0 = Some (sample_pending_key, Resolving)" by code_simp
  moreover have "pn_inflight ?p sample_pending_key = Some 0 \<longleftrightarrow>
      (\<exists>ph. pn_leaders ?p 0 = Some (sample_pending_key, ph) \<and> ph \<noteq> Unlinked)"
    using single_flight [OF sample_pending_run] by blast
  ultimately show ?thesis by (simp add: Let_def)
qed

text \<open>
  C29. No follower waits forever.  In every state that can be reached, a follower whose leader is gone
  can return at once; while the leader is still there, its own next steps suffice, whatever it does:
  finishing with \<open>m\<close> makes the follower return \<open>m\<close>, and being dropped (an early return or a panic)
  makes it return without an answer.  A leader interrupted between publishing and notifying needs
  only the steps it has left.
\<close>

theorem followers_never_stranded:
  assumes "pending_run evs p" "pn_slots p a = Some s" "ps_receivers s > 0"
  shows "(pn_leaders p a = None \<longrightarrow> wait_poll a p = Some (outcome a evs)) \<and>
    (\<forall>k. pn_leaders p a = Some (k, Resolving) \<longrightarrow>
       wait_poll a (drop_leader a p) = Some None \<and>
       (\<forall>m. pending_run ([NotifiedAt a, UnlinkedAt a, PublishedAt a m] @ evs) (finish_leader a m p) \<and>
            wait_poll a (finish_leader a m p) = Some m)) \<and>
    (\<exists>evs' p'. set evs' \<subseteq> {UnlinkedAt a, NotifiedAt a} \<and> pending_run (evs' @ evs) p' \<and>
       wait_poll a p' = Some (outcome a evs))"
proof -
  have inv: "pending_inv evs p" using pending_run_inv [OF assms(1)] .
  have s: "slot_ok evs p a s" using inv_slot [OF inv assms(2)] .
  have poll: "wait_poll a (notify a p') = Some (outcome a evs)" if "pn_slots p' a = Some s" for p'
    using wait_poll_notify [OF that assms(3)] s by (simp add: slot_ok_def)
  have gone: "wait_poll a p = Some (outcome a evs)" if "pn_leaders p a = None"
    using that s assms(2,3) by (simp add: slot_ok_def wait_poll_def)
  have "\<exists>evs' p'. set evs' \<subseteq> {UnlinkedAt a, NotifiedAt a} \<and> pending_run (evs' @ evs) p' \<and>
       wait_poll a p' = Some (outcome a evs)"
  proof (cases "pn_leaders p a")
    case None
    then show ?thesis using gone assms(1) by (intro exI [of _ "[]"]) auto
  next
    case (Some l)
    obtain k ph where l: "pn_leaders p a = Some (k, ph)" using Some by (cases l) auto
    show ?thesis
    proof (cases "ph = Unlinked")
      case True
      then show ?thesis
        using pending_run.notify [OF assms(1), of a k] l poll [OF assms(2)]
        by (intro exI [of _ "[NotifiedAt a]"]) auto
    next
      case False
      then show ?thesis
        using unlink_notify_run [OF assms(1) l] poll [of "unlink a p"] assms(2)
        by (intro exI [of _ "[NotifiedAt a, UnlinkedAt a]"]) auto
    qed
  qed
  with gone wait_poll_dropped [OF assms] wait_poll_finished [OF assms] show ?thesis by blast
qed

theorem followers_never_stranded_witness:
  "wait_poll 0 (finish_leader 0 (Some (7 :: nat))
     (snd (enter sample_pending_key (snd (enter sample_pending_key pending_new))))) = Some (Some 7)"
proof -
  let ?p = "snd (enter sample_pending_key (snd (enter sample_pending_key (pending_new :: nat pending))))"
  have s: "pn_slots ?p 0 = Some \<lparr>ps_done = False, ps_receivers = 1, ps_answer = None\<rparr>" by code_simp
  have "pn_leaders ?p 0 = Some (sample_pending_key, Resolving)" by code_simp
  with followers_never_stranded [OF sample_pending_run s] show ?thesis by simp
qed

end
