(* ===== verification/Dns64.thy ===== *)
theory Dns64
  imports Message
begin

text \<open>
  DNS64 synthesis: \<open>crates/sift-dns/src/dns64.rs\<close>.  An \<open>AAAA\<close> response without a real address is
  rewritten from the \<open>A\<close> response into addresses of a NAT64 prefix, and reverse names inside the
  prefixes are recognised.
\<close>

section \<open>Definitions\<close>

definition WELL_KNOWN :: "u128 \<times> u8" where
  "WELL_KNOWN = (0x0064FF9B000000000000000000000000, 96)"

definition MAX_PREFIX_BITS :: u8 where
  "MAX_PREFIX_BITS = 96"

definition MAX_SYNTH_TTL :: u32 where
  "MAX_SYNTH_TTL = 600"

type_synonym prefixes = "(u128 \<times> u8) list"

definition mask_v6 :: "u128 \<Rightarrow> u8 \<Rightarrow> u128" where
  "mask_v6 a bits = a AND keep_bits (unat bits)"

definition usable_prefix :: "ip_addr \<times> u8 \<Rightarrow> (u128 \<times> u8) option" where
  "usable_prefix p =
     (case fst p of
        V4 _ \<Rightarrow> None
      | V6 a \<Rightarrow> if snd p > MAX_PREFIX_BITS then None else Some (mask_v6 a (snd p), snd p))"

definition prefixes_new :: "bool \<Rightarrow> (ip_addr \<times> u8) list \<Rightarrow> prefixes" where
  "prefixes_new enabled configured =
     (if \<not> enabled then []
      else let out = List.map_filter usable_prefix configured in
           if out = [] then [WELL_KNOWN] else out)"

definition prefixes_is_empty :: "prefixes \<Rightarrow> bool" where
  "prefixes_is_empty ps \<longleftrightarrow> ps = []"

fun prefixes_contains :: "prefixes \<Rightarrow> ip_addr \<Rightarrow> bool" where
  "prefixes_contains ps (V4 _) = False"
| "prefixes_contains ps (V6 a) = list_ex (\<lambda>(p, bits). mask_v6 a bits = p) ps"

text \<open>\<open>octets[12..].copy_from_slice\<close>: the last four octets are the IPv4 address.\<close>

definition prefixes_map :: "prefixes \<Rightarrow> u32 \<Rightarrow> u128 option" where
  "prefixes_map ps a =
     (case ps of
        [] \<Rightarrow> None
      | (p, _) # _ \<Rightarrow> Some (push_bit 32 (drop_bit 32 p) OR ucast a))"

definition filter_excluded :: "prefixes \<Rightarrow> 'n dns_record list \<Rightarrow> bool \<times> 'n dns_record list" where
  "filter_excluded ps rs =
     (let excl = (\<lambda>r. case rr_data r of RAAAA a \<Rightarrow> prefixes_contains ps (V6 a) | _ \<Rightarrow> False) in
      (list_ex (\<lambda>r. (case rr_data r of RAAAA _ \<Rightarrow> True | _ \<Rightarrow> False) \<and> \<not> excl r) rs,
       filter (\<lambda>r. \<not> excl r) rs))"

definition needs_synthesis ::
  "prefixes \<Rightarrow> ('n, 'e) message \<Rightarrow> ('n, 'e) message \<Rightarrow> bool \<times> ('n, 'e) message" where
  "needs_synthesis ps req resp =
     (if prefixes_is_empty ps then (False, resp)
      else case queries req of
        [] \<Rightarrow> (False, resp)
      | q # _ \<Rightarrow>
          if q_type q \<noteq> TAAAA \<or> q_class q \<noteq> ClassIN then (False, resp)
          else (case md_response_code (metadata resp) of
                  NXDomain \<Rightarrow> (False, resp)
                | NoError \<Rightarrow>
                    (case filter_excluded ps (answers resp) of (kept, rs) \<Rightarrow> (\<not> kept, resp\<lparr>answers := rs\<rparr>))
                | _ \<Rightarrow> (True, resp)))"

definition soa_ttl :: "('n, 'e) hickory \<Rightarrow> ('n, 'e) message \<Rightarrow> ('n, 'e) message \<Rightarrow> u32" where
  "soa_ttl H req resp =
     (case queries req of
        [] \<Rightarrow> MAX_SYNTH_TTL
      | q # _ \<Rightarrow>
          (case find (\<lambda>r. rr_type r = TSOA \<and> name_eq H (rr_name r) (q_name q)) (authorities resp) of
             None \<Rightarrow> MAX_SYNTH_TTL
           | Some r \<Rightarrow> rr_ttl r))"

fun synth_answers ::
  "('n, 'e) hickory \<Rightarrow> prefixes \<Rightarrow> u32 \<Rightarrow> 'n dns_record list \<Rightarrow> 'n dns_record list option" where
  "synth_answers H ps ttl [] = Some []"
| "synth_answers H ps ttl (r # rs) =
     (case rr_data r of
        RA a \<Rightarrow>
          (case prefixes_map ps a of
             None \<Rightarrow> None
           | Some mapped \<Rightarrow>
               map_option ((#) ((from_rdata H (rr_name r) (min (rr_ttl r) ttl) (RAAAA mapped))\<lparr>rr_class := rr_class r\<rparr>))
                 (synth_answers H ps ttl rs))
      | _ \<Rightarrow> map_option ((#) r) (synth_answers H ps ttl rs))"

definition synthesize ::
  "('n, 'e) hickory \<Rightarrow> prefixes \<Rightarrow> ('n, 'e) message \<Rightarrow> ('n, 'e) message \<Rightarrow> ('n, 'e) message
     \<Rightarrow> bool \<times> ('n, 'e) message" where
  "synthesize H ps req resp a_resp =
     (if answers a_resp = [] then (False, resp)
      else case synth_answers H ps (soa_ttl H req resp) (answers a_resp) of
        None \<Rightarrow> (False, resp)
      | Some out \<Rightarrow>
          (True, resp\<lparr>metadata := (metadata resp)\<lparr>md_response_code := NoError\<rparr>,
                      answers := out, authorities := authorities a_resp\<rparr>))"

fun fold_nibbles :: "u128 \<Rightarrow> str list \<Rightarrow> u128 option" where
  "fold_nibbles v [] = Some v"
| "fold_nibbles v (n # ns) =
     (case parse_hex_u8 n of None \<Rightarrow> None | Some d \<Rightarrow> fold_nibbles (push_bit 4 v OR of_nat d) ns)"

fun parse_octets :: "str list \<Rightarrow> nat list option" where
  "parse_octets [] = Some []"
| "parse_octets (o' # os) =
     (case parse_uint 255 o' of None \<Rightarrow> None | Some v \<Rightarrow> map_option ((#) v) (parse_octets os))"

definition addr_from_reverse :: "str \<Rightarrow> ip_addr option" where
  "addr_from_reverse name =
     (let name = to_ascii_lowercase (trim_end_matches CHR ''.'' name) in
      case strip_suffix ''.ip6.arpa'' name of
        Some rest \<Rightarrow>
          (let nibbles = split_char CHR ''.'' rest in
           if length nibbles \<noteq> 32 then None else map_option V6 (fold_nibbles 0 (rev nibbles)))
      | None \<Rightarrow>
          (case strip_suffix ''.in-addr.arpa'' name of
             Some rest \<Rightarrow>
               (let octets = split_char CHR ''.'' rest in
                if length octets \<noteq> 4 then None
                else map_option (\<lambda>os. V4 (of_nat (be_value 256 os))) (parse_octets (rev octets)))
           | None \<Rightarrow> None))"

definition is_nat64_ptr :: "('n, 'e) hickory \<Rightarrow> prefixes \<Rightarrow> ('n, 'e) message \<Rightarrow> bool" where
  "is_nat64_ptr H ps req =
     (if prefixes_is_empty ps then False
      else case queries req of
        [] \<Rightarrow> False
      | q # _ \<Rightarrow>
          if q_type q \<noteq> TPTR then False
          else (case addr_from_reverse (name_ascii H (q_name q)) of
                  None \<Rightarrow> False
                | Some addr \<Rightarrow> prefixes_contains ps addr \<or> prefixes_contains [WELL_KNOWN] addr))"

section \<open>Lemmas\<close>

lemma prefixes_new_masked:
  assumes "(p, b) \<in> set (prefixes_new True cfg)"
  shows "unat b \<le> 96 \<and> mask_v6 p b = p"
proof (cases "List.map_filter usable_prefix cfg = []")
  case True
  then have "(p, b) = WELL_KNOWN" using assms by (simp add: prefixes_new_def)
  then have "p = fst WELL_KNOWN" "b = snd WELL_KNOWN" by (simp_all add: prod_eq_iff)
  moreover have "mask_v6 (fst WELL_KNOWN) (snd WELL_KNOWN) = fst WELL_KNOWN" "unat (snd WELL_KNOWN) = 96"
    by code_simp+
  ultimately show ?thesis by simp
next
  case False
  then obtain x where "usable_prefix x = Some (p, b)"
    using assms by (auto simp: prefixes_new_def List.map_filter_def)
  then obtain a where "p = mask_v6 a b" "b \<le> MAX_PREFIX_BITS"
    by (auto simp: usable_prefix_def split: ip_addr.splits if_splits)
  then show ?thesis
    by (auto simp: mask_v6_def MAX_PREFIX_BITS_def word_le_nat_alt and.assoc)
qed

lemma prefixes_new_nonempty: "prefixes_new True cfg \<noteq> []"
  by (simp add: prefixes_new_def Let_def)

lemma embedded_bits:
  fixes p :: u128 and a :: u32
  shows "bit (push_bit 32 (drop_bit 32 p) OR ucast a) i \<longleftrightarrow> (if i < 32 then bit a i else bit p i)"
  by (auto simp: bit_or_iff bit_push_bit_iff bit_drop_bit_eq bit_unsigned_iff dest: bit_imp_le_length)

lemma embedded_address:
  fixes p :: u128 and a :: u32
  shows "ucast (push_bit 32 (drop_bit 32 p) OR ucast a) = a"
  by (rule bit_word_eqI) (simp add: bit_ucast_iff embedded_bits)

lemma embedded_in_prefix:
  assumes "unat b \<le> 96" "mask_v6 p b = p"
  shows "mask_v6 (push_bit 32 (drop_bit 32 p) OR ucast (a :: u32)) b = p"
proof (rule bit_word_eqI)
  fix i assume "i < LENGTH(128)"
  have "bit p i \<longleftrightarrow> bit p i \<and> 128 \<le> i + unat b"
    using arg_cong [OF assms(2), of "\<lambda>w. bit w i"] by (auto simp: mask_v6_def bit_and_iff bit_keep_bits)
  with assms(1) show "bit (mask_v6 (push_bit 32 (drop_bit 32 p) OR ucast a) b) i \<longleftrightarrow> bit p i"
    using \<open>i < LENGTH(128)\<close> by (auto simp: mask_v6_def bit_and_iff [of "_ OR _"] bit_keep_bits embedded_bits)
qed

lemma map_in_prefix:
  "\<exists>m. prefixes_map (prefixes_new True cfg) a = Some m \<and> prefixes_contains (prefixes_new True cfg) (V6 m) \<and> ucast m = a"
proof -
  obtain p b ps where ps: "prefixes_new True cfg = (p, b) # ps"
    using prefixes_new_nonempty [of cfg] by (cases "prefixes_new True cfg") auto
  then show ?thesis
    using prefixes_new_masked [of p b cfg] embedded_in_prefix [of b p a] embedded_address [of p a]
    by (simp add: prefixes_map_def)
qed

lemma synth_answers_map:
  "ps \<noteq> [] \<Longrightarrow> synth_answers H ps ttl rs =
     Some (map (\<lambda>r. case rr_data r of
         RA a \<Rightarrow> (from_rdata H (rr_name r) (min (rr_ttl r) ttl) (RAAAA (the (prefixes_map ps a))))\<lparr>rr_class := rr_class r\<rparr>
       | _ \<Rightarrow> r) rs)"
  by (induction H ps ttl rs rule: synth_answers.induct)
    (auto simp: prefixes_map_def split: rdata.splits list.splits prod.splits)

text \<open>The reverse name of an address.\<close>

fun reverse_name :: "ip_addr \<Rightarrow> str" where
  "reverse_name (V4 a) = join ''.'' (map show_nat (rev (v4_octets a))) @ ''.in-addr.arpa''"
| "reverse_name (V6 a) = join ''.'' (map (\<lambda>d. [hex_char d]) (rev (be_digits 16 32 (unat a)))) @ ''.ip6.arpa''"

lemma split_char_join:
  "ps \<noteq> [] \<Longrightarrow> (\<And>p. p \<in> set ps \<Longrightarrow> c \<notin> set p) \<Longrightarrow> split_char c (join [c] ps) = ps"
proof (induction "[c]" ps rule: join.induct)
  case (3 p q ps)
  have "split_char c (p @ c # s) = p # split_char c s" if "c \<notin> set p" for p s
    using that by (induction p) auto
  with 3 show ?case by simp
qed (auto simp: split_char_absent)

lemma parse_hex_nibble: "d < 16 \<Longrightarrow> parse_hex_u8 [hex_char d] = Some d"
  using hex_char_facts [of d]
  by (auto simp: parse_hex_u8_def strip_prefix_def starts_with_def be_value_def)

lemma shift_or_nibble:
  fixes v :: u128
  assumes "d < 16"
  shows "push_bit 4 v OR of_nat d = v * 16 + of_nat d"
proof -
  have "push_bit 4 v AND of_nat d = 0"
  proof (rule bit_word_eqI)
    fix i
    have "\<not> bit (of_nat d :: u128) i" if "4 \<le> i"
    proof -
      have "d < 2 ^ i" using assms power_increasing [OF that, of "2 :: nat"] by simp
      then have "\<not> bit d i" by (simp add: bit_iff_odd)
      then show ?thesis by (simp add: bit_of_nat_iff)
    qed
    then show "bit (push_bit 4 v AND of_nat d) i = bit (0 :: u128) i"
      by (auto simp: bit_and_iff bit_push_bit_iff not_le)
  qed
  then show ?thesis
    using disjunctive_add_eq_or [of "push_bit 4 v" "of_nat d"] by (simp add: push_bit_eq_mult mult.commute)
qed

lemma fold_nibbles_digits:
  "(\<And>d. d \<in> set ds \<Longrightarrow> d < 16) \<Longrightarrow>
   fold_nibbles v (map (\<lambda>d. [hex_char d]) ds) = Some (foldl (\<lambda>acc d. acc * 16 + of_nat d) v ds)"
  by (induction ds arbitrary: v) (auto simp: parse_hex_nibble shift_or_nibble)

lemma of_nat_be_value:
  "(of_nat (be_value b ds) :: 'a :: comm_semiring_1) = foldl (\<lambda>acc d. acc * of_nat b + of_nat d) 0 ds"
  by (induction ds rule: rev_induct) (simp_all add: be_value_snoc, simp add: be_value_def)

lemma fold_nibbles_address: "fold_nibbles 0 (map (\<lambda>d. [hex_char d]) (be_digits 16 32 (unat a))) = Some a"
proof -
  have "be_value 16 (be_digits 16 32 (unat a)) = unat a"
    using unsigned_less [of a] by (intro be_value_digits) simp
  then have "(of_nat (be_value 16 (be_digits 16 32 (unat a))) :: u128) = a" by simp
  then show ?thesis
    by (subst fold_nibbles_digits) (auto simp: of_nat_be_value dest: be_digits_bound [rotated])
qed

lemma parse_octets_show:
  "(\<And>d. d \<in> set ds \<Longrightarrow> d \<le> 255) \<Longrightarrow> parse_octets (map show_nat ds) = Some ds"
  by (induction ds) auto

lemma be_value_octets: "of_nat (be_value 256 (v4_octets a)) = a"
proof -
  have "be_value 256 (v4_octets a) = unat a"
    unfolding v4_octets_def using unsigned_less [of a] by (intro be_value_digits) simp
  then show ?thesis by simp
qed

lemma set_join: "set (join sep ps) \<subseteq> set sep \<union> (\<Union>p \<in> set ps. set p)"
  by (induction sep ps rule: join.induct) auto

lemma lower_joined:
  assumes "\<And>p c. p \<in> set ps \<Longrightarrow> c \<in> set p \<Longrightarrow> to_ascii_lower c = c"
  shows "to_ascii_lowercase (join ''.'' ps) = join ''.'' ps"
proof -
  have "to_ascii_lower CHR ''.'' = CHR ''.''" by code_simp
  then have "to_ascii_lower c = c" if "c \<in> set (join ''.'' ps)" for c
    using that assms set_join [of "''.''" ps] by auto
  then show ?thesis by (simp add: to_ascii_lowercase_def map_idI)
qed

lemma lower_digit: "is_ascii_digit c \<Longrightarrow> to_ascii_lower c = c"
  by (auto simp: to_ascii_lower_def is_ascii_digit_def is_ascii_uppercase_def)

lemma reverse_v6: "addr_from_reverse (reverse_name (V6 a)) = Some (V6 a)"
proof -
  let ?ds = "be_digits 16 32 (unat a)" and ?f = "\<lambda>d. [hex_char d]"
  let ?ps = "map ?f (rev ?ds)"
  have bound: "d < 16" if "d \<in> set ?ds" for d using that be_digits_bound [of 16 d 32 "unat a"] by simp
  have trim: "trim_end_matches CHR ''.'' (J @ ''.ip6.arpa'') = J @ ''.ip6.arpa''" for J
    by (simp add: trim_end_matches_def)
  have "to_ascii_lowercase (join ''.'' ?ps) = join ''.'' ?ps"
    by (rule lower_joined) (use bound hex_char_facts(2) in auto)
  moreover have "to_ascii_lowercase ''.ip6.arpa'' = ''.ip6.arpa''" by code_simp
  moreover have "split_char CHR ''.'' (join ''.'' ?ps) = ?ps"
  proof (rule split_char_join)
    show "?ps \<noteq> []" by (metis length_be_digits length_map length_rev list.size(3) zero_neq_numeral)
    show "CHR ''.'' \<notin> set p" if p: "p \<in> set ?ps" for p
    proof -
      obtain x where "x \<in> set ?ds" "p = [hex_char x]" using p by auto
      then show ?thesis using hex_char_facts(3) [OF bound, of x] by simp
    qed
  qed
  ultimately show ?thesis
    using fold_nibbles_address [of a]
    by (simp add: addr_from_reverse_def trim strip_suffix_append Let_def rev_map)
qed

lemma reverse_v4: "addr_from_reverse (reverse_name (V4 a)) = Some (V4 a)"
proof -
  let ?ps = "map show_nat (rev (v4_octets a))"
  have len: "length (v4_octets a) = 4" by (simp add: v4_octets_def)
  have bound: "d \<le> 255" if "d \<in> set (v4_octets a)" for d
    using that be_digits_bound [of 256 d 4 "unat a"] by (simp add: v4_octets_def)
  have dig: "is_ascii_digit c" if "c \<in> set (show_nat d)" for c d
    using that show_nat_digits [of d] by (simp add: list_all_iff)
  have trim: "trim_end_matches CHR ''.'' (J @ ''.in-addr.arpa'') = J @ ''.in-addr.arpa''" for J
    by (simp add: trim_end_matches_def)
  have no: "strip_suffix ''.ip6.arpa'' (J @ ''.in-addr.arpa'') = None" for J
    by (simp add: strip_suffix_def ends_with_def)
  have "to_ascii_lowercase (join ''.'' ?ps) = join ''.'' ?ps"
    by (rule lower_joined) (use dig lower_digit in auto)
  moreover have "to_ascii_lowercase ''.in-addr.arpa'' = ''.in-addr.arpa''" by code_simp
  moreover have "CHR ''.'' \<notin> set (show_nat d)" for d
    using dig [of "CHR ''.''" d] by (auto simp: is_ascii_digit_def)
  then have "split_char CHR ''.'' (join ''.'' ?ps) = ?ps"
    using len by (intro split_char_join) auto
  moreover have "parse_octets (map show_nat (v4_octets a)) = Some (v4_octets a)"
    by (rule parse_octets_show) (rule bound)
  ultimately show ?thesis
    using len by (simp add: addr_from_reverse_def trim no Let_def rev_map be_value_octets)
qed

section \<open>Properties\<close>

text \<open>
  Synthesised addresses lie in the configured prefix.  With DNS64 on, whatever prefixes are
  configured, a non-empty \<open>A\<close> response is always turned into a \<open>NOERROR\<close> response with one record per
  record of it, in order: an address record becomes an \<open>AAAA\<close> record of the same name whose address
  lies in one of the prefixes and ends in the IPv4 address, with a TTL not above the record's own nor
  above that of the negative answer, and any other record is carried over.
\<close>

theorem synthesized_answers:
  assumes "\<And>n t d. rr_name (from_rdata H n t d) = n \<and> rr_ttl (from_rdata H n t d) = t \<and> rr_data (from_rdata H n t d) = d"
    and "answers a_resp \<noteq> []"
  shows "\<exists>out. synthesize H (prefixes_new True cfg) req resp a_resp = (True, out) \<and>
    md_response_code (metadata out) = NoError \<and> authorities out = authorities a_resp \<and>
    list_all2 (\<lambda>r s.
        case rr_data r of
          RA a \<Rightarrow> \<exists>m. rr_data s = RAAAA m \<and> prefixes_contains (prefixes_new True cfg) (V6 m) \<and> ucast m = a \<and>
                    rr_name s = rr_name r \<and> rr_class s = rr_class r \<and> rr_ttl s = min (rr_ttl r) (soa_ttl H req resp)
        | _ \<Rightarrow> s = r)
      (answers a_resp) (answers out)"
proof -
  let ?ps = "prefixes_new True cfg" and ?t = "soa_ttl H req resp"
  have "\<exists>m. the (prefixes_map ?ps a) = m \<and> prefixes_contains ?ps (V6 m) \<and> ucast m = a" for a
    using map_in_prefix [of cfg a] by auto
  then show ?thesis
    using assms synth_answers_map [OF prefixes_new_nonempty, of H cfg ?t "answers a_resp"]
    by (auto simp: synthesize_def list_all2_map2 intro!: list.rel_refl_strong split: rdata.splits)
qed

theorem synthesized_answers_witness:
  "\<exists>m. map rr_data (answers (snd (synthesize sample_hickory (prefixes_new True []) (sample_query TAAAA)
       (sample_response TAAAA []) (sample_response TA [RA 0x01020304])))) = [RAAAA m] \<and> ucast m = (0x01020304 :: u32)"
proof -
  let ?a = "sample_response TA [RA 0x01020304]"
  let ?syn = "synthesize sample_hickory (prefixes_new True []) (sample_query TAAAA) (sample_response TAAAA []) ?a"
  have law: "\<And>n t d. rr_name (from_rdata sample_hickory n t d) = n \<and> rr_ttl (from_rdata sample_hickory n t d) = t \<and>
      rr_data (from_rdata sample_hickory n t d) = d" by (simp add: sample_hickory_def)
  have a: "answers ?a = [from_rdata sample_hickory ''ads.com.'' 60 (RA 0x01020304)]" by code_simp
  from synthesized_answers [OF law, of ?a "[]" "sample_query TAAAA" "sample_response TAAAA []"] a
  obtain out z m where "?syn = (True, out)" "answers out = [z]" "rr_data z = RAAAA m" "ucast m = (0x01020304 :: u32)"
    by (auto simp: a law list_all2_Cons1)
  then show ?thesis by simp
qed

text \<open>
  Reverse names are read back.  The \<open>ip6.arpa\<close> name of every IPv6 address and the \<open>in-addr.arpa\<close>
  name of every IPv4 address parse to that address.
\<close>

theorem reverse_name_roundtrip: "addr_from_reverse (reverse_name a) = Some a"
  by (cases a) (simp_all only: reverse_v4 reverse_v6)

end
