(* ===== verification/Rewrite.thy ===== *)
theory Rewrite
  imports Message Name "HOL-Library.Product_Lexorder"
begin

text \<open>
  The rewrite table of the configuration: \<open>crates/sift-dns/src/rewrite.rs\<close>.  Matching a pattern is
  \<open>name::wildcard_match\<close>; as there, \<open>None\<close> in the results below stands for a matcher that does not
  return, and is shown not to occur.
\<close>

section \<open>Definitions\<close>

datatype rewrite_answer = RwAddr ip_addr | RwCName str | RwExclude record_type

record rewrite =
  rw_domain :: str
  rw_answer :: rewrite_answer
  rw_answer_text :: str

definition rewrite_parse :: "str \<Rightarrow> str \<Rightarrow> rewrite option" where
  "rewrite_parse dmn ans =
     (let dmn = to_ascii_lowercase (trim dmn) in
      if dmn = [] then None
      else
        let t = trim ans;
            a = (if t = ''A'' then Some (RwExclude TA)
                 else if t = ''AAAA'' then Some (RwExclude TAAAA)
                 else if t = [] then None
                 else (case parse_ip t of
                         Some ip \<Rightarrow> Some (RwAddr ip)
                       | None \<Rightarrow> if is_valid t then Some (RwCName (to_ascii_lowercase t)) else None))
        in map_option (\<lambda>a. \<lparr>rw_domain = dmn, rw_answer = a, rw_answer_text = t\<rparr>) a)"

definition rewrite_matches :: "rewrite \<Rightarrow> str \<Rightarrow> bool option" where
  "rewrite_matches r host = wildcard_match (rw_domain r) host"

definition rewrite_specificity :: "rewrite \<Rightarrow> nat \<times> nat" where
  "rewrite_specificity r = (if is_wildcard (rw_domain r) then 0 else 1, length (rw_domain r))"

datatype rewrite_outcome = Addrs "ip_addr list" | ToCName str | Empty

type_synonym rewrite_table = "rewrite list"

definition table_build :: "(str \<times> str \<times> bool) list \<Rightarrow> rewrite_table" where
  "table_build entries =
     List.map_filter (\<lambda>(d, a, _). rewrite_parse d a) (filter (\<lambda>(_, _, enabled). enabled) entries)"

definition rewrites_len :: "rewrite_table \<Rightarrow> nat" where
  "rewrites_len t = length t"

definition rewrites_is_empty :: "rewrite_table \<Rightarrow> bool" where
  "rewrites_is_empty t \<longleftrightarrow> t = []"

fun filter_matches :: "str \<Rightarrow> rewrite list \<Rightarrow> rewrite list option" where
  "filter_matches host [] = Some []"
| "filter_matches host (r # rs) =
     (case rewrite_matches r host of
        None \<Rightarrow> None
      | Some m \<Rightarrow> map_option (\<lambda>ms. if m then r # ms else ms) (filter_matches host rs))"

fun family_wanted :: "record_type \<Rightarrow> ip_addr \<Rightarrow> bool" where
  "family_wanted TA ip = is_ipv4 ip"
| "family_wanted TAAAA ip = (\<not> is_ipv4 ip)"
| "family_wanted _ ip = False"

definition rewrite_addrs :: "record_type \<Rightarrow> rewrite list \<Rightarrow> ip_addr list" where
  "rewrite_addrs qt rs =
     filter (family_wanted qt) (List.map_filter (\<lambda>r. case rw_answer r of RwAddr ip \<Rightarrow> Some ip | _ \<Rightarrow> None) rs)"

definition is_cname :: "rewrite \<Rightarrow> bool" where
  "is_cname r = (case rw_answer r of RwCName _ \<Rightarrow> True | _ \<Rightarrow> False)"

definition select_outcome :: "str \<Rightarrow> record_type \<Rightarrow> rewrite list \<Rightarrow> rewrite_outcome option" where
  "select_outcome host qt matched =
     (if list_ex (\<lambda>r. rw_answer r = RwCName host) matched then None
      else if list_ex (\<lambda>r. rw_answer r = RwExclude qt) matched then Some Empty
      else case find is_cname matched of
        Some r \<Rightarrow> (case rw_answer r of RwCName c \<Rightarrow> Some (ToCName c) | _ \<Rightarrow> None)
      | None \<Rightarrow>
          let addrs = rewrite_addrs qt matched in Some (if addrs = [] then Empty else Addrs addrs))"

definition table_apply ::
  "rewrite_table \<Rightarrow> str \<Rightarrow> record_type \<Rightarrow> (rewrite_outcome \<times> rewrite list) option option" where
  "table_apply t host qt =
     (case filter_matches host t of
        None \<Rightarrow> None
      | Some [] \<Rightarrow> Some None
      | Some (r # rs) \<Rightarrow>
          let best = foldl max (rewrite_specificity r) (map rewrite_specificity rs);
              matched = filter (\<lambda>r. rewrite_specificity r = best) (r # rs)
          in Some (map_option (\<lambda>out. (out, matched)) (select_outcome host qt matched)))"

section \<open>Lemmas\<close>

text \<open>What a rewrite's pattern means.\<close>

definition covers :: "rewrite \<Rightarrow> str \<Rightarrow> bool" where
  "covers r host \<longleftrightarrow>
     (if starts_with (rw_domain r) ''*.'' then is_subdomain_of host (drop 2 (rw_domain r))
      else glob_spec (rw_domain r) host)"

lemma rewrite_matches_covers:
  "CHR ''*'' \<notin> set host \<Longrightarrow> rewrite_matches r host = Some (covers r host)"
  using glob_match_spec [of host "rw_domain r"]
  by (simp add: rewrite_matches_def covers_def wildcard_match_def strip_prefix_def numeral_2_eq_2)

lemma filter_matches_covers:
  "CHR ''*'' \<notin> set host \<Longrightarrow> filter_matches host rs = Some (filter (\<lambda>r. covers r host) rs)"
  by (induction rs) (auto simp: rewrite_matches_covers)

text \<open>The rewrites that decide: those that cover the host, of the greatest specificity.\<close>

definition deciding :: "rewrite_table \<Rightarrow> str \<Rightarrow> rewrite list" where
  "deciding t host =
     (let ms = filter (\<lambda>r. covers r host) t in
      filter (\<lambda>r. \<forall>r' \<in> set ms. rewrite_specificity r' \<le> rewrite_specificity r) ms)"

lemma retained_deciding:
  assumes "filter (\<lambda>r. covers r host) t = r # rs"
  shows "filter (\<lambda>q. rewrite_specificity q = foldl max (rewrite_specificity r) (map rewrite_specificity rs)) (r # rs)
    = deciding t host"
proof -
  let ?b = "foldl max (rewrite_specificity r) (map rewrite_specificity rs)"
  have "rewrite_specificity q = ?b \<longleftrightarrow> (\<forall>r' \<in> set (r # rs). rewrite_specificity r' \<le> rewrite_specificity q)"
    if "q \<in> set (r # rs)" for q
    using foldl_max_eq [of "rewrite_specificity q" "rewrite_specificity r" "map rewrite_specificity rs"] that
    by auto
  then show ?thesis unfolding deciding_def Let_def assms by (intro filter_cong) auto
qed

lemma deciding_empty: "deciding t host = [] \<longleftrightarrow> filter (\<lambda>r. covers r host) t = []"
proof (cases "filter (\<lambda>r. covers r host) t")
  case (Cons r rs)
  have "foldl max (rewrite_specificity r) (map rewrite_specificity rs) \<in> rewrite_specificity ` set (r # rs)"
    using foldl_max_in [of "rewrite_specificity r" "map rewrite_specificity rs"] by simp
  then obtain q where q: "q \<in> set (r # rs)"
    "rewrite_specificity q = foldl max (rewrite_specificity r) (map rewrite_specificity rs)" by fastforce
  then have "q \<in> set (deciding t host)" by (subst retained_deciding [OF Cons, symmetric]) auto
  then show ?thesis unfolding Cons by auto
qed (simp add: deciding_def)

lemma table_apply_deciding:
  assumes "CHR ''*'' \<notin> set host"
  shows "table_apply t host qt =
    Some (if deciding t host = [] then None
          else map_option (\<lambda>out. (out, deciding t host)) (select_outcome host qt (deciding t host)))"
proof (cases "filter (\<lambda>r. covers r host) t")
  case Nil
  then show ?thesis using assms by (simp add: table_apply_def filter_matches_covers deciding_empty)
next
  case (Cons r rs)
  then have "deciding t host \<noteq> []" by (simp add: deciding_empty)
  then show ?thesis
    using assms Cons retained_deciding [OF Cons]
    by (simp add: table_apply_def filter_matches_covers Let_def del: filter.simps)
qed

text \<open>What an outcome may say, given the rewrites that decided.\<close>

fun outcome_sound :: "str \<Rightarrow> record_type \<Rightarrow> rewrite list \<Rightarrow> rewrite_outcome \<Rightarrow> bool" where
  "outcome_sound host qt rs (Addrs ips) \<longleftrightarrow>
     ips \<noteq> [] \<and> (\<forall>r \<in> set rs. rw_answer r \<noteq> RwExclude qt \<and> \<not> is_cname r) \<and>
     ips = [ip. RwAddr ip \<leftarrow> map rw_answer rs, family_wanted qt ip]"
| "outcome_sound host qt rs (ToCName c) \<longleftrightarrow>
     c \<noteq> host \<and> (\<forall>r \<in> set rs. rw_answer r \<noteq> RwExclude qt) \<and>
     (\<exists>i < length rs. rw_answer (rs ! i) = RwCName c \<and> (\<forall>j < i. \<not> is_cname (rs ! j)))"
| "outcome_sound host qt rs Empty \<longleftrightarrow>
     (\<exists>r \<in> set rs. rw_answer r = RwExclude qt) \<or>
     (\<forall>r \<in> set rs. \<not> is_cname r \<and> (\<forall>ip. rw_answer r = RwAddr ip \<longrightarrow> \<not> family_wanted qt ip))"

lemma rewrite_addrs_comprehension:
  "rewrite_addrs qt rs = [ip. RwAddr ip \<leftarrow> map rw_answer rs, family_wanted qt ip]"
  by (induction rs) (auto simp: rewrite_addrs_def map_filter_simps split: rewrite_answer.splits)

lemma rewrite_addrs_empty:
  "rewrite_addrs qt rs = [] \<longleftrightarrow> (\<forall>r \<in> set rs. \<forall>ip. rw_answer r = RwAddr ip \<longrightarrow> \<not> family_wanted qt ip)"
  by (induction rs) (auto simp: rewrite_addrs_def map_filter_simps split: rewrite_answer.splits)

lemma select_outcome_cases:
  obtains (self) r where "r \<in> set rs" "rw_answer r = RwCName host" "select_outcome host qt rs = None"
    | (excluded) "\<forall>r \<in> set rs. rw_answer r \<noteq> RwCName host" "\<exists>r \<in> set rs. rw_answer r = RwExclude qt"
        "select_outcome host qt rs = Some Empty"
    | (cname) i c where "\<forall>r \<in> set rs. rw_answer r \<noteq> RwCName host" "\<forall>r \<in> set rs. rw_answer r \<noteq> RwExclude qt"
        "i < length rs" "rw_answer (rs ! i) = RwCName c" "\<forall>j < i. \<not> is_cname (rs ! j)"
        "select_outcome host qt rs = Some (ToCName c)"
    | (addr) "\<forall>r \<in> set rs. rw_answer r \<noteq> RwExclude qt" "\<forall>r \<in> set rs. \<not> is_cname r"
        "select_outcome host qt rs = Some (if rewrite_addrs qt rs = [] then Empty else Addrs (rewrite_addrs qt rs))"
proof (cases "list_ex (\<lambda>r. rw_answer r = RwCName host) rs \<or> list_ex (\<lambda>r. rw_answer r = RwExclude qt) rs")
  case True
  then show ?thesis
  proof (cases "list_ex (\<lambda>r. rw_answer r = RwCName host) rs")
    case True
    then obtain r where "r \<in> set rs" "rw_answer r = RwCName host" by (auto simp: list_ex_iff)
    then show ?thesis using self [of r] True by (simp add: select_outcome_def)
  next
    case False
    with True have "\<forall>r \<in> set rs. rw_answer r \<noteq> RwCName host" "\<exists>r \<in> set rs. rw_answer r = RwExclude qt"
      by (auto simp: list_ex_iff)
    then show ?thesis using excluded True False by (simp add: select_outcome_def)
  qed
next
  case False
  then have no: "\<forall>r \<in> set rs. rw_answer r \<noteq> RwCName host" "\<forall>r \<in> set rs. rw_answer r \<noteq> RwExclude qt"
    by (auto simp: list_ex_iff)
  show ?thesis
  proof (cases "find is_cname rs")
    case None
    then have "\<forall>r \<in> set rs. \<not> is_cname r" by (simp add: find_None_iff)
    then show ?thesis using addr no False None by (simp add: select_outcome_def Let_def)
  next
    case (Some r)
    then obtain i where i: "i < length rs" "is_cname r" "r = rs ! i" "\<forall>j < i. \<not> is_cname (rs ! j)"
      by (auto simp: find_Some_iff)
    then obtain c where "rw_answer r = RwCName c" by (auto simp: is_cname_def split: rewrite_answer.splits)
    then show ?thesis using cname [of i c] i no False Some by (simp add: select_outcome_def)
  qed
qed

lemma select_outcome_none:
  "select_outcome host qt rs = None \<longleftrightarrow> (\<exists>r \<in> set rs. rw_answer r = RwCName host)"
  by (rule select_outcome_cases [of rs host qt]) (auto simp: is_cname_def split: rewrite_answer.splits)

lemma select_outcome_sound:
  assumes "select_outcome host qt rs = Some out"
  shows "outcome_sound host qt rs out"
proof (rule select_outcome_cases [of rs host qt])
  fix i c
  assume c: "\<forall>r \<in> set rs. rw_answer r \<noteq> RwCName host" "i < length rs" "rw_answer (rs ! i) = RwCName c"
    "\<forall>j < i. \<not> is_cname (rs ! j)" "\<forall>r \<in> set rs. rw_answer r \<noteq> RwExclude qt"
    "select_outcome host qt rs = Some (ToCName c)"
  then have "c \<noteq> host" using nth_mem by metis
  then show ?thesis using c assms by auto
next
  assume "\<forall>r \<in> set rs. rw_answer r \<noteq> RwExclude qt" "\<forall>r \<in> set rs. \<not> is_cname r"
    "select_outcome host qt rs = Some (if rewrite_addrs qt rs = [] then Empty else Addrs (rewrite_addrs qt rs))"
  then show ?thesis using assms by (cases "rewrite_addrs qt rs = []")
      (auto simp: rewrite_addrs_empty, simp_all add: rewrite_addrs_comprehension)
qed (use assms in auto)

section \<open>Properties\<close>

text \<open>
  C34. Applying the rewrite table to a query always returns (for a host without a literal star).  It
  declines exactly when no rewrite covers the host, or when a deciding rewrite would send the host to
  itself.  Otherwise it reports the deciding rewrites, which are the covering ones of greatest
  specificity (an exact domain before any wildcard, then the longer pattern), and an outcome they
  justify: addresses are non-empty, all of the family asked for and in configuration order; a
  canonical name is the first one configured and never the queried name; the answer is empty only for
  an exclusion of the type or for want of an address of the family.
\<close>

theorem rewrite_table_decides:
  assumes "CHR ''*'' \<notin> set host"
  shows "case table_apply t host qt of
      None \<Rightarrow> False
    | Some None \<Rightarrow> (\<forall>r \<in> set t. \<not> covers r host) \<or> (\<exists>r \<in> set (deciding t host). rw_answer r = RwCName host)
    | Some (Some (out, rs)) \<Rightarrow> rs = deciding t host \<and> rs \<noteq> [] \<and>
        (\<forall>r \<in> set rs. covers r host \<and> rw_answer r \<noteq> RwCName host) \<and> outcome_sound host qt rs out"
proof -
  have "\<forall>r \<in> set (deciding t host). covers r host" by (simp add: deciding_def)
  then show ?thesis
    using select_outcome_none [of host qt "deciding t host"] select_outcome_sound [of host qt "deciding t host"]
    by (cases "select_outcome host qt (deciding t host)")
      (auto simp: table_apply_deciding [OF assms] deciding_empty filter_empty_conv)
qed

definition sample_table :: rewrite_table where
  "sample_table =
     [\<lparr>rw_domain = ''*.example.com'', rw_answer = RwAddr (V4 0x0A000001), rw_answer_text = ''10.0.0.1''\<rparr>,
      \<lparr>rw_domain = ''a.example.com'', rw_answer = RwAddr (V4 0x0A000002), rw_answer_text = ''10.0.0.2''\<rparr>,
      \<lparr>rw_domain = ''a.example.com'', rw_answer = RwAddr (V6 1), rw_answer_text = ''::1''\<rparr>]"

theorem rewrite_table_decides_witness:
  "table_apply sample_table ''a.example.com'' TA = Some (Some (Addrs [V4 0x0A000002], drop 1 sample_table))"
proof -
  have h: "CHR ''*'' \<notin> set ''a.example.com''" by simp
  have d: "deciding sample_table ''a.example.com'' = drop 1 sample_table"
    "\<forall>r \<in> set (drop 1 sample_table). rw_answer r \<noteq> RwCName ''a.example.com'' \<and> \<not> is_cname r"
    "\<exists>r \<in> set sample_table. covers r ''a.example.com''" by code_simp+
  obtain out where "table_apply sample_table ''a.example.com'' TA = Some (Some (out, drop 1 sample_table))"
    "outcome_sound ''a.example.com'' TA (drop 1 sample_table) out"
    using rewrite_table_decides [OF h, of sample_table TA] d
    by (auto split: option.splits prod.splits)
  then show ?thesis using d(2)
    by (cases out) (auto simp: sample_table_def is_cname_def Bex_def nth_Cons' split: if_splits)
qed

end
