(* ===== verification/Resolver.thy ===== *)
theory Resolver
  imports Blocked Ddr Pending Dns64 Rewrite
begin

text \<open>
  Request handling: \<open>crates/sift-dns/src/resolver.rs\<close> and the refresh worker of
  \<open>crates/sift-dns/src/refresh.rs\<close>, over the components it consults: filtering engine, rewrites,
  clients, access list, designated resolvers, cache, in-flight queries, DNS64 and message shaping.

  The upstream pools (\<open>'p\<close>) answer over the network, so what a pool answers is part of the
  surroundings \<open>W\<close> of a request, like the clocks and the random message id.  While a request waits
  other requests run: \<open>w_meanwhile\<close> is any change they make to the shared state at each point where
  the code awaits.  A request returns its outcome, the queries it sent (to which pool) and the state
  it leaves; the result is \<open>None\<close> if it does not return: a component panics, or its leader has not
  notified it yet.
\<close>

section \<open>Transports, settings and outcomes\<close>

datatype proto = Udp | Tcp | Tls | Https | Quic

fun log_name :: "proto \<Rightarrow> str" where
  "log_name Udp = ''''"
| "log_name Tcp = ''''"
| "log_name Tls = ''tls''"
| "log_name Https = ''doh''"
| "log_name Quic = ''doq''"

definition is_datagram :: "proto \<Rightarrow> bool" where
  "is_datagram p \<longleftrightarrow> p = Udp"

definition default_private_networks :: "(ip_addr \<times> u8) list" where
  "default_private_networks =
     List.map_filter (\<lambda>(a, b). map_option (\<lambda>a. (a, b)) (parse_ip a))
       [(''10.0.0.0'', 8), (''172.16.0.0'', 12), (''192.168.0.0'', 16), (''169.254.0.0'', 16),
        (''127.0.0.0'', 8), (''100.64.0.0'', 10), (''fd00::'', 8), (''fe80::'', 10), (''::1'', 128)]"

record 'rx settings =
  st_protection_enabled :: bool
  st_filtering_enabled :: bool
  st_rewrites_enabled :: bool
  st_blocking :: blocking_config
  st_blocked_hosts :: "'rx blocked_hosts"
  st_aaaa_disabled :: bool
  st_refuse_any :: bool
  st_cache_ttl_min :: u32
  st_cache_ttl_max :: u32
  st_ecs_enabled :: bool
  st_ecs_custom :: "ip_addr option"
  st_dnssec_enabled :: bool
  st_bogus_nxdomain :: "(ip_addr \<times> u8) list"
  st_dns64 :: prefixes
  st_handle_ddr :: bool
  st_ddr :: endpoints
  st_pending_enabled :: bool
  st_services_schedule :: weekly
  st_private_networks :: "(ip_addr \<times> u8) list"
  st_use_private_ptr_resolvers :: bool

datatype ('n, 'e) action = Respond "('n, 'e) message" | Drop

record ('n, 'e) resolve_outcome =
  o_action :: "('n, 'e) action"
  o_reason :: reason
  o_rules :: "matched_rule list"
  o_upstream :: "str option"
  o_cached :: bool
  o_elapsed :: nat
  o_orig_response :: "('n, 'e) message option"
  o_client_name :: str
  o_client_id :: str
  o_req_ecs :: str
  o_service_name :: str
  o_ignore_querylog :: bool
  o_ignore_statistics :: bool

definition outcome_default :: "('n, 'e) resolve_outcome" where
  "outcome_default = \<lparr>o_action = Drop, o_reason = NotFilteredNotFound, o_rules = [], o_upstream = None,
     o_cached = False, o_elapsed = 0, o_orig_response = None, o_client_name = [], o_client_id = [],
     o_req_ecs = [], o_service_name = [], o_ignore_querylog = False, o_ignore_statistics = False\<rparr>"

definition response :: "('n, 'e) resolve_outcome \<Rightarrow> ('n, 'e) message option" where
  "response o' = (case o_action o' of Respond m \<Rightarrow> Some m | Drop \<Rightarrow> None)"

record client_info =
  ci_addr :: "ip_addr option"
  ci_id :: "str option"
  ci_name :: "str option"
  ci_tags :: "str list"

record 'rx effective_settings =
  ef_filtering_enabled :: bool
  ef_services :: "'rx engine option"
  ef_safe_search :: "'rx engine option"
  ef_upstreams :: "str option"
  ef_name :: str
  ef_ignore_querylog :: bool
  ef_ignore_statistics :: bool

section \<open>The resolver and its surroundings\<close>

definition REFRESH_QUEUE :: nat where
  "REFRESH_QUEUE = 1024"

record ('n, 'e) job =
  jb_req :: "('n, 'e) message"
  jb_host :: str
  jb_client :: client_info
  jb_key :: cache_key

text \<open>The sending end of the bounded channel: what is queued, and whether the worker still listens.\<close>

record ('n, 'e) refresh_sender =
  rf_queue :: "('n, 'e) job list"
  rf_open :: bool

definition try_send :: "('n, 'e) job \<Rightarrow> ('n, 'e) refresh_sender \<Rightarrow> ('n, 'e) refresh_sender option" where
  "try_send j tx =
     (if rf_open tx \<and> length (rf_queue tx) < REFRESH_QUEUE then Some (tx\<lparr>rf_queue := rf_queue tx @ [j]\<rparr>) else None)"

record ('n, 'e, 'rx, 'p) resolver =
  rv_engine :: "'rx engine"
  rv_services :: "'rx engine option"
  rv_safe_search :: "'rx engine option"
  rv_rewrites :: rewrite_table
  rv_clients :: "'rx registry"
  rv_runtime :: runtime
  rv_cache :: "('n, 'e) cache"
  rv_pool :: 'p
  rv_client_pools :: "str \<rightharpoonup> 'p"
  rv_private_pool :: "'p option"
  rv_pending :: "('n, 'e) message pending"
  rv_refresh :: "('n, 'e) refresh_sender option"
  rv_settings :: "'rx settings"

text \<open>The third-party code and the bundled data.\<close>

record ('n, 'e, 'rx) resolver_env =
  ev_H :: "('n, 'e) hickory"
  ev_svcb :: "u16 \<Rightarrow> 'n \<Rightarrow> svc_param list \<Rightarrow> 'n rdata"
  ev_code_from :: "u8 \<Rightarrow> response_code"
  ev_filter :: "'rx filter_env"
  ev_cache :: cache_env
  ev_to_zoned :: "str tz_choice \<Rightarrow> nat \<Rightarrow> local_time"
  ev_lookup_tz :: "str \<Rightarrow> str option"

text \<open>The surroundings of one request.\<close>

record ('n, 'e, 'rx, 'p) world =
  w_wall :: nat
  w_instant :: nat
  w_instant_put :: nat
  w_elapsed :: nat
  w_random :: u16
  w_upstream :: "'p \<Rightarrow> ('n, 'e) message \<Rightarrow> str \<Rightarrow> (('n, 'e) message \<times> str) option"
  w_meanwhile :: "nat \<Rightarrow> ('n, 'e, 'rx, 'p) resolver \<Rightarrow> ('n, 'e, 'rx, 'p) resolver"

type_synonym ('n, 'e, 'p) sent = "('p \<times> ('n, 'e) message) list"

definition resolver_new ::
  "'rx engine \<Rightarrow> rewrite_table \<Rightarrow> ('n, 'e) cache \<Rightarrow> 'p \<Rightarrow> 'rx settings \<Rightarrow> ('n, 'e, 'rx, 'p) resolver" where
  "resolver_new e t c p s = \<lparr>rv_engine = e, rv_services = None, rv_safe_search = None, rv_rewrites = t,
     rv_clients = [], rv_runtime = runtime_new, rv_cache = c, rv_pool = p, rv_client_pools = Map.empty,
     rv_private_pool = None, rv_pending = pending_new, rv_refresh = None, rv_settings = s\<rparr>"

definition set_engine :: "'rx engine \<Rightarrow> ('n, 'e, 'rx, 'p) resolver \<Rightarrow> ('n, 'e, 'rx, 'p) resolver" where
  "set_engine e r = r\<lparr>rv_engine := e\<rparr>"

definition set_services :: "'rx engine option \<Rightarrow> ('n, 'e, 'rx, 'p) resolver \<Rightarrow> ('n, 'e, 'rx, 'p) resolver" where
  "set_services e r = r\<lparr>rv_services := e\<rparr>"

definition set_safe_search :: "'rx engine option \<Rightarrow> ('n, 'e, 'rx, 'p) resolver \<Rightarrow> ('n, 'e, 'rx, 'p) resolver" where
  "set_safe_search e r = r\<lparr>rv_safe_search := e\<rparr>"

definition set_rewrites :: "rewrite_table \<Rightarrow> ('n, 'e, 'rx, 'p) resolver \<Rightarrow> ('n, 'e, 'rx, 'p) resolver" where
  "set_rewrites t r = r\<lparr>rv_rewrites := t\<rparr>"

definition set_clients :: "'rx registry \<Rightarrow> ('n, 'e, 'rx, 'p) resolver \<Rightarrow> ('n, 'e, 'rx, 'p) resolver" where
  "set_clients g r = r\<lparr>rv_clients := g\<rparr>"

definition set_client_pools :: "(str \<rightharpoonup> 'p) \<Rightarrow> ('n, 'e, 'rx, 'p) resolver \<Rightarrow> ('n, 'e, 'rx, 'p) resolver" where
  "set_client_pools ps r = r\<lparr>rv_client_pools := ps\<rparr>"

definition set_private_pool :: "'p option \<Rightarrow> ('n, 'e, 'rx, 'p) resolver \<Rightarrow> ('n, 'e, 'rx, 'p) resolver" where
  "set_private_pool p r = r\<lparr>rv_private_pool := p\<rparr>"

definition set_settings :: "'rx settings \<Rightarrow> ('n, 'e, 'rx, 'p) resolver \<Rightarrow> ('n, 'e, 'rx, 'p) resolver" where
  "set_settings s r = r\<lparr>rv_settings := s\<rparr>"

definition set_refresh_sender :: "('n, 'e) refresh_sender \<Rightarrow> ('n, 'e, 'rx, 'p) resolver \<Rightarrow> ('n, 'e, 'rx, 'p) resolver" where
  "set_refresh_sender tx r = r\<lparr>rv_refresh := Some tx\<rparr>"

definition pool_for :: "('n, 'e, 'rx, 'p) resolver \<Rightarrow> str option \<Rightarrow> 'p \<times> bool" where
  "pool_for r upstreams =
     (case upstreams of
        None \<Rightarrow> (rv_pool r, True)
      | Some k \<Rightarrow> (case rv_client_pools r k of Some p \<Rightarrow> (p, True) | None \<Rightarrow> (rv_pool r, False)))"

definition refreshes :: "('n, 'e, 'rx, 'p) resolver \<Rightarrow> bool" where
  "refreshes r \<longleftrightarrow> rv_refresh r \<noteq> None"

definition queue_refresh ::
  "cache_env \<Rightarrow> ('n, 'e) job \<Rightarrow> ('n, 'e, 'rx, 'p) resolver \<Rightarrow> ('n, 'e, 'rx, 'p) resolver" where
  "queue_refresh E j r =
     (case rv_refresh r of
        None \<Rightarrow> r
      | Some tx \<Rightarrow>
          (case try_send j tx of
             Some tx \<Rightarrow> r\<lparr>rv_refresh := Some tx\<rparr>
           | None \<Rightarrow> r\<lparr>rv_cache := end_refresh E (jb_key j) (rv_cache r)\<rparr>))"

definition blocking_now :: "('n, 'e, 'rx) resolver_env \<Rightarrow> ('n, 'e, 'rx, 'p) world \<Rightarrow> weekly \<Rightarrow> bool" where
  "blocking_now E W s = blocks_at (ev_to_zoned E) (ev_lookup_tz E) s (w_wall W)"

definition option_filter :: "bool \<Rightarrow> 'a option \<Rightarrow> 'a option" where
  "option_filter b x = (if b then x else None)"

definition effective ::
  "('n, 'e, 'rx) resolver_env \<Rightarrow> ('n, 'e, 'rx, 'p) world \<Rightarrow> ('n, 'e, 'rx, 'p) resolver \<Rightarrow> 'rx settings
     \<Rightarrow> 'rx persistent option \<Rightarrow> 'rx effective_settings" where
  "effective E W r s cl =
     (let global_services = option_filter (blocking_now E W (st_services_schedule s)) (rv_services r) in
      case cl of
        None \<Rightarrow> \<lparr>ef_filtering_enabled = st_filtering_enabled s, ef_services = global_services,
                 ef_safe_search = rv_safe_search r, ef_upstreams = None, ef_name = [],
                 ef_ignore_querylog = False, ef_ignore_statistics = False\<rparr>
      | Some c \<Rightarrow>
          let services = (if p_use_global_blocked_services c then global_services
                          else option_filter (blocking_now E W (p_schedule c)) (p_services c));
              fs = (if p_use_global_settings c then (st_filtering_enabled s, rv_safe_search r)
                    else (p_filtering_enabled c, p_safe_search c))
          in \<lparr>ef_filtering_enabled = fst fs, ef_services = services, ef_safe_search = snd fs,
              ef_upstreams = p_upstream_key c, ef_name = p_name c,
              ef_ignore_querylog = p_ignore_querylog c, ef_ignore_statistics = p_ignore_statistics c\<rparr>)"

section \<open>Answers and reasons\<close>

definition ETC_HOSTS_LIST_ID :: int where
  "ETC_HOSTS_LIST_ID = - 1"

text \<open>\<open>is_loopback\<close>, \<open>is_unspecified\<close> and \<open>is_private\<close> of the standard library, and \<open>fc00::/7\<close>.\<close>

fun is_loopback_or_unspecified :: "ip_addr \<Rightarrow> bool" where
  "is_loopback_or_unspecified (V4 a) \<longleftrightarrow>
     drop_bit 24 a = 127 \<or> a = 0 \<or> drop_bit 24 a = 10 \<or> drop_bit 20 a = 0xAC1 \<or> drop_bit 16 a = 0xC0A8"
| "is_loopback_or_unspecified (V6 a) \<longleftrightarrow> a = 1 \<or> a = 0 \<or> drop_bit 120 a AND 0xFE = 0xFC"

definition answer_addrs :: "('n, 'e) message \<Rightarrow> ip_addr list" where
  "answer_addrs m =
     List.map_filter (\<lambda>r. case rr_data r of RA a \<Rightarrow> Some (V4 a) | RAAAA a \<Rightarrow> Some (V6 a) | _ \<Rightarrow> None) (answers m)"

definition is_bogus_nxdomain :: "(ip_addr \<times> u8) list \<Rightarrow> ('n, 'e) message \<Rightarrow> bool" where
  "is_bogus_nxdomain networks resp =
     (if networks = [] then False
      else list_ex (\<lambda>a. list_ex (\<lambda>(n, b). in_subnet a n b) networks) (answer_addrs resp))"

definition service_name_of :: "catalogue \<Rightarrow> matched_rule list \<Rightarrow> str" where
  "service_name_of cat rules =
     (case find (\<lambda>r. m_list_id r = BLOCKED_SERVICE_LIST_ID) rules of
        None \<Rightarrow> []
      | Some r \<Rightarrow> (case name_for_rule cat (m_text r) of None \<Rightarrow> [] | Some n \<Rightarrow> n))"

definition reason_for_list :: "reason \<Rightarrow> matched_rule list \<Rightarrow> reason" where
  "reason_for_list rs rules =
     (case rules of
        [] \<Rightarrow> rs
      | f # _ \<Rightarrow>
          if m_list_id f = BLOCKED_SERVICE_LIST_ID then FilteredBlockedService
          else if m_list_id f = ETC_HOSTS_LIST_ID then RewrittenAutoHosts
          else rs)"

definition resolver_blocked ::
  "('n, 'e) hickory \<Rightarrow> ('n, 'e) message \<Rightarrow> 'rx settings \<Rightarrow> reason \<Rightarrow> matched_rule list
     \<Rightarrow> ('n, 'e) resolve_outcome \<Rightarrow> ('n, 'e) resolve_outcome" where
  "resolver_blocked H req s rs rules base =
     base\<lparr>o_action := Respond (blocked H req (st_blocking s) (List.map_filter m_ip rules)),
          o_reason := reason_for_list rs rules, o_rules := rules\<rparr>"

definition rewrite_rule_text :: "rewrite \<Rightarrow> matched_rule" where
  "rewrite_rule_text r = \<lparr>m_text = rw_domain r @ '' -> '' @ rw_answer_text r, m_list_id = 0, m_ip = None\<rparr>"

definition apply_rewrites ::
  "('n, 'e) hickory \<Rightarrow> rewrite_table \<Rightarrow> ('n, 'e) message \<Rightarrow> str \<Rightarrow> record_type \<Rightarrow> 'rx settings
     \<Rightarrow> (('n, 'e) action \<times> matched_rule list) option option" where
  "apply_rewrites H t req host qt s =
     (case table_apply t host qt of
        None \<Rightarrow> None
      | Some None \<Rightarrow> Some None
      | Some (Some (out, matched)) \<Rightarrow>
          let ttl = max (bc_ttl (st_blocking s)) 1;
              resp = (case out of
                        Addrs as \<Rightarrow> with_addrs H req as ttl
                      | ToCName c \<Rightarrow> with_cname H req c [] ttl
                      | Empty \<Rightarrow> nodata H req ttl)
          in Some (Some (Respond resp, map rewrite_rule_text matched)))"

definition apply_dnsrewrite ::
  "('n, 'e, 'rx) resolver_env \<Rightarrow> ('n, 'e) message \<Rightarrow> record_type \<Rightarrow> dns_rewrite list \<Rightarrow> 'rx settings
     \<Rightarrow> ('n, 'e) message option" where
  "apply_dnsrewrite E req qt rewrites s =
     (let H = ev_H E; ttl = max (bc_ttl (st_blocking s)) 1 in
      case find (\<lambda>r. case r of RCode _ \<Rightarrow> True | _ \<Rightarrow> False) rewrites of
        Some (RCode rc) \<Rightarrow>
          let code = ev_code_from E (ucast rc); resp = reply H req code in
          Some (if code = NXDomain then resp\<lparr>authorities := [soa_record H req ttl]\<rparr> else resp)
      | _ \<Rightarrow>
          (case find (\<lambda>r. case r of CName _ \<Rightarrow> True | _ \<Rightarrow> False) rewrites of
             Some (CName c) \<Rightarrow> Some (with_cname H req c [] ttl)
           | _ \<Rightarrow>
               let addrs = filter (family_wanted qt)
                     (List.map_filter (\<lambda>r. case r of Addr ip \<Rightarrow> Some ip | _ \<Rightarrow> None) rewrites) in
               if addrs \<noteq> [] then Some (with_addrs H req addrs ttl)
               else if list_ex (\<lambda>r. case r of Record _ _ \<Rightarrow> True | _ \<Rightarrow> False) rewrites
               then Some (nodata H req ttl) else None))"

definition is_private_ptr :: "('n, 'e) hickory \<Rightarrow> 'rx settings \<Rightarrow> ('n, 'e) message \<Rightarrow> bool" where
  "is_private_ptr H s req =
     (case queries req of
        [] \<Rightarrow> False
      | q # _ \<Rightarrow>
          (case addr_from_reverse (name_ascii H (q_name q)) of
             None \<Rightarrow> False
           | Some addr \<Rightarrow> list_ex (\<lambda>(net, bits). in_subnet addr net bits) (st_private_networks s)))"

section \<open>Forwarding\<close>

definition with_id :: "u16 \<Rightarrow> ('n, 'e) message \<Rightarrow> ('n, 'e) message" where
  "with_id i m = m\<lparr>metadata := (metadata m)\<lparr>md_id := i\<rparr>\<rparr>"

definition ask_for_a :: "u16 \<Rightarrow> ('n, 'e) message \<Rightarrow> ('n, 'e) message" where
  "ask_for_a i out =
     with_id i (out\<lparr>queries := (case queries out of [] \<Rightarrow> [] | q # qs \<Rightarrow> q\<lparr>q_type := TA\<rparr> # qs)\<rparr>)"

text \<open>The queries sent are listed in order; the state is what the other requests left meanwhile.\<close>

definition exchange ::
  "('n, 'e) hickory \<Rightarrow> ('n, 'e, 'rx, 'p) world \<Rightarrow> ('n, 'e) message \<Rightarrow> str \<Rightarrow> ('n, 'e) message \<Rightarrow> 'rx settings \<Rightarrow> 'p
     \<Rightarrow> ('n, 'e, 'rx, 'p) resolver
     \<Rightarrow> (('n, 'e) message \<times> str option) option \<times> ('n, 'e, 'p) sent \<times> ('n, 'e, 'rx, 'p) resolver" where
  "exchange H W out host orig s pool r =
     (let r = w_meanwhile W 0 r in
      case w_upstream W pool out host of
        None \<Rightarrow> (None, [(pool, out)], r)
      | Some (resp, label) \<Rightarrow>
          if is_bogus_nxdomain (st_bogus_nxdomain s) resp
          then (Some (nxdomain H orig (bc_ttl (st_blocking s)), Some label), [(pool, out)], r)
          else case needs_synthesis (st_dns64 s) out resp of
            (False, resp) \<Rightarrow> (Some (resp, Some label), [(pool, out)], r)
          | (True, resp) \<Rightarrow>
              let a_req = ask_for_a (w_random W) out;
                  r = w_meanwhile W 1 r;
                  resp = (case w_upstream W pool a_req host of
                            None \<Rightarrow> resp
                          | Some (a_resp, _) \<Rightarrow> snd (synthesize H (st_dns64 s) out resp a_resp))
              in (Some (resp, Some label), [(pool, out), (pool, a_req)], r))"

text \<open>The query as it goes upstream, the subnet it carries in CIDR form and as part of the pending key.\<close>

definition outgoing ::
  "('n, 'e) hickory \<Rightarrow> 'rx settings \<Rightarrow> client_info \<Rightarrow> ('n, 'e) message
     \<Rightarrow> ('n, 'e) message \<times> str \<times> (ip_addr \<times> u8) option" where
  "outgoing H s ci req =
     (let (out, ecs_text, ecs_key) =
        (case (if st_ecs_enabled s then (case st_ecs_custom s of Some a \<Rightarrow> Some a | None \<Rightarrow> ci_addr ci) else None) of
           Some addr \<Rightarrow>
             if \<not> is_loopback_or_unspecified addr
             then (case set_subnet H req addr (default_prefix addr) of
                     (sn, out) \<Rightarrow> (out, to_cidr sn, Some (sn_addr sn, sn_prefix sn)))
             else (strip_subnet H req, [], None)
         | None \<Rightarrow> (strip_subnet H req, [], None))
      in (if st_dnssec_enabled s then set_dnssec_ok H out True else out, ecs_text, ecs_key))"

definition enter_pending ::
  "bool \<Rightarrow> cache_key option \<Rightarrow> (ip_addr \<times> u8) option \<Rightarrow> ('n, 'e, 'rx, 'p) resolver
     \<Rightarrow> pending_entry option \<times> ('n, 'e, 'rx, 'p) resolver" where
  "enter_pending enabled key ecs_key r =
     (case (enabled, key) of
        (True, Some k) \<Rightarrow>
          (case enter \<lparr>pk_key = k, pk_subnet = ecs_key\<rparr> (rv_pending r) of
             (e, p) \<Rightarrow> (Some e, r\<lparr>rv_pending := p\<rparr>))
      | _ \<Rightarrow> (None, r))"

definition forward ::
  "('n, 'e, 'rx) resolver_env \<Rightarrow> ('n, 'e, 'rx, 'p) world \<Rightarrow> ('n, 'e) message \<Rightarrow> str \<Rightarrow> 'rx settings \<Rightarrow> client_info
     \<Rightarrow> cache_key option \<Rightarrow> str option \<Rightarrow> ('n, 'e, 'rx, 'p) resolver
     \<Rightarrow> ((('n, 'e) message \<times> str option \<times> str) option \<times> ('n, 'e, 'p) sent \<times> ('n, 'e, 'rx, 'p) resolver) option" where
  "forward E W req host s ci key upstreams r =
     (let H = ev_H E;
          (pool, own) = pool_for r upstreams;
          key = (if own then key else None);
          (out, ecs_text, ecs_key) = outgoing H s ci req;
          (entry, r) = enter_pending (st_pending_enabled s) key ecs_key r
      in case entry of
        Some (Follow a) \<Rightarrow>
          let r = w_meanwhile W 2 r in
          (case wait_poll a (rv_pending r) of
             None \<Rightarrow> None
           | Some answer \<Rightarrow>
               Some (map_option (\<lambda>resp. (with_id (md_id (metadata req)) resp, None, ecs_text)) answer, [],
                     r\<lparr>rv_pending := leave a (rv_pending r)\<rparr>))
      | _ \<Rightarrow>
          let (result, sent, r) = exchange H W out host req s pool r;
              r = (case entry of
                     Some (Lead a) \<Rightarrow> r\<lparr>rv_pending := finish_leader a (map_option fst result) (rv_pending r)\<rparr>
                   | _ \<Rightarrow> r)
          in case result of
               None \<Rightarrow> Some (None, sent, r)
             | Some (resp, upstream) \<Rightarrow>
                 let resp = with_id (md_id (metadata req)) resp;
                     resp = clamp_ttls resp (st_cache_ttl_min s) (st_cache_ttl_max s);
                     r = (case key of
                            None \<Rightarrow> r
                          | Some k \<Rightarrow> r\<lparr>rv_cache := snd (put (ev_cache E) H (w_instant_put W) k resp (rv_cache r))\<rparr>)
                 in Some (Some (resp, upstream, ecs_text), sent, r))"

text \<open>One job of the refresh worker.\<close>

definition refresh_job ::
  "('n, 'e, 'rx) resolver_env \<Rightarrow> ('n, 'e, 'rx, 'p) world \<Rightarrow> ('n, 'e) job \<Rightarrow> ('n, 'e, 'rx, 'p) resolver
     \<Rightarrow> (('n, 'e, 'p) sent \<times> ('n, 'e, 'rx, 'p) resolver) option" where
  "refresh_job E W j r =
     (case forward E W (jb_req j) (jb_host j) (rv_settings r) (jb_client j) (Some (jb_key j)) (ck_upstreams (jb_key j)) r of
        None \<Rightarrow> None
      | Some (_, sent, r) \<Rightarrow> Some (sent, r\<lparr>rv_cache := end_refresh (ev_cache E) (jb_key j) (rv_cache r)\<rparr>))"

section \<open>Handling a request\<close>

definition base_outcome :: "'rx effective_settings \<Rightarrow> client_info \<Rightarrow> ('n, 'e) resolve_outcome" where
  "base_outcome eff ci = outcome_default\<lparr>o_client_name := ef_name eff,
     o_client_id := (case ci_id ci of Some i \<Rightarrow> i | None \<Rightarrow> []),
     o_ignore_querylog := ef_ignore_querylog eff, o_ignore_statistics := ef_ignore_statistics eff\<rparr>"

definition identify ::
  "('n, 'e, 'rx, 'p) resolver \<Rightarrow> client_info \<Rightarrow> 'rx persistent option \<Rightarrow> client_info" where
  "identify r ci cl =
     (case cl of
        Some c \<Rightarrow> ci\<lparr>ci_name := Some (p_name c), ci_tags := p_tags c\<rparr>
      | None \<Rightarrow>
          (case ci_addr ci of
             None \<Rightarrow> ci
           | Some a \<Rightarrow> let n = name_of (rv_runtime r) a in if n \<noteq> [] then ci\<lparr>ci_name := Some n\<rparr> else ci))"

definition finish_outcome ::
  "('n, 'e) hickory \<Rightarrow> ('n, 'e, 'rx, 'p) world \<Rightarrow> ('n, 'e) message \<Rightarrow> proto \<Rightarrow> ('n, 'e) resolve_outcome
     \<Rightarrow> ('n, 'e) resolve_outcome option" where
  "finish_outcome H W req proto o' =
     (case o_action o' of
        Drop \<Rightarrow> Some (o'\<lparr>o_elapsed := w_elapsed W\<rparr>)
      | Respond resp \<Rightarrow>
          let resp = shape_to_request H req resp in
          if proto = Udp
          then map_option (\<lambda>(_, resp). o'\<lparr>o_action := Respond resp, o_elapsed := w_elapsed W\<rparr>)
                 (truncate_msg H resp (udp_limit H req))
          else Some (o'\<lparr>o_action := Respond resp, o_elapsed := w_elapsed W\<rparr>))"

type_synonym verdict = "reason \<times> matched_rule list"

datatype ('n, 'e) filtered = Decided "('n, 'e) resolve_outcome" | Undecided "verdict option"

definition filter_lists ::
  "('n, 'e, 'rx) resolver_env \<Rightarrow> 'rx engine \<Rightarrow> 'rx settings \<Rightarrow> ('n, 'e) message \<Rightarrow> request
     \<Rightarrow> ('n, 'e) resolve_outcome \<Rightarrow> ('n, 'e) filtered option" where
  "filter_lists E engine s req fr base =
     map_option (\<lambda>m.
        if mr_reason m = FilteredBlockList \<or> mr_reason m = FilteredBlockedService
        then Decided (resolver_blocked (ev_H E) req s (mr_reason m) (mr_rules m) base)
        else if mr_reason m = RewrittenRule
        then (case apply_dnsrewrite E req (qtype_of req) (mr_rewrites m) s of
                Some resp \<Rightarrow> Decided (base\<lparr>o_action := Respond resp, o_reason := RewrittenRule, o_rules := mr_rules m\<rparr>)
              | None \<Rightarrow> Undecided None)
        else if mr_reason m = NotFilteredAllowList then Undecided (Some (NotFilteredAllowList, mr_rules m))
        else Undecided None)
      (match_request (fe_rx_new (ev_filter E)) (fe_rx_match (ev_filter E)) engine fr)"

definition filter_services ::
  "('n, 'e, 'rx) resolver_env \<Rightarrow> 'rx engine \<Rightarrow> 'rx settings \<Rightarrow> ('n, 'e) message \<Rightarrow> request
     \<Rightarrow> ('n, 'e) resolve_outcome \<Rightarrow> ('n, 'e) filtered option" where
  "filter_services E svc s req fr base =
     map_option (\<lambda>m.
        if mr_reason m = FilteredBlockList
        then (let out = resolver_blocked (ev_H E) req s FilteredBlockedService (mr_rules m) base in
              Decided (out\<lparr>o_service_name := service_name_of (fe_catalogue (ev_filter E)) (o_rules out)\<rparr>))
        else Undecided None)
      (match_request (fe_rx_new (ev_filter E)) (fe_rx_match (ev_filter E)) svc fr)"

definition filter_safe_search ::
  "('n, 'e, 'rx) resolver_env \<Rightarrow> 'rx engine \<Rightarrow> 'rx settings \<Rightarrow> ('n, 'e) message \<Rightarrow> request
     \<Rightarrow> ('n, 'e) resolve_outcome \<Rightarrow> ('n, 'e) filtered option" where
  "filter_safe_search E ss s req fr base =
     map_option (\<lambda>m.
        case (if mr_reason m = RewrittenRule then apply_dnsrewrite E req (qtype_of req) (mr_rewrites m) s else None) of
          Some resp \<Rightarrow> Decided (base\<lparr>o_action := Respond resp, o_reason := FilteredSafeSearch, o_rules := mr_rules m\<rparr>)
        | None \<Rightarrow> Undecided None)
      (match_request (fe_rx_new (ev_filter E)) (fe_rx_match (ev_filter E)) ss fr)"

text \<open>Step 6: an allowlist match stops filtering but not resolution.\<close>

definition filtering ::
  "('n, 'e, 'rx) resolver_env \<Rightarrow> ('n, 'e, 'rx, 'p) resolver \<Rightarrow> 'rx settings \<Rightarrow> 'rx effective_settings \<Rightarrow> ('n, 'e) message
     \<Rightarrow> request \<Rightarrow> ('n, 'e) resolve_outcome \<Rightarrow> ('n, 'e) filtered option" where
  "filtering E r s eff req fr base =
     (if \<not> st_protection_enabled s then Some (Undecided None)
      else do {
        f \<leftarrow> (if ef_filtering_enabled eff then filter_lists E (rv_engine r) s req fr base else Some (Undecided None));
        f \<leftarrow> (case (f, ef_services eff) of
               (Undecided None, Some svc) \<Rightarrow> filter_services E svc s req fr base
             | _ \<Rightarrow> Some f);
        (case (f, ef_safe_search eff) of
           (Undecided None, Some ss) \<Rightarrow> filter_safe_search E ss s req fr base
         | _ \<Rightarrow> Some f)
      })"

definition verdict_of :: "verdict option \<Rightarrow> verdict" where
  "verdict_of allowed = (case allowed of Some v \<Rightarrow> v | None \<Rightarrow> (NotFilteredNotFound, []))"

text \<open>Step 9: the response served from the cache, if one is, and what the lookup does to the state.\<close>

definition serve_cached ::
  "('n, 'e, 'rx) resolver_env \<Rightarrow> ('n, 'e, 'rx, 'p) world \<Rightarrow> ('n, 'e) message \<Rightarrow> str \<Rightarrow> client_info \<Rightarrow> cache_key option
     \<Rightarrow> ('n, 'e, 'rx, 'p) resolver \<Rightarrow> ('n, 'e) message option \<times> ('n, 'e, 'rx, 'p) resolver" where
  "serve_cached E W req host who key r =
     (case key of
        None \<Rightarrow> (None, r)
      | Some k \<Rightarrow>
          (case get (ev_cache E) (w_instant W) k (rv_cache r) of
             (None, c) \<Rightarrow> (None, r\<lparr>rv_cache := c\<rparr>)
           | (Some hit, c) \<Rightarrow>
               let r = r\<lparr>rv_cache := c\<rparr>;
                   serve = (hit_freshness hit = Fresh \<or> refreshes r);
                   r = (if hit_refresh hit
                        then if serve
                             then queue_refresh (ev_cache E) \<lparr>jb_req = req, jb_host = host, jb_client = who, jb_key = k\<rparr> r
                             else r\<lparr>rv_cache := end_refresh (ev_cache E) k (rv_cache r)\<rparr>
                        else r)
               in (if serve then Some (with_id (md_id (metadata req)) (hit_msg hit)) else None, r)))"

definition request_host :: "('n, 'e) hickory \<Rightarrow> 'n query \<Rightarrow> str" where
  "request_host H q = to_ascii_lowercase (trim_end_matches CHR ''.'' (name_ascii H (q_name q)))"

definition request_key :: "('n, 'e) hickory \<Rightarrow> ('n, 'e) message \<Rightarrow> str option \<Rightarrow> cache_key option" where
  "request_key H req upstreams =
     map_option (for_upstreams upstreams) (option_filter (is_cacheable_type (qtype_of req)) (key_from_request H req))"

text \<open>Steps 8 to 10: private reverse lookups, the cache and the upstreams.\<close>

definition private_step ::
  "('n, 'e, 'rx) resolver_env \<Rightarrow> ('n, 'e, 'rx, 'p) world \<Rightarrow> ('n, 'e, 'rx, 'p) resolver \<Rightarrow> ('n, 'e) message \<Rightarrow> str
     \<Rightarrow> 'rx settings \<Rightarrow> ('n, 'e) resolve_outcome
     \<Rightarrow> ('n, 'e) resolve_outcome \<times> ('n, 'e, 'p) sent \<times> ('n, 'e, 'rx, 'p) resolver" where
  "private_step E W r req host s judged =
     (let H = ev_H E; local = judged\<lparr>o_action := Respond (nxdomain H req (bc_ttl (st_blocking s)))\<rparr> in
      case option_filter (st_use_private_ptr_resolvers s) (rv_private_pool r) of
        None \<Rightarrow> (local, [], r)
      | Some pool \<Rightarrow>
          let r = w_meanwhile W 3 r in
          (case w_upstream W pool req host of
             Some (resp, label) \<Rightarrow>
               (judged\<lparr>o_action := Respond (with_id (md_id (metadata req)) resp), o_upstream := Some label\<rparr>,
                [(pool, req)], r)
           | None \<Rightarrow> (local, [(pool, req)], r)))"

definition upstream_step ::
  "('n, 'e, 'rx) resolver_env \<Rightarrow> ('n, 'e, 'rx, 'p) world \<Rightarrow> ('n, 'e, 'rx, 'p) resolver \<Rightarrow> ('n, 'e) message \<Rightarrow> str
     \<Rightarrow> 'rx settings \<Rightarrow> client_info \<Rightarrow> cache_key option \<Rightarrow> str option \<Rightarrow> ('n, 'e) resolve_outcome
     \<Rightarrow> (('n, 'e) resolve_outcome \<times> ('n, 'e, 'p) sent \<times> ('n, 'e, 'rx, 'p) resolver) option" where
  "upstream_step E W r req host s who key upstreams judged =
     map_option (\<lambda>(answer, sent, r).
        (case answer of
           Some (resp, upstream, ecs) \<Rightarrow> judged\<lparr>o_action := Respond resp, o_upstream := upstream, o_req_ecs := ecs\<rparr>
         | None \<Rightarrow> judged\<lparr>o_action := Respond (servfail (ev_H E) req)\<rparr>, sent, r))
       (forward E W req host s who key upstreams r)"

definition answer_step ::
  "('n, 'e, 'rx) resolver_env \<Rightarrow> ('n, 'e, 'rx, 'p) world \<Rightarrow> ('n, 'e, 'rx, 'p) resolver \<Rightarrow> ('n, 'e) message \<Rightarrow> str
     \<Rightarrow> 'rx settings \<Rightarrow> client_info \<Rightarrow> str option \<Rightarrow> ('n, 'e) resolve_outcome
     \<Rightarrow> (('n, 'e) resolve_outcome \<times> ('n, 'e, 'p) sent \<times> ('n, 'e, 'rx, 'p) resolver) option" where
  "answer_step E W r req host s who upstreams judged =
     (if st_aaaa_disabled s \<and> qtype_of req = TAAAA
      then Some (judged\<lparr>o_action := Respond (nodata (ev_H E) req (bc_ttl (st_blocking s)))\<rparr>, [], r)
      else if qtype_of req = TPTR \<and> is_private_ptr (ev_H E) s req
      then Some (private_step E W r req host s judged)
      else
        let key = request_key (ev_H E) req upstreams in
        case serve_cached E W req host who key r of
          (Some cached, r) \<Rightarrow> Some (judged\<lparr>o_action := Respond cached, o_cached := True\<rparr>, [], r)
        | (None, r) \<Rightarrow> upstream_step E W r req host s who key upstreams judged)"

definition request_client :: "('n, 'e, 'rx, 'p) resolver \<Rightarrow> client_info \<Rightarrow> 'rx persistent option" where
  "request_client r ci =
     (let mac = (case ci_addr ci of Some a \<Rightarrow> mac_of (rv_runtime r) a | None \<Rightarrow> None) in
      registry_find (rv_clients r) (ci_addr ci) (ci_id ci) mac)"

text \<open>Steps 2 to 5: what is answered, refused or rewritten before any filtering.\<close>

definition early_answer ::
  "('n, 'e, 'rx) resolver_env \<Rightarrow> ('n, 'e, 'rx, 'p) resolver \<Rightarrow> ('n, 'e) message \<Rightarrow> 'n query \<Rightarrow> proto
     \<Rightarrow> ('n, 'e) resolve_outcome \<Rightarrow> ('n, 'e) resolve_outcome option option" where
  "early_answer E r req q proto base =
     (let H = ev_H E; s = rv_settings r; host = request_host H q; qt = q_type q in
      if st_refuse_any s \<and> qt = TANY then Some (Some (base\<lparr>o_action := Respond (reply H req NotImp)\<rparr>))
      else do {
        refuse \<leftarrow> blocks (fe_rx_new (ev_filter E)) (fe_rx_match (ev_filter E)) (st_blocked_hosts s) host (type_u16 qt);
        if refuse
        then Some (Some (base\<lparr>o_action := (if is_datagram proto then Drop else Respond (refused H req)),
                              o_reason := FilteredBlockList\<rparr>))
        else if st_handle_ddr s \<and> is_ddr_query H req
        then Some (Some (base\<lparr>o_action := Respond (ddr_respond H (ev_svcb E) req (st_ddr s))\<rparr>))
        else do {
          rewritten \<leftarrow> (if st_rewrites_enabled s then apply_rewrites H (rv_rewrites r) req host qt s else Some None);
          Some (map_option (\<lambda>(act, rules). base\<lparr>o_action := act, o_reason := Rewritten, o_rules := rules\<rparr>) rewritten)
        }
      })"

definition filter_request ::
  "('n, 'e) hickory \<Rightarrow> 'n query \<Rightarrow> client_info \<Rightarrow> request" where
  "filter_request H q who =
     \<lparr>hostname = request_host H q, qtype = type_u16 (q_type q), client_ip = ci_addr who,
      client_name = ci_name who, client_tags = ci_tags who\<rparr>"

definition handle ::
  "('n, 'e, 'rx) resolver_env \<Rightarrow> ('n, 'e, 'rx, 'p) world \<Rightarrow> ('n, 'e, 'rx, 'p) resolver \<Rightarrow> ('n, 'e) message \<Rightarrow> proto
     \<Rightarrow> client_info \<Rightarrow> (('n, 'e) resolve_outcome \<times> ('n, 'e, 'p) sent \<times> ('n, 'e, 'rx, 'p) resolver) option" where
  "handle E W r req proto ci =
     (let H = ev_H E; s = rv_settings r;
          cl = request_client r ci;
          eff = effective E W r s cl;
          who = identify r ci cl;
          base = base_outcome eff ci
      in case queries req of
        [q] \<Rightarrow> do {
          early \<leftarrow> early_answer E r req q proto base;
          case early of
            Some out \<Rightarrow> Some (out, [], r)
          | None \<Rightarrow> do {
              f \<leftarrow> filtering E r s eff req (filter_request H q who) base;
              case f of
                Decided out \<Rightarrow> Some (out, [], r)
              | Undecided allowed \<Rightarrow>
                  answer_step E W r req (request_host H q) s who (ef_upstreams eff)
                    (base\<lparr>o_reason := fst (verdict_of allowed), o_rules := snd (verdict_of allowed)\<rparr>)
            }
        }
      | _ \<Rightarrow> Some (base\<lparr>o_action := Respond (reply H req FormErr), o_reason := FilteredInvalid\<rparr>, [], r))"

definition resolve ::
  "('n, 'e, 'rx) resolver_env \<Rightarrow> ('n, 'e, 'rx, 'p) world \<Rightarrow> ('n, 'e, 'rx, 'p) resolver \<Rightarrow> ('n, 'e) message \<Rightarrow> proto
     \<Rightarrow> client_info \<Rightarrow> (('n, 'e) resolve_outcome \<times> ('n, 'e, 'p) sent \<times> ('n, 'e, 'rx, 'p) resolver) option" where
  "resolve E W r req proto ci = do {
     (out, sent, r) \<leftarrow> handle E W r req proto ci;
     out \<leftarrow> finish_outcome (ev_H E) W req proto out;
     Some (out, sent, r)
   }"

section \<open>Lemmas\<close>

lemma identify_addr [simp]: "ci_addr (identify r ci cl) = ci_addr ci"
  by (simp add: identify_def Let_def split: option.splits)

lemma base_outcome_fields [simp]:
  "o_action (base_outcome eff ci) = Drop" "o_reason (base_outcome eff ci) = NotFilteredNotFound"
  "o_upstream (base_outcome eff ci) = None" "o_cached (base_outcome eff ci) = False"
  "o_rules (base_outcome eff ci) = []"
  by (simp_all add: base_outcome_def outcome_default_def)

lemma finish_outcome_frame:
  assumes "finish_outcome H W req proto o' = Some out"
  shows "o_reason out = o_reason o'" "o_rules out = o_rules o'" "o_upstream out = o_upstream o'"
    "o_cached out = o_cached o'" "o_action out = Drop \<longleftrightarrow> o_action o' = Drop"
  using assms by (auto simp: finish_outcome_def Let_def split: action.splits if_splits)

lemma resolve_cases:
  assumes "resolve E W r req proto ci = Some (out, sent, r')"
  obtains o' where "handle E W r req proto ci = Some (o', sent, r')"
    "finish_outcome (ev_H E) W req proto o' = Some out"
  using assms by (auto simp: resolve_def split: Option.bind_splits prod.splits)

text \<open>The parts of a request's context.\<close>

abbreviation "eff_of E W r ci \<equiv> effective E W r (rv_settings r) (request_client r ci)"

abbreviation "who_of r ci \<equiv> identify r ci (request_client r ci)"

abbreviation "base_of E W r ci \<equiv> base_outcome (eff_of E W r ci) ci"

definition access_refused :: "('n, 'e, 'rx) resolver_env \<Rightarrow> ('n, 'e, 'rx, 'p) resolver \<Rightarrow> 'n query \<Rightarrow> bool option" where
  "access_refused E r q =
     blocks (fe_rx_new (ev_filter E)) (fe_rx_match (ev_filter E)) (st_blocked_hosts (rv_settings r))
       (request_host (ev_H E) q) (type_u16 (q_type q))"

definition judged_base where
  "judged_base E W r ci allowed =
     (base_of E W r ci)\<lparr>o_reason := fst (verdict_of allowed), o_rules := snd (verdict_of allowed)\<rparr>"

lemma bind_case: "Option.bind x f = (case x of None \<Rightarrow> None | Some y \<Rightarrow> f y)"
  by (cases x) auto

lemma handle_single:
  "queries req = [q] \<Longrightarrow> handle E W r req proto ci =
     (case early_answer E r req q proto (base_of E W r ci) of
        None \<Rightarrow> None
      | Some (Some out) \<Rightarrow> Some (out, [], r)
      | Some None \<Rightarrow>
          (case filtering E r (rv_settings r) (eff_of E W r ci) req (filter_request (ev_H E) q (who_of r ci)) (base_of E W r ci) of
             None \<Rightarrow> None
           | Some (Decided out) \<Rightarrow> Some (out, [], r)
           | Some (Undecided allowed) \<Rightarrow>
               answer_step E W r req (request_host (ev_H E) q) (rv_settings r) (who_of r ci)
                 (ef_upstreams (eff_of E W r ci)) (judged_base E W r ci allowed)))"
  by (simp only: handle_def Let_def list.case bind_case judged_base_def)

lemma handle_other:
  "length (queries req) \<noteq> 1 \<Longrightarrow> handle E W r req proto ci =
     Some ((base_of E W r ci)\<lparr>o_action := Respond (reply (ev_H E) req FormErr), o_reason := FilteredInvalid\<rparr>, [], r)"
  by (cases "queries req"; cases "tl (queries req)") (simp_all add: handle_def Let_def)

text \<open>The ways through a request, in the order of the code.\<close>

lemma handle_cases:
  assumes "handle E W r req proto ci = Some (o', sent, r')"
  obtains
    (malformed) "length (queries req) \<noteq> 1" "sent = []" "r' = r"
      "o' = (base_of E W r ci)\<lparr>o_action := Respond (reply (ev_H E) req FormErr), o_reason := FilteredInvalid\<rparr>"
  | (early) q where "queries req = [q]" "sent = []" "r' = r"
      "early_answer E r req q proto (base_of E W r ci) = Some (Some o')"
  | (decided) q where "queries req = [q]" "sent = []" "r' = r"
      "early_answer E r req q proto (base_of E W r ci) = Some None"
      "filtering E r (rv_settings r) (eff_of E W r ci) req (filter_request (ev_H E) q (who_of r ci)) (base_of E W r ci) = Some (Decided o')"
  | (answered) q allowed where "queries req = [q]"
      "early_answer E r req q proto (base_of E W r ci) = Some None"
      "filtering E r (rv_settings r) (eff_of E W r ci) req (filter_request (ev_H E) q (who_of r ci)) (base_of E W r ci) = Some (Undecided allowed)"
      "answer_step E W r req (request_host (ev_H E) q) (rv_settings r) (who_of r ci) (ef_upstreams (eff_of E W r ci))
         (judged_base E W r ci allowed) = Some (o', sent, r')"
proof (cases "length (queries req) = 1")
  case False
  show ?thesis by (rule malformed) (use assms False in \<open>auto simp: handle_other\<close>)
next
  case True
  then obtain q where q: "queries req = [q]" by (auto simp: length_Suc_conv)
  note steps = assms [unfolded handle_single [OF q]]
  show ?thesis
  proof (cases "early_answer E r req q proto (base_of E W r ci)")
    case None
    then show ?thesis using steps by simp
  next
    case e: (Some x)
    show ?thesis
    proof (cases x)
      case (Some out)
      then show ?thesis using steps e early [OF q] by simp
    next
      case None
      show ?thesis
      proof (cases "filtering E r (rv_settings r) (eff_of E W r ci) req (filter_request (ev_H E) q (who_of r ci)) (base_of E W r ci)")
        case (Some f)
        then show ?thesis using steps e None decided [OF q] answered [OF q] by (cases f) simp_all
      qed (use steps e None in simp)
    qed
  qed
qed

lemma early_cases:
  assumes "early_answer E r req q proto base = Some (Some o')"
  obtains
    (any) "q_type q = TANY" "o' = base\<lparr>o_action := Respond (reply (ev_H E) req NotImp)\<rparr>"
  | (refused) "access_refused E r q = Some True"
      "o' = base\<lparr>o_action := (if is_datagram proto then Drop else Respond (refused (ev_H E) req)), o_reason := FilteredBlockList\<rparr>"
  | (ddr) "o' = base\<lparr>o_action := Respond (ddr_respond (ev_H E) (ev_svcb E) req (st_ddr (rv_settings r)))\<rparr>"
  | (rewritten) act rules where
      "apply_rewrites (ev_H E) (rv_rewrites r) req (request_host (ev_H E) q) (q_type q) (rv_settings r) = Some (Some (act, rules))"
      "o' = base\<lparr>o_action := act, o_reason := Rewritten, o_rules := rules\<rparr>"
  using assms unfolding early_answer_def Let_def access_refused_def [symmetric]
  by (auto split: if_splits Option.bind_splits simp: access_refused_def)


text \<open>What each filtering stage can decide.\<close>

abbreviation "engine_match E \<equiv> match_request (fe_rx_new (ev_filter E)) (fe_rx_match (ev_filter E))"

lemma resolver_blocked_fields [simp]:
  "o_action (resolver_blocked H req s rs rules base) = Respond (blocked H req (st_blocking s) (List.map_filter m_ip rules))"
  "o_reason (resolver_blocked H req s rs rules base) = reason_for_list rs rules"
  "o_rules (resolver_blocked H req s rs rules base) = rules"
  "o_upstream (resolver_blocked H req s rs rules base) = o_upstream base"
  "o_cached (resolver_blocked H req s rs rules base) = o_cached base"
  by (simp_all add: resolver_blocked_def)

lemma filtering_off:
  "\<not> st_protection_enabled s \<Longrightarrow> filtering E r s eff req fr base = Some (Undecided None)"
  by (simp add: filtering_def)

lemma filtering_allowed:
  assumes "st_protection_enabled s" "ef_filtering_enabled eff"
    and "engine_match E (rv_engine r) fr = Some m" "mr_reason m = NotFilteredAllowList"
  shows "filtering E r s eff req fr base = Some (Undecided (Some (NotFilteredAllowList, mr_rules m)))"
  using assms by (simp add: filtering_def filter_lists_def)

lemma filtering_undecided:
  assumes "filtering E r s eff req fr base = Some (Undecided allowed)"
  shows "allowed = None \<or> (\<exists>m. st_protection_enabled s \<and> ef_filtering_enabled eff \<and>
     engine_match E (rv_engine r) fr = Some m \<and> mr_reason m = NotFilteredAllowList \<and>
     allowed = Some (NotFilteredAllowList, mr_rules m))"
  using assms
  by (auto simp: filtering_def filter_lists_def filter_services_def filter_safe_search_def Let_def
      split: if_splits Option.bind_splits option.splits filtered.splits)

text \<open>The engine that decided, and how its verdict is answered.\<close>

definition list_verdict where
  "list_verdict E r s eff req fr base out \<longleftrightarrow> ef_filtering_enabled eff \<and>
     (\<exists>m. engine_match E (rv_engine r) fr = Some m \<and>
        ((mr_reason m = FilteredBlockList \<or> mr_reason m = FilteredBlockedService) \<and>
           out = resolver_blocked (ev_H E) req s (mr_reason m) (mr_rules m) base \<or>
         mr_reason m = RewrittenRule \<and>
           (\<exists>resp. apply_dnsrewrite E req (qtype_of req) (mr_rewrites m) s = Some resp \<and>
              out = base\<lparr>o_action := Respond resp, o_reason := RewrittenRule, o_rules := mr_rules m\<rparr>)))"

definition service_verdict where
  "service_verdict E s eff req fr base out \<longleftrightarrow>
     (\<exists>svc m. ef_services eff = Some svc \<and> engine_match E svc fr = Some m \<and> mr_reason m = FilteredBlockList \<and>
        out = (resolver_blocked (ev_H E) req s FilteredBlockedService (mr_rules m) base)
                \<lparr>o_service_name := service_name_of (fe_catalogue (ev_filter E)) (mr_rules m)\<rparr>)"

definition safe_search_verdict where
  "safe_search_verdict E s eff req fr base out \<longleftrightarrow>
     (\<exists>ss m resp. ef_safe_search eff = Some ss \<and> engine_match E ss fr = Some m \<and> mr_reason m = RewrittenRule \<and>
        apply_dnsrewrite E req (qtype_of req) (mr_rewrites m) s = Some resp \<and>
        out = base\<lparr>o_action := Respond resp, o_reason := FilteredSafeSearch, o_rules := mr_rules m\<rparr>)"

lemma filter_lists_decided:
  "filter_lists E (rv_engine r) s req fr base = Some (Decided out) \<Longrightarrow> ef_filtering_enabled eff \<Longrightarrow>
   list_verdict E r s eff req fr base out"
  by (auto simp: filter_lists_def list_verdict_def split: if_splits option.splits)

lemma filter_services_decided:
  "filter_services E svc s req fr base = Some (Decided out) \<Longrightarrow> ef_services eff = Some svc \<Longrightarrow>
   service_verdict E s eff req fr base out"
  by (auto simp: filter_services_def service_verdict_def Let_def split: if_splits)

lemma filter_safe_search_decided:
  "filter_safe_search E ss s req fr base = Some (Decided out) \<Longrightarrow> ef_safe_search eff = Some ss \<Longrightarrow>
   safe_search_verdict E s eff req fr base out"
  by (auto simp: filter_safe_search_def safe_search_verdict_def split: if_splits option.splits)

lemma filtering_decided:
  assumes "filtering E r s eff req fr base = Some (Decided out)"
  shows "st_protection_enabled s \<and>
    (list_verdict E r s eff req fr base out \<or> service_verdict E s eff req fr base out \<or>
     safe_search_verdict E s eff req fr base out)"
proof -
  have on: "st_protection_enabled s" using assms by (auto simp: filtering_def split: if_splits)
  then obtain f g where f: "(if ef_filtering_enabled eff then filter_lists E (rv_engine r) s req fr base else Some (Undecided None)) = Some f"
    and g: "(case (f, ef_services eff) of (Undecided None, Some svc) \<Rightarrow> filter_services E svc s req fr base | _ \<Rightarrow> Some f) = Some g"
    and o: "(case (g, ef_safe_search eff) of (Undecided None, Some ss) \<Rightarrow> filter_safe_search E ss s req fr base | _ \<Rightarrow> Some g) = Some (Decided out)"
    using assms unfolding filtering_def by (auto split: Option.bind_splits)
  consider "g = Decided out" | ss where "ef_safe_search eff = Some ss" "filter_safe_search E ss s req fr base = Some (Decided out)"
    using o by (auto split: filtered.splits option.splits)
  then show ?thesis
  proof cases
    case 1
    then consider "f = Decided out" | svc where "ef_services eff = Some svc" "filter_services E svc s req fr base = Some (Decided out)"
      using g by (auto split: filtered.splits option.splits)
    then show ?thesis using on f filter_services_decided filter_lists_decided by cases (fastforce split: if_splits)+
  next
    case 2
    then show ?thesis using on filter_safe_search_decided by blast
  qed
qed

lemma private_step_frame:
  assumes "private_step E W r req host s judged = (o', sent, r')"
  shows "o_reason o' = o_reason judged" "o_rules o' = o_rules judged" "\<exists>m. o_action o' = Respond m"
  using assms by (auto simp: private_step_def Let_def split: option.splits prod.splits)

lemma answer_step_frame:
  assumes "answer_step E W r req host s who u judged = Some (o', sent, r')"
  shows "o_reason o' = o_reason judged \<and> o_rules o' = o_rules judged \<and> (\<exists>m. o_action o' = Respond m)"
  using assms private_step_frame [of E W r req host s judged o' sent r']
  by (auto simp: answer_step_def upstream_step_def Let_def split: if_splits prod.splits option.splits)

lemma apply_rewrites_responds:
  "apply_rewrites H t req host qt s = Some (Some (act, rules)) \<Longrightarrow> \<exists>m. act = Respond m"
  by (auto simp: apply_rewrites_def Let_def split: option.splits prod.splits)

lemma access_refused_early:
  "\<not> (st_refuse_any (rv_settings r) \<and> q_type q = TANY) \<Longrightarrow> access_refused E r q = Some True \<Longrightarrow>
   early_answer E r req q proto base =
     Some (Some (base\<lparr>o_action := (if is_datagram proto then Drop else Respond (refused (ev_H E) req)),
                      o_reason := FilteredBlockList\<rparr>))"
  by (auto simp: early_answer_def Let_def access_refused_def)

lemma early_fields:
  assumes "early_answer E r req q proto (base_of E W r ci) = Some (Some o')"
  shows "o_upstream o' = None \<and> \<not> o_cached o' \<and> o_reason o' \<in> {NotFilteredNotFound, Rewritten, FilteredBlockList} \<and>
    (o_reason o' = FilteredBlockList \<longrightarrow> access_refused E r q = Some True) \<and>
    (o_action o' = Drop \<longleftrightarrow> proto = Udp \<and> \<not> (st_refuse_any (rv_settings r) \<and> q_type q = TANY) \<and> access_refused E r q = Some True)"
proof (cases "\<not> (st_refuse_any (rv_settings r) \<and> q_type q = TANY) \<and> access_refused E r q = Some True")
  case True
  then show ?thesis using assms access_refused_early [of r q E req proto "base_of E W r ci"]
    by (cases "proto = Udp") (auto simp: is_datagram_def)
next
  case False
  then show ?thesis
    using assms apply_rewrites_responds
    by (fastforce simp: early_answer_def Let_def access_refused_def split: if_splits Option.bind_splits)
qed

lemma verdicts_fields:
  assumes "filtering E r s eff req fr base = Some (Decided o')" "o_upstream base = None" "\<not> o_cached base"
  shows "o_upstream o' = None \<and> \<not> o_cached o' \<and> (\<exists>m. o_action o' = Respond m) \<and> st_protection_enabled s"
  using filtering_decided [OF assms(1)] assms(2,3)
  by (auto simp: list_verdict_def service_verdict_def safe_search_verdict_def)

lemma undecided_reason:
  assumes "filtering E r s eff req fr base = Some (Undecided allowed)"
  shows "fst (verdict_of allowed) \<in> {NotFilteredNotFound, NotFilteredAllowList}"
  using filtering_undecided [OF assms] by (auto simp: verdict_of_def)

text \<open>The address whose network goes upstream, if any.\<close>

definition ecs_addr :: "'rx settings \<Rightarrow> client_info \<Rightarrow> ip_addr option" where
  "ecs_addr s ci =
     (if st_ecs_enabled s
      then (case (case st_ecs_custom s of Some a \<Rightarrow> Some a | None \<Rightarrow> ci_addr ci) of
              Some a \<Rightarrow> if is_loopback_or_unspecified a then None else Some a
            | None \<Rightarrow> None)
      else None)"

definition subnet_laws :: "('n, 'e) hickory \<Rightarrow> bool" where
  "subnet_laws H \<longleftrightarrow>
     (\<forall>s e. edns_subnet H (edns_insert_subnet H s e) = Some s) \<and>
     (\<forall>e. edns_subnet H (edns_remove_subnet H e) = None) \<and>
     (\<forall>b e. edns_subnet H (edns_set_dnssec_ok H b e) = edns_subnet H e) \<and>
     edns_subnet H (fresh_edns H) = None"

lemma subnet_set_dnssec_ok: "subnet_laws H \<Longrightarrow> subnet_of H (set_dnssec_ok H m b) = subnet_of H m"
  by (cases "edns m") (auto simp: subnet_laws_def subnet_of_def set_dnssec_ok_def get_or_insert_def)

lemma subnet_stripped: "subnet_laws H \<Longrightarrow> subnet_of H (strip_subnet H m) = None"
  by (cases "edns m") (auto simp: subnet_laws_def subnet_of_def strip_subnet_def)

lemma subnet_set: "subnet_laws H \<Longrightarrow>
    subnet_of H (snd (set_subnet H m a p)) = Some \<lparr>sn_addr = mask_addr a p, sn_prefix = p\<rparr>"
  by (simp add: subnet_laws_def subnet_of_def set_subnet_def Let_def)

lemma outgoing_subnet:
  "subnet_laws H \<Longrightarrow> subnet_of H (fst (outgoing H s ci req)) =
     map_option (\<lambda>a. \<lparr>sn_addr = mask_addr a (default_prefix a), sn_prefix = default_prefix a\<rparr>) (ecs_addr s ci)"
  using subnet_set [of H req] 
  by (auto simp: outgoing_def ecs_addr_def Let_def subnet_set_dnssec_ok subnet_stripped split: option.splits prod.splits)
    (metis snd_conv)+

lemma subnet_ask_for_a [simp]: "subnet_of H (ask_for_a i out) = subnet_of H out"
  by (simp add: ask_for_a_def with_id_def subnet_of_def)

lemma exchange_sent:
  "exchange H W out host orig s pool r = (res, sent, r') \<Longrightarrow>
   set sent \<subseteq> {(pool, out), (pool, ask_for_a (w_random W) out)}"
  by (auto simp: exchange_def Let_def split: option.splits prod.splits if_splits bool.splits)

lemma enter_pending_pools [simp]:
  "rv_pool (snd (enter_pending b k e r)) = rv_pool r"
  "rv_client_pools (snd (enter_pending b k e r)) = rv_client_pools r"
  by (auto simp: enter_pending_def split: bool.splits option.splits prod.splits)

lemma forward_sent:
  assumes "forward E W req host s ci key u r = Some (ans, sent, r')" "(pool, m) \<in> set sent"
  shows "pool = fst (pool_for r u) \<and> subnet_of (ev_H E) m = subnet_of (ev_H E) (fst (outgoing (ev_H E) s ci req))"
proof -
  obtain p own where p: "pool_for r u = (p, own)" by force
  obtain out t k where o: "outgoing (ev_H E) s ci req = (out, t, k)" by (cases "outgoing (ev_H E) s ci req") auto
  obtain en r1 where en: "enter_pending (st_pending_enabled s) (if own then key else None) k r = (en, r1)" by force
  obtain res snt r2 where ex: "exchange (ev_H E) W out host req s p r1 = (res, snt, r2)" by (cases "exchange (ev_H E) W out host req s p r1") auto
  have "sent = [] \<or> sent = snt"
    using assms(1) by (auto simp: forward_def Let_def p o en ex split: option.splits pending_entry.splits prod.splits)
  then show ?thesis using exchange_sent [OF ex] assms(2) by (auto simp: p o)
qed

lemma queue_refresh_frame [simp]:
  "rv_pool (queue_refresh CE j r) = rv_pool r" "rv_client_pools (queue_refresh CE j r) = rv_client_pools r"
  by (simp_all add: queue_refresh_def split: option.splits)

lemma serve_cached_pools:
  assumes "serve_cached E W req host who key r = (ans, r')"
  shows "pool_for r' u = pool_for r u"
  using assms by (auto simp: serve_cached_def pool_for_def Let_def split: option.splits prod.splits if_splits)

lemma private_step_sent:
  "private_step E W r req host s judged = (o', sent, r') \<Longrightarrow> (pool, m) \<in> set sent \<Longrightarrow>
   st_use_private_ptr_resolvers s \<and> rv_private_pool r = Some pool \<and> m = req"
  by (auto simp: private_step_def Let_def option_filter_def split: option.splits if_splits)

lemma answer_step_sent:
  assumes "answer_step E W r req host s who u judged = Some (o', sent, r')" "(pool, m) \<in> set sent"
  shows "if qtype_of req = TPTR \<and> is_private_ptr (ev_H E) s req
    then st_use_private_ptr_resolvers s \<and> rv_private_pool r = Some pool \<and> m = req
    else pool = fst (pool_for r u) \<and>
      subnet_of (ev_H E) m = subnet_of (ev_H E) (fst (outgoing (ev_H E) s who req))"
proof (cases "st_aaaa_disabled s \<and> qtype_of req = TAAAA \<or> qtype_of req = TPTR \<and> is_private_ptr (ev_H E) s req")
  case True
  then show ?thesis using assms private_step_sent [of E W r req host s judged o' sent r' pool m]
    by (auto simp: answer_step_def split: if_splits)
next
  case False
  obtain c r1 where c: "serve_cached E W req host who (request_key (ev_H E) req u) r = (c, r1)" by force
  obtain ans where "forward E W req host s who (request_key (ev_H E) req u) u r1 = Some (ans, sent, r')"
    using assms False by (auto simp: answer_step_def upstream_step_def Let_def c split: option.splits if_splits)
  from forward_sent [OF this assms(2)] show ?thesis using False serve_cached_pools [OF c, of u] by auto
qed

lemma ecs_addr_identify [simp]: "ecs_addr s (identify r ci cl) = ecs_addr s ci"
  by (simp add: ecs_addr_def split: option.split)

text \<open>Every response answers under the identifier of the request.\<close>

abbreviation "msg_id m \<equiv> md_id (metadata m)"

lemma built_ids [simp]:
  "msg_id (reply H req c) = msg_id req" "msg_id (nodata H req t) = msg_id req" "msg_id (nxdomain H req t) = msg_id req"
  "msg_id (refused H req) = msg_id req" "msg_id (servfail H req) = msg_id req"
  "msg_id (with_addrs H req ips t) = msg_id req" "msg_id (with_cname H req cn ips t) = msg_id req"
  "msg_id (with_id i m) = i" "msg_id (clamp_ttls m mn mx) = msg_id m"
  by (simp_all add: reply_def nodata_def nxdomain_def refused_def servfail_def with_addrs_def with_cname_def
      with_id_def clamp_ttls_def map_records_def Let_def split: option.splits)

lemma blocked_id [simp]: "msg_id (blocked H req bcf ips) = msg_id req"
  by (simp add: blocked_def Let_def split: blocking_mode.splits)

lemma ddr_id [simp]: "msg_id (ddr_respond H svcb req ep) = msg_id req"
  by (simp add: ddr_respond_def Let_def split: list.splits option.splits)

lemma dnsrewrite_id: "apply_dnsrewrite E req qt rws s = Some m \<Longrightarrow> msg_id m = msg_id req"
  by (auto simp: apply_dnsrewrite_def Let_def split: option.splits dns_rewrite.splits if_splits)

lemma rewrites_id: "apply_rewrites H t req host qt s = Some (Some (Respond m, rules)) \<Longrightarrow> msg_id m = msg_id req"
  by (auto simp: apply_rewrites_def Let_def split: option.splits prod.splits rewrite_outcome.splits)

lemma shaped_id [simp]: "msg_id (shape_to_request H req m) = msg_id m"
  by (auto simp: shape_to_request_def strip_dnssec_def mirror_request_def Let_def split: option.splits)

lemma forward_id:
  "forward E W req host s ci key u r = Some (Some (m, up, t), sent, r') \<Longrightarrow> msg_id m = msg_id req"
  by (auto simp: forward_def Let_def split: prod.splits option.splits pending_entry.splits)

lemma serve_cached_id:
  "serve_cached E W req host who key r = (Some m, r') \<Longrightarrow> msg_id m = msg_id req"
  by (auto simp: serve_cached_def Let_def split: option.splits prod.splits if_splits)

lemma answer_step_id:
  assumes "answer_step E W r req host s who u judged = Some (o', sent, r')" "o_action o' = Respond m"
  shows "msg_id m = msg_id req"
  using assms forward_id serve_cached_id
  by (fastforce simp: answer_step_def upstream_step_def private_step_def Let_def
      split: if_splits prod.splits option.splits)

lemma handle_id:
  assumes "handle E W r req proto ci = Some (o', sent, r')" "o_action o' = Respond m"
  shows "msg_id m = msg_id req"
  using assms(1)
proof (cases rule: handle_cases)
  case malformed
  then show ?thesis using assms(2) by auto
next
  case (early q)
  then show ?thesis using assms(2) rewrites_id
    by (elim early_cases) (auto split: if_splits)
next
  case (decided q)
  from filtering_decided [OF decided(5)] show ?thesis using assms(2) dnsrewrite_id
    by (auto simp: list_verdict_def service_verdict_def safe_search_verdict_def)
next
  case (answered q allowed)
  then show ?thesis using assms(2) answer_step_id by blast
qed

text \<open>What shaping leaves in a response, and that truncation only takes records away.\<close>

definition fits_request :: "('n, 'e) hickory \<Rightarrow> ('n, 'e) message \<Rightarrow> ('n, 'e) message \<Rightarrow> bool" where
  "fits_request H req m \<longleftrightarrow>
     (edns m = None \<longleftrightarrow> edns req = None) \<and>
     (md_authentic_data (metadata m) \<longrightarrow> wants_dnssec H req) \<and>
     (\<forall>r \<in> set (answers m) \<union> set (authorities m) \<union> set (additionals m).
        dnssec_ok H req \<or> rr_type r = qtype_of req \<or> \<not> is_dnssec_record (rr_type r))"

lemma shaped_fits: "fits_request H req (shape_to_request H req m)"
  by (cases "edns req")
    (auto simp: fits_request_def shape_to_request_def strip_dnssec_def mirror_request_def Let_def)

lemma keep_first_fits:
  "fits_request H req m \<Longrightarrow> fits_request H req ((keep_first m k)\<lparr>metadata := (metadata m)\<lparr>md_truncation := b\<rparr>\<rparr>)"
  by (auto simp: fits_request_def keep_first_def dest: in_set_takeD)

text \<open>A claim to refresh an entry, as the cache keeps it.\<close>

lemma lookup_after_end_refresh:
  assumes "length (shards c) = SHARDS" "lookup CE (end_refresh CE k c) k = Some e"
  shows "\<not> e_refreshing e"
  using assms
  by (auto simp: lookup_def end_refresh_def on_shard_def shard_end_refresh_def split: option.splits)

lemma queue_refresh_cases:
  obtains (queued) tx where "rv_refresh r = Some tx" "rf_open tx" "length (rf_queue tx) < REFRESH_QUEUE"
      "queue_refresh CE j r = r\<lparr>rv_refresh := Some (tx\<lparr>rf_queue := rf_queue tx @ [j]\<rparr>)\<rparr>"
    | (released) "rv_refresh r \<noteq> None" "queue_refresh CE j r = r\<lparr>rv_cache := end_refresh CE (jb_key j) (rv_cache r)\<rparr>"
    | (detached) "rv_refresh r = None" "queue_refresh CE j r = r"
proof (cases "rv_refresh r")
  case (Some tx)
  show ?thesis
  proof (cases "rf_open tx \<and> length (rf_queue tx) < REFRESH_QUEUE")
    case True
    then show ?thesis by (intro queued [of tx]) (simp_all add: Some queue_refresh_def try_send_def)
  next
    case False
    then show ?thesis by (intro released) (auto simp: Some queue_refresh_def try_send_def)
  qed
qed (simp add: queue_refresh_def detached)

lemma forward_shards:
  assumes "forward E W req host s ci key u r = Some (ans, sent, r')"
    and "\<And>n r. length (shards (rv_cache (w_meanwhile W n r))) = SHARDS"
  shows "length (shards (rv_cache r')) = SHARDS"
proof -
  have put: "length (shards (snd (put CE H now k m c))) = length (shards c)" for CE H now k m c
    by (auto simp: put_def on_shard_def Let_def split: option.splits)
  have ex: "length (shards (rv_cache r2)) = SHARDS" if "exchange H W out host orig s p r1 = (res, snt, r2)" for H out orig p r1 res snt r2
    using that assms(2) by (auto simp: exchange_def Let_def split: option.splits prod.splits if_splits bool.splits)
  show ?thesis using assms(1)
    by (auto simp: forward_def Let_def put ex assms(2) split: prod.splits option.splits pending_entry.splits)
qed

lemma served_claim:
  assumes "get (ev_cache E) (w_instant W) k (rv_cache r) = (Some h, c)" "hit_refresh h"
    and "serve_cached E W req host who (Some k) r = (served, r')"
    and "length (shards (rv_cache r)) = SHARDS" "rv_refresh r \<noteq> None \<or> hit_freshness h = Stale"
  shows "(\<exists>tx tx'. rv_refresh r = Some tx \<and> rv_refresh r' = Some tx' \<and> length (rf_queue tx) < REFRESH_QUEUE \<and>
            rf_queue tx' = rf_queue tx @ [\<lparr>jb_req = req, jb_host = host, jb_client = who, jb_key = k\<rparr>] \<and>
            served = Some (with_id (msg_id req) (hit_msg h)))
     \<or> (\<forall>e. lookup (ev_cache E) (rv_cache r') k = Some e \<longrightarrow> \<not> e_refreshing e)"
proof -
  let ?j = "\<lparr>jb_req = req, jb_host = host, jb_client = who, jb_key = k\<rparr>" and ?r = "r\<lparr>rv_cache := c\<rparr>"
  have len: "length (shards c) = SHARDS"
    using assms(1,4) by (auto simp: get_def on_shard_def split: if_splits)
  show ?thesis
  proof (cases "rv_refresh r")
    case None
    then have "r' = ?r\<lparr>rv_cache := end_refresh (ev_cache E) k c\<rparr>"
      using assms by (auto simp: serve_cached_def Let_def refreshes_def)
    then show ?thesis using lookup_after_end_refresh [OF len] by auto
  next
    case (Some tx)
    then have r': "r' = queue_refresh (ev_cache E) ?j ?r" "served = Some (with_id (msg_id req) (hit_msg h))"
      using assms(1-3) by (auto simp: serve_cached_def Let_def refreshes_def)
    show ?thesis
    proof (cases rule: queue_refresh_cases [of ?r "ev_cache E" ?j])
      case (queued tx)
      then show ?thesis using r' by auto
    next
      case released
      then show ?thesis using r'(1) lookup_after_end_refresh [OF len] by auto
    next
      case detached
      then show ?thesis using Some by simp
    qed
  qed
qed

lemma refresh_job_releases:
  assumes "refresh_job E W j s = Some (sent, r')"
    and "\<And>n r. length (shards (rv_cache (w_meanwhile W n r))) = SHARDS"
    and "lookup (ev_cache E) (rv_cache r') (jb_key j) = Some e"
  shows "\<not> e_refreshing e"
proof -
  from assms(1) obtain ans r1 where f: "forward E W (jb_req j) (jb_host j) (rv_settings s) (jb_client j)
      (Some (jb_key j)) (ck_upstreams (jb_key j)) s = Some (ans, sent, r1)"
    and r': "r' = r1\<lparr>rv_cache := end_refresh (ev_cache E) (jb_key j) (rv_cache r1)\<rparr>"
    by (auto simp: refresh_job_def split: option.splits)
  show ?thesis
    using assms(3) lookup_after_end_refresh [OF forward_shards [OF f assms(2)]] unfolding r' by auto
qed

section \<open>A sample resolver\<close>

text \<open>A resolver without filtering in front of one upstream that answers every query alike.\<close>

type_synonym sample_edns = "bool \<times> u16 \<times> (ip_addr \<times> u8) option"

definition sample_engine :: "unit engine" where
  "sample_engine = the (build_engine (\<lambda>_. None) [] [])"

definition sample_resolver_env :: "(str, sample_edns, unit) resolver_env" where
  "sample_resolver_env = \<lparr>ev_H = sample_hickory, ev_svcb = (\<lambda>_ _ _. ROther TSVCB []), ev_code_from = (\<lambda>_. NoError),
     ev_filter = \<lparr>fe_rx_new = (\<lambda>_. None), fe_rx_match = (\<lambda>_ _. False), fe_catalogue = [], fe_safesearch = (\<lambda>_. [])\<rparr>,
     ev_cache = sample_env,
     ev_to_zoned = (\<lambda>_ _. \<lparr>weekday = 1, hour = 0, minute = 0, second = 0, millisecond = 0\<rparr>),
     ev_lookup_tz = (\<lambda>_. None)\<rparr>"

definition sample_settings :: "unit engine \<Rightarrow> unit settings" where
  "sample_settings e = \<lparr>st_protection_enabled = False, st_filtering_enabled = True, st_rewrites_enabled = True,
     st_blocking = blocking_default, st_blocked_hosts = \<lparr>bh_engine = e, bh_entries = 0\<rparr>,
     st_aaaa_disabled = False, st_refuse_any = True, st_cache_ttl_min = 0, st_cache_ttl_max = 0,
     st_ecs_enabled = True, st_ecs_custom = None, st_dnssec_enabled = False, st_bogus_nxdomain = [],
     st_dns64 = [], st_handle_ddr = False,
     st_ddr = \<lparr>ep_server_name = [], ep_https = None, ep_tls = None, ep_quic = None\<rparr>,
     st_pending_enabled = False, st_services_schedule = weekly_new [] [],
     st_private_networks = [], st_use_private_ptr_resolvers = False\<rparr>"

definition sample_resolver :: "unit engine \<Rightarrow> rewrite_table \<Rightarrow> (str, sample_edns, unit, nat) resolver" where
  "sample_resolver e t = resolver_new e t (with_size 4194304) 0 (sample_settings e)"

definition sample_world :: "(str, sample_edns, unit, nat) world" where
  "sample_world = \<lparr>w_wall = 0, w_instant = 5, w_instant_put = 7, w_elapsed = 2, w_random = 9,
     w_upstream = (\<lambda>_ m _. Some (sample_response TA [RA 0x01020304], ''up'')), w_meanwhile = (\<lambda>_ r. r)\<rparr>"

definition sample_info :: client_info where
  "sample_info = \<lparr>ci_addr = Some (V4 0xCB007107), ci_id = None, ci_name = None, ci_tags = []\<rparr>"

definition sample_rewrites :: rewrite_table where
  "sample_rewrites = [\<lparr>rw_domain = ''*.com'', rw_answer = RwAddr (V4 0x0A000001), rw_answer_text = ''10.0.0.1''\<rparr>]"

lemma sample_rewritten:
  "map_option (\<lambda>(o', s, r). o_reason o')
     (resolve sample_resolver_env sample_world (sample_resolver e sample_rewrites) (sample_query TA) Udp sample_info) = Some Rewritten"
  by code_simp

lemma sample_forwarded:
  "map_option (\<lambda>(o', s, r). length s)
     (resolve sample_resolver_env sample_world (sample_resolver e []) (sample_query TA) Udp sample_info) = Some 1"
  by code_simp

lemma sample_answered:
  "case resolve sample_resolver_env sample_world (sample_resolver e []) (sample_query TA) Udp sample_info of
     None \<Rightarrow> False | Some (out, _, _) \<Rightarrow> response out \<noteq> None"
  by code_simp

definition stale_resolver :: "unit engine \<Rightarrow> (str, sample_edns, unit, nat) resolver" where
  "stale_resolver e = set_refresh_sender \<lparr>rf_queue = [], rf_open = True\<rparr>
     ((sample_resolver e [])\<lparr>rv_cache := cache_run sample_env sample_hickory
        [Put 5 sample_key (sample_response TA [RA 1])] (cache_new (config_default\<lparr>cc_optimistic := True\<rparr>))\<rparr>)"

definition later_world :: "unit engine \<Rightarrow> (str, sample_edns, unit, nat) world" where
  "later_world e = sample_world\<lparr>w_instant := 5 + 61 * SECOND, w_meanwhile := (\<lambda>_ _. stale_resolver e)\<rparr>"

lemma stale_claimed:
  "case lookup sample_env (rv_cache (snd (serve_cached sample_resolver_env (later_world e) (sample_query TA) ''ads.com''
       sample_info (Some sample_key) (stale_resolver e)))) sample_key of None \<Rightarrow> False | Some x \<Rightarrow> e_refreshing x"
  by code_simp

section \<open>Properties\<close>

text \<open>
  C2. A query that is filtered, refused or rewritten stays local: nothing is sent upstream, neither
  the cache nor any other shared state changes, and the outcome names no upstream.  Only an
  access-blocked host on plain UDP is dropped without an answer.  With protection off nothing but the
  access list filters and nothing but the rewrite table rewrites.  And a query the allowlist matches
  is never filtered further: it is resolved, with the matching rules as its verdict, even if a
  blocked service or safe search would match it too.
\<close>

theorem filtered_stays_local:
  assumes "resolve E W r req proto ci = Some (out, sent, r')"
  shows "(o_reason out \<notin> {NotFilteredNotFound, NotFilteredAllowList} \<longrightarrow>
       sent = [] \<and> r' = r \<and> o_upstream out = None \<and> \<not> o_cached out) \<and>
    (o_action out = Drop \<longleftrightarrow> proto = Udp \<and> (\<exists>q. queries req = [q] \<and> access_refused E r q = Some True \<and>
       \<not> (st_refuse_any (rv_settings r) \<and> q_type q = TANY))) \<and>
    (\<not> st_protection_enabled (rv_settings r) \<longrightarrow>
       o_reason out \<in> {NotFilteredNotFound, Rewritten, FilteredInvalid} \<or>
       o_reason out = FilteredBlockList \<and> (\<exists>q. queries req = [q] \<and> access_refused E r q = Some True)) \<and>
    (\<forall>q m. queries req = [q] \<and> early_answer E r req q proto (base_of E W r ci) = Some None \<and>
       st_protection_enabled (rv_settings r) \<and> ef_filtering_enabled (eff_of E W r ci) \<and>
       engine_match E (rv_engine r) (filter_request (ev_H E) q (who_of r ci)) = Some m \<and>
       mr_reason m = NotFilteredAllowList \<longrightarrow>
         o_reason out = NotFilteredAllowList \<and> o_rules out = mr_rules m)"
proof -
  obtain o' where h: "handle E W r req proto ci = Some (o', sent, r')"
    and f: "finish_outcome (ev_H E) W req proto o' = Some out"
    using assms by (rule resolve_cases)
  note same = finish_outcome_frame [OF f]
  show ?thesis
    using h
  proof (cases rule: handle_cases)
    case malformed
    then show ?thesis by (auto simp: same)
  next
    case (early q)
    then show ?thesis using early_fields [OF early(4)] by (auto simp: same)
  next
    case (decided q)
    have na: "access_refused E r q \<noteq> Some True \<or> st_refuse_any (rv_settings r) \<and> q_type q = TANY"
      using decided(4) access_refused_early by fastforce
    show ?thesis
      using decided na verdicts_fields [OF decided(5)] filtering_allowed [of "rv_settings r" "eff_of E W r ci" E r]
      by (auto simp: same)
  next
    case (answered q allowed)
    have na: "access_refused E r q \<noteq> Some True \<or> st_refuse_any (rv_settings r) \<and> q_type q = TANY"
      using answered(2) access_refused_early by fastforce
    have fr: "o_reason o' = fst (verdict_of allowed)" "o_rules o' = snd (verdict_of allowed)" "o_action o' \<noteq> Drop"
      using answer_step_frame [OF answered(4)] by (auto simp: judged_base_def)
    have "allowed = Some (NotFilteredAllowList, mr_rules m)"
      if "st_protection_enabled (rv_settings r)" "ef_filtering_enabled (eff_of E W r ci)"
        "engine_match E (rv_engine r) (filter_request (ev_H E) q (who_of r ci)) = Some m"
        "mr_reason m = NotFilteredAllowList" for m
      using filtering_allowed [OF that] answered(3) by simp
    moreover have "allowed = None" if "\<not> st_protection_enabled (rv_settings r)"
      using answered(3) that by (simp add: filtering_off)
    ultimately show ?thesis
      using na fr undecided_reason [OF answered(3)] answered(1) by (auto simp: same verdict_of_def)
  qed
qed

theorem filtered_stays_local_witness:
  "\<exists>out. resolve sample_resolver_env sample_world (sample_resolver sample_engine sample_rewrites) (sample_query TA) Udp sample_info =
       Some (out, [], sample_resolver sample_engine sample_rewrites) \<and>
     o_reason out = Rewritten \<and> o_action out \<noteq> Drop"
proof -
  let ?r = "sample_resolver sample_engine sample_rewrites"
  have "map_option (\<lambda>(o', s, r). o_reason o') (resolve sample_resolver_env sample_world ?r (sample_query TA) Udp sample_info) =
      Some Rewritten"
    by (rule sample_rewritten)
  then obtain out sent r' where res:
    "resolve sample_resolver_env sample_world ?r (sample_query TA) Udp sample_info = Some (out, sent, r')" "o_reason out = Rewritten"
    by auto
  have "blocks (\<lambda>_. None) (\<lambda>_ _. False) \<lparr>bh_engine = sample_engine, bh_entries = 0\<rparr> host t = Some False" for host t
    by (simp add: blocks_def blocked_is_empty_def)
  then have "access_refused sample_resolver_env ?r q = Some False" for q
    by (simp add: access_refused_def sample_resolver_env_def sample_resolver_def resolver_new_def sample_settings_def)
  then show ?thesis using filtered_stays_local [OF res(1)] res by auto
qed

text \<open>
  C3. Which pool a query goes to, and what it says about the client.  Every query a request sends goes
  to one pool only: a reverse lookup of a private address to the private resolvers, if they are
  configured and in use, and to no other; anything else to the pool of the client's own upstreams, or
  the global one if it has none (or they are not ready).  The query to the private resolvers is the
  client's own, unchanged, with a subnet option if the client sent one.  A query to any other pool
  carries a client subnet only if that is switched on, and then exactly the network prefix of the
  configured or the client's address, and only if the code's own predicate does not call that address
  loopback, unspecified or private (it lets link-local and shared addresses through); a subnet the
  client itself sent is taken out.  The hypotheses are the laws of hickory's option map for the subnet
  option.
\<close>

theorem upstream_privacy:
  assumes "resolve E W r req proto ci = Some (out, sent, r')" "(pool, m) \<in> set sent"
    and "subnet_laws (ev_H E)"
  shows "if qtype_of req = TPTR \<and> is_private_ptr (ev_H E) (rv_settings r) req
    then st_use_private_ptr_resolvers (rv_settings r) \<and> rv_private_pool r = Some pool \<and> m = req
    else pool = fst (pool_for r (ef_upstreams (eff_of E W r ci))) \<and>
      subnet_of (ev_H E) m =
        map_option (\<lambda>a. \<lparr>sn_addr = mask_addr a (default_prefix a), sn_prefix = default_prefix a\<rparr>)
          (ecs_addr (rv_settings r) ci)"
proof -
  obtain o' where h: "handle E W r req proto ci = Some (o', sent, r')" using assms(1) by (rule resolve_cases)
  then show ?thesis
  proof (cases rule: handle_cases)
    case (answered q allowed)
    from answer_step_sent [OF answered(4) assms(2)] show ?thesis
      by (simp add: outgoing_subnet [OF assms(3)])
  qed (use assms(2) in auto)
qed

theorem upstream_privacy_witness:
  "\<exists>out m r'. resolve sample_resolver_env sample_world (sample_resolver sample_engine []) (sample_query TA) Udp sample_info =
       Some (out, [(0, m)], r') \<and>
     subnet_of sample_hickory m = Some \<lparr>sn_addr = V4 0xCB007100, sn_prefix = 24\<rparr>"
proof -
  let ?r = "sample_resolver sample_engine []"
  have "map_option (\<lambda>(o', s, r). length s) (resolve sample_resolver_env sample_world ?r (sample_query TA) Udp sample_info) = Some 1"
    by (rule sample_forwarded)
  then obtain out pm r' where res:
    "resolve sample_resolver_env sample_world ?r (sample_query TA) Udp sample_info = Some (out, [pm], r')"
    by (auto simp: length_Suc_conv)
  have H: "ev_H sample_resolver_env = sample_hickory" by (simp add: sample_resolver_env_def)
  have laws: "subnet_laws (ev_H sample_resolver_env)"
    by (auto simp: subnet_laws_def H sample_hickory_def fresh_edns_def)
  have s: "ecs_addr (rv_settings ?r) sample_info = Some (V4 0xCB007107)" "qtype_of (sample_query TA) = TA"
    "mask_addr (V4 0xCB007107) 24 = V4 0xCB007100" "default_prefix (V4 0xCB007107) = 24"
    by code_simp+
  have p: "fst (pool_for ?r u) = 0" for u
    by (simp add: pool_for_def sample_resolver_def resolver_new_def split: option.splits)
  obtain pool m where pm: "pm = (pool, m)" by force
  show ?thesis
    using upstream_privacy [OF res _ laws, of pool m] res
    by (simp add: pm s p H del: mask_addr.simps default_prefix.simps)
qed

text \<open>
  C4. Whatever path a request takes, the response it gets is shaped to it: it carries the identifier
  of the request, an OPT record exactly if the request did, no DNSSEC record the client did not ask
  for and no validation claim for a client that does not understand one; and on plain UDP either its
  encoding is within the size the client announced, or every record has been cut from it (the question
  and the OPT record, which are never cut, may still be longer than that).  The hypothesis is that the truncation bit
  does not change the length of an encoded message.
\<close>

theorem response_answers_request:
  assumes "resolve E W r req proto ci = Some (out, sent, r')" "response out = Some m"
    and "\<And>m b. encoded_len (ev_H E) (m\<lparr>metadata := (metadata m)\<lparr>md_truncation := b\<rparr>\<rparr>) = encoded_len (ev_H E) m"
  shows "msg_id m = msg_id req \<and> fits_request (ev_H E) req m \<and>
    (proto = Udp \<longrightarrow> encoded_len (ev_H E) m \<le> udp_limit (ev_H E) req \<or> record_count m = 0)"
proof -
  let ?H = "ev_H E"
  obtain o' where h: "handle E W r req proto ci = Some (o', sent, r')"
    and f: "finish_outcome ?H W req proto o' = Some out"
    using assms(1) by (rule resolve_cases)
  have "o_action out = Respond m" using assms(2) by (auto simp: response_def split: action.splits)
  then obtain m0 where m0: "o_action o' = Respond m0"
    using f by (auto simp: finish_outcome_def split: action.splits)
  let ?m = "shape_to_request ?H req m0"
  have id: "msg_id ?m = msg_id req" using handle_id [OF h m0] by simp
  show ?thesis
  proof (cases "proto = Udp")
    case False
    then have "m = ?m" using f m0 \<open>o_action out = Respond m\<close> by (auto simp: finish_outcome_def Let_def)
    then show ?thesis using id shaped_fits False by auto
  next
    case True
    then obtain b where t: "truncate_msg ?H ?m (udp_limit ?H req) = Some (b, m)"
      using f m0 \<open>o_action out = Respond m\<close> by (auto simp: finish_outcome_def Let_def)
    show ?thesis
    proof (cases rule: truncate_msg_fits [of ?H ?m "udp_limit ?H req"])
      case (1 b' k)
      then have m: "m = (keep_first ?m k)\<lparr>metadata := (metadata ?m)\<lparr>md_truncation := b'\<rparr>\<rparr>" using t by simp
      have "metadata ?m = metadata (keep_first ?m k)" by (simp add: keep_first_def)
      then have "encoded_len ?H m = encoded_len ?H (keep_first ?m k)" using assms(3) unfolding m by simp
      moreover have "record_count m = 0" if "k = 0" using that unfolding m by (simp add: record_count_def keep_first_def)
      ultimately show ?thesis using 1(2) keep_first_fits [OF shaped_fits] id m by auto
    next
      case 2
      then show ?thesis using t id shaped_fits by auto
    qed
  qed
qed

theorem response_answers_request_witness:
  "\<exists>out sent r' m. resolve sample_resolver_env sample_world (sample_resolver sample_engine []) (sample_query TA) Udp sample_info =
       Some (out, sent, r') \<and> response out = Some m \<and> md_id (metadata m) = 0 \<and> edns m = None \<and>
     (encoded_len sample_hickory m \<le> 512 \<or> record_count m = 0)"
proof -
  let ?r = "sample_resolver sample_engine []"
  obtain out sent r' m where res:
    "resolve sample_resolver_env sample_world ?r (sample_query TA) Udp sample_info = Some (out, sent, r')" "response out = Some m"
    using sample_answered [of sample_engine] by (auto split: option.splits)
  have H: "ev_H sample_resolver_env = sample_hickory" by (simp add: sample_resolver_env_def)
  have len: "encoded_len (ev_H sample_resolver_env) (m\<lparr>metadata := (metadata m)\<lparr>md_truncation := b\<rparr>\<rparr>) = encoded_len (ev_H sample_resolver_env) m"
    for m b by (simp add: H encoded_len_def sample_hickory_def record_count_def)
  have q: "msg_id (sample_query TA) = 0" "edns (sample_query TA) = None" "udp_limit sample_hickory (sample_query TA) = 512"
    by code_simp+
  show ?thesis using response_answers_request [OF res len] res by (auto simp: H q fits_request_def)
qed

text \<open>
  C5. What becomes of a claimed refresh, when a worker is attached or the entry found is stale.  Either
  the response is served and the job waits in the worker's queue, where there was room for it, or the
  claim is released in the same step, so that a later lookup can claim it again.  Without a worker a
  stale entry is not served and its claim is released.  And a job the worker has finished, whatever the
  upstreams answered, leaves the claim of its key released.  The other hypotheses say that the cache keeps
  its sixteen shards.  (An entry near its end that is served with no worker attached keeps its claim:
  that case is excluded.)
\<close>

theorem refresh_claim_never_lost:
  assumes "get (ev_cache E) (w_instant W) k (rv_cache r) = (Some h, c)" "hit_refresh h"
    and "serve_cached E W req host who (Some k) r = (served, r')"
    and "length (shards (rv_cache r)) = SHARDS" "rv_refresh r \<noteq> None \<or> hit_freshness h = Stale"
    and "\<And>n r. length (shards (rv_cache (w_meanwhile W n r))) = SHARDS"
  shows "((\<exists>tx tx'. rv_refresh r = Some tx \<and> rv_refresh r' = Some tx' \<and> length (rf_queue tx) < REFRESH_QUEUE \<and>
            rf_queue tx' = rf_queue tx @ [\<lparr>jb_req = req, jb_host = host, jb_client = who, jb_key = k\<rparr>] \<and>
            served = Some (with_id (msg_id req) (hit_msg h)))
          \<or> (\<forall>e. lookup (ev_cache E) (rv_cache r') k = Some e \<longrightarrow> \<not> e_refreshing e)) \<and>
    (rv_refresh r = None \<longrightarrow> served = None) \<and>
    (\<forall>j s sent r''. refresh_job E W j s = Some (sent, r'') \<longrightarrow>
       (\<forall>e. lookup (ev_cache E) (rv_cache r'') (jb_key j) = Some e \<longrightarrow> \<not> e_refreshing e))"
proof -
  have "served = None" if "rv_refresh r = None"
    using that assms(1,3,5) by (auto simp: serve_cached_def Let_def refreshes_def)
  then show ?thesis
    using served_claim [OF assms(1-5)] refresh_job_releases [OF _ assms(6)] by blast
qed

theorem refresh_claim_never_lost_witness:
  "\<exists>served r' tx. serve_cached sample_resolver_env (later_world sample_engine) (sample_query TA) ''ads.com'' sample_info
       (Some sample_key) (stale_resolver sample_engine) = (Some served, r') \<and>
     rv_refresh r' = Some tx \<and> map jb_key (rf_queue tx) = [sample_key]"
proof -
  let ?c = "cache_run sample_env sample_hickory [Put 5 sample_key (sample_response TA [RA 1])]
      (cache_new (config_default\<lparr>cc_optimistic := True\<rparr>))"
  have st: "rv_cache (stale_resolver sample_engine) = ?c" "rv_refresh (stale_resolver sample_engine) = Some \<lparr>rf_queue = [], rf_open = True\<rparr>"
    by (simp_all add: stale_resolver_def set_refresh_sender_def)
  have w: "ev_cache sample_resolver_env = sample_env" "w_instant (later_world sample_engine) = 5 + 61 * SECOND"
    "\<And>n r. w_meanwhile (later_world sample_engine) n r = (stale_resolver sample_engine)"
    by (simp_all add: sample_resolver_env_def later_world_def)
  have g: "fst (get sample_env (5 + 61 * SECOND) sample_key ?c) \<noteq> None" "length (shards ?c) = SHARDS"
    "map_option hit_refresh (fst (get sample_env (5 + 61 * SECOND) sample_key ?c)) = Some True"
    by code_simp+
  obtain h c where h: "get (ev_cache sample_resolver_env) (w_instant (later_world sample_engine)) sample_key (rv_cache (stale_resolver sample_engine)) = (Some h, c)"
    "hit_refresh h" using g(1,3) unfolding st w by (cases "get sample_env (5 + 61 * SECOND) sample_key ?c") auto
  obtain served r' where s: "serve_cached sample_resolver_env (later_world sample_engine) (sample_query TA) ''ads.com'' sample_info
       (Some sample_key) (stale_resolver sample_engine) = (served, r')" by force
  have claimed: "\<exists>e. lookup (ev_cache sample_resolver_env) (rv_cache r') sample_key = Some e \<and> e_refreshing e"
    using stale_claimed [of sample_engine, unfolded s] by (simp add: w split: option.splits)
  show ?thesis
    using refresh_claim_never_lost [OF h s] claimed by (auto simp: st w g(2) s)
qed

end
