(* ===== verification/Discovery.thy ===== *)
theory Discovery
  imports Resolver
begin

text \<open>
  Working out who a client is: \<open>crates/sift/src/discovery.rs\<close>, the sources of a client's name and the
  task that asks them.  The reverse lookup goes through the resolver of the development.  The WHOIS
  connection, the system's files and commands are parameters; \<open>ptr_of\<close> is the target of a \<open>PTR\<close>
  record in its ASCII form.
\<close>

section \<open>Reverse names\<close>

fun discovery_reverse_name :: "ip_addr \<Rightarrow> str" where
  "discovery_reverse_name (V4 a) =
     (let oc = v4_octets a in
      show_nat (oc ! 3) @ ''.'' @ show_nat (oc ! 2) @ ''.'' @ show_nat (oc ! 1) @ ''.'' @ show_nat (oc ! 0) @ ''.in-addr.arpa.'')"
| "discovery_reverse_name (V6 a) =
     concat (map (\<lambda>b. [hex_char (b mod 16)] @ ''.'' @ [hex_char (b div 16)] @ ''.'') (rev (be_digits 256 16 (unat a))))
       @ ''ip6.arpa.''"

definition is_local :: "ip_addr \<Rightarrow> bool" where
  "is_local addr \<longleftrightarrow> list_ex (\<lambda>(n, b). in_subnet addr n b) default_private_networks"

section \<open>Local sources\<close>

definition parse_hosts_line :: "str \<Rightarrow> (ip_addr \<times> str) option" where
  "parse_hosts_line line =
     (let line = trim (hd (split_char (CHR ''#'') line)) in
      case split_whitespace line of
        a # name # _ \<Rightarrow> map_option (\<lambda>addr. (addr, name)) (parse_ip a)
      | _ \<Rightarrow> None)"

definition parse_hosts :: "str \<Rightarrow> (ip_addr \<times> str) list" where
  "parse_hosts text = List.map_filter parse_hosts_line (str_lines text)"

definition parse_proc_arp :: "str \<Rightarrow> (ip_addr \<times> str) list" where
  "parse_proc_arp text =
     List.map_filter (\<lambda>line.
       let f = split_whitespace line in
       if length f < 4 then None
       else case parse_ip (f ! 0) of
         None \<Rightarrow> None
       | Some addr \<Rightarrow>
           if f ! 3 = ''00:00:00:00:00:00'' then None else Some (addr, to_ascii_lowercase (f ! 3)))
     (drop 1 (str_lines text))"

definition pad2 :: "str \<Rightarrow> str" where
  "pad2 p = replicate (2 - length p) (CHR ''0'') @ p"

definition parse_arp_line :: "str \<Rightarrow> (ip_addr \<times> str) option" where
  "parse_arp_line line =
     (case find_char (CHR ''('') line of
        None \<Rightarrow> None
      | Some i \<Rightarrow>
          let start = i + 1 in
          case find_char (CHR '')'') (drop start line) of
            None \<Rightarrow> None
          | Some j \<Rightarrow>
              case parse_ip (take j (drop start line)) of
                None \<Rightarrow> None
              | Some addr \<Rightarrow>
                  let rest = trim_start (drop (start + j + 1) line) in
                  case strip_prefix ''at '' rest of
                    None \<Rightarrow> None
                  | Some r \<Rightarrow>
                      case split_whitespace r of
                        [] \<Rightarrow> None
                      | mac # _ \<Rightarrow>
                          if eq_ignore_ascii_case mac ''(incomplete)'' then None
                          else let parts = split_char (CHR '':'') mac in
                            if length parts \<noteq> 6 \<or> \<not> list_all (list_all is_ascii_hexdigit) parts then None
                            else Some (addr, join '':'' (map (\<lambda>p. pad2 (to_ascii_lowercase p)) parts)))"

definition parse_arp_command :: "str \<Rightarrow> (ip_addr \<times> str) list" where
  "parse_arp_command text = List.map_filter parse_arp_line (str_lines text)"

text \<open>\<open>proc\<close> is the text of \<open>/proc/net/arp\<close>, \<open>cmd\<close> the output of \<open>arp -an\<close>, when they can be had.\<close>

definition read_arp_table :: "str option \<Rightarrow> str option \<Rightarrow> (ip_addr \<times> str) list" where
  "read_arp_table proc cmd =
     (case proc of
        Some text \<Rightarrow> parse_proc_arp text
      | None \<Rightarrow> (case cmd of None \<Rightarrow> [] | Some out \<Rightarrow> parse_arp_command out))"

definition prime :: "str \<Rightarrow> str option \<Rightarrow> str option \<Rightarrow> runtime \<Rightarrow> runtime" where
  "prime system_hosts proc cmd rt =
     (let so = rt_sources rt;
          rt = (if so_hosts so then fold (\<lambda>(addr, name). set_name addr name SrcHosts) (parse_hosts system_hosts) rt else rt)
      in if so_arp so then fold (\<lambda>(addr, mac). set_mac addr mac) (read_arp_table proc cmd) rt else rt)"

section \<open>WHOIS\<close>

fun trim_start_matches_str :: "str \<Rightarrow> str \<Rightarrow> str" where
  "trim_start_matches_str p s =
     (if p = [] then s else case strip_prefix p s of None \<Rightarrow> s | Some r \<Rightarrow> if length r < length s then trim_start_matches_str p r else s)"

declare trim_start_matches_str.simps [simp del]

definition referral_line :: "str \<Rightarrow> str option" where
  "referral_line line =
     (let lower = to_ascii_lowercase line in
      case (case strip_prefix ''referralserver:'' lower of Some r \<Rightarrow> Some r | None \<Rightarrow> strip_prefix ''refer:'' lower) of
        None \<Rightarrow> None
      | Some rest \<Rightarrow>
          let host = trim_end_matches (CHR ''/'') (trim_start_matches_str ''whois://'' (trim rest)) in
          if host = [] then None
          else Some (if CHR '':'' \<in> set host then host else host @ '':43''))"

definition referral_of :: "str \<Rightarrow> str option" where
  "referral_of text = (case List.map_filter referral_line (str_lines text) of [] \<Rightarrow> None | r # _ \<Rightarrow> Some r)"

definition WHOIS_KEYS :: "str list" where
  "WHOIS_KEYS = [''orgname'', ''city'', ''country'']"

definition whois_key :: "str \<Rightarrow> str option" where
  "whois_key k =
     (if k \<in> set [''orgname'', ''org-name'', ''descr'', ''netname''] then Some ''orgname''
      else if k = ''city'' then Some ''city''
      else if k = ''country'' then Some ''country''
      else None)"

definition whois_line :: "str \<Rightarrow> (str \<times> str) option" where
  "whois_line line =
     (let line = trim line in
      if starts_with line ''%'' \<or> starts_with line ''#'' then None
      else case split_once (CHR '':'') line of
        None \<Rightarrow> None
      | Some (k, v) \<Rightarrow>
          let value = trim v in
          if value = [] then None
          else map_option (\<lambda>key. (key, value)) (whois_key (to_ascii_lowercase (trim k))))"

text \<open>\<open>entry(key).or_insert_with\<close>.\<close>

definition or_insert :: "str \<times> str \<Rightarrow> (str \<rightharpoonup> str) \<Rightarrow> (str \<rightharpoonup> str)" where
  "or_insert kv m = (case m (fst kv) of None \<Rightarrow> m(fst kv \<mapsto> snd kv) | Some _ \<Rightarrow> m)"

definition parse_whois :: "str \<Rightarrow> (str \<times> str) list" where
  "parse_whois text =
     (let found = fold or_insert (List.map_filter whois_line (str_lines text)) Map.empty
      in List.map_filter (\<lambda>k. map_option (\<lambda>v. (k, v)) (found k)) WHOIS_KEYS)"

definition WHOIS_ROOT :: str where "WHOIS_ROOT = ''whois.arin.net:43''"

text \<open>\<open>query\<close> is one WHOIS exchange with a server, \<open>None\<close> when it fails or takes too long.\<close>

definition whois :: "(str \<Rightarrow> str \<Rightarrow> str option) \<Rightarrow> ip_addr \<Rightarrow> (str \<times> str) list" where
  "whois query addr =
     (case query WHOIS_ROOT (show_ip addr) of
        None \<Rightarrow> []
      | Some text \<Rightarrow>
          let fs = parse_whois text in
          case referral_of text of
            None \<Rightarrow> fs
          | Some server \<Rightarrow>
              (case query server (show_ip addr) of
                 None \<Rightarrow> fs
               | Some text2 \<Rightarrow> let deeper = parse_whois text2 in if deeper \<noteq> [] then deeper else fs))"

section \<open>Discovery\<close>

definition discovery_request :: "('n, 'e) hickory \<Rightarrow> u16 \<Rightarrow> 'n \<Rightarrow> ('n, 'e) message" where
  "discovery_request H i name =
     (let m = message_query H
      in m\<lparr>metadata := (metadata m)\<lparr>md_id := i, md_recursion_desired := True\<rparr>,
           queries := queries m @ [\<lparr>q_name = name, q_type = TPTR, q_class = ClassIN\<rparr>]\<rparr>)"

definition client_info_none :: client_info where
  "client_info_none = \<lparr>ci_addr = None, ci_id = None, ci_name = None, ci_tags = []\<rparr>"

definition ptr_answer :: "('n rdata \<Rightarrow> str option) \<Rightarrow> ('n, 'e) message \<Rightarrow> str option" where
  "ptr_answer ptr_of m =
     (case List.map_filter (\<lambda>r. case ptr_of (rr_data r) of
                              None \<Rightarrow> None
                            | Some t \<Rightarrow> let n = trim_end_matches (CHR ''.'') t in if n \<noteq> [] then Some n else None) (answers m) of
        [] \<Rightarrow> None | n # _ \<Rightarrow> Some n)"

text \<open>
  \<open>None\<close> is a panic of the resolver; a lookup returns the name and the resolver after the query.
\<close>

definition reverse_lookup ::
  "('n, 'e, 'rx) resolver_env \<Rightarrow> ('n rdata \<Rightarrow> str option) \<Rightarrow> ('n, 'e, 'rx, 'p) world \<Rightarrow> ip_addr
     \<Rightarrow> ('n, 'e, 'rx, 'p) resolver \<Rightarrow> (str option \<times> ('n, 'e, 'rx, 'p) resolver) option" where
  "reverse_lookup E ptr_of W addr r =
     (case name_from_utf8 (ev_H E) (discovery_reverse_name addr) of
        None \<Rightarrow> Some (None, r)
      | Some name \<Rightarrow>
          (case resolve E W r (discovery_request (ev_H E) (w_random W) name) Udp client_info_none of
             None \<Rightarrow> None
           | Some (out, _, r) \<Rightarrow>
               Some (case response out of None \<Rightarrow> None | Some m \<Rightarrow> ptr_answer ptr_of m, r)))"

definition discover ::
  "('n, 'e, 'rx) resolver_env \<Rightarrow> ('n rdata \<Rightarrow> str option) \<Rightarrow> (str \<Rightarrow> str \<Rightarrow> str option) \<Rightarrow> ('n, 'e, 'rx, 'p) world \<Rightarrow> ip_addr
     \<Rightarrow> ('n, 'e, 'rx, 'p) resolver \<Rightarrow> ('n, 'e, 'rx, 'p) resolver option" where
  "discover E ptr_of query W addr r =
     (let so = rt_sources (rv_runtime r);
          r1 = (if so_rdns so \<and> name_of (rv_runtime r) addr = []
                then case reverse_lookup E ptr_of W addr r of
                       None \<Rightarrow> None
                     | Some (None, r) \<Rightarrow> Some r
                     | Some (Some name, r) \<Rightarrow> Some (r\<lparr>rv_runtime := set_name addr name SrcRdns (rv_runtime r)\<rparr>)
                else Some r)
      in case r1 of
           None \<Rightarrow> None
         | Some r \<Rightarrow>
             if so_whois so \<and> \<not> is_local addr
             then let fs = whois query addr in
               Some (if fs \<noteq> [] then r\<lparr>rv_runtime := set_whois addr fs (rv_runtime r)\<rparr> else r)
             else Some r)"

text \<open>The bounded queue that feeds the task, with whether the task still runs.\<close>

definition QUEUE :: nat where "QUEUE = 256"

record discovery_queue =
  dq_items :: "ip_addr list"
  dq_open :: bool

definition submit :: "ip_addr \<Rightarrow> discovery_queue \<Rightarrow> discovery_queue" where
  "submit a q = (if dq_open q \<and> length (dq_items q) < QUEUE then q\<lparr>dq_items := dq_items q @ [a]\<rparr> else q)"

section \<open>Properties\<close>

text \<open>The name asked for is the one the resolver's own parser reads back, with the final dot.\<close>

lemma octets_nibbles: "be_digits 16 (2 * n) v = concat (map (\<lambda>b. [b div 16, b mod 16]) (be_digits 256 n v))"
proof (induction n arbitrary: v)
  case (Suc n)
  have "v div 16 div 16 = v div 256" by (simp add: div_mult2_eq [symmetric])
  moreover have "v div 16 mod 16 = v mod 256 div 16" using mod_mult2_eq [of v 16 16] by simp
  moreover have "v mod 16 = v mod 256 mod 16" by (simp add: mod_mod_cancel)
  ultimately show ?case using Suc [of "v div 256"] by simp
qed simp

lemma join_dot_concat: "ps \<noteq> [] \<Longrightarrow> join ''.'' ps @ ''.'' = concat (map (\<lambda>p. p @ ''.'') ps)"
proof (induction ps)
  case (Cons p ps)
  then show ?case by (cases ps) auto
qed simp

lemma concat_map_pairs:
  "concat (map f (concat (map (\<lambda>b. [g b, h b]) xs))) = concat (map (\<lambda>b. f (g b) @ f (h b)) xs)"
  by (induction xs) auto

lemma discovery_reverse_name_eq: "discovery_reverse_name a = reverse_name a @ ''.''"
proof (cases a)
  case (V4 x)
  have "length (v4_octets x) = 4" by (simp add: v4_octets_def)
  then obtain p q r s where "v4_octets x = [p, q, r, s]" by (auto simp: numeral_eq_Suc length_Suc_conv)
  then show ?thesis using V4 by simp
next
  case (V6 x)
  let ?oc = "be_digits 256 16 (unat x)"
  have "be_digits 16 32 (unat x) = concat (map (\<lambda>b. [b div 16, b mod 16]) ?oc)"
    using octets_nibbles [of 16 "unat x"] by simp
  then have nib: "rev (be_digits 16 32 (unat x)) = concat (map (\<lambda>b. [b mod 16, b div 16]) (rev ?oc))"
    by (simp add: rev_concat rev_map comp_def)
  have ne: "map (\<lambda>d. [hex_char d]) (rev (be_digits 16 32 (unat x))) \<noteq> []"
    using length_be_digits [of 16 32 "unat x"] by (metis length_rev length_map list.size(3) zero_neq_numeral)
  have "reverse_name a @ ''.'' = (join ''.'' (map (\<lambda>d. [hex_char d]) (rev (be_digits 16 32 (unat x)))) @ ''.'') @ ''ip6.arpa.''"
    using V6 by simp
  also have "\<dots> = concat (map (\<lambda>p. p @ ''.'') (map (\<lambda>d. [hex_char d]) (rev (be_digits 16 32 (unat x))))) @ ''ip6.arpa.''"
    by (simp only: join_dot_concat [OF ne])
  also have "\<dots> = discovery_reverse_name a"
    using V6 by (simp add: nib concat_map_pairs comp_def)
  finally show ?thesis by simp
qed

text \<open>
  The name a reverse lookup asks for is read back by the resolver as the very address, so a private
  address is routed to the private resolvers.
\<close>

theorem discovery_reverse_roundtrip:
  "addr_from_reverse (trim_end_matches (CHR ''.'') (discovery_reverse_name a)) = Some a"
proof -
  have "trim_end_matches (CHR ''.'') (reverse_name a @ ''.'') = reverse_name a"
    by (cases a) (simp_all add: trim_end_matches_def)
  then show ?thesis by (simp add: discovery_reverse_name_eq reverse_v4 reverse_v6 split: ip_addr.split) (cases a; simp add: reverse_v4 reverse_v6 del: reverse_name.simps)
qed

text \<open>
  The first value of a WHOIS record wins, and the fields come in the order the interface expects.
\<close>

lemma or_insert_first: "fold or_insert kvs m k = (case m k of Some v \<Rightarrow> Some v | None \<Rightarrow> map_of kvs k)"
proof (induction kvs arbitrary: m)
  case (Cons kv kvs)
  then show ?case by (cases kv) (auto simp: or_insert_def split: option.splits)
qed (simp split: option.splits)

theorem parse_whois_first_wins:
  "parse_whois text =
     List.map_filter (\<lambda>k. map_option (\<lambda>v. (k, v)) (map_of (List.map_filter whois_line (str_lines text)) k)) WHOIS_KEYS"
  by (simp add: parse_whois_def Let_def or_insert_first)

text \<open>Discovery never renames: an address that has a name keeps it, whatever the lookup would find.\<close>

theorem discover_keeps_name:
  assumes "name_of (rv_runtime r) addr \<noteq> []" "discover E ptr_of query W addr r = Some r'"
  shows "name_of (rv_runtime r') addr = name_of (rv_runtime r) addr"
  using assms
  by (auto simp: discover_def Let_def name_of_def set_whois_def or_default_def split: if_splits option.splits)

theorem submit_bounded: "length (dq_items q) \<le> QUEUE \<Longrightarrow> length (dq_items (submit a q)) \<le> QUEUE"
  by (simp add: submit_def)

end
