(* ===== verification/Ipset.thy ===== *)
theory Ipset
  imports Name Ipaddr "HOL-Library.List_Lexorder" "HOL-Library.Char_ord"
begin

text \<open>
  Adding resolved addresses to Linux ipsets: \<open>crates/sift/src/ipset.rs\<close>.  The \<open>ipset\<close> command is a
  parameter \<open>run\<close> on the kernel's state; \<open>ipset_sound\<close> says what \<open>ipset add -exist\<close> documents.
\<close>

section \<open>Rules\<close>

definition MAX_REMEMBERED :: nat where "MAX_REMEMBERED = 65536"

record ipset_rule =
  ir_domains :: "str list"
  ir_sets :: "str list"

definition parse_ipset_line :: "str \<Rightarrow> ipset_rule option" where
  "parse_ipset_line line =
     (let line = trim (hd (split_char (CHR ''#'') line)) in
      if line = [] then None
      else case split_once (CHR ''/'') line of
        None \<Rightarrow> None
      | Some (domains, sets) \<Rightarrow>
          let domains = filter (\<lambda>d. d \<noteq> [])
                (map (\<lambda>d. to_ascii_lowercase (trim_matches (CHR ''.'') (trim d))) (split_char (CHR '','') domains));
              sets = filter (\<lambda>s. s \<noteq> []) (map trim (split_char (CHR '','') sets))
          in if domains \<noteq> [] \<and> sets \<noteq> [] then Some \<lparr>ir_domains = domains, ir_sets = sets\<rparr> else None)"

definition parse_ipset :: "str list \<Rightarrow> ipset_rule list" where
  "parse_ipset ls = List.map_filter parse_ipset_line ls"

text \<open>\<open>read_file\<close> is \<open>std::fs::read_to_string\<close>.\<close>

definition ipset_lines :: "(str \<Rightarrow> str option) \<Rightarrow> str list \<Rightarrow> str \<Rightarrow> str list" where
  "ipset_lines read_file inline path =
     (if path = [] then inline
      else case read_file path of Some text \<Rightarrow> str_lines text | None \<Rightarrow> [])"

section \<open>The manager\<close>

record ipset_manager =
  im_rules :: "ipset_rule list"
  im_seen :: "(str \<times> ip_addr) set"

definition ipset_new :: "ipset_rule list \<Rightarrow> ipset_manager option" where
  "ipset_new rules = (if rules = [] then None else Some \<lparr>im_rules = rules, im_seen = {}\<rparr>)"

definition sets_for :: "ipset_manager \<Rightarrow> str \<Rightarrow> str list" where
  "sets_for m host =
     (let host = to_ascii_lowercase (trim_matches (CHR ''.'') host) in
      remdups_adj (sort (concat (map (\<lambda>r. if list_ex (is_subdomain_of host) (ir_domains r) then ir_sets r else [])
        (im_rules m)))))"

definition ipset_remember :: "str \<Rightarrow> ip_addr \<Rightarrow> ipset_manager \<Rightarrow> bool \<times> ipset_manager" where
  "ipset_remember s a m =
     (let seen = (if card (im_seen m) \<ge> MAX_REMEMBERED then {} else im_seen m) in
      ((s, a) \<notin> seen, m\<lparr>im_seen := insert (s, a) seen\<rparr>))"

definition ipset_forget :: "str \<Rightarrow> ip_addr \<Rightarrow> ipset_manager \<Rightarrow> ipset_manager" where
  "ipset_forget s a m = m\<lparr>im_seen := im_seen m - {(s, a)}\<rparr>"

definition ipset_step ::
  "(str \<Rightarrow> ip_addr \<Rightarrow> 'k \<Rightarrow> bool \<times> 'k) \<Rightarrow> str \<times> ip_addr \<Rightarrow> nat \<times> ipset_manager \<times> 'k \<Rightarrow> nat \<times> ipset_manager \<times> 'k" where
  "ipset_step run = (\<lambda>(s, a) (added, m, k).
     case ipset_remember s a m of
       (False, m) \<Rightarrow> (added, m, k)
     | (True, m) \<Rightarrow> (case run s a k of
                       (True, k) \<Rightarrow> (added + 1, m, k)
                     | (False, k) \<Rightarrow> (added, ipset_forget s a m, k)))"

definition ipset_add ::
  "(str \<Rightarrow> ip_addr \<Rightarrow> 'k \<Rightarrow> bool \<times> 'k) \<Rightarrow> str \<Rightarrow> ip_addr list \<Rightarrow> ipset_manager \<Rightarrow> 'k \<Rightarrow> nat \<times> ipset_manager \<times> 'k" where
  "ipset_add run host addrs m k =
     (if addrs = [] then (0, m, k)
      else let sets = sets_for m host in
        if sets = [] then (0, m, k)
        else fold (ipset_step run) [(s, a). s \<leftarrow> sets, a \<leftarrow> addrs] (0, m, k))"

section \<open>What the kernel's sets hold\<close>

definition ipset_sound :: "(str \<Rightarrow> ip_addr \<Rightarrow> 'k \<Rightarrow> bool \<times> 'k) \<Rightarrow> ('k \<Rightarrow> str \<Rightarrow> ip_addr \<Rightarrow> bool) \<Rightarrow> bool" where
  "ipset_sound run mem \<longleftrightarrow>
     (\<forall>s a k s' a'. mem (snd (run s a k)) s' a' \<longleftrightarrow> mem k s' a' \<or> fst (run s a k) \<and> s' = s \<and> a' = a)"

text \<open>What is remembered is in the kernel, and the memory is bounded.\<close>

definition ipset_inv :: "('k \<Rightarrow> str \<Rightarrow> ip_addr \<Rightarrow> bool) \<Rightarrow> ipset_manager \<Rightarrow> 'k \<Rightarrow> bool" where
  "ipset_inv mem m k \<longleftrightarrow> (\<forall>(s, a) \<in> im_seen m. mem k s a) \<and> finite (im_seen m) \<and> card (im_seen m) \<le> MAX_REMEMBERED"

lemma sets_for_set:
  "s \<in> set (sets_for m host) \<longleftrightarrow>
     (\<exists>r \<in> set (im_rules m). s \<in> set (ir_sets r) \<and>
        (\<exists>d \<in> set (ir_domains r). is_subdomain_of (to_ascii_lowercase (trim_matches (CHR ''.'') host)) d))"
  by (auto simp: sets_for_def Let_def list_ex_iff split: if_splits)

lemma ipset_step_inv:
  assumes snd: "ipset_sound run mem" and inv: "ipset_inv mem m k"
    and st: "ipset_step run (s, a) (n, m, k) = (n', m', k')"
  shows "ipset_inv mem m' k' \<and> im_rules m' = im_rules m
    \<and> (\<forall>s' a'. mem k' s' a' \<longrightarrow> mem k s' a' \<or> s' = s \<and> a' = a) \<and> (\<forall>s' a'. mem k s' a' \<longrightarrow> mem k' s' a')
    \<and> (fst (run s a k) \<longrightarrow> mem k' s a)"
proof -
  define seen where "seen = (if card (im_seen m) \<ge> MAX_REMEMBERED then {} else im_seen m)"
  have seen: "\<forall>(s, a) \<in> seen. mem k s a" "finite seen" "card seen < MAX_REMEMBERED"
    using inv by (auto simp: seen_def ipset_inv_def MAX_REMEMBERED_def)
  then have card: "card (insert (s, a) seen) \<le> MAX_REMEMBERED" using card_insert_le_m1 by (simp add: card_insert_if)
  note law = snd [unfolded ipset_sound_def, rule_format, of s a k]
  consider (known) "(s, a) \<in> seen" "m' = m\<lparr>im_seen := seen\<rparr>" "k' = k"
    | (added) "(s, a) \<notin> seen" "fst (run s a k)" "m' = m\<lparr>im_seen := insert (s, a) seen\<rparr>" "k' = snd (run s a k)"
    | (failed) "(s, a) \<notin> seen" "\<not> fst (run s a k)" "m' = m\<lparr>im_seen := seen\<rparr>" "k' = snd (run s a k)"
    using st by (auto simp: ipset_step_def ipset_remember_def ipset_forget_def Let_def insert_absorb seen_def [symmetric]
      split: prod.splits bool.splits if_splits)
  then show ?thesis
  proof cases
    case known
    then show ?thesis using seen by (auto simp: ipset_inv_def)
  next
    case added
    then show ?thesis using seen card law by (auto simp: ipset_inv_def)
  next
    case failed
    then show ?thesis using seen law by (auto simp: ipset_inv_def)
  qed
qed

lemma ipset_fold_inv:
  assumes "ipset_sound run mem" "ipset_inv mem m k" "fold (ipset_step run) ps (n, m, k) = (n', m', k')"
  shows "ipset_inv mem m' k' \<and> im_rules m' = im_rules m
    \<and> (\<forall>s a. mem k' s a \<longrightarrow> mem k s a \<or> (s, a) \<in> set ps) \<and> (\<forall>s a. mem k s a \<longrightarrow> mem k' s a)
    \<and> ((\<forall>s a k. fst (run s a k)) \<longrightarrow> (\<forall>(s, a) \<in> set ps. mem k' s a))"
  using assms(2,3)
proof (induction ps arbitrary: n m k)
  case (Cons p ps)
  obtain s a where p: "p = (s, a)" by (cases p)
  obtain n1 m1 k1 where st: "ipset_step run (s, a) (n, m, k) = (n1, m1, k1)" by (cases "ipset_step run (s, a) (n, m, k)") auto
  note i = ipset_step_inv [OF assms(1) Cons.prems(1) st]
  have "fold (ipset_step run) ps (n1, m1, k1) = (n', m', k')" using Cons.prems(2) p st by simp
  note j = Cons.IH [OF conjunct1 [OF i] this]
  show ?case using i j p by auto
qed auto

text \<open>
  C21. The kernel's sets hold what the configuration asks for: adding an answer's addresses puts into
  the kernel only pairs of a set configured for the name or one of its parents and an address of the
  answer, takes nothing out, and, as long as the command works, puts all of them there.  What the
  cache remembers is always in the kernel, also when the command fails or the cache was emptied, so
  an addition that failed is tried again; the cache never exceeds its bound.
\<close>

theorem ipset_kernel_exact:
  assumes "ipset_sound run mem" "ipset_inv mem m k" "ipset_add run host addrs m k = (n, m', k')"
  shows "ipset_inv mem m' k'
    \<and> (\<forall>s a. mem k s a \<longrightarrow> mem k' s a)
    \<and> (\<forall>s a. mem k' s a \<longrightarrow> mem k s a \<or> s \<in> set (sets_for m host) \<and> a \<in> set addrs)
    \<and> ((\<forall>s a k. fst (run s a k)) \<longrightarrow> (\<forall>s \<in> set (sets_for m host). \<forall>a \<in> set addrs. mem k' s a))"
proof (cases "addrs = [] \<or> sets_for m host = []")
  case True
  then have "m' = m" "k' = k" using assms(3) by (auto simp: ipset_add_def Let_def split: if_splits)
  then show ?thesis using assms(2) True by auto
next
  case False
  then have "fold (ipset_step run) [(s, a). s \<leftarrow> sets_for m host, a \<leftarrow> addrs] (0, m, k) = (n, m', k')"
    using assms(3) by (simp add: ipset_add_def Let_def)
  note f = ipset_fold_inv [OF assms(1,2) this]
  then show ?thesis by auto
qed

definition w_run :: "str \<Rightarrow> ip_addr \<Rightarrow> (str \<times> ip_addr) list \<Rightarrow> bool \<times> (str \<times> ip_addr) list" where
  "w_run s a k = (True, (s, a) # k)"

definition w_manager :: ipset_manager where
  "w_manager = \<lparr>im_rules = parse_ipset [''example.com,Example.net/allow4, allow6 # note'', ''bad''], im_seen = {}\<rparr>"

lemma w_sets: "sets_for w_manager ''www.EXAMPLE.net.'' = [''allow4'', ''allow6'']"
  by code_simp

theorem ipset_kernel_exact_witness:
  "let k = snd (snd (ipset_add w_run ''www.EXAMPLE.net.'' [V4 1, V4 2] w_manager []))
   in set k = {''allow4'', ''allow6''} \<times> {V4 1, V4 2}"
proof -
  let ?r = "ipset_add w_run ''www.EXAMPLE.net.'' [V4 1, V4 2] w_manager []"
  let ?mem = "\<lambda>k s a. (s, a) \<in> set k"
  have "ipset_sound w_run ?mem" by (auto simp: ipset_sound_def w_run_def)
  moreover have "ipset_inv ?mem w_manager []" by (simp add: ipset_inv_def w_manager_def)
  ultimately show ?thesis
    using ipset_kernel_exact [of w_run ?mem w_manager "[]" "''www.EXAMPLE.net.''" "[V4 1, V4 2]" "fst ?r" "fst (snd ?r)" "snd (snd ?r)"]
    by (auto simp: w_sets w_run_def)
qed

end
