(* ===== verification/Querylog.thy ===== *)
theory Querylog
  imports Utf8 Reason Name Ipaddr
begin

text \<open>
  The query log of sift-querylog: the entry (\<open>entry.rs\<close>) and the log itself (\<open>log.rs\<close>), an
  in-memory buffer and ring backed by the current file and the rotated one.

  The two files are fields of the log, since nothing else writes them; \<open>None\<close> is a file that does
  not exist.  The JSON text of an entry is what \<open>serde_json\<close> makes of it: a parameter \<open>json_codec\<close>,
  with the law \<open>json_ok\<close> that a text it wrote is one line of UTF-8 that reads back.  What the
  operating system answers is an argument (\<open>flush_io\<close>, \<open>read_io\<close>), so that every \<open>?\<close> of the code is
  a branch here; the clock and \<open>jiff\<close>'s parser are arguments too.
\<close>

section \<open>Entries\<close>

datatype client_proto = PlainDns | Doh | Doq | Dot | DnsCrypt

fun client_proto_str :: "client_proto \<Rightarrow> str" where
  "client_proto_str PlainDns = ''''"
| "client_proto_str Doh = ''doh''"
| "client_proto_str Doq = ''doq''"
| "client_proto_str Dot = ''dot''"
| "client_proto_str DnsCrypt = ''dnscrypt''"

record result_rule =
  qr_text :: str
  qr_ip :: "ip_addr option"
  qr_filter_list_id :: int

text \<open>\<open>serde_json::Value\<close>; a number is its text.\<close>

datatype json_value = JNull | JBool bool | JNumber str | JString str | JArray "json_value list"
  | JObject "(str \<times> json_value) list"

record dns_rewrite_result =
  dr_rcode :: u16
  dr_response :: "json_value option"

record entry_result =
  er_dns_rewrite_result :: "dns_rewrite_result option"
  er_canon_name :: str
  er_service_name :: str
  er_ip_list :: "ip_addr list"
  er_rules :: "result_rule list"
  er_reason :: reason
  er_is_filtered :: bool

definition entry_result_default :: entry_result where
  "entry_result_default = \<lparr>er_dns_rewrite_result = None, er_canon_name = [], er_service_name = [],
     er_ip_list = [], er_rules = [], er_reason = NotFilteredNotFound, er_is_filtered = False\<rparr>"

record log_entry =
  qe_time :: str
  qe_question_host :: str
  qe_question_type :: str
  qe_question_class :: str
  qe_req_ecs :: str
  qe_client_id :: str
  qe_client_proto :: client_proto
  qe_upstream :: str
  qe_answer :: "str option"
  qe_orig_answer :: "str option"
  qe_ip :: str
  qe_result :: entry_result
  qe_elapsed :: u64
  qe_cached :: bool
  qe_authenticated_data :: bool

text \<open>What the code uses of \<open>serde_json\<close>.\<close>

record json_codec =
  js_to_string :: "log_entry \<Rightarrow> str option"
  js_from_str :: "str \<Rightarrow> log_entry option"

definition to_line :: "json_codec \<Rightarrow> log_entry \<Rightarrow> str option" where
  "to_line J e = map_option (\<lambda>s. s @ [CHR 0x0A]) (js_to_string J e)"

definition from_line :: "json_codec \<Rightarrow> str \<Rightarrow> log_entry option" where
  "from_line J s = js_from_str J s"

text \<open>
  The documented behaviour of \<open>serde_json\<close> the log relies on, for one entry: \<open>to_string\<close> gives a
  non-empty compact text without a line break, and \<open>from_str\<close> reads it back.
\<close>

definition json_ok :: "json_codec \<Rightarrow> log_entry \<Rightarrow> bool" where
  "json_ok J e \<longleftrightarrow> (case js_to_string J e of None \<Rightarrow> False
     | Some s \<Rightarrow> s \<noteq> [] \<and> valid_str s \<and> CHR 0x0A \<notin> set s \<and> js_from_str J (trim s) = Some e)"

section \<open>The log\<close>

record ql_config =
  qc_enabled :: bool
  qc_file_enabled :: bool
  qc_size_memory :: nat
  qc_ignored :: "str list"
  qc_ignored_enabled :: bool
  qc_anonymize_client_ip :: bool

definition ql_config_default :: ql_config where
  "ql_config_default = \<lparr>qc_enabled = True, qc_file_enabled = True, qc_size_memory = 1000, qc_ignored = [],
     qc_ignored_enabled = False, qc_anonymize_client_ip = False\<rparr>"

record query_log =
  ql_path :: "u8 list option"
  ql_rotated :: "u8 list option"
  ql_cfg :: ql_config
  ql_pending :: "log_entry list"
  ql_recent :: "log_entry list"

definition RECENT_CAP :: nat where "RECENT_CAP = 5000"

definition query_log_new :: "u8 list option \<Rightarrow> u8 list option \<Rightarrow> ql_config \<Rightarrow> query_log" where
  "query_log_new path rotated c =
     \<lparr>ql_path = path, ql_rotated = rotated, ql_cfg = c, ql_pending = [], ql_recent = []\<rparr>"

definition ql_set_config :: "ql_config \<Rightarrow> query_log \<Rightarrow> query_log" where
  "ql_set_config c l = l\<lparr>ql_cfg := c\<rparr>"

definition is_ignored :: "ql_config \<Rightarrow> str \<Rightarrow> bool" where
  "is_ignored c host \<longleftrightarrow>
     (if \<not> qc_ignored_enabled c then False
      else list_ex (\<lambda>i. i = ''.'' \<or> is_subdomain_of host (to_ascii_lowercase i)) (qc_ignored c))"

text \<open>
  What the system answers to a flush: whether the directory can be made and the file opened, and,
  when the write fails, how many bytes had reached the file.
\<close>

record flush_io =
  fi_dir :: bool
  fi_open :: bool
  fi_fails_at :: "nat option"

definition flush_ok :: flush_io where
  "flush_ok = \<lparr>fi_dir = True, fi_open = True, fi_fails_at = None\<rparr>"

datatype 'a io_result = IoOk 'a | IoErr

definition flush :: "json_codec \<Rightarrow> flush_io \<Rightarrow> query_log \<Rightarrow> nat io_result \<times> query_log" where
  "flush J io l =
     (if ql_pending l = [] then (IoOk 0, l)
      else let batch = ql_pending l; l = l\<lparr>ql_pending := []\<rparr> in
        if \<not> fi_dir io then (IoErr, l)
        else if \<not> fi_open io then (IoErr, l)
        else
          let old = (case ql_path l of None \<Rightarrow> [] | Some f \<Rightarrow> f);
              written = List.map_filter (to_line J) batch;
              bytes = as_bytes (concat written)
          in case fi_fails_at io of
               None \<Rightarrow> (IoOk (length written), l\<lparr>ql_path := Some (old @ bytes)\<rparr>)
             | Some n \<Rightarrow> (IoErr, l\<lparr>ql_path := Some (old @ take n bytes)\<rparr>))"

definition push :: "json_codec \<Rightarrow> flush_io \<Rightarrow> log_entry \<Rightarrow> query_log \<Rightarrow> bool \<times> query_log" where
  "push J io e l =
     (if \<not> qc_enabled (ql_cfg l) \<or> is_ignored (ql_cfg l) (qe_question_host e) then (False, l)
      else
        let recent = e # ql_recent l;
            l = l\<lparr>ql_recent := (if length recent > RECENT_CAP then butlast recent else recent)\<rparr>
        in if \<not> qc_file_enabled (ql_cfg l) then (True, l)
           else let l = l\<lparr>ql_pending := ql_pending l @ [e]\<rparr> in
             if length (ql_pending l) \<ge> max (qc_size_memory (ql_cfg l)) 1 then (True, snd (flush J io l))
             else (True, l))"

text \<open>\<open>rename\<close> answers whether the move of the file over the rotated one succeeds.\<close>

definition rotate_log :: "json_codec \<Rightarrow> flush_io \<Rightarrow> bool \<Rightarrow> query_log \<Rightarrow> unit io_result \<times> query_log" where
  "rotate_log J io rename l =
     (case flush J io l of
        (IoErr, l) \<Rightarrow> (IoErr, l)
      | (IoOk _, l) \<Rightarrow>
          if ql_path l = None then (IoOk (), l)
          else if rename then (IoOk (), l\<lparr>ql_path := None, ql_rotated := ql_path l\<rparr>)
          else (IoErr, l))"

definition T_KEY :: str where
  "T_KEY = [CHR 0x22, CHR ''T'', CHR 0x22, CHR '':'', CHR 0x22]"

definition first_entry_secs :: "(str \<Rightarrow> int option) \<Rightarrow> u8 list option \<Rightarrow> int option" where
  "first_entry_secs parse_rfc3339_secs path =
     (case path of
        None \<Rightarrow> None
      | Some f \<Rightarrow>
          let head = map (\<lambda>b. char_of (unat b)) (from_utf8_lossy (take 512 f)) in
          case find_str T_KEY head of
            None \<Rightarrow> None
          | Some i \<Rightarrow>
              let rest = drop (i + length T_KEY) head in
              case find_char (CHR 0x22) rest of
                None \<Rightarrow> None
              | Some j \<Rightarrow> parse_rfc3339_secs (take j rest))"

definition i64_saturating_add :: "int \<Rightarrow> int \<Rightarrow> int" where
  "i64_saturating_add a b = max (- (2 ^ 63)) (min (2 ^ 63 - 1) (a + b))"

text \<open>\<open>interval\<close> in seconds is a \<open>u64\<close> cast to \<open>i64\<close>; \<open>now\<close> is the wall clock in seconds.\<close>

definition rotate_if_due ::
  "json_codec \<Rightarrow> (str \<Rightarrow> int option) \<Rightarrow> flush_io \<Rightarrow> bool \<Rightarrow> int \<Rightarrow> u64 \<Rightarrow> query_log \<Rightarrow> bool io_result \<times> query_log" where
  "rotate_if_due J parse_rfc3339_secs io rename now interval l =
     (case first_entry_secs parse_rfc3339_secs (ql_path l) of
        None \<Rightarrow> (IoOk False, l)
      | Some oldest \<Rightarrow>
          if i64_saturating_add oldest (sint interval) > now then (IoOk False, l)
          else (case rotate_log J io rename l of
                  (IoErr, l) \<Rightarrow> (IoErr, l)
                | (IoOk _, l) \<Rightarrow> (IoOk True, l)))"

text \<open>\<open>rm\<close> answers whether the removal of an existing file succeeds: the current, then the rotated.\<close>

definition ql_clear :: "bool \<Rightarrow> bool \<Rightarrow> query_log \<Rightarrow> unit io_result \<times> query_log" where
  "ql_clear rm_path rm_rotated l =
     (let l = l\<lparr>ql_pending := [], ql_recent := []\<rparr> in
      if ql_path l \<noteq> None \<and> \<not> rm_path then (IoErr, l)
      else let l = l\<lparr>ql_path := None\<rparr> in
        if ql_rotated l \<noteq> None \<and> \<not> rm_rotated then (IoErr, l)
        else (IoOk (), l\<lparr>ql_rotated := None\<rparr>))"

section \<open>Reading\<close>

text \<open>\<open>slice::split\<close> on a byte.\<close>

fun split_bytes :: "u8 \<Rightarrow> u8 list \<Rightarrow> u8 list list" where
  "split_bytes c [] = [[]]"
| "split_bytes c (b # bs) =
     (if b = c then [] # split_bytes c bs
      else case split_bytes c bs of [] \<Rightarrow> [[b]] | p # ps \<Rightarrow> (b # p) # ps)"

definition NL :: u8 where "NL = 10"

definition decode_line :: "json_codec \<Rightarrow> u8 list \<Rightarrow> log_entry option" where
  "decode_line J line =
     (if line = [] then None
      else case from_utf8 line of None \<Rightarrow> None | Some t \<Rightarrow> from_line J (trim t))"

text \<open>The body of the loop over a chunk's lines: \<open>skipped\<close> and \<open>out\<close> are its variables.\<close>

fun tail_lines :: "json_codec \<Rightarrow> nat \<Rightarrow> nat \<Rightarrow> nat \<Rightarrow> log_entry list \<Rightarrow> u8 list list \<Rightarrow> nat \<times> log_entry list" where
  "tail_lines J offset limit skipped out [] = (skipped, out)"
| "tail_lines J offset limit skipped out (line # ls) =
     (case decode_line J line of
        None \<Rightarrow> tail_lines J offset limit skipped out ls
      | Some e \<Rightarrow>
          if skipped < offset then tail_lines J offset limit (skipped + 1) out ls
          else let out = out @ [e] in
            if length out \<ge> limit then (skipped, out) else tail_lines J offset limit skipped out ls)"

definition CHUNK :: nat where "CHUNK = 65536"

text \<open>\<open>split_head\<close> is the part before and including the first line break, unless the file's start is reached.\<close>

definition split_head :: "nat \<Rightarrow> u8 list \<Rightarrow> u8 list \<times> u8 list" where
  "split_head pos buf =
     (case position (\<lambda>b. b = NL) buf of
        Some i \<Rightarrow> if pos > 0 then (take (i + 1) buf, drop (i + 1) buf) else ([], buf)
      | None \<Rightarrow> ([], buf))"

record read_io =
  ri_open :: bool
  ri_chunk :: "nat \<Rightarrow> bool"

definition read_ok :: read_io where
  "read_ok = \<lparr>ri_open = True, ri_chunk = (\<lambda>_. True)\<rparr>"

function tail_loop ::
  "json_codec \<Rightarrow> (nat \<Rightarrow> bool) \<Rightarrow> u8 list \<Rightarrow> nat \<Rightarrow> nat \<Rightarrow> nat \<Rightarrow> u8 list \<Rightarrow> nat \<Rightarrow> log_entry list \<Rightarrow> log_entry list" where
  "tail_loop J ok f offset limit pos carry skipped out =
     (if pos = 0 \<or> length out \<ge> limit then out
      else let n = min CHUNK pos; pos' = pos - n in
        if \<not> ok pos' then out
        else case split_head pos' (take n (drop pos' f) @ carry) of
          (head, body) \<Rightarrow>
            (case tail_lines J offset limit skipped out (rev (split_bytes NL body)) of
               (skipped, out) \<Rightarrow> tail_loop J ok f offset limit pos' head skipped out))"
  by pat_completeness auto
termination
  by (relation "measure (\<lambda>(J, ok, f, offset, limit, pos, carry, skipped, out). pos)")
    (auto simp: CHUNK_def)

declare tail_loop.simps [simp del]

definition read_tail :: "json_codec \<Rightarrow> read_io \<Rightarrow> u8 list option \<Rightarrow> nat \<Rightarrow> nat \<Rightarrow> log_entry list" where
  "read_tail J io path offset limit =
     (if limit = 0 then []
      else case path of
        None \<Rightarrow> []
      | Some f \<Rightarrow> if \<not> ri_open io then [] else tail_loop J (ri_chunk io) f offset limit (length f) [] 0 [])"

definition ql_read :: "json_codec \<Rightarrow> read_io \<Rightarrow> read_io \<Rightarrow> nat \<Rightarrow> nat \<Rightarrow> query_log \<Rightarrow> log_entry list" where
  "ql_read J io io' offset limit l =
     (let out = take limit (drop offset (ql_recent l)) in
      if length out \<ge> limit then out
      else
        let already = length (ql_recent l);
            file_offset = offset - already;
            want = limit - length out;
            out = out @ read_tail J io (ql_path l) file_offset (want - length out)
        in if length out \<ge> limit then out
           else out @ read_tail J io' (ql_rotated l) file_offset (want - length out))"

definition buffered :: "query_log \<Rightarrow> nat" where
  "buffered l = length (ql_pending l)"

section \<open>Reading a file backwards\<close>

text \<open>What a reader of the whole file sees: the entries of its lines, oldest first.\<close>

definition entries_of :: "json_codec \<Rightarrow> u8 list \<Rightarrow> log_entry list" where
  "entries_of J f = List.map_filter (decode_line J) (split_bytes NL f)"

lemma split_bytes_nonempty [simp]: "split_bytes c bs \<noteq> []"
  by (induction bs) (auto split: list.splits)

lemma split_bytes_append: "split_bytes c (a @ c # b) = split_bytes c a @ split_bytes c b"
proof (induction a)
  case (Cons x a)
  then show ?case by (cases "split_bytes c a") auto
qed simp

lemma split_bytes_absent: "c \<notin> set a \<Longrightarrow> split_bytes c a = [a]"
  by (induction a) auto

lemma decode_line_Nil [simp]: "decode_line J [] = None"
  by (simp add: decode_line_def)

lemma entries_of_Nil [simp]: "entries_of J [] = []"
  by (simp add: entries_of_def List.map_filter_def)

lemma entries_of_append: "entries_of J (a @ NL # b) = entries_of J a @ entries_of J b"
  by (simp add: entries_of_def split_bytes_append map_filter_append)

lemma entries_of_terminated: "a = [] \<or> last a = NL \<Longrightarrow> entries_of J (a @ b) = entries_of J a @ entries_of J b"
  by (cases a rule: rev_cases) (auto simp: entries_of_append)

lemma map_filter_rev: "List.map_filter g (rev xs) = rev (List.map_filter g xs)"
  by (simp add: List.map_filter_def rev_map [symmetric] rev_filter [symmetric])

text \<open>The loop over the lines: it skips, then collects, and stops at the limit.\<close>

lemma tail_lines_entries:
  assumes "length out < limit" "skipped \<le> offset" "out = [] \<or> skipped = offset"
    "es = List.map_filter (decode_line J) ls"
  shows "snd (tail_lines J offset limit skipped out ls) = take limit (out @ drop (offset - skipped) es)
    \<and> (length (out @ drop (offset - skipped) es) < limit
         \<longrightarrow> fst (tail_lines J offset limit skipped out ls) = min offset (skipped + length es))"
  using assms
proof (induction ls arbitrary: skipped out es)
  case (Cons line ls)
  show ?case
  proof (cases "decode_line J line")
    case None
    with Cons show ?thesis by (simp add: List.map_filter_def)
  next
    case (Some e)
    define es' where "es' = List.map_filter (decode_line J) ls"
    have es: "es = e # es'" using Cons.prems(4) Some by (simp add: List.map_filter_def es'_def)
    show ?thesis
    proof (cases "skipped < offset")
      case True
      then have "out = []" using Cons.prems(3) by simp
      moreover have "offset - skipped = Suc (offset - Suc skipped)" using True by simp
      ultimately show ?thesis
        using Cons.IH [of out "skipped + 1" es'] Cons.prems True Some es by (simp add: es'_def)
    next
      case False
      then have [simp]: "skipped = offset" using Cons.prems(2) by simp
      show ?thesis
      proof (cases "length (out @ [e]) \<ge> limit")
        case True
        then have "limit = length (out @ [e])" using Cons.prems(1) by simp
        then show ?thesis using Some es by simp
      next
        case False
        then show ?thesis using Cons.IH [of "out @ [e]" skipped es'] Some es by (simp add: es'_def)
      qed
    qed
  qed
qed (simp add: List.map_filter_def)

lemma position_NL_Some:
  "position (\<lambda>b. b = NL) buf = Some i \<Longrightarrow> i < length buf \<and> take (i + 1) buf = take i buf @ [NL] \<and> NL \<notin> set (take i buf)"
  by (auto simp: position_Some take_Suc_conv_app_nth in_set_conv_nth)

lemma split_head_append: "split_head pos buf = (head, body) \<Longrightarrow> head @ body = buf"
  by (auto simp: split_head_def split: option.splits if_splits)

lemma split_head_start: "split_head 0 buf = (head, body) \<Longrightarrow> head = []"
  by (auto simp: split_head_def split: option.splits)

lemma split_head_line:
  assumes "split_head pos buf = (head, body)" "pos > 0" "NL \<in> set buf"
  shows "head \<noteq> [] \<and> last head = NL"
proof -
  obtain i where i: "position (\<lambda>b. b = NL) buf = Some i"
    using assms(3) by (metis (mono_tags, lifting) not_Some_eq position_None)
  then show ?thesis using assms position_NL_Some [OF i] by (auto simp: split_head_def)
qed

text \<open>
  The loop's invariant: the file is what is still to be read, the carry and \<open>seen\<close>, whose entries are
  dealt with; the carry is a whole line's end, unless nothing has been read.
\<close>

definition tail_inv :: "json_codec \<Rightarrow> u8 list \<Rightarrow> nat \<Rightarrow> nat \<Rightarrow> nat \<Rightarrow> u8 list \<Rightarrow> nat \<Rightarrow> log_entry list \<Rightarrow> u8 list \<Rightarrow> bool" where
  "tail_inv J f offset limit pos carry skipped out seen \<longleftrightarrow>
     pos \<le> length f \<and> f = take pos f @ carry @ seen
       \<and> (pos = length f \<or> pos = 0 \<or> carry \<noteq> [] \<and> last carry = NL)
       \<and> out = take limit (drop offset (rev (entries_of J seen)))
       \<and> (length out < limit \<longrightarrow> skipped = min offset (length (entries_of J seen)))
       \<and> (pos = 0 \<longrightarrow> carry = [])"

lemma tail_inv_step:
  assumes inv: "tail_inv J f offset limit pos carry skipped out seen"
    and go: "pos > 0" "length out < limit"
    and nl: "length f \<le> CHUNK \<or> NL \<in> set (drop (length f - CHUNK) f)"
    and pos': "pos' = pos - min CHUNK pos"
    and sh: "split_head pos' (take (min CHUNK pos) (drop pos' f) @ carry) = (head, body)"
    and tl: "tail_lines J offset limit skipped out (rev (split_bytes NL body)) = (skipped', out')"
  shows "tail_inv J f offset limit pos' head skipped' out' (body @ seen)"
proof -
  let ?buf = "take (min CHUNK pos) (drop pos' f) @ carry"
  from inv have le: "pos \<le> length f" and f: "f = take pos f @ carry @ seen"
    and car: "pos = length f \<or> carry \<noteq> [] \<and> last carry = NL"
    and out: "out = take limit (drop offset (rev (entries_of J seen)))"
    and sk: "skipped = min offset (length (entries_of J seen))"
    using go by (auto simp: tail_inv_def)
  have tk: "take pos f = take pos' f @ take (min CHUNK pos) (drop pos' f)"
    using pos' by (metis le_add_diff_inverse2 min.cobounded2 take_add)
  have hb: "head @ body = ?buf" by (rule split_head_append [OF sh])
  have f': "f = take pos' f @ head @ body @ seen"
    using f tk hb by (metis append.assoc)
  have start: "carry = [] \<and> seen = []" if "pos = length f" using f that by simp
  have has: "NL \<in> set ?buf" if "pos' > 0"
  proof (cases "pos = length f")
    case True
    then have "\<not> length f \<le> CHUNK" "pos' = length f - CHUNK" using that pos' by auto
    then show ?thesis using nl start True pos' by simp
  next
    case False
    then show ?thesis using car by (metis Un_iff last_in_set set_append)
  qed
  have hd0: "pos' = 0 \<longrightarrow> head = []" using sh split_head_start by blast
  have hdn: "pos' > 0 \<Longrightarrow> head \<noteq> [] \<and> last head = NL" using split_head_line [OF sh] has by blast
  have ends: "seen = [] \<or> body = [] \<or> last body = NL"
  proof (cases "pos = length f")
    case False
    then have c: "carry \<noteq> []" "last carry = NL" using car by auto
    then have "last ?buf = NL" by simp
    then show ?thesis using hb by (metis last_appendR)
  qed (simp add: start)
  have ent: "entries_of J (body @ seen) = entries_of J body @ entries_of J seen"
    using ends by (auto simp: entries_of_terminated)
  let ?es = "rev (entries_of J body)"
  have es: "?es = List.map_filter (decode_line J) (rev (split_bytes NL body))"
    by (simp add: entries_of_def map_filter_rev)
  have o: "out = drop offset (rev (entries_of J seen))" using out go by auto
  have "skipped \<le> offset" "out = [] \<or> skipped = offset" using sk o by auto
  note t = tail_lines_entries [OF go(2) this es, unfolded tl fst_conv snd_conv]
  have all: "out @ drop (offset - skipped) ?es = drop offset (rev (entries_of J (body @ seen)))"
    unfolding ent using o sk by (simp add: min_def)
  have out': "out' = take limit (drop offset (rev (entries_of J (body @ seen))))"
    using t all by simp
  moreover have "length out' < limit \<longrightarrow> skipped' = min offset (length (entries_of J (body @ seen)))"
  proof
    assume "length out' < limit"
    then have "length (out @ drop (offset - skipped) ?es) < limit" unfolding out' all by simp
    then have "skipped' = min offset (skipped + length ?es)" using t by blast
    then show "skipped' = min offset (length (entries_of J (body @ seen)))" unfolding ent sk by simp
  qed
  moreover have "pos' \<le> length f" using le pos' by simp
  moreover have "pos' = length f \<or> pos' = 0 \<or> head \<noteq> [] \<and> last head = NL" using hdn by blast
  ultimately show ?thesis
    unfolding tail_inv_def using f' hd0 by (intro conjI) assumption+
qed

lemma tail_loop_inv:
  assumes "tail_inv J f offset limit pos carry skipped out seen"
    and "length f \<le> CHUNK \<or> NL \<in> set (drop (length f - CHUNK) f)"
    and "\<And>p. ok p"
  shows "tail_loop J ok f offset limit pos carry skipped out = take limit (drop offset (rev (entries_of J f)))"
  using assms
proof (induction J ok f offset limit pos carry skipped out arbitrary: seen rule: tail_loop.induct)
  case (1 J ok f offset limit pos carry skipped out)
  show ?case
  proof (cases "pos = 0 \<or> length out \<ge> limit")
    case False
    define pos' where "pos' = pos - min CHUNK pos"
    obtain head body where sh: "split_head pos' (take (min CHUNK pos) (drop pos' f) @ carry) = (head, body)"
      by fastforce
    obtain sk' out' where tl: "tail_lines J offset limit skipped out (rev (split_bytes NL body)) = (sk', out')"
      by fastforce
    have "tail_inv J f offset limit pos' head sk' out' (body @ seen)"
      using tail_inv_step [OF "1.prems"(1) _ _ "1.prems"(2) pos'_def sh tl] False by simp
    from "1.IH" [OF False refl pos'_def _ sh [symmetric] tl [symmetric] this "1.prems"(2,3)]
    have r: "tail_loop J ok f offset limit pos' head sk' out' = take limit (drop offset (rev (entries_of J f)))"
      using "1.prems"(3) by blast
    show ?thesis
      using False "1.prems"(3) [of pos'] sh tl r
      by (subst tail_loop.simps) (simp only: Let_def pos'_def [symmetric] if_False case_prod_conv not_True_eq_False)
  next
    case True
    from "1.prems"(1) have f: "f = take pos f @ carry @ seen" and c: "pos = 0 \<longrightarrow> carry = []"
      and out: "out = take limit (drop offset (rev (entries_of J seen)))"
      by (auto simp: tail_inv_def)
    show ?thesis
    proof (cases "pos = 0")
      case True
      then show ?thesis using f c out by (simp add: tail_loop.simps)
    next
      case False
      then have full: "length out \<ge> limit" using True by simp
      show ?thesis
      proof (cases "limit = 0")
        case True
        then show ?thesis using out by (simp add: tail_loop.simps)
      next
        case False
        then have "seen \<noteq> []" using full out by auto
        then have "pos \<noteq> length f" using f by auto
        then have "last (take pos f @ carry) = NL" using "1.prems"(1) \<open>pos \<noteq> 0\<close> by (auto simp: tail_inv_def)
        then have "entries_of J ((take pos f @ carry) @ seen) = entries_of J (take pos f @ carry) @ entries_of J seen"
          by (intro entries_of_terminated) simp
        then have "entries_of J f = entries_of J (take pos f @ carry) @ entries_of J seen" using f by simp
        moreover have "limit \<le> length (drop offset (rev (entries_of J seen)))" using full out by simp
        ultimately show ?thesis using full out by (simp add: tail_loop.simps)
      qed
    qed
  qed
qed

text \<open>Files the loop reads exactly: a line break in the last chunk, as every file the log wrote has.\<close>

definition tail_ok :: "u8 list \<Rightarrow> bool" where
  "tail_ok f \<longleftrightarrow> length f \<le> CHUNK \<or> NL \<in> set (drop (length f - CHUNK) f)"

definition terminated :: "u8 list \<Rightarrow> bool" where
  "terminated f \<longleftrightarrow> f = [] \<or> last f = NL"

lemma terminated_tail_ok: "terminated f \<Longrightarrow> tail_ok f"
proof (cases "length f \<le> CHUNK")
  case False
  assume "terminated f"
  then have "last (drop (length f - CHUNK) f) = NL" "drop (length f - CHUNK) f \<noteq> []"
    using False by (auto simp: terminated_def CHUNK_def)
  then have "NL \<in> set (drop (length f - CHUNK) f)" by (metis last_in_set)
  then show ?thesis by (simp add: tail_ok_def)
qed (simp add: tail_ok_def)

lemma read_tail_entries:
  assumes "tail_ok f"
  shows "read_tail J read_ok (Some f) offset limit = take limit (drop offset (rev (entries_of J f)))"
proof -
  have "tail_inv J f offset limit (length f) [] 0 [] []" by (simp add: tail_inv_def)
  then have "tail_loop J (ri_chunk read_ok) f offset limit (length f) [] 0 [] = take limit (drop offset (rev (entries_of J f)))"
    using assms by (intro tail_loop_inv) (simp_all add: tail_ok_def read_ok_def)
  then show ?thesis by (simp add: read_tail_def read_ok_def)
qed

lemma read_tail_None [simp]: "read_tail J io None offset limit = []"
  by (simp add: read_tail_def)

text \<open>
  C19. Reading a log file from its end, in chunks of 64 KiB, gives what reading the whole file would:
  the entries of its lines, newest first, less the first \<open>offset\<close> and cut at \<open>limit\<close>.  No line that
  crosses a chunk boundary is lost or split, however long; lines that are not UTF-8 or not an entry
  are passed over and do not count.
\<close>

theorem read_tail_exact:
  assumes "tail_ok f"
  shows "read_tail J read_ok (Some f) offset limit = take limit (drop offset (rev (entries_of J f)))"
  by (rule read_tail_entries [OF assms])

section \<open>Nothing accepted is lost\<close>

definition file_of :: "u8 list option \<Rightarrow> u8 list" where
  "file_of p = (case p of None \<Rightarrow> [] | Some f \<Rightarrow> f)"

text \<open>The abstract log: the entries of the rotated file, of the current one, and those not yet written.\<close>

definition log_contents :: "json_codec \<Rightarrow> query_log \<Rightarrow> log_entry list" where
  "log_contents J l = entries_of J (file_of (ql_rotated l)) @ entries_of J (file_of (ql_path l)) @ ql_pending l"

definition accepted :: "ql_config \<Rightarrow> log_entry \<Rightarrow> bool" where
  "accepted c e \<longleftrightarrow> qc_enabled c \<and> \<not> is_ignored c (qe_question_host e)"

text \<open>What is kept by every operation: whole lines in the file, entries that can be written waiting.\<close>

definition log_inv :: "json_codec \<Rightarrow> query_log \<Rightarrow> bool" where
  "log_inv J l \<longleftrightarrow> terminated (file_of (ql_path l)) \<and> list_all (json_ok J) (ql_pending l)"

lemma of_char_NL: "(of_char c :: u8) = NL \<longleftrightarrow> c = CHR 0x0A"
proof -
  have "(of_char c :: u8) = NL \<longleftrightarrow> unat (of_char c :: u8) = unat NL" by (simp add: word_unat_eq_iff)
  also have "\<dots> \<longleftrightarrow> (of_char c :: nat) = of_char (CHR 0x0A)" by (simp add: unat_of_char NL_def)
  also have "\<dots> \<longleftrightarrow> c = CHR 0x0A" by (simp only: of_char_eq_iff)
  finally show ?thesis .
qed

lemma as_bytes_append [simp]: "as_bytes (a @ b) = as_bytes a @ as_bytes b"
  by (simp add: as_bytes_def)

lemma as_bytes_NL [simp]: "as_bytes (CHR 0x0A # s) = NL # as_bytes s"
  by (simp add: as_bytes_def NL_def)

lemma written_line:
  assumes "json_ok J e"
  obtains s where "to_line J e = Some (s @ [CHR 0x0A])" "entries_of J (as_bytes s) = [e]"
proof -
  obtain s where s: "js_to_string J e = Some s" "s \<noteq> []" "valid_str s" "CHR 0x0A \<notin> set s" "js_from_str J (trim s) = Some e"
    using assms by (auto simp: json_ok_def split: option.splits)
  have "NL \<notin> set (as_bytes s)" using s(4) by (auto simp: as_bytes_def of_char_NL dest!: sym [of NL])
  then have "entries_of J (as_bytes s) = List.map_filter (decode_line J) [as_bytes s]"
    by (simp add: entries_of_def split_bytes_absent)
  also have "\<dots> = [e]"
  proof -
    have "as_bytes s \<noteq> []" using s(2) by (simp add: as_bytes_def)
    then have "decode_line J (as_bytes s) = Some e"
      using s by (simp add: decode_line_def from_utf8_as_bytes from_line_def)
    then show ?thesis by (simp add: List.map_filter_def)
  qed
  finally have "entries_of J (as_bytes s) = [e]" .
  moreover have "to_line J e = Some (s @ [CHR 0x0A])" using s(1) by (simp add: to_line_def)
  ultimately show thesis using that by blast
qed

lemma written_batch:
  assumes "list_all (json_ok J) es" "terminated f"
  shows "entries_of J (f @ as_bytes (concat (List.map_filter (to_line J) es))) = entries_of J f @ es
    \<and> terminated (f @ as_bytes (concat (List.map_filter (to_line J) es)))"
  using assms
proof (induction es arbitrary: f)
  case (Cons e es)
  from Cons.prems have "json_ok J e" by simp
  then obtain s where s: "to_line J e = Some (s @ [CHR 0x0A])" "entries_of J (as_bytes s) = [e]"
    by (rule written_line)
  let ?f = "f @ as_bytes s @ [NL]"
  have "entries_of J ?f = entries_of J (f @ as_bytes s) @ []"
    using entries_of_append [of J "f @ as_bytes s" "[]"] by simp
  also have "\<dots> = entries_of J f @ [e]"
    using entries_of_terminated [of f J "as_bytes s"] Cons.prems(2) s(2) by (simp add: terminated_def)
  finally have f: "entries_of J ?f = entries_of J f @ [e]" .
  have "terminated ?f" by (simp add: terminated_def)
  note ih = Cons.IH [OF _ this] f
  have "f @ as_bytes (concat (List.map_filter (to_line J) (e # es))) = ?f @ as_bytes (concat (List.map_filter (to_line J) es))"
    using s(1) by (simp add: List.map_filter_def)
  then show ?case using ih Cons.prems(1) by simp
qed (simp add: List.map_filter_def as_bytes_def)

lemma flush_contents:
  assumes "log_inv J l" "flush J flush_ok l = (r, l')"
  shows "log_contents J l' = log_contents J l \<and> log_inv J l' \<and> ql_pending l' = [] \<and> ql_rotated l' = ql_rotated l
    \<and> ql_recent l' = ql_recent l \<and> ql_cfg l' = ql_cfg l"
proof (cases "ql_pending l = []")
  case True
  then show ?thesis using assms by (simp add: flush_def)
next
  case False
  let ?f = "file_of (ql_path l) @ as_bytes (concat (List.map_filter (to_line J) (ql_pending l)))"
  have l': "l' = l\<lparr>ql_pending := [], ql_path := Some ?f\<rparr>"
    using assms(2) False by (cases l) (auto simp: flush_def flush_ok_def Let_def file_of_def)
  have "entries_of J ?f = entries_of J (file_of (ql_path l)) @ ql_pending l \<and> terminated ?f"
    using assms(1) by (intro written_batch) (simp_all add: log_inv_def)
  then show ?thesis by (simp add: l' log_contents_def log_inv_def file_of_def)
qed

lemma push_contents:
  assumes "log_inv J l" "qc_file_enabled (ql_cfg l)" "json_ok J e" "push J flush_ok e l = (r, l')"
  shows "log_contents J l' = log_contents J l @ filter (accepted (ql_cfg l)) [e]
    \<and> log_inv J l' \<and> ql_cfg l' = ql_cfg l \<and> ql_rotated l' = ql_rotated l \<and> r = accepted (ql_cfg l) e"
proof (cases "accepted (ql_cfg l) e")
  case False
  then show ?thesis using assms by (auto simp: push_def accepted_def)
next
  case True
  define l1 where "l1 = l\<lparr>ql_recent := (if length (e # ql_recent l) > RECENT_CAP then butlast (e # ql_recent l) else e # ql_recent l),
    ql_pending := ql_pending l @ [e]\<rparr>"
  have l1: "log_contents J l1 = log_contents J l @ [e]" "log_inv J l1" "ql_cfg l1 = ql_cfg l" "ql_rotated l1 = ql_rotated l"
    using assms(1,3) by (simp_all add: l1_def log_contents_def log_inv_def)
  have "(r, l') = (True, l1) \<or> (r, l') = (True, snd (flush J flush_ok l1))"
    using assms(2,4) True by (cases l) (auto simp: push_def accepted_def l1_def Let_def split: if_splits)
  then show ?thesis
  proof
    assume "(r, l') = (True, snd (flush J flush_ok l1))"
    then show ?thesis using flush_contents [OF l1(2) prod.collapse [symmetric]] l1 True by simp
  qed (use l1 True in simp)
qed

definition push_all :: "json_codec \<Rightarrow> flush_io \<Rightarrow> log_entry list \<Rightarrow> query_log \<Rightarrow> query_log" where
  "push_all J io es l = fold (\<lambda>e l. snd (push J io e l)) es l"

lemma push_all_contents:
  assumes "log_inv J l" "qc_file_enabled (ql_cfg l)" "list_all (json_ok J) es"
  shows "log_contents J (push_all J flush_ok es l) = log_contents J l @ filter (accepted (ql_cfg l)) es
    \<and> log_inv J (push_all J flush_ok es l) \<and> ql_rotated (push_all J flush_ok es l) = ql_rotated l"
  using assms
proof (induction es arbitrary: l)
  case (Cons e es)
  let ?l = "snd (push J flush_ok e l)"
  have "json_ok J e" using Cons.prems(3) by simp
  note p = push_contents [OF Cons.prems(1,2) this prod.collapse [symmetric]]
  then show ?case using Cons.IH [of ?l] Cons.prems by (simp add: push_all_def)
qed (simp add: push_all_def)

lemma read_from_files:
  assumes "ql_recent l = []" "tail_ok (file_of (ql_path l))" "tail_ok (file_of (ql_rotated l))" "ql_pending l = []"
  shows "ql_read J read_ok read_ok 0 limit l = take limit (rev (log_contents J l))"
proof -
  have r: "read_tail J read_ok p 0 n = take n (rev (entries_of J (file_of p)))" if "tail_ok (file_of p)" for p n
    using that read_tail_entries [of "file_of p" J 0 n] by (cases p) (simp_all add: file_of_def)
  show ?thesis
    using assms by (simp add: ql_read_def Let_def r log_contents_def take_Cons' min_def)
qed

text \<open>
  C18. What the log accepted is there after a restart: take a log whose files hold whole lines, push
  entries (flushing whenever the buffer fills), flush, and open the files anew.  The first page then
  shows the accepted entries newest first, followed by what had been waiting, by the current file and
  by the rotated one; exactly the entries that are not ignored were accepted.
\<close>

theorem querylog_survives_restart:
  assumes "log_inv J l" "tail_ok (file_of (ql_rotated l))"
    and "qc_file_enabled (ql_cfg l)" "list_all (json_ok J) es"
    and "flush J flush_ok (push_all J flush_ok es l) = (r, l')"
  shows "ql_read J read_ok read_ok 0 limit (query_log_new (ql_path l') (ql_rotated l') c)
    = take limit (rev (filter (accepted (ql_cfg l)) es) @ rev (log_contents J l))"
proof -
  note p = push_all_contents [OF assms(1,3,4)]
  then have f: "log_contents J l' = log_contents J l @ filter (accepted (ql_cfg l)) es" "log_inv J l'"
    "ql_pending l' = []" "ql_rotated l' = ql_rotated l"
    using flush_contents [OF _ assms(5)] by auto
  have "log_contents J (query_log_new (ql_path l') (ql_rotated l') c) = log_contents J l'"
    using f(3) by (simp add: log_contents_def query_log_new_def)
  moreover have "tail_ok (file_of (ql_path l'))" using f(2) terminated_tail_ok by (simp add: log_inv_def)
  ultimately show ?thesis
    using read_from_files [of "query_log_new (ql_path l') (ql_rotated l') c" J limit] f assms(2)
    by (simp add: query_log_new_def)
qed

definition w_entry :: "str \<Rightarrow> log_entry" where
  "w_entry host = \<lparr>qe_time = ''2026-09-14T17:41:53Z'', qe_question_host = host, qe_question_type = ''A'',
     qe_question_class = ''IN'', qe_req_ecs = [], qe_client_id = [], qe_client_proto = PlainDns, qe_upstream = [],
     qe_answer = None, qe_orig_answer = None, qe_ip = ''127.0.0.1'', qe_result = entry_result_default,
     qe_elapsed = 1234, qe_cached = False, qe_authenticated_data = False\<rparr>"

definition w_codec :: json_codec where
  "w_codec = \<lparr>js_to_string = (\<lambda>e. Some (''{'' @ qe_question_host e @ ''}'')),
     js_from_str = (\<lambda>s. if starts_with s ''{'' then Some (w_entry (butlast (drop 1 s))) else None)\<rparr>"

definition w_file :: "u8 list" where
  "w_file = as_bytes (''{a}'' @ [CHR 0x0A] @ ''junk'' @ [CHR 0x0A] @ ''{b}'' @ [CHR 0x0A] @ ''{c}'')"

lemma w_file_entries: "entries_of w_codec w_file = [w_entry ''a'', w_entry ''b'', w_entry ''c'']"
  by code_simp

theorem read_tail_exact_witness:
  "read_tail w_codec read_ok (Some w_file) 1 5 = [w_entry ''b'', w_entry ''a'']"
proof -
  have "tail_ok w_file" by (simp add: tail_ok_def w_file_def CHUNK_def)
  from read_tail_exact [OF this, of w_codec 1 5] show ?thesis by (simp add: w_file_entries)
qed

definition w_config :: ql_config where
  "w_config = ql_config_default\<lparr>qc_size_memory := 2, qc_ignored := [''Ads.example''], qc_ignored_enabled := True\<rparr>"

definition w_pushed :: "log_entry list" where
  "w_pushed = map w_entry [''b'', ''x.ads.example'', ''c'', ''d'']"

lemma w_pushed_ok: "list_all (json_ok w_codec) w_pushed"
  by code_simp

lemma w_pushed_accepted: "filter (accepted w_config) w_pushed = map w_entry [''b'', ''c'', ''d'']"
  by code_simp

theorem querylog_survives_restart_witness:
  "let l = query_log_new None (Some w_file) w_config;
       l' = snd (flush w_codec flush_ok (push_all w_codec flush_ok w_pushed l))
   in ql_read w_codec read_ok read_ok 0 4 (query_log_new (ql_path l') (ql_rotated l') ql_config_default)
        = map w_entry [''d'', ''c'', ''b'', ''c'']"
proof -
  let ?l = "query_log_new None (Some w_file) w_config"
  have "log_inv w_codec ?l" by (simp add: log_inv_def query_log_new_def file_of_def terminated_def)
  moreover have "tail_ok (file_of (ql_rotated ?l))"
    by (simp add: query_log_new_def file_of_def tail_ok_def w_file_def CHUNK_def)
  moreover have "qc_file_enabled (ql_cfg ?l)" by (simp add: query_log_new_def w_config_def ql_config_default_def)
  ultimately show ?thesis
    using querylog_survives_restart [OF _ _ _ w_pushed_ok prod.collapse [symmetric], of ?l 4 ql_config_default]
    by (simp add: query_log_new_def w_pushed_accepted log_contents_def file_of_def w_file_entries)
qed

section \<open>Where a page goes wrong\<close>

text \<open>
  A page that memory alone can fill is exact.  One that reaches the files is not: the count still
  wanted is reduced by what memory gave a second time, and the files start again at the newest line,
  which memory already gave.
\<close>

theorem read_page_in_memory:
  assumes "offset + limit \<le> length (ql_recent l)"
  shows "ql_read J io io' offset limit l = take limit (drop offset (ql_recent l))"
  using assms by (simp add: ql_read_def Let_def)

theorem read_repeats_entries:
  assumes "ql_recent l = rev es" "ql_path l = Some f" "tail_ok f" "entries_of J f = old @ es" "ql_rotated l = None"
    and "length es < limit"
  shows "ql_read J read_ok read_ok 0 limit l = rev es @ take (limit - 2 * length es) (rev es @ rev old)"
proof -
  have "limit - length es - length es = limit - 2 * length es" by simp
  then show ?thesis using assms by (simp add: ql_read_def Let_def read_tail_entries del: take_append diff_diff_left)
qed

text \<open>After a restart the offset is taken off each file: the rotated file loses its newest entries too.\<close>

theorem read_offset_applied_twice:
  assumes "ql_recent l = []" "ql_path l = Some f" "ql_rotated l = Some g" "tail_ok f" "tail_ok g"
    and "length (entries_of J f) = offset" "0 < limit"
  shows "ql_read J read_ok read_ok offset limit l = take limit (drop offset (rev (entries_of J g)))"
  using assms by (simp add: ql_read_def Let_def read_tail_entries)

text \<open>A flush that fails loses the batch: it has left the buffer, and \<open>push\<close> discards the error.\<close>

theorem failed_flush_drops_batch:
  assumes "ql_pending l \<noteq> []" "\<not> fi_dir io \<or> \<not> fi_open io"
  shows "flush J io l = (IoErr, l\<lparr>ql_pending := []\<rparr>)"
  using assms by (simp add: flush_def Let_def)

section \<open>The ring and the buffer are bounded\<close>

definition ring_inv :: "query_log \<Rightarrow> bool" where
  "ring_inv l \<longleftrightarrow> length (ql_recent l) \<le> RECENT_CAP"

lemma flush_memory: "ql_recent (snd (flush J io l)) = ql_recent l \<and> ql_pending (snd (flush J io l)) = []
    \<and> ql_cfg (snd (flush J io l)) = ql_cfg l"
  by (simp add: flush_def Let_def split: option.splits)

lemma push_ring:
  assumes "ring_inv l"
  shows "ql_recent (snd (push J io e l)) = take RECENT_CAP (filter (accepted (ql_cfg l)) [e] @ ql_recent l)
    \<and> ql_cfg (snd (push J io e l)) = ql_cfg l"
proof -
  have "(if length (e # ql_recent l) > RECENT_CAP then butlast (e # ql_recent l) else e # ql_recent l)
      = take RECENT_CAP (e # ql_recent l)"
    using assms by (cases "length (ql_recent l) = RECENT_CAP")
      (auto simp: ring_inv_def butlast_conv_take simp del: butlast.simps)
  then show ?thesis
    using assms by (simp add: push_def accepted_def Let_def flush_memory ring_inv_def del: butlast.simps take_Cons' take_append)
qed

theorem recent_is_newest:
  assumes "ring_inv l"
  shows "ql_recent (push_all J io es l) = take RECENT_CAP (rev (filter (accepted (ql_cfg l)) es) @ ql_recent l)"
  using assms
proof (induction es arbitrary: l)
  case (Cons e es)
  let ?l = "snd (push J io e l)"
  note p = push_ring [OF Cons.prems, of J io e]
  then have "ring_inv ?l" by (simp add: ring_inv_def)
  from Cons.IH [OF this] p show ?case
    by (auto simp: push_all_def RECENT_CAP_def)
qed (simp add: push_all_def ring_inv_def)

theorem push_leaves_room:
  assumes "length (ql_pending l) < max (qc_size_memory (ql_cfg l)) 1"
  shows "buffered (snd (push J io e l)) < max (qc_size_memory (ql_cfg l)) 1"
  using assms by (auto simp: push_def buffered_def Let_def flush_memory)

section \<open>Rotation\<close>

text \<open>
  A log rotates exactly when the first record's moment plus the interval has passed; a rotation that
  succeeds moves every waiting entry and the current file over the rotated one.
\<close>

theorem rotate_contents:
  assumes "log_inv J l" "rotate_log J flush_ok True l = (r, l')"
  shows "r = IoOk () \<and> ql_pending l' = [] \<and> log_inv J l' \<and>
    (if ql_path l = None \<and> ql_pending l = [] then l' = l
     else ql_path l' = None \<and> log_contents J l' = entries_of J (file_of (ql_path l)) @ ql_pending l)"
proof -
  obtain r0 l0 where fl: "flush J flush_ok l = (r0, l0)" by fastforce
  note c = flush_contents [OF assms(1) fl]
  have r0: "r0 \<noteq> IoErr" using fl by (auto simp: flush_def flush_ok_def Let_def split: if_splits)
  then obtain n where n: "r0 = IoOk n" by (cases r0) auto
  have path: "ql_path l0 = None \<longleftrightarrow> ql_path l = None \<and> ql_pending l = []"
    using fl by (auto simp: flush_def flush_ok_def Let_def split: if_splits)
  have e: "entries_of J (file_of (ql_path l0)) = entries_of J (file_of (ql_path l)) @ ql_pending l"
  proof -
    from c have "log_contents J l0 = log_contents J l" "ql_rotated l0 = ql_rotated l" "ql_pending l0 = []" by auto
    then show ?thesis by (simp add: log_contents_def)
  qed
  have l': "(r, l') = (IoOk (), if ql_path l0 = None then l0 else l0\<lparr>ql_path := None, ql_rotated := ql_path l0\<rparr>)"
    using assms(2) fl n by (auto simp: rotate_log_def split: if_splits)
  show ?thesis
  proof (cases "ql_path l = None \<and> ql_pending l = []")
    case True
    then have "l0 = l" using fl by (simp add: flush_def)
    then show ?thesis using l' True assms(1) by simp
  next
    case False
    then show ?thesis using l' path c e by (auto simp: log_contents_def log_inv_def file_of_def terminated_def)
  qed
qed

theorem rotate_if_due_iff:
  "fst (rotate_if_due J ts io rename now interval l) = IoOk True \<longleftrightarrow>
     (\<exists>t. first_entry_secs ts (ql_path l) = Some t \<and> i64_saturating_add t (sint interval) \<le> now)
       \<and> fst (rotate_log J io rename l) = IoOk ()"
  by (auto simp: rotate_if_due_def split: option.splits prod.splits io_result.splits)

end
