(* ===== verification/Recorder.thy ===== *)
theory Recorder
  imports Discovery Ipset Querylog Stats
begin

text \<open>
  The observer of handled requests, \<open>Recorder\<close> of \<open>crates/sift/src/wiring.rs\<close>: it turns the outcome of
  the resolver into an entry of the query log, an entry of the statistics, an addition to the ipsets
  and a request to discover the client.  The theory composes \<open>Resolver\<close>, \<open>Querylog\<close>, \<open>Stats\<close>,
  \<open>Ipset\<close> and \<open>Discovery\<close>, and shows what is and what is not recorded.
\<close>

section \<open>Events\<close>

record ('n, 'e) event =
  ev_request :: "('n, 'e) message"
  ev_outcome :: "('n, 'e) resolve_outcome"
  ev_client :: ip_addr
  ev_proto :: proto

record recorder =
  rc_querylog :: query_log
  rc_stats :: stats
  rc_anonymize :: bool
  rc_discovery :: "discovery_queue option"
  rc_runtime :: "runtime option"
  rc_ipset :: "ipset_manager option"

definition recorder_new :: "query_log \<Rightarrow> stats \<Rightarrow> bool \<Rightarrow> recorder" where
  "recorder_new l s anonymize =
     \<lparr>rc_querylog = l, rc_stats = s, rc_anonymize = anonymize, rc_discovery = None, rc_runtime = None, rc_ipset = None\<rparr>"

definition set_ipset :: "ipset_manager option \<Rightarrow> recorder \<Rightarrow> recorder" where
  "set_ipset m r = r\<lparr>rc_ipset := m\<rparr>"

definition set_discovery :: "discovery_queue \<Rightarrow> runtime \<Rightarrow> recorder \<Rightarrow> recorder" where
  "set_discovery q rt r = r\<lparr>rc_discovery := Some q, rc_runtime := Some rt\<rparr>"

definition note_client :: "ip_addr \<Rightarrow> recorder \<Rightarrow> recorder" where
  "note_client addr r =
     (let known = (case rc_runtime r of None \<Rightarrow> False | Some rt \<Rightarrow> is_known rt addr) in
      if known then r
      else case rc_discovery r of None \<Rightarrow> r | Some q \<Rightarrow> r\<lparr>rc_discovery := Some (submit addr q)\<rparr>)"

fun anonymize_ip :: "ip_addr \<Rightarrow> str" where
  "anonymize_ip (V4 a) =
     (let oc = v4_octets a in show_v4 [oc ! 0, oc ! 1, oc ! 2, 0])"
| "anonymize_ip (V6 a) =
     (let sg = v6_segments a in show_v6 (take 4 sg @ [0, 0, 0, 0]))"

fun proto_of :: "proto \<Rightarrow> client_proto" where
  "proto_of Udp = PlainDns"
| "proto_of Tcp = PlainDns"
| "proto_of Tls = Dot"
| "proto_of Https = Doh"
| "proto_of Quic = Doq"

section \<open>Recording\<close>

text \<open>
  What one call meets: the third-party code (\<open>H\<close>, the names of types and classes, base64, the JSON
  codec, the \<open>ipset\<close> command), the local time already formatted, the hour and what the disk answers.
\<close>

record ('n, 'e, 'k) recorder_world =
  rw_H :: "('n, 'e) hickory"
  rw_type_name :: "record_type \<Rightarrow> str"
  rw_class_name :: "dns_class \<Rightarrow> str"
  rw_base64 :: "u8 list \<Rightarrow> str"
  rw_json :: json_codec
  rw_run_ipset :: "str \<Rightarrow> ip_addr \<Rightarrow> 'k \<Rightarrow> bool \<times> 'k"
  rw_now :: str
  rw_hour :: u32
  rw_flush :: flush_io

definition event_host :: "('n, 'e, 'k) recorder_world \<Rightarrow> 'n query \<Rightarrow> str" where
  "event_host W q = to_ascii_lowercase (trim_end_matches (CHR ''.'') (name_ascii (rw_H W) (q_name q)))"

definition event_client :: "bool \<Rightarrow> ip_addr \<Rightarrow> str" where
  "event_client anonymize a = (if anonymize then anonymize_ip a else show_ip a)"

definition event_answer :: "('n, 'e, 'k) recorder_world \<Rightarrow> ('n, 'e) resolve_outcome \<Rightarrow> str option" where
  "event_answer W out =
     (case o_action out of
        Respond m \<Rightarrow> map_option (rw_base64 W) (message_bytes (rw_H W) m)
      | Drop \<Rightarrow> None)"

definition log_entry_of :: "('n, 'e, 'k) recorder_world \<Rightarrow> str \<Rightarrow> str \<Rightarrow> 'n query \<Rightarrow> ('n, 'e) event \<Rightarrow> log_entry" where
  "log_entry_of W host caddr q ev =
     (let out = ev_outcome ev in
      \<lparr>qe_time = rw_now W, qe_question_host = host, qe_question_type = rw_type_name W (q_type q),
       qe_question_class = rw_class_name W (q_class q), qe_req_ecs = o_req_ecs out, qe_client_id = o_client_id out,
       qe_client_proto = proto_of (ev_proto ev),
       qe_upstream = (case o_upstream out of None \<Rightarrow> [] | Some u \<Rightarrow> u),
       qe_answer = event_answer W out, qe_orig_answer = None, qe_ip = caddr,
       qe_result = entry_result_default\<lparr>er_service_name := o_service_name out,
         er_rules := map (\<lambda>r. \<lparr>qr_text = m_text r, qr_ip = m_ip r, qr_filter_list_id = m_list_id r\<rparr>) (o_rules out),
         er_reason := o_reason out, er_is_filtered := is_filtered (o_reason out)\<rparr>,
       qe_elapsed = of_nat (min (o_elapsed out) u64_max), qe_cached = o_cached out,
       qe_authenticated_data = (case response out of None \<Rightarrow> False | Some m \<Rightarrow> md_authentic_data (metadata m))\<rparr>)"

definition stat_entry_of :: "str \<Rightarrow> str \<Rightarrow> ('n, 'e) event \<Rightarrow> stat_entry" where
  "stat_entry_of host caddr ev =
     (let out = ev_outcome ev in
      \<lparr>en_client = (if o_client_id out = [] then caddr else o_client_id out), en_domain = host,
       en_result = result_from_reason (o_reason out), en_processing_time = o_elapsed out,
       en_upstreams = (case o_upstream out of
          None \<Rightarrow> []
        | Some a \<Rightarrow> [\<lparr>us_address = a, us_duration = o_elapsed out, us_cached = o_cached out, us_failed = False\<rparr>])\<rparr>)"

definition add_ipset ::
  "('n, 'e, 'k) recorder_world \<Rightarrow> str \<Rightarrow> ('n, 'e) event \<Rightarrow> recorder \<times> 'k \<Rightarrow> recorder \<times> 'k" where
  "add_ipset W host ev = (\<lambda>(r, k).
     case rc_ipset r of
       None \<Rightarrow> (r, k)
     | Some m \<Rightarrow>
         (case response (ev_outcome ev) of
            None \<Rightarrow> (r, k)
          | Some resp \<Rightarrow>
              (case ipset_add (rw_run_ipset W) host (answer_addrs resp) m k of
                 (_, m, k) \<Rightarrow> (r\<lparr>rc_ipset := Some m\<rparr>, k))))"

definition observe ::
  "('n, 'e, 'k) recorder_world \<Rightarrow> ('n, 'e) event \<Rightarrow> recorder \<times> 'k \<Rightarrow> recorder \<times> 'k" where
  "observe W ev = (\<lambda>(r, k).
     case queries (ev_request ev) of
       [] \<Rightarrow> (r, k)
     | q # _ \<Rightarrow>
         let host = event_host W q;
             caddr = event_client (rc_anonymize r) (ev_client ev);
             r = note_client (ev_client ev) r;
             (r, k) = add_ipset W host ev (r, k);
             r = (if o_ignore_querylog (ev_outcome ev) then r
                  else r\<lparr>rc_querylog := snd (push (rw_json W) (rw_flush W) (log_entry_of W host caddr q ev) (rc_querylog r))\<rparr>)
         in if o_ignore_statistics (ev_outcome ev) then (r, k)
            else (r\<lparr>rc_stats := snd (add_at (stat_entry_of host caddr ev) (rw_hour W) (rc_stats r))\<rparr>, k))"

section \<open>What is recorded\<close>

text \<open>The network an anonymised address stands for: its /24 or its /64.\<close>

fun client_network :: "ip_addr \<Rightarrow> nat + nat" where
  "client_network (V4 a) = Inl (unat a div 2 ^ 8)"
| "client_network (V6 a) = Inr (unat a div 2 ^ 64)"

lemma be_digits_take: "m \<le> n \<Longrightarrow> take m (be_digits b n v) = be_digits b m (v div b ^ (n - m))"
proof (induction n arbitrary: m v)
  case (Suc n)
  show ?case
  proof (cases "m = Suc n")
    case False
    then have "m \<le> n" using Suc.prems by simp
    then show ?thesis using Suc.IH [of m "v div b"] by (simp add: Suc_diff_le div_mult2_eq)
  qed simp
qed simp

lemma anonymize_ip_network: "client_network a = client_network b \<Longrightarrow> anonymize_ip a = anonymize_ip b"
proof (cases a; cases b)
  fix x y
  assume n: "client_network a = client_network b" and ab: "a = V4 x" "b = V4 y"
  have three: "[v4_octets z ! 0, v4_octets z ! 1, v4_octets z ! 2] = be_digits 256 3 (unat z div 256)" for z
  proof -
    have "length (v4_octets z) = 4" by (simp add: v4_octets_def)
    then obtain p q r s where oc: "v4_octets z = [p, q, r, s]" by (auto simp: numeral_eq_Suc length_Suc_conv)
    have "take 3 (v4_octets z) = be_digits 256 3 (unat z div 256)"
      using be_digits_take [of 3 4 256 "unat z"] by (simp only: v4_octets_def) simp
    then show ?thesis by (simp add: oc)
  qed
  have "be_digits 256 3 (unat x div 256) = be_digits 256 3 (unat y div 256)" using n ab by simp
  then have "[v4_octets x ! 0, v4_octets x ! 1, v4_octets x ! 2] = [v4_octets y ! 0, v4_octets y ! 1, v4_octets y ! 2]"
    by (simp only: three)
  then show ?thesis using ab by (simp add: Let_def)
next
  fix x y
  assume n: "client_network a = client_network b" and ab: "a = V6 x" "b = V6 y"
  have four: "take 4 (v6_segments z) = be_digits 65536 4 (unat z div 2 ^ 64)" for z
    using be_digits_take [of 4 8 65536 "unat z"] by (simp add: v6_segments_def)
  show ?thesis using n ab by (simp add: four)
qed auto

lemma note_client_keeps [simp]:
  "rc_querylog (note_client a r) = rc_querylog r" "rc_stats (note_client a r) = rc_stats r"
  "rc_anonymize (note_client a r) = rc_anonymize r" "rc_ipset (note_client a r) = rc_ipset r"
  by (auto simp: note_client_def Let_def split: option.splits)

lemma add_ipset_keeps:
  "add_ipset W host ev (r, k) = (r', k') \<Longrightarrow> rc_querylog r' = rc_querylog r \<and> rc_stats r' = rc_stats r"
  by (auto simp: add_ipset_def split: option.splits prod.splits)

lemma observe_querylog:
  assumes "queries (ev_request ev) = q # qs"
  shows "rc_querylog (fst (observe W ev (r, k))) =
    (if o_ignore_querylog (ev_outcome ev) then rc_querylog r
     else snd (push (rw_json W) (rw_flush W)
       (log_entry_of W (event_host W q) (event_client (rc_anonymize r) (ev_client ev)) q ev) (rc_querylog r)))"
proof -
  obtain r' k' where a: "add_ipset W (event_host W q) ev (note_client (ev_client ev) r, k) = (r', k')" by fastforce
  show ?thesis using add_ipset_keeps [OF a] assms by (simp add: observe_def Let_def a)
qed

lemma observe_stats:
  assumes "queries (ev_request ev) = q # qs"
  shows "rc_stats (fst (observe W ev (r, k))) =
    (if o_ignore_statistics (ev_outcome ev) then rc_stats r
     else snd (add_at (stat_entry_of (event_host W q) (event_client (rc_anonymize r) (ev_client ev)) ev) (rw_hour W) (rc_stats r)))"
proof -
  obtain r' k' where a: "add_ipset W (event_host W q) ev (note_client (ev_client ev) r, k) = (r', k')" by fastforce
  show ?thesis using add_ipset_keeps [OF a] assms by (simp add: observe_def Let_def a)
qed

lemma observe_no_query: "queries (ev_request ev) = [] \<Longrightarrow> observe W ev (r, k) = (r, k)"
  by (simp add: observe_def)

text \<open>
  C20. What a client asked to keep out of the records stays out.  A client set to be ignored by the
  query log leaves no trace in it, in memory or on disk, and one ignored by the statistics is not
  counted; with anonymisation on, both records depend on the client's address only through its /24 or
  /64 network: two clients of one network that ask the same are recorded identically.
\<close>

theorem recorder_privacy:
  "(o_ignore_querylog (ev_outcome ev) \<longrightarrow> rc_querylog (fst (observe W ev (r, k))) = rc_querylog r)
   \<and> (o_ignore_statistics (ev_outcome ev) \<longrightarrow> rc_stats (fst (observe W ev (r, k))) = rc_stats r)
   \<and> (rc_anonymize r \<and> client_network (ev_client ev) = client_network b \<longrightarrow>
        rc_querylog (fst (observe W ev (r, k))) = rc_querylog (fst (observe W (ev\<lparr>ev_client := b\<rparr>) (r, k)))
        \<and> rc_stats (fst (observe W ev (r, k))) = rc_stats (fst (observe W (ev\<lparr>ev_client := b\<rparr>) (r, k))))"
proof (cases "queries (ev_request ev)")
  case Nil
  then show ?thesis by (simp add: observe_no_query)
next
  case (Cons q qs)
  then have b: "queries (ev_request (ev\<lparr>ev_client := b\<rparr>)) = q # qs" by simp
  have log: "log_entry_of W h c q (ev\<lparr>ev_client := b\<rparr>) = log_entry_of W h c q ev" for h c by (simp add: log_entry_of_def)
  have stat: "stat_entry_of h c (ev\<lparr>ev_client := b\<rparr>) = stat_entry_of h c ev" for h c by (simp add: stat_entry_of_def)
  show ?thesis
  proof (intro conjI impI)
    assume "rc_anonymize r \<and> client_network (ev_client ev) = client_network b"
    then have c: "event_client (rc_anonymize r) (ev_client (ev\<lparr>ev_client := b\<rparr>)) = event_client (rc_anonymize r) (ev_client ev)"
      using anonymize_ip_network [of "ev_client ev" b] by (simp add: event_client_def)
    have o: "ev_outcome (ev\<lparr>ev_client := b\<rparr>) = ev_outcome ev" by simp
    show "rc_querylog (fst (observe W ev (r, k))) = rc_querylog (fst (observe W (ev\<lparr>ev_client := b\<rparr>) (r, k)))"
      by (simp only: observe_querylog [OF Cons] observe_querylog [OF b] c log o)
    show "rc_stats (fst (observe W ev (r, k))) = rc_stats (fst (observe W (ev\<lparr>ev_client := b\<rparr>) (r, k)))"
      by (simp only: observe_stats [OF Cons] observe_stats [OF b] c stat o)
  qed (simp_all only: observe_querylog [OF Cons] observe_stats [OF Cons] if_True)
qed

definition w_world :: "(str, sample_edns, unit) recorder_world" where
  "w_world = \<lparr>rw_H = sample_hickory, rw_type_name = (\<lambda>_. ''A''), rw_class_name = (\<lambda>_. ''IN''), rw_base64 = (\<lambda>_. ''AA==''),
     rw_json = w_codec, rw_run_ipset = (\<lambda>_ _ k. (True, k)), rw_now = ''2026-09-14T17:41:53Z'', rw_hour = 497000,
     rw_flush = flush_ok\<rparr>"

definition w_event :: "(str, sample_edns) event" where
  "w_event = \<lparr>ev_request = sample_query TA, ev_outcome = outcome_default, ev_client = V4 0xC0A8014D, ev_proto = Udp\<rparr>"

definition w_recorder :: recorder where
  "w_recorder = recorder_new (query_log_new None None ql_config_default) (stats_new stats_config_default) True"

theorem recorder_privacy_witness:
  "rc_querylog (fst (observe w_world w_event (w_recorder, ())))
     = rc_querylog (fst (observe w_world (w_event\<lparr>ev_client := V4 0xC0A80101\<rparr>) (w_recorder, ())))
   \<and> map qe_ip (ql_recent (rc_querylog (fst (observe w_world w_event (w_recorder, ()))))) = [''192.168.1.0'']"
proof
  have "rc_anonymize w_recorder" by (simp add: w_recorder_def recorder_new_def)
  moreover have "client_network (ev_client w_event) = client_network (V4 0xC0A80101)" by (simp add: w_event_def)
  ultimately show "rc_querylog (fst (observe w_world w_event (w_recorder, ())))
     = rc_querylog (fst (observe w_world (w_event\<lparr>ev_client := V4 0xC0A80101\<rparr>) (w_recorder, ())))"
    using recorder_privacy [of w_event w_world w_recorder "()" "V4 0xC0A80101"] by blast
  show "map qe_ip (ql_recent (rc_querylog (fst (observe w_world w_event (w_recorder, ()))))) = [''192.168.1.0'']"
    by code_simp
qed

text \<open>
  Anonymisation follows the flag the recorder was built with, and nothing sets that flag later: the
  setting the API writes goes into the query log's own configuration (\<open>ql_set_config\<close>), which no
  definition reads, so an entry carries the full address until the process starts again.
\<close>

theorem anonymize_setting_not_followed:
  assumes "queries (ev_request ev) = q # qs" "\<not> rc_anonymize r" "\<not> o_ignore_querylog (ev_outcome ev)"
    and "qc_enabled c" "\<not> is_ignored c (event_host W q)"
    and "qc_anonymize_client_ip c"
  shows "qe_ip (hd (ql_recent (rc_querylog (fst (observe W ev (r\<lparr>rc_querylog := ql_set_config c (rc_querylog r)\<rparr>, k))))))
    = show_ip (ev_client ev)"
  using assms
  by (simp add: observe_querylog push_def ql_set_config_def Let_def flush_memory log_entry_of_def event_client_def
    RECENT_CAP_def)

end
