(* ===== verification/Duration.thy ===== *)
theory Duration
  imports Rust_Str
begin

text \<open>
  Go-style durations: \<open>crates/sift-core/src/duration.rs\<close>.  A \<open>GoDuration\<close> is an \<open>i128\<close> of
  nanoseconds; it is an \<open>int\<close> here, and every place where the code can leave the \<open>i128\<close> range says
  so.  The parser's byte indices become the string that is left to read.

  The one use of floating point is \<open>trim_frac\<close>, which prints a quotient \<open>a / 10^k\<close> with nine
  decimals.  Its three callers pass \<open>a / 10^k < 1000\<close> with at most nine decimals, for which the
  nearest \<open>f64\<close> differs from the quotient by less than half a unit of the ninth decimal, so the
  printed digits are those of the exact quotient; the model prints the exact quotient.
\<close>

section \<open>Definitions\<close>

definition NANOS_PER_DAY :: int where
  "NANOS_PER_DAY = 24 * 60 * 60 * 1000000000"

datatype go_duration = GoDuration int

definition from_secs :: "int \<Rightarrow> go_duration" where
  "from_secs s = GoDuration (s * 1000000000)"

definition from_days :: "int \<Rightarrow> go_duration" where
  "from_days d = GoDuration (d * NANOS_PER_DAY)"

definition from_hours :: "int \<Rightarrow> go_duration" where
  "from_hours h = GoDuration (h * 3600000000000)"

definition from_millis :: "int \<Rightarrow> go_duration" where
  "from_millis ms = GoDuration (ms * 1000000)"

text \<open>Rust's division truncates towards zero, and \<open>as i64\<close> keeps the low 64 bits.\<close>

definition trunc_div :: "int \<Rightarrow> int \<Rightarrow> int" where
  "trunc_div a b = sgn a * sgn b * (\<bar>a\<bar> div \<bar>b\<bar>)"

definition as_i64 :: "int \<Rightarrow> int" where
  "as_i64 n = signed_take_bit 63 n"

fun as_secs :: "go_duration \<Rightarrow> int" where
  "as_secs (GoDuration n) = as_i64 (trunc_div n 1000000000)"

fun as_millis :: "go_duration \<Rightarrow> int" where
  "as_millis (GoDuration n) = as_i64 (trunc_div n 1000000)"

fun as_mins :: "go_duration \<Rightarrow> int" where
  "as_mins (GoDuration n) = as_i64 (trunc_div n 60000000000)"

fun as_hours :: "go_duration \<Rightarrow> int" where
  "as_hours (GoDuration n) = as_i64 (trunc_div n 3600000000000)"

fun as_days :: "go_duration \<Rightarrow> int" where
  "as_days (GoDuration n) = as_i64 (trunc_div n NANOS_PER_DAY)"

text \<open>\<open>to_std\<close>, in nanoseconds: negatives clamp to zero, the rest to \<open>u64::MAX\<close>.\<close>

fun to_std :: "go_duration \<Rightarrow> nat" where
  "to_std (GoDuration n) = (if n \<le> 0 then 0 else nat (min n (int u64_max)))"

datatype duration_parse_error = DurationParseError str

definition micro_sign :: str where
  "micro_sign = [CHR 0xC2, CHR 0xB5, CHR ''s'']"

definition greek_mu :: str where
  "greek_mu = [CHR 0xCE, CHR 0xBC, CHR ''s'']"

definition unit_nanos :: "str \<Rightarrow> int option" where
  "unit_nanos u =
     (if u = ''ns'' then Some 1
      else if u = ''us'' \<or> u = micro_sign \<or> u = greek_mu then Some 1000
      else if u = ''ms'' then Some 1000000
      else if u = ''s'' then Some 1000000000
      else if u = ''m'' then Some 60000000000
      else if u = ''h'' then Some 3600000000000
      else if u = ''d'' then Some NANOS_PER_DAY
      else None)"

text \<open>The digits of the fraction, at most nineteen of them, as a numerator and a scale.\<close>

fun frac_scale :: "str \<Rightarrow> int \<Rightarrow> int \<Rightarrow> int \<times> int" where
  "frac_scale [] frac scale = (frac, scale)"
| "frac_scale (b # bs) frac scale =
     (if scale > 1000000000000000000 then (frac, scale)
      else frac_scale bs (frac * 10 + int (digit_val b)) (scale * 10))"

text \<open>Unchecked \<open>i128\<close> addition, as a release build does it.\<close>

definition wrap_i128 :: "int \<Rightarrow> int" where
  "wrap_i128 n = signed_take_bit 127 n"

text \<open>The optional fraction after the integer part, and what follows it.\<close>

definition split_fraction :: "str \<Rightarrow> str \<times> str" where
  "split_fraction r1 =
     (case r1 of
        [] \<Rightarrow> ([], r1)
      | c # r \<Rightarrow> if c = CHR ''.'' then (takeWhile is_ascii_digit r, dropWhile is_ascii_digit r)
                 else ([], r1))"

text \<open>One iteration: the nanoseconds of one number with its unit, and the rest of the string.\<close>

definition parse_segment :: "str \<Rightarrow> (int \<times> str) option" where
  "parse_segment s =
     (let int_part = takeWhile is_ascii_digit s;
          r1 = dropWhile is_ascii_digit s;
          frac_part = fst (split_fraction r1);
          r2 = snd (split_fraction r1);
          unit = takeWhile (\<lambda>c. \<not> is_ascii_digit c \<and> c \<noteq> CHR ''.'') r2;
          r3 = dropWhile (\<lambda>c. \<not> is_ascii_digit c \<and> c \<noteq> CHR ''.'') r2
      in if int_part = [] \<and> frac_part = [] then None
         else if unit = [] then None
         else
           (case unit_nanos unit of
              None \<Rightarrow> None
            | Some un \<Rightarrow>
                let whole = int (digits_val int_part) in
                if \<not> i128_range whole then None
                else
                  (case checked_i128 (whole * un) of
                     None \<Rightarrow> None
                   | Some nanos \<Rightarrow>
                       (case frac_scale frac_part 0 1 of
                          (frac, scale) \<Rightarrow>
                            Some (if frac_part = [] then nanos
                                  else wrap_i128 (nanos + frac * un div scale), r3)))))"

lemma dropWhile_length: "length (dropWhile P xs) \<le> length xs"
  by (induction xs) auto

lemma split_fraction_length: "length (snd (split_fraction r)) \<le> length r"
  using dropWhile_length by (cases r) (auto simp: split_fraction_def intro: le_SucI)

lemma parse_segment_shorter:
  assumes "parse_segment s = Some (n, r)"
  shows "length r < length s"
proof -
  let ?P = "\<lambda>c. \<not> is_ascii_digit c \<and> c \<noteq> CHR ''.''"
  let ?r2 = "snd (split_fraction (dropWhile is_ascii_digit s))"
  have u: "takeWhile ?P ?r2 \<noteq> []" and r: "r = dropWhile ?P ?r2"
    using assms by (auto simp: parse_segment_def Let_def split: if_splits option.splits prod.splits)
  have "length (takeWhile ?P ?r2) + length (dropWhile ?P ?r2) = length ?r2"
    by (metis length_append takeWhile_dropWhile_id)
  moreover have "0 < length (takeWhile ?P ?r2)"
    using u by simp
  ultimately show ?thesis
    unfolding r using dropWhile_length [of is_ascii_digit s]
      split_fraction_length [of "dropWhile is_ascii_digit s"] by linarith
qed

function parse_segments :: "str \<Rightarrow> int \<Rightarrow> int option" where
  "parse_segments s tot =
     (if s = [] then Some tot
      else
        (case parse_segment s of
           None \<Rightarrow> None
         | Some (nanos, r) \<Rightarrow>
             (case checked_i128 (tot + nanos) of
                None \<Rightarrow> None
              | Some tot' \<Rightarrow> parse_segments r tot')))"
  by pat_completeness auto
termination
  by (relation "measure (\<lambda>(s, t). length s)") (auto dest: parse_segment_shorter)

declare parse_segments.simps [simp del]

definition parse_go_duration :: "str \<Rightarrow> duration_parse_error + int" where
  "parse_go_duration orig =
     (let (neg, s) =
        (case strip_prefix ''-'' orig of
           Some r \<Rightarrow> (True, r)
         | None \<Rightarrow> (case strip_prefix ''+'' orig of Some r \<Rightarrow> (False, r) | None \<Rightarrow> (False, orig)))
      in if s = ''0'' then Inr 0
         else if s = [] then Inl (DurationParseError orig)
         else
           (case parse_segments s 0 of
              None \<Rightarrow> Inl (DurationParseError orig)
            | Some tot \<Rightarrow> Inr (if neg then - tot else tot)))"

definition parse_duration :: "str \<Rightarrow> duration_parse_error + go_duration" where
  "parse_duration s = map_sum id GoDuration (parse_go_duration s)"

text \<open>\<open>{:09}\<close> on a number below a thousand million: nine digits with leading zeros.\<close>

fun pad_digits :: "nat \<Rightarrow> nat \<Rightarrow> str" where
  "pad_digits 0 n = []"
| "pad_digits (Suc w) n = pad_digits w (n div 10) @ [digit_char (n mod 10)]"

text \<open>\<open>trim_frac\<close> of the quotient \<open>a / 10^k\<close>.\<close>

definition trim_frac :: "nat \<Rightarrow> nat \<Rightarrow> str" where
  "trim_frac a k =
     (let s = show_nat (a div 10 ^ k) @ ''.'' @ pad_digits 9 (a mod 10 ^ k * 10 ^ (9 - k));
          t = trim_end_matches CHR ''0'' s
      in if ends_with t ''.'' then butlast t else t)"

definition go_duration_string :: "nat \<Rightarrow> str" where
  "go_duration_string a =
     (if a < 1000 then show_nat a @ ''ns''
      else if a < 1000000 then trim_frac a 3 @ ''us''
      else if a < 1000000000 then trim_frac a 6 @ ''ms''
      else
        let hours = a div 3600000000000;
            rem = a mod 3600000000000;
            mins = rem div 60000000000;
            rem2 = rem mod 60000000000
        in (if hours > 0 then show_nat hours @ ''h'' else []) @
           (if hours > 0 \<or> mins > 0 then show_nat mins @ ''m'' else []) @
           trim_frac rem2 9 @ ''s'')"

fun show_duration :: "go_duration \<Rightarrow> str" where
  "show_duration (GoDuration n) =
     (if n = 0 then ''0s''
      else
        let a = nat \<bar>n\<bar>;
            sign = (if n < 0 then ''-'' else [])
        in sign @
          (if a mod nat NANOS_PER_DAY = 0 then show_nat (a div nat NANOS_PER_DAY) @ ''d''
           else if a mod 3600000000000 = 0 then show_nat (a div 3600000000000) @ ''h''
           else if a mod 60000000000 = 0 then show_nat (a div 60000000000) @ ''m''
           else if a mod 1000000000 = 0 then show_nat (a div 1000000000) @ ''s''
           else go_duration_string a))"

definition duration_visit_str :: "str \<Rightarrow> duration_parse_error + go_duration" where
  "duration_visit_str s = parse_duration s"

definition duration_visit_int :: "int \<Rightarrow> go_duration" where
  "duration_visit_int v = GoDuration v"

section \<open>Segments of printed durations\<close>

definition is_unit :: "str \<Rightarrow> bool" where
  "is_unit u \<longleftrightarrow> u \<noteq> [] \<and> list_all (\<lambda>c. \<not> is_ascii_digit c \<and> c \<noteq> CHR ''.'') u"

definition digit_start :: "str \<Rightarrow> bool" where
  "digit_start r \<longleftrightarrow> r = [] \<or> is_ascii_digit (hd r)"

lemma digit_start_Nil [simp]: "digit_start []"
  by (simp add: digit_start_def)

lemma digit_start_show_nat [simp]: "digit_start (show_nat n @ r)"
  using show_nat_digits [of n] by (cases "show_nat n") (auto simp: digit_start_def)

lemma unit_split:
  assumes "is_unit u" "digit_start r"
  shows "takeWhile (\<lambda>c. \<not> is_ascii_digit c \<and> c \<noteq> CHR ''.'') (u @ r) = u"
    and "dropWhile (\<lambda>c. \<not> is_ascii_digit c \<and> c \<noteq> CHR ''.'') (u @ r) = r"
    and "takeWhile is_ascii_digit (u @ r) = []" "dropWhile is_ascii_digit (u @ r) = u @ r"
proof -
  from assms show "takeWhile (\<lambda>c. \<not> is_ascii_digit c \<and> c \<noteq> CHR ''.'') (u @ r) = u"
    and "dropWhile (\<lambda>c. \<not> is_ascii_digit c \<and> c \<noteq> CHR ''.'') (u @ r) = r"
    by (cases r; auto simp: is_unit_def digit_start_def list_all_iff takeWhile_append dropWhile_append)+
  from assms show "takeWhile is_ascii_digit (u @ r) = []" "dropWhile is_ascii_digit (u @ r) = u @ r"
    by (cases u; auto simp: is_unit_def)+
qed

lemma parse_segment_int:
  assumes u: "is_unit u" "digit_start r" "unit_nanos u = Some un"
    and d: "list_all is_ascii_digit d" "d \<noteq> []"
    and bounds: "i128_range (int (digits_val d))" "i128_range (int (digits_val d) * un)"
  shows "parse_segment (d @ u @ r) = Some (int (digits_val d) * un, r)"
proof -
  have hd: "\<not> is_ascii_digit (hd (u @ r))" "hd (u @ r) \<noteq> CHR ''.''" "u @ r \<noteq> []"
    using u(1) by (cases u; auto simp: is_unit_def)+
  have sp: "takeWhile is_ascii_digit (d @ u @ r) = d" "dropWhile is_ascii_digit (d @ u @ r) = u @ r"
    using takeWhile_digits_append [OF d(1), of "u @ r"] hd by auto
  obtain c cs where c: "u @ r = c # cs" "c \<noteq> CHR ''.''"
    using hd by (cases "u @ r") auto
  have un: "u \<noteq> []" using u(1) by (simp add: is_unit_def)
  show ?thesis
    unfolding parse_segment_def Let_def sp
    using c unit_split [OF u(1,2)] un u(3) d(2) bounds by (simp add: split_fraction_def)
qed

lemma frac_scale_value:
  "length f + k \<le> 18 \<Longrightarrow> frac_scale f (int v) (10 ^ k) =
     (int (foldl (\<lambda>acc c. acc * 10 + digit_val c) v f), 10 ^ (length f + k))"
proof (induction f arbitrary: v k)
  case Nil
  then show ?case by simp
next
  case (Cons c f)
  have "(10 :: int) ^ k \<le> 10 ^ 18"
    using Cons.prems by (intro power_increasing) auto
  then have "\<not> (10 :: int) ^ k > 1000000000000000000" by simp
  moreover have "frac_scale f (int (v * 10 + digit_val c)) (10 ^ Suc k) =
    (int (foldl (\<lambda>acc c. acc * 10 + digit_val c) (v * 10 + digit_val c) f), 10 ^ (length f + Suc k))"
    using Cons.prems by (intro Cons.IH) simp
  ultimately show ?case
    by (simp add: mult.commute)
qed

lemma frac_scale_digits:
  "length f \<le> 18 \<Longrightarrow> frac_scale f 0 1 = (int (digits_val f), 10 ^ length f)"
  using frac_scale_value [of f 0 0] by (simp add: digits_val_def)

lemma wrap_i128_id: "i128_range n \<Longrightarrow> wrap_i128 n = n"
  by (simp add: wrap_i128_def i128_range_def signed_take_bit_int_eq_self)

lemma parse_segment_frac:
  assumes u: "is_unit u" "digit_start r" "unit_nanos u = Some un"
    and d: "list_all is_ascii_digit d" "d \<noteq> []"
    and f: "list_all is_ascii_digit f" "f \<noteq> []" "length f \<le> 18"
    and x: "int (digits_val f) * un = fr * 10 ^ length f"
    and bounds: "i128_range (int (digits_val d))" "i128_range (int (digits_val d) * un)"
      "i128_range (int (digits_val d) * un + fr)"
  shows "parse_segment (d @ ''.'' @ f @ u @ r) = Some (int (digits_val d) * un + fr, r)"
proof -
  have sp: "takeWhile is_ascii_digit (d @ ''.'' @ f @ u @ r) = d"
    "dropWhile is_ascii_digit (d @ ''.'' @ f @ u @ r) = CHR ''.'' # f @ u @ r"
    using takeWhile_digits_append [OF d(1), of "''.'' @ f @ u @ r"] by (auto simp: is_ascii_digit_def)
  have hd: "\<not> is_ascii_digit (hd (u @ r))" "u @ r \<noteq> []"
    using u(1) by (cases u; auto simp: is_unit_def)+
  have sp2: "takeWhile is_ascii_digit (f @ u @ r) = f" "dropWhile is_ascii_digit (f @ u @ r) = u @ r"
    using takeWhile_digits_append [OF f(1), of "u @ r"] hd by auto
  have un: "u \<noteq> []" using u(1) by (simp add: is_unit_def)
  have "int (digits_val f) * un div 10 ^ length f = fr"
    unfolding x by simp
  then show ?thesis
    unfolding parse_segment_def Let_def sp
    using sp2 unit_split [OF u(1,2)] un u(3) d(2) f(2) bounds frac_scale_digits [OF f(3)]
    by (simp add: wrap_i128_id split_fraction_def)
qed

section \<open>Printed fractions\<close>

lemma pad_digits_digits: "list_all is_ascii_digit (pad_digits w n)"
  by (induction w n rule: pad_digits.induct) auto

lemma length_pad_digits [simp]: "length (pad_digits w n) = w"
  by (induction w n rule: pad_digits.induct) auto

lemma digits_val_pad: "n < 10 ^ w \<Longrightarrow> digits_val (pad_digits w n) = n"
proof (induction w n rule: pad_digits.induct)
  case (1 n)
  then show ?case by (simp add: digits_val_def)
next
  case (2 w n)
  then have "n div 10 < 10 ^ w" by (simp add: less_mult_imp_div_less mult.commute)
  with 2 show ?case by (simp add: digits_val_append)
qed

lemma digits_val_zeros: "digits_val (f @ replicate z CHR ''0'') = digits_val f * 10 ^ z"
proof (induction z)
  case 0
  then show ?case by simp
next
  case (Suc z)
  have "f @ replicate (Suc z) CHR ''0'' = (f @ replicate z CHR ''0'') @ [CHR ''0'']"
    by (simp add: replicate_append_same)
  then have "digits_val (f @ replicate (Suc z) CHR ''0'') = digits_val (f @ replicate z CHR ''0'') * 10"
    by (simp only: digits_val_append) (simp add: digit_val_def)
  with Suc show ?case by simp
qed

text \<open>Stripping trailing zeros from a string is splitting them off.\<close>

lemma trim_end_matches_split:
  "\<exists>z. s = trim_end_matches c s @ replicate z c"
proof -
  have "rev s = takeWhile (\<lambda>x. x = c) (rev s) @ dropWhile (\<lambda>x. x = c) (rev s)"
    by simp
  then have "s = rev (dropWhile (\<lambda>x. x = c) (rev s)) @ rev (takeWhile (\<lambda>x. x = c) (rev s))"
    by (metis rev_append rev_rev_ident)
  moreover have "takeWhile (\<lambda>x. x = c) (rev s) = replicate (length (takeWhile (\<lambda>x. x = c) (rev s))) c"
    by (rule replicate_eqI) (auto dest: set_takeWhileD)
  ultimately show ?thesis
    by (metis rev_replicate trim_end_matches_def)
qed

lemma trim_end_matches_append:
  "x \<noteq> c \<Longrightarrow> trim_end_matches c (a @ x # b) = a @ x # trim_end_matches c b"
  by (simp add: trim_end_matches_def dropWhile_append)

lemma ends_with_last: "ends_with s [c] \<Longrightarrow> last s = c"
  by (auto simp: ends_with_iff)

text \<open>
  The two shapes of a printed quotient: an integer when it divides, or an integer, a point and a
  fraction whose digits stand for exactly the remainder.
\<close>

lemma trim_frac_shape:
  assumes "k \<le> 9"
  obtains "trim_frac a k = show_nat (a div 10 ^ k)" "a mod 10 ^ k = 0"
  | f where "trim_frac a k = show_nat (a div 10 ^ k) @ ''.'' @ f"
      "list_all is_ascii_digit f" "f \<noteq> []" "length f \<le> 9" "a mod 10 ^ k \<noteq> 0"
      "digits_val f * 10 ^ k = a mod 10 ^ k * 10 ^ length f"
proof -
  let ?m = "a mod 10 ^ k * 10 ^ (9 - k)"
  let ?f = "trim_end_matches CHR ''0'' (pad_digits 9 ?m)"
  obtain z where z: "pad_digits 9 ?m = ?f @ replicate z CHR ''0''"
    using trim_end_matches_split by blast
  have len: "length ?f + z = 9"
    using z by (metis length_append length_pad_digits length_replicate)
  have "a mod 10 ^ k * 10 ^ (9 - k) < 10 ^ k * 10 ^ (9 - k)"
    by simp
  then have "?m < 10 ^ 9"
    using assms by (simp flip: power_add)
  then have "digits_val ?f * 10 ^ z = ?m"
    using digits_val_pad [of ?m 9] z digits_val_zeros by metis
  then have "digits_val ?f * 10 ^ k * 10 ^ z = a mod 10 ^ k * (10 ^ (9 - k) * 10 ^ k)"
    by (metis mult.assoc mult.commute)
  also have "\<dots> = a mod 10 ^ k * 10 ^ length ?f * 10 ^ z"
    using assms len by (simp flip: power_add)
  finally have val: "digits_val ?f * 10 ^ k = a mod 10 ^ k * 10 ^ length ?f"
    by simp
  have dg: "list_all is_ascii_digit ?f"
    using pad_digits_digits [of 9 ?m] z by (metis list_all_append)
  have t: "trim_end_matches CHR ''0'' (show_nat (a div 10 ^ k) @ ''.'' @ pad_digits 9 ?m) =
      show_nat (a div 10 ^ k) @ ''.'' @ ?f"
    by (simp add: trim_end_matches_append)
  show thesis
  proof (cases "?f = []")
    case True
    with val have "a mod 10 ^ k = 0" by (simp add: digits_val_def)
    moreover from t True have "trim_frac a k = show_nat (a div 10 ^ k)"
      by (simp add: trim_frac_def Let_def ends_with_iff)
    ultimately show thesis by (rule that(1) [rotated])
  next
    case False
    have "last ?f \<noteq> CHR ''.''"
    proof -
      have "is_ascii_digit (last ?f)"
        using dg False by (simp add: list_all_iff)
      then show ?thesis by (auto simp: is_ascii_digit_def)
    qed
    then have ne: "\<not> ends_with (show_nat (a div 10 ^ k) @ ''.'' @ ?f) ''.''"
      using False by (auto dest: ends_with_last)
    have "a mod 10 ^ k \<noteq> 0"
    proof
      assume "a mod 10 ^ k = 0"
      then have "?f = trim_end_matches CHR ''0'' (pad_digits 9 0)" by simp
      also have "\<dots> = []" by code_simp
      finally show False using False by simp
    qed
    moreover have "trim_frac a k = show_nat (a div 10 ^ k) @ ''.'' @ ?f"
      using t ne by (simp add: trim_frac_def Let_def)
    ultimately show thesis
      using that(2) [of ?f] dg False val len by auto
  qed
qed

section \<open>Round trip\<close>

lemma unit_facts:
  "is_unit ''ns'' \<and> unit_nanos ''ns'' = Some 1" "is_unit ''us'' \<and> unit_nanos ''us'' = Some 1000"
  "is_unit ''ms'' \<and> unit_nanos ''ms'' = Some 1000000"
  "is_unit ''s'' \<and> unit_nanos ''s'' = Some 1000000000"
  "is_unit ''m'' \<and> unit_nanos ''m'' = Some 60000000000"
  "is_unit ''h'' \<and> unit_nanos ''h'' = Some 3600000000000"
  "is_unit ''d'' \<and> unit_nanos ''d'' = Some NANOS_PER_DAY"
  by (simp_all add: is_unit_def unit_nanos_def is_ascii_digit_def micro_sign_def greek_mu_def)

lemma i128_range_mono: "i128_range n \<Longrightarrow> 0 \<le> m \<Longrightarrow> m \<le> n \<Longrightarrow> i128_range m"
  by (auto simp: i128_range_def)

lemma mult_ge_self: "1 \<le> (un :: int) \<Longrightarrow> int q \<le> int q * un"
  using mult_left_mono [of 1 un "int q"] by simp

text \<open>Reading one printed number with its unit adds its value to the running total.\<close>

lemma parse_segments_step:
  assumes "parse_segment s = Some (n, r)" "s \<noteq> []" "i128_range (t + n)"
  shows "parse_segments s t = parse_segments r (t + n)"
  using assms by (simp add: parse_segments.simps [of s t])

lemma parse_segments_int:
  assumes "is_unit u \<and> unit_nanos u = Some un" "1 \<le> un" "digit_start r"
    and "i128_range (t + int q * un)" "0 \<le> t"
  shows "parse_segments (show_nat q @ u @ r) t = parse_segments r (t + int q * un)"
proof -
  have "i128_range (int q * un)"
    using assms by (auto intro: i128_range_mono)
  moreover from this have "i128_range (int q)"
    using mult_ge_self [OF assms(2), of q] by (auto intro: i128_range_mono)
  ultimately have "parse_segment (show_nat q @ u @ r) = Some (int q * un, r)"
    using parse_segment_int [of u r un "show_nat q"] assms by simp
  then show ?thesis
    using assms(4) by (intro parse_segments_step) auto
qed

lemma parse_segments_last: "parse_segments [] t = Some t"
  by (simp add: parse_segments.simps)

lemma parse_segments_frac:
  assumes u: "is_unit u \<and> unit_nanos u = Some (10 ^ k)" and k: "k \<le> 9"
    and b: "i128_range (t + int a)" "0 \<le> t"
  shows "parse_segments (trim_frac a k @ u) t = Some (t + int a)"
proof -
  have a: "int (a div 10 ^ k) * 10 ^ k + int (a mod 10 ^ k) = int a"
    using arg_cong [OF div_mult_mod_eq [of a "10 ^ k"], of int] by simp
  have ra: "i128_range (int a)" using b by (auto intro: i128_range_mono)
  have rq: "i128_range (int (a div 10 ^ k) * 10 ^ k)"
    using a ra by (intro i128_range_mono [OF ra]) auto
  have rd: "i128_range (int (a div 10 ^ k))"
    using mult_ge_self [of "10 ^ k" "a div 10 ^ k"] by (intro i128_range_mono [OF rq]) auto
  show ?thesis
  proof (cases rule: trim_frac_shape [OF k, of a])
    case 1
    then have "int (a div 10 ^ k) * 10 ^ k = int a" using a by simp
    with parse_segments_int [OF u, of "[]" t "a div 10 ^ k"] b 1 show ?thesis
      by (simp add: parse_segments_last)
  next
    case (2 f)
    have x: "int (digits_val f) * 10 ^ k = int (a mod 10 ^ k) * 10 ^ length f"
      using arg_cong [OF 2(6), of int] by simp
    have seg: "parse_segment (show_nat (a div 10 ^ k) @ ''.'' @ f @ u @ []) =
        Some (int (digits_val (show_nat (a div 10 ^ k))) * 10 ^ k + int (a mod 10 ^ k), [])"
      using u 2(2-4) x rq rd ra a by (intro parse_segment_frac) auto
    then have "parse_segment (trim_frac a k @ u) = Some (int a, [])"
      using a 2(1) by simp
    then have "parse_segments (trim_frac a k @ u) t = parse_segments [] (t + int a)"
      using b u by (intro parse_segments_step) (auto simp: is_unit_def)
    then show ?thesis by (simp add: parse_segments_last)
  qed
qed

lemma digit_start_trim_frac: "k \<le> 9 \<Longrightarrow> digit_start (trim_frac a k @ r)"
  by (cases rule: trim_frac_shape [of k a]) auto

text \<open>The three-part form \<open>1h2m3.5s\<close>.\<close>

lemma parse_segments_hms:
  assumes b: "i128_range (int a)"
  shows "parse_segments
    ((if a div 3600000000000 > 0 then show_nat (a div 3600000000000) @ ''h'' else []) @
     (if a div 3600000000000 > 0 \<or> a mod 3600000000000 div 60000000000 > 0
      then show_nat (a mod 3600000000000 div 60000000000) @ ''m'' else []) @
     trim_frac (a mod 3600000000000 mod 60000000000) 9 @ ''s'') 0 = Some (int a)"
proof -
  define h where "h = a div 3600000000000"
  define m where "m = a mod 3600000000000 div 60000000000"
  define s where "s = a mod 3600000000000 mod 60000000000"
  have sum: "int a = int h * 3600000000000 + int m * 60000000000 + int s"
  proof -
    have "a = h * 3600000000000 + a mod 3600000000000"
      unfolding h_def by simp
    also have "a mod 3600000000000 = m * 60000000000 + s"
      unfolding m_def s_def by simp
    finally have "a = h * 3600000000000 + (m * 60000000000 + s)" .
    then have "int a = int (h * 3600000000000 + (m * 60000000000 + s))" by (rule arg_cong)
    then show ?thesis by simp
  qed
  have sec: "parse_segments (trim_frac s 9 @ ''s'') (int h * 3600000000000 + int m * 60000000000) = Some (int a)"
    using parse_segments_frac [of "''s''" 9 "int h * 3600000000000 + int m * 60000000000" s] unit_facts sum b
    by simp
  have min: "parse_segments (show_nat m @ ''m'' @ trim_frac s 9 @ ''s'') (int h * 3600000000000) = Some (int a)"
    using parse_segments_int [OF unit_facts(5), of "trim_frac s 9 @ ''s''" "int h * 3600000000000" m]
      sec digit_start_trim_frac [of 9 s "''s''"] sum b by (simp add: i128_range_def)
  have hour: "parse_segments (show_nat h @ ''h'' @ show_nat m @ ''m'' @ trim_frac s 9 @ ''s'') 0 = Some (int a)"
    using parse_segments_int [OF unit_facts(6), of "show_nat m @ ''m'' @ trim_frac s 9 @ ''s''" 0 h]
      min sum b by (simp add: i128_range_def)
  have "parse_segments
      ((if h > 0 then show_nat h @ ''h'' else []) @ (if h > 0 \<or> m > 0 then show_nat m @ ''m'' else []) @
       trim_frac s 9 @ ''s'') 0 = Some (int a)"
  proof (cases "h > 0")
    case True
    with hour show ?thesis by simp
  next
    case False
    with min sec show ?thesis by (cases "m > 0") auto
  qed
  then show ?thesis by (simp only: h_def m_def s_def)
qed

lemma parse_segments_go_string:
  assumes b: "i128_range (int a)"
  shows "parse_segments (go_duration_string a) 0 = Some (int a)"
proof -
  have ns: "parse_segments (show_nat a @ ''ns'') 0 = Some (int a)"
    using parse_segments_int [OF unit_facts(1), of "[]" 0 a] b by (simp add: parse_segments_last)
  have us: "parse_segments (trim_frac a 3 @ ''us'') 0 = Some (int a)"
    using parse_segments_frac [of "''us''" 3 0 a] unit_facts b by simp
  have ms: "parse_segments (trim_frac a 6 @ ''ms'') 0 = Some (int a)"
    using parse_segments_frac [of "''ms''" 6 0 a] unit_facts b by simp
  show ?thesis
    using ns us ms parse_segments_hms [OF b] unfolding go_duration_string_def Let_def by auto
qed

text \<open>The magnitude, in whichever of the five forms \<open>Display\<close> picks.\<close>

lemma parse_segments_whole:
  assumes "is_unit u \<and> unit_nanos u = Some (int un)" "1 \<le> un" "a mod un = 0" "i128_range (int a)"
  shows "parse_segments (show_nat (a div un) @ u) 0 = Some (int a)"
proof -
  have "int (a div un) * int un = int a"
    using assms(3) by (metis add.right_neutral div_mult_mod_eq of_nat_mult)
  with parse_segments_int [OF assms(1), of "[]" 0 "a div un"] assms show ?thesis
    by (simp add: parse_segments_last)
qed

definition show_magnitude :: "nat \<Rightarrow> str" where
  "show_magnitude a =
     (if a mod nat NANOS_PER_DAY = 0 then show_nat (a div nat NANOS_PER_DAY) @ ''d''
      else if a mod 3600000000000 = 0 then show_nat (a div 3600000000000) @ ''h''
      else if a mod 60000000000 = 0 then show_nat (a div 60000000000) @ ''m''
      else if a mod 1000000000 = 0 then show_nat (a div 1000000000) @ ''s''
      else go_duration_string a)"

lemma parse_segments_magnitude:
  assumes "i128_range (int a)"
  shows "parse_segments (show_magnitude a) 0 = Some (int a)"
proof -
  have d: "is_unit ''d'' \<and> unit_nanos ''d'' = Some (int (nat NANOS_PER_DAY))"
    using unit_facts by (simp add: NANOS_PER_DAY_def)
  have "1 \<le> nat NANOS_PER_DAY" by (simp add: NANOS_PER_DAY_def)
  then show ?thesis
    unfolding show_magnitude_def
    using parse_segments_whole [OF d, of a] parse_segments_whole [of "''h''" 3600000000000 a]
      parse_segments_whole [of "''m''" 60000000000 a] parse_segments_whole [of "''s''" 1000000000 a]
      parse_segments_go_string unit_facts assms by auto
qed

lemma digit_hd_append: "list_all is_ascii_digit d \<Longrightarrow> d \<noteq> [] \<Longrightarrow> is_ascii_digit (hd (d @ r))"
  by (cases d) auto

lemma hd_show_nat_digit [simp]: "is_ascii_digit (hd (show_nat n @ r))"
  by (rule digit_hd_append) auto

lemma hd_show_nat_digit' [simp]: "is_ascii_digit (hd (show_nat n))"
  using hd_show_nat_digit [of n "[]"] by simp

lemma hd_show_magnitude:
  "show_magnitude a \<noteq> [] \<and> is_ascii_digit (hd (show_magnitude a)) \<and> show_magnitude a \<noteq> ''0''"
proof -
  have tf: "is_ascii_digit (hd (trim_frac x k @ r))" if "k \<le> 9" for x k r
    by (cases rule: trim_frac_shape [OF that, of x]) (use hd_show_nat_digit in auto)
  have l: "last (go_duration_string a) = CHR ''s'' \<and> go_duration_string a \<noteq> []"
    by (simp add: go_duration_string_def Let_def)
  have h: "is_ascii_digit (hd (go_duration_string a))"
    using tf by (simp add: go_duration_string_def Let_def)
  have "show_magnitude a \<noteq> [] \<and> last (show_magnitude a) \<noteq> CHR ''0''"
    using l by (auto simp: show_magnitude_def)
  moreover have "is_ascii_digit (hd (show_magnitude a))"
    using h by (auto simp: show_magnitude_def)
  ultimately show ?thesis by auto
qed

lemma show_duration_magnitude:
  "n \<noteq> 0 \<Longrightarrow> show_duration (GoDuration n) = (if n < 0 then ''-'' else []) @ show_magnitude (nat \<bar>n\<bar>)"
  by (simp add: show_magnitude_def Let_def)

lemma strip_sign_digit:
  assumes "s \<noteq> []" "is_ascii_digit (hd s)"
  shows "strip_prefix ''-'' s = None" "strip_prefix ''+'' s = None"
  using assms by (cases s; auto simp: strip_prefix_def starts_with_def is_ascii_digit_def)+

section \<open>Properties\<close>

text \<open>
  Every duration the program can hold survives the configuration file and the API: what
  \<open>Display\<close> prints, in the single-unit form or in Go's \<open>1h2m3.5s\<close> form, \<open>parse\<close> reads back as the
  same number of nanoseconds.
\<close>

theorem duration_roundtrip:
  assumes "\<bar>n\<bar> < 2 ^ 127"
  shows "parse_duration (show_duration (GoDuration n)) = Inr (GoDuration n)"
proof (cases "n = 0")
  case True
  have "parse_duration (show_duration (GoDuration 0)) = Inr (GoDuration 0)" by code_simp
  with True show ?thesis by simp
next
  case False
  define m where "m = show_magnitude (nat \<bar>n\<bar>)"
  have m: "m \<noteq> []" "is_ascii_digit (hd m)" "m \<noteq> ''0''"
    using hd_show_magnitude [of "nat \<bar>n\<bar>"] by (simp_all add: m_def)
  have "i128_range (int (nat \<bar>n\<bar>))" using assms by (simp add: i128_range_def)
  then have seg: "parse_segments m 0 = Some \<bar>n\<bar>"
    using parse_segments_magnitude [of "nat \<bar>n\<bar>"] by (simp add: m_def)
  have neg: "strip_prefix ''-'' (CHR ''-'' # m) = Some m"
    using strip_prefix_append [of "''-''" m] by simp
  show ?thesis
    unfolding show_duration_magnitude [OF False] m_def [symmetric]
    using strip_sign_digit [OF m(1,2)] m seg neg
    by (simp add: parse_duration_def parse_go_duration_def Let_def)
qed

theorem duration_roundtrip_witness:
  "show_duration (GoDuration (-3723500000000)) = ''-1h2m3.5s'' \<and>
   parse_duration ''-1h2m3.5s'' = Inr (GoDuration (-3723500000000))"
proof -
  have h: "\<bar>- 3723500000000 :: int\<bar> < 2 ^ 127" by simp
  have s: "show_duration (GoDuration (-3723500000000)) = ''-1h2m3.5s''" by code_simp
  show ?thesis using s duration_roundtrip [OF h] by simp
qed

end
