(* ===== verification/Log_Api.thy ===== *)
theory Log_Api
  imports Recorder Duration
begin

text \<open>
  The query log and statistics endpoints, \<open>crates/sift-api/src/handlers/logs.rs\<close>: which entries a
  page of the log shows, and the handlers that change the settings of the two records.  The JSON
  rendering of an entry is left out.  Unicode lower-casing, IDNA and \<open>jiff\<close>'s time stamps are the
  parameters of \<open>log_env\<close>; a time stamp is its nanosecond.
\<close>

section \<open>A page of the log\<close>

record log_env =
  le_lower :: "str \<Rightarrow> str"
  le_idna :: "str \<Rightarrow> str option"
  le_parse_time :: "str \<Rightarrow> int option"

record query_log_params =
  qp_limit :: "nat option"
  qp_offset :: "nat option"
  qp_search :: "str option"
  qp_response_status :: "str option"
  qp_older_than :: "str option"
  qp_filter_id :: "str option"

definition is_older_than :: "log_env \<Rightarrow> log_entry \<Rightarrow> int option \<Rightarrow> bool" where
  "is_older_than L e cutoff =
     (case cutoff of
        None \<Rightarrow> True
      | Some c \<Rightarrow> (case le_parse_time L (qe_time e) of None \<Rightarrow> False | Some t \<Rightarrow> t < c))"

record log_search =
  se_value :: str
  se_ascii :: "str option"
  se_strict :: bool

definition search_parse :: "log_env \<Rightarrow> str \<Rightarrow> log_search option" where
  "search_parse L raw =
     (if raw = [] then None
      else
        let strict = (length raw \<ge> 2 \<and> raw ! 0 = CHR 0x22 \<and> raw ! (length raw - 1) = CHR 0x22);
            value = (if strict then take (length raw - 2) (drop 1 raw) else raw);
            value = le_lower L value;
            ascii = (case le_idna L value of None \<Rightarrow> None | Some a \<Rightarrow> if a \<noteq> value then Some a else None)
        in Some \<lparr>se_value = value, se_ascii = ascii, se_strict = strict\<rparr>)"

definition search_holds :: "log_env \<Rightarrow> log_search \<Rightarrow> str \<Rightarrow> str \<Rightarrow> bool" where
  "search_holds L s field term' =
     (let f = le_lower L field in if se_strict s then f = term' else contains_str f term')"

definition search_matches :: "log_env \<Rightarrow> log_search \<Rightarrow> log_entry \<Rightarrow> str \<Rightarrow> bool" where
  "search_matches L s e cname =
     (if list_ex (\<lambda>f. search_holds L s f (se_value s)) [qe_question_host e, qe_ip e, cname, qe_client_id e] then True
      else case se_ascii s of None \<Rightarrow> False | Some a \<Rightarrow> search_holds L s (qe_question_host e) a)"

definition matches_search :: "log_env \<Rightarrow> log_entry \<Rightarrow> log_search option \<Rightarrow> str \<Rightarrow> bool" where
  "matches_search L e s cname = (case s of None \<Rightarrow> True | Some t \<Rightarrow> search_matches L t e cname)"

definition matches_status :: "log_entry \<Rightarrow> str \<Rightarrow> bool" where
  "matches_status e status =
     (let r = er_reason (qe_result e) in
      if status = ''all'' \<or> status = [] then True
      else if status = ''filtered'' then reason_matched r \<and> r \<noteq> NotFilteredNotFound
      else if status = ''blocked'' then is_filtered r
      else if status = ''blocked_safebrowsing'' then r = FilteredSafeBrowsing
      else if status = ''blocked_parental'' then r = FilteredParental
      else if status = ''whitelisted'' then r = NotFilteredAllowList
      else if status = ''rewritten'' then r \<in> {Rewritten, RewrittenAutoHosts, RewrittenRule}
      else if status = ''safe_search'' then r = FilteredSafeSearch
      else if status = ''processed'' then \<not> is_filtered r
      else True)"

definition matches_filter_list :: "log_entry \<Rightarrow> int option \<Rightarrow> bool" where
  "matches_filter_list e ls =
     (case ls of None \<Rightarrow> True | Some i \<Rightarrow> list_ex (\<lambda>r. qr_filter_list_id r = i) (er_rules (qe_result e)))"

text \<open>\<open>parse::<i64>\<close>.\<close>

definition parse_i64 :: "str \<Rightarrow> int option" where
  "parse_i64 s =
     (case s of
        c # r \<Rightarrow>
          if c = CHR ''-'' then (if starts_with r ''+'' then None else map_option (\<lambda>n. - int n) (parse_uint (2 ^ 63) r))
          else map_option int (parse_uint (2 ^ 63 - 1) s)
      | [] \<Rightarrow> None)"

definition usize_saturating_mul :: "nat \<Rightarrow> nat \<Rightarrow> nat" where
  "usize_saturating_mul a b = min (2 ^ 64 - 1) (a * b)"

definition entry_client_name :: "'rx registry \<Rightarrow> runtime \<Rightarrow> log_entry \<Rightarrow> str" where
  "entry_client_name reg rt e =
     (let addr = parse_ip (qe_ip e);
          cid = (if qe_client_id e \<noteq> [] then Some (qe_client_id e) else None);
          fallback = (case addr of None \<Rightarrow> [] | Some a \<Rightarrow> name_of rt a)
      in case registry_find reg addr cid None of
           None \<Rightarrow> fallback
         | Some c \<Rightarrow> if p_name c \<noteq> [] then p_name c else fallback)"

definition page_limit :: "query_log_params \<Rightarrow> nat" where
  "page_limit p = min (case qp_limit p of None \<Rightarrow> 500 | Some n \<Rightarrow> n) 5000"

definition page_cutoff :: "log_env \<Rightarrow> query_log_params \<Rightarrow> int option" where
  "page_cutoff L p = (case qp_older_than p of None \<Rightarrow> None | Some t \<Rightarrow> le_parse_time L t)"

definition page_raw :: "log_env \<Rightarrow> json_codec \<Rightarrow> read_io \<Rightarrow> read_io \<Rightarrow> query_log \<Rightarrow> query_log_params \<Rightarrow> log_entry list" where
  "page_raw L J io io' l p =
     (let limit = page_limit p;
          offset = (case qp_offset p of None \<Rightarrow> 0 | Some n \<Rightarrow> n);
          over_read = max (usize_saturating_mul limit 4) limit
      in if page_cutoff L p \<noteq> None then ql_read J io io' 0 (usize_saturating_mul over_read 4) l
         else ql_read J io io' offset over_read l)"

definition page_keeps :: "log_env \<Rightarrow> 'rx registry \<Rightarrow> runtime \<Rightarrow> query_log_params \<Rightarrow> log_entry \<Rightarrow> bool" where
  "page_keeps L reg rt p e \<longleftrightarrow>
     (let search = (case qp_search p of None \<Rightarrow> None | Some s \<Rightarrow> search_parse L s);
          status = (case qp_response_status p of None \<Rightarrow> ''all'' | Some s \<Rightarrow> s);
          ls = (case qp_filter_id p of None \<Rightarrow> None | Some v \<Rightarrow> parse_i64 v)
      in is_older_than L e (page_cutoff L p) \<and> matches_search L e search (entry_client_name reg rt e)
         \<and> matches_status e status \<and> matches_filter_list e ls)"

text \<open>\<open>querylog\<close> gives the entries of the page and the cursor for the next one.\<close>

definition querylog ::
  "log_env \<Rightarrow> json_codec \<Rightarrow> read_io \<Rightarrow> read_io \<Rightarrow> 'rx registry \<Rightarrow> runtime \<Rightarrow> query_log \<Rightarrow> query_log_params \<Rightarrow> log_entry list \<times> str" where
  "querylog L J io io' reg rt l p =
     (let filtered = take (page_limit p) (filter (page_keeps L reg rt p) (page_raw L J io io' l p));
          oldest = (if filtered = [] then [] else qe_time (last filtered))
      in (filtered, oldest))"

section \<open>Settings\<close>

record log_settings =
  ls_dir_path :: str
  ls_ignored :: "str list"
  ls_interval :: go_duration
  ls_size_memory :: u32
  ls_enabled :: bool
  ls_ignored_enabled :: bool
  ls_file_enabled :: bool

record stats_settings =
  ss_dir_path :: str
  ss_ignored :: "str list"
  ss_interval :: go_duration
  ss_enabled :: bool
  ss_ignored_enabled :: bool

text \<open>The part of the server's state these handlers touch; \<open>rs_anonymize_client_ip\<close> is \<open>dns.anonymize_client_ip\<close>.\<close>

record records_state =
  rs_log :: log_settings
  rs_stats :: stats_settings
  rs_anonymize_client_ip :: bool
  rs_recorder :: recorder

definition apply_querylog_config :: "records_state \<Rightarrow> records_state" where
  "apply_querylog_config s =
     (let c = rs_log s; r = rs_recorder s in
      s\<lparr>rs_recorder := r\<lparr>rc_querylog := ql_set_config
        \<lparr>qc_enabled = ls_enabled c, qc_file_enabled = ls_file_enabled c, qc_size_memory = unat (ls_size_memory c),
         qc_ignored = ls_ignored c, qc_ignored_enabled = ls_ignored_enabled c,
         qc_anonymize_client_ip = rs_anonymize_client_ip s\<rparr> (rc_querylog r)\<rparr>\<rparr>)"

definition apply_stats_config :: "u32 \<Rightarrow> records_state \<Rightarrow> records_state" where
  "apply_stats_config hr s =
     (let c = rs_stats s; r = rs_recorder s in
      s\<lparr>rs_recorder := r\<lparr>rc_stats := stats_set_config hr
        \<lparr>sc_enabled = ss_enabled c, sc_limit_hours = word_of_int (max (as_hours (ss_interval c)) 0),
         sc_ignored = ss_ignored c, sc_ignored_enabled = ss_ignored_enabled c\<rparr> (rc_stats r)\<rparr>\<rparr>)"

record query_log_config_req =
  qq_enabled :: "bool option"
  qq_interval :: "int option"
  qq_anonymize_client_ip :: "bool option"
  qq_ignored :: "str list option"

definition override :: "'a option \<Rightarrow> 'a \<Rightarrow> 'a" where
  "override v old = (case v of None \<Rightarrow> old | Some x \<Rightarrow> x)"

text \<open>\<open>save\<close> is \<open>save_config\<close>: whether the file could be written.\<close>

definition querylog_config_update :: "bool \<Rightarrow> query_log_config_req \<Rightarrow> records_state \<Rightarrow> bool \<times> records_state" where
  "querylog_config_update save req s =
     (let c = rs_log s;
          c = c\<lparr>ls_enabled := override (qq_enabled req) (ls_enabled c),
                ls_interval := override (map_option from_millis (qq_interval req)) (ls_interval c),
                ls_ignored_enabled := override (map_option (\<lambda>v. v \<noteq> []) (qq_ignored req)) (ls_ignored_enabled c),
                ls_ignored := override (qq_ignored req) (ls_ignored c)\<rparr>
      in (save, apply_querylog_config (s\<lparr>rs_log := c,
            rs_anonymize_client_ip := override (qq_anonymize_client_ip req) (rs_anonymize_client_ip s)\<rparr>)))"

definition querylog_config_legacy :: "bool \<Rightarrow> bool \<Rightarrow> u64 \<Rightarrow> bool \<Rightarrow> records_state \<Rightarrow> bool \<times> records_state" where
  "querylog_config_legacy save enabled interval anonymize s =
     (save, apply_querylog_config (s\<lparr>rs_log := (rs_log s)\<lparr>ls_enabled := enabled, ls_interval := from_days (sint interval)\<rparr>,
        rs_anonymize_client_ip := anonymize\<rparr>))"

record stats_config_req =
  sq_enabled :: "bool option"
  sq_interval :: "int option"
  sq_ignored :: "str list option"

definition stats_config_update :: "bool \<Rightarrow> u32 \<Rightarrow> stats_config_req \<Rightarrow> records_state \<Rightarrow> bool \<times> records_state" where
  "stats_config_update save hr req s =
     (let c = rs_stats s;
          c = c\<lparr>ss_enabled := override (sq_enabled req) (ss_enabled c),
                ss_interval := override (map_option from_millis (sq_interval req)) (ss_interval c),
                ss_ignored_enabled := override (map_option (\<lambda>v. v \<noteq> []) (sq_ignored req)) (ss_ignored_enabled c),
                ss_ignored := override (sq_ignored req) (ss_ignored c)\<rparr>
      in (save, apply_stats_config hr (s\<lparr>rs_stats := c\<rparr>)))"

definition stats_config_legacy :: "bool \<Rightarrow> u32 \<Rightarrow> u64 \<Rightarrow> records_state \<Rightarrow> bool \<times> records_state" where
  "stats_config_legacy save hr interval s =
     (save, apply_stats_config hr (s\<lparr>rs_stats := (rs_stats s)\<lparr>ss_interval := from_days (sint interval),
        ss_enabled := (interval \<noteq> 0)\<rparr>\<rparr>))"

definition querylog_clear :: "bool \<Rightarrow> bool \<Rightarrow> records_state \<Rightarrow> unit io_result \<times> records_state" where
  "querylog_clear rm_path rm_rotated s =
     (case ql_clear rm_path rm_rotated (rc_querylog (rs_recorder s)) of
        (res, l) \<Rightarrow> (res, s\<lparr>rs_recorder := (rs_recorder s)\<lparr>rc_querylog := l\<rparr>\<rparr>))"

definition stats_reset :: "records_state \<Rightarrow> records_state" where
  "stats_reset s = s\<lparr>rs_recorder := (rs_recorder s)\<lparr>rc_stats := stats_clear (rc_stats (rs_recorder s))\<rparr>\<rparr>"

section \<open>What a page shows\<close>

lemma page_limit_bound: "page_limit p \<le> 5000"
  by (simp add: page_limit_def)

lemma over_read: "max (usize_saturating_mul (page_limit p) 4) (page_limit p) = 4 * page_limit p"
  using page_limit_bound [of p] by (simp add: usize_saturating_mul_def max_def)

lemma over_read_cursor: "usize_saturating_mul (4 * page_limit p) 4 = 16 * page_limit p"
  using page_limit_bound [of p] by (simp add: usize_saturating_mul_def)

lemma page_raw_eq:
  "page_raw L J io io' l p =
     (if page_cutoff L p \<noteq> None then ql_read J io io' 0 (16 * page_limit p) l
      else ql_read J io io' (case qp_offset p of None \<Rightarrow> 0 | Some n \<Rightarrow> n) (4 * page_limit p) l)"
  by (simp add: page_raw_def Let_def over_read over_read_cursor)

text \<open>
  A page without a cursor over entries that memory holds: the entries kept by the filters among the
  four times \<open>limit\<close> read, newest first.
\<close>

theorem page_in_memory:
  assumes "qp_older_than p = None" "(case qp_offset p of None \<Rightarrow> 0 | Some n \<Rightarrow> n) + 4 * page_limit p \<le> length (ql_recent l)"
  shows "fst (querylog L J io io' reg rt l p) =
    take (page_limit p) (filter (page_keeps L reg rt p)
      (take (4 * page_limit p) (drop (case qp_offset p of None \<Rightarrow> 0 | Some n \<Rightarrow> n) (ql_recent l))))"
  using assms by (simp add: querylog_def Let_def page_raw_eq page_cutoff_def read_page_in_memory)

text \<open>
  A cursor sees only the newest sixteen times \<open>limit\<close> entries: once those are all at or after the
  cursor, the page is empty, whatever older entries the log still holds.
\<close>

theorem cursor_window_closed:
  assumes "page_cutoff L p \<noteq> None" "16 * page_limit p \<le> length (ql_recent l)"
    and "\<And>e. e \<in> set (take (16 * page_limit p) (ql_recent l)) \<Longrightarrow> \<not> is_older_than L e (page_cutoff L p)"
  shows "querylog L J io io' reg rt l p = ([], [])"
proof -
  have "page_raw L J io io' l p = take (16 * page_limit p) (ql_recent l)"
    using assms(1,2) by (simp add: page_raw_eq read_page_in_memory)
  moreover have "filter (page_keeps L reg rt p) (take (16 * page_limit p) (ql_recent l)) = []"
    using assms(3) by (auto simp: filter_empty_conv page_keeps_def Let_def)
  ultimately show ?thesis by (simp add: querylog_def)
qed

text \<open>A configuration change that turns anonymisation on leaves the recorder's flag as it was.\<close>

theorem config_update_keeps_anonymize:
  "rc_anonymize (rs_recorder (snd (querylog_config_update save req s))) = rc_anonymize (rs_recorder s)"
  by (simp add: querylog_config_update_def apply_querylog_config_def Let_def)

end
