(* ===== verification/Ratelimit.thy ===== *)
theory Ratelimit
  imports Complex_Main Ipaddr
begin

text \<open>
  The rate limiter, \<open>crates/sift-dns/src/ratelimit.rs\<close>: a token bucket per client subnet.

  A token count is an \<open>f64\<close>: its value is a rational, and every operation rounds its exact result
  with the parameter \<open>rnd\<close>, of which the theorems use what IEEE 754 requires (\<open>f64_rounding\<close>): it is
  monotone and keeps the integers up to \<open>2^53\<close>.  Instants and durations are nanoseconds; the clock is
  an argument.
\<close>

section \<open>Settings and state\<close>

record rl_config =
  rl_per_second :: u32
  rl_subnet_len_v4 :: u8
  rl_subnet_len_v6 :: u8
  rl_allowlist :: "ip_addr list"


record rl_bucket =
  bk_tokens :: rat
  bk_last :: nat

text \<open>The hash map of buckets is an association list with distinct keys.\<close>

record rl_limiter =
  lm_cfg :: rl_config
  lm_buckets :: "(ip_addr \<times> rl_bucket) list"

definition IDLE_TTL :: nat where "IDLE_TTL = 300 * 10 ^ 9"
definition SWEEP_AT :: nat where "SWEEP_AT = 16384"




definition rl_is_disabled :: "rl_limiter \<Rightarrow> bool" where
  "rl_is_disabled l \<longleftrightarrow> rl_per_second (lm_cfg l) = 0"

definition rl_tracked :: "rl_limiter \<Rightarrow> nat" where
  "rl_tracked l = length (lm_buckets l)"

section \<open>Subnets\<close>

text \<open>Octets are words here: \<open>0xFF << (8 - rem)\<close> keeps the low eight bits.\<close>

definition mask_bytes :: "u8 list \<Rightarrow> nat \<Rightarrow> u8 list" where
  "mask_bytes b bits =
     (let full = bits div 8; rem = bits mod 8 in
      if rem > 0 \<and> full < length b
      then take full b @ [b ! full AND push_bit (8 - rem) 0xFF] @ replicate (length b - full - 1) 0
      else take full b @ replicate (length b - full) 0)"

definition ip_octets :: "nat \<Rightarrow> nat \<Rightarrow> u8 list" where
  "ip_octets n v = map of_nat (be_digits 256 n v)"

definition octets_value :: "u8 list \<Rightarrow> nat" where
  "octets_value bs = be_value 256 (map unat bs)"

fun subnet_key :: "ip_addr \<Rightarrow> u8 \<Rightarrow> u8 \<Rightarrow> ip_addr" where
  "subnet_key (V4 a) v4 v6 = V4 (of_nat (octets_value (mask_bytes (ip_octets 4 (unat a)) (min (unat v4) 32))))"
| "subnet_key (V6 a) v4 v6 = V6 (of_nat (octets_value (mask_bytes (ip_octets 16 (unat a)) (min (unat v6) 128))))"

section \<open>Allowing a query\<close>

definition as_secs_f64 :: "(rat \<Rightarrow> rat) \<Rightarrow> nat \<Rightarrow> rat" where
  "as_secs_f64 rnd d = rnd (rnd (of_nat (d div 10 ^ 9)) + rnd (of_nat (d mod 10 ^ 9) / 10 ^ 9))"

text \<open>\<open>Instant::duration_since\<close> is zero when the other instant is later, as natural subtraction is.\<close>

definition refill :: "(rat \<Rightarrow> rat) \<Rightarrow> rat \<Rightarrow> nat \<Rightarrow> rl_bucket \<Rightarrow> rat" where
  "refill rnd cap now b = min (rnd (bk_tokens b + rnd (as_secs_f64 rnd (now - bk_last b) * cap))) cap"

definition rl_sweep :: "nat \<Rightarrow> (ip_addr \<times> rl_bucket) list \<Rightarrow> (ip_addr \<times> rl_bucket) list" where
  "rl_sweep now m = (if length m \<ge> SWEEP_AT then filter (\<lambda>(_, b). now - bk_last b < IDLE_TTL) m else m)"

definition rl_allow :: "(rat \<Rightarrow> rat) \<Rightarrow> nat \<Rightarrow> ip_addr \<Rightarrow> rl_limiter \<Rightarrow> bool \<times> rl_limiter" where
  "rl_allow rnd now ip l =
     (let c = lm_cfg l in
      if rl_per_second c = 0 \<or> ip \<in> set (rl_allowlist c) then (True, l)
      else
        let key = subnet_key ip (rl_subnet_len_v4 c) (rl_subnet_len_v6 c);
            cap = of_nat (unat (rl_per_second c));
            m = rl_sweep now (lm_buckets l);
            b = (case map_of m key of Some b \<Rightarrow> b | None \<Rightarrow> \<lparr>bk_tokens = cap, bk_last = now\<rparr>);
            tokens = refill rnd cap now b
        in if tokens \<ge> 1
           then (True, l\<lparr>lm_buckets := al_insert key \<lparr>bk_tokens = rnd (tokens - 1), bk_last = now\<rparr> m\<rparr>)
           else (False, l\<lparr>lm_buckets := al_insert key \<lparr>bk_tokens = tokens, bk_last = now\<rparr> m\<rparr>))"

section \<open>Rounding\<close>

definition f64_rounding :: "(rat \<Rightarrow> rat) \<Rightarrow> bool" where
  "f64_rounding rnd \<longleftrightarrow> mono rnd \<and> (\<forall>n :: nat. n \<le> 2 ^ 53 \<longrightarrow> rnd (of_nat n) = of_nat n)"

lemma rnd_mono: "f64_rounding rnd \<Longrightarrow> x \<le> y \<Longrightarrow> rnd x \<le> rnd y"
  by (simp add: f64_rounding_def mono_def)

lemma rnd_nat: "f64_rounding rnd \<Longrightarrow> n \<le> 2 ^ 53 \<Longrightarrow> rnd (of_nat n) = of_nat n"
  by (simp add: f64_rounding_def)

lemma rnd_0: "f64_rounding rnd \<Longrightarrow> rnd 0 = 0"
  using rnd_nat [of rnd 0] by simp

lemma as_secs_f64_ge_1:
  assumes "f64_rounding rnd" "10 ^ 9 \<le> d"
  shows "1 \<le> as_secs_f64 rnd d"
proof -
  have r1: "rnd 1 = 1" using rnd_nat [OF assms(1), of 1] by simp
  have "(1 :: nat) \<le> d div 10 ^ 9" using assms(2) div_le_mono [of "10 ^ 9" d "10 ^ 9"] by simp
  then have "(1 :: rat) \<le> of_nat (d div 10 ^ 9)" by (metis of_nat_1 of_nat_mono)
  then have a: "1 \<le> rnd (of_nat (d div 10 ^ 9))" using rnd_mono [OF assms(1)] r1 by metis
  have "(0 :: rat) \<le> of_nat (d mod 10 ^ 9) / 10 ^ 9" by simp
  then have "0 \<le> rnd (of_nat (d mod 10 ^ 9) / 10 ^ 9)" using rnd_mono [OF assms(1)] rnd_0 [OF assms(1)] by metis
  then have "1 \<le> rnd (of_nat (d div 10 ^ 9)) + rnd (of_nat (d mod 10 ^ 9) / 10 ^ 9)" using a by linarith
  then show ?thesis unfolding as_secs_f64_def using rnd_mono [OF assms(1)] r1 by metis
qed

lemma as_secs_f64_0: "f64_rounding rnd \<Longrightarrow> as_secs_f64 rnd 0 = 0"
  by (simp add: as_secs_f64_def rnd_0)

section \<open>The bucket\<close>

definition bucket_ok :: "nat \<Rightarrow> nat \<Rightarrow> rl_bucket \<Rightarrow> bool" where
  "bucket_ok cap now b \<longleftrightarrow> 0 \<le> bk_tokens b \<and> bk_tokens b \<le> of_nat cap \<and> bk_last b \<le> now"



text \<open>At the instant of the last query nothing is refilled.\<close>

lemma refill_same_instant:
  assumes "f64_rounding rnd" "bk_last b = now" "bk_tokens b \<le> of_nat k" "k \<le> cap" "cap \<le> 2 ^ 32"
  shows "refill rnd (of_nat cap) now b \<le> of_nat k"
proof -
  have "rnd (bk_tokens b) \<le> rnd (of_nat k)" by (rule rnd_mono [OF assms(1,3)])
  also have "\<dots> = of_nat k" using assms(4,5) by (intro rnd_nat [OF assms(1)]) simp
  finally show ?thesis using assms(2) by (simp add: refill_def as_secs_f64_0 [OF assms(1)] rnd_0 [OF assms(1)])
qed

text \<open>After a silent second the bucket is full.\<close>

lemma refill_full:
  assumes "f64_rounding rnd" "0 \<le> bk_tokens b" "bk_last b + 10 ^ 9 \<le> now" "cap \<le> 2 ^ 32"
  shows "refill rnd (of_nat cap) now b = of_nat cap"
proof -
  have c: "rnd (of_nat cap) = of_nat cap" using assms(4) by (intro rnd_nat [OF assms(1)]) simp
  have "1 \<le> as_secs_f64 rnd (now - bk_last b)" using assms(3) by (intro as_secs_f64_ge_1 [OF assms(1)]) simp
  then have "of_nat cap \<le> as_secs_f64 rnd (now - bk_last b) * of_nat cap"
    using mult_right_mono [of 1 "as_secs_f64 rnd (now - bk_last b)" "of_nat cap :: rat"] by simp
  then have "of_nat cap \<le> rnd (as_secs_f64 rnd (now - bk_last b) * of_nat cap)" using rnd_mono [OF assms(1)] c by metis
  then have "of_nat cap \<le> bk_tokens b + rnd (as_secs_f64 rnd (now - bk_last b) * of_nat cap)" using assms(2) by linarith
  then have "of_nat cap \<le> rnd (bk_tokens b + rnd (as_secs_f64 rnd (now - bk_last b) * of_nat cap))"
    using rnd_mono [OF assms(1)] c by metis
  then show ?thesis by (simp add: refill_def)
qed


section \<open>One subnet\<close>

definition rl_cap :: "rl_limiter \<Rightarrow> nat" where
  "rl_cap l = unat (rl_per_second (lm_cfg l))"

definition rl_key :: "rl_limiter \<Rightarrow> ip_addr \<Rightarrow> ip_addr" where
  "rl_key l ip = subnet_key ip (rl_subnet_len_v4 (lm_cfg l)) (rl_subnet_len_v6 (lm_cfg l))"

definition limited :: "rl_limiter \<Rightarrow> ip_addr \<Rightarrow> bool" where
  "limited l ip \<longleftrightarrow> rl_per_second (lm_cfg l) \<noteq> 0 \<and> ip \<notin> set (rl_allowlist (lm_cfg l))"

definition limiter_ok :: "nat \<Rightarrow> rl_limiter \<Rightarrow> bool" where
  "limiter_ok now l \<longleftrightarrow> distinct (map fst (lm_buckets l)) \<and> (\<forall>(k, b) \<in> set (lm_buckets l). bucket_ok (rl_cap l) now b)"

text \<open>What a subnet may spend at an instant, whether its bucket is there or not.\<close>

definition level :: "(rat \<Rightarrow> rat) \<Rightarrow> nat \<Rightarrow> rl_limiter \<Rightarrow> ip_addr \<Rightarrow> rat" where
  "level rnd now l key =
     (case map_of (lm_buckets l) key of None \<Rightarrow> of_nat (rl_cap l) | Some b \<Rightarrow> refill rnd (of_nat (rl_cap l)) now b)"

lemma rl_cap_le: "rl_cap l \<le> 2 ^ 32"
proof -
  have "unat (rl_per_second (lm_cfg l)) < 2 ^ LENGTH(32)" by (rule unsigned_less)
  then show ?thesis by (simp add: rl_cap_def)
qed

lemma map_of_filter_Some:
  "distinct (map fst m) \<Longrightarrow> map_of (filter (\<lambda>(k, b). P b) m) k = (case map_of m k of None \<Rightarrow> None | Some b \<Rightarrow> if P b then Some b else None)"
  by (induction m) (auto split: option.splits simp: map_of_eq_None_iff image_iff)

lemma map_of_rl_sweep:
  assumes "distinct (map fst m)"
  shows "map_of (rl_sweep now m) key = map_of m key
    \<or> map_of (rl_sweep now m) key = None \<and> (\<exists>b. map_of m key = Some b \<and> bk_last b + IDLE_TTL \<le> now)"
proof (cases "length m \<ge> SWEEP_AT")
  case True
  then have "map_of (rl_sweep now m) key =
      (case map_of m key of None \<Rightarrow> None | Some b \<Rightarrow> if now - bk_last b < IDLE_TTL then Some b else None)"
    using map_of_filter_Some [OF assms, of "\<lambda>b. now - bk_last b < IDLE_TTL"] by (simp add: rl_sweep_def)
  then show ?thesis by (auto simp: IDLE_TTL_def split: option.splits if_splits)
qed (simp add: rl_sweep_def)

text \<open>Sweeping is invisible: a bucket old enough to be dropped would have been full.\<close>

lemma level_rl_sweep:
  assumes "f64_rounding rnd" "limiter_ok t l" "t \<le> now"
  shows "level rnd now (l\<lparr>lm_buckets := rl_sweep t (lm_buckets l)\<rparr>) key = level rnd now l key"
proof -
  have d: "distinct (map fst (lm_buckets l))" using assms(2) by (simp add: limiter_ok_def)
  have cap: "rl_cap (l\<lparr>lm_buckets := rl_sweep t (lm_buckets l)\<rparr>) = rl_cap l" by (simp add: rl_cap_def)
  from map_of_rl_sweep [OF d, of t key] show ?thesis
  proof
    assume "map_of (rl_sweep t (lm_buckets l)) key = None \<and> (\<exists>b. map_of (lm_buckets l) key = Some b \<and> bk_last b + IDLE_TTL \<le> t)"
    then obtain b where b: "map_of (rl_sweep t (lm_buckets l)) key = None" "map_of (lm_buckets l) key = Some b" "bk_last b + IDLE_TTL \<le> t"
      by blast
    then have "0 \<le> bk_tokens b" using assms(2) map_of_SomeD [OF b(2)] by (auto simp: limiter_ok_def bucket_ok_def)
    moreover have "bk_last b + 10 ^ 9 \<le> now" using b(3) assms(3) by (simp add: IDLE_TTL_def)
    ultimately show ?thesis using b refill_full [OF assms(1) _ _ rl_cap_le] by (simp add: level_def cap)
  qed (auto simp: level_def cap split: option.splits)
qed

definition spend :: "(rat \<Rightarrow> rat) \<Rightarrow> rat \<Rightarrow> rat" where
  "spend rnd t = (if t \<ge> 1 then rnd (t - 1) else t)"

lemma refill_new: "f64_rounding rnd \<Longrightarrow> cap \<le> 2 ^ 32 \<Longrightarrow> refill rnd (of_nat cap) now \<lparr>bk_tokens = of_nat cap, bk_last = now\<rparr> = of_nat cap"
  by (simp add: refill_def as_secs_f64_0 rnd_0 rnd_nat)

lemma rl_allow_limited:
  assumes "f64_rounding rnd" "limiter_ok now l" "limited l ip"
  shows "rl_allow rnd now ip l = (level rnd now l (rl_key l ip) \<ge> 1,
    l\<lparr>lm_buckets := al_insert (rl_key l ip) \<lparr>bk_tokens = spend rnd (level rnd now l (rl_key l ip)), bk_last = now\<rparr>
        (rl_sweep now (lm_buckets l))\<rparr>)"
proof -
  let ?b = "case map_of (rl_sweep now (lm_buckets l)) (rl_key l ip) of
      Some b \<Rightarrow> b | None \<Rightarrow> \<lparr>bk_tokens = of_nat (rl_cap l), bk_last = now\<rparr>"
  have lev: "refill rnd (of_nat (rl_cap l)) now ?b = level rnd now l (rl_key l ip)"
    using level_rl_sweep [OF assms(1,2) order_refl, of "rl_key l ip"] refill_new [OF assms(1) rl_cap_le, of l now]
    by (auto simp: level_def rl_cap_def split: option.splits)
  have "rl_allow rnd now ip l =
    (let tokens = refill rnd (of_nat (rl_cap l)) now ?b in
     if tokens \<ge> 1 then (True, l\<lparr>lm_buckets := al_insert (rl_key l ip) \<lparr>bk_tokens = rnd (tokens - 1), bk_last = now\<rparr> (rl_sweep now (lm_buckets l))\<rparr>)
     else (False, l\<lparr>lm_buckets := al_insert (rl_key l ip) \<lparr>bk_tokens = tokens, bk_last = now\<rparr> (rl_sweep now (lm_buckets l))\<rparr>))"
    using assms(3) by (simp only: rl_allow_def Let_def limited_def rl_key_def rl_cap_def) simp
  then show ?thesis unfolding lev by (simp add: spend_def Let_def)
qed











text \<open>What a limiter may go through: queries at some instants, and changes of its settings.\<close>

datatype rl_event = AllowAt nat ip_addr | Configure rl_config | Clear



fun event_times :: "rl_event list \<Rightarrow> nat list" where
  "event_times [] = []"
| "event_times (AllowAt t ip # evs) = t # event_times evs"
| "event_times (e # evs) = event_times evs"

lemma event_times_append [simp]: "event_times (xs @ ys) = event_times xs @ event_times ys"
  by (induction xs rule: event_times.induct) auto




text \<open>
  Subnets do not disturb each other: what a query of another subnet does to the table, sweeping
  included, changes no later decision for this one.
\<close>

theorem ratelimit_isolated:
  assumes "f64_rounding rnd" "limiter_ok t l" "t \<le> now" "limited l ip" "limited l other" "rl_key l other \<noteq> rl_key l ip"
    and "rl_allow rnd t other l = (r, l')" "limiter_ok now l'"
  shows "fst (rl_allow rnd now ip l') = fst (rl_allow rnd now ip l)"
proof -
  have l': "l' = l\<lparr>lm_buckets := al_insert (rl_key l other) \<lparr>bk_tokens = spend rnd (level rnd t l (rl_key l other)), bk_last = t\<rparr>
      (rl_sweep t (lm_buckets l))\<rparr>"
    using rl_allow_limited [OF assms(1,2,5)] assms(7) by simp
  have lim: "limited l' ip" "rl_key l' ip = rl_key l ip" using assms(4) by (simp_all add: l' limited_def rl_key_def)
  have "level rnd now l' (rl_key l ip) = level rnd now (l\<lparr>lm_buckets := rl_sweep t (lm_buckets l)\<rparr>) (rl_key l ip)"
    using assms(6) by (auto simp: l' level_def rl_cap_def split: option.splits)
  also have "\<dots> = level rnd now l (rl_key l ip)" by (rule level_rl_sweep [OF assms(1-3)])
  finally have lv: "level rnd now l' (rl_key l ip) = level rnd now l (rl_key l ip)" .
  have "limiter_ok now l" using assms(2,3) by (auto simp: limiter_ok_def bucket_ok_def)
  then show ?thesis using rl_allow_limited [OF assms(1) _ assms(4)] rl_allow_limited [OF assms(1,8) lim(1)] lim(2) lv by simp
qed



section \<open>Subnets group by prefix\<close>

lemma and_high_mask: "unat (b AND push_bit k 0xFF :: u8) = unat b div 2 ^ k * 2 ^ k"
proof -
  have ff: "(0xFF :: u8) = mask 8" by code_simp
  have "b AND push_bit k 0xFF = push_bit k (drop_bit k b)"
    unfolding ff by (rule bit_word_eqI) (auto simp: bit_simps)
  moreover have "take_bit 8 (unat b) = unat b" using unsigned_less [of b, where ?'a = nat] by (intro take_bit_nat_eq_self) simp
  ultimately have "unat (b AND push_bit k 0xFF) = take_bit 8 (push_bit k (drop_bit k (unat b)))"
    by (simp only: unsigned_push_bit_eq unsigned_drop_bit_eq) simp
  also have "\<dots> = push_bit k (drop_bit k (unat b))"
    using unsigned_less [of b, where ?'a = nat]
    by (intro take_bit_nat_eq_self) (auto simp: push_bit_eq_mult drop_bit_eq_div intro: le_less_trans [OF div_times_less_eq_dividend])
  finally show ?thesis by (simp add: push_bit_eq_mult drop_bit_eq_div)
qed

lemma mask_bytes_snoc:
  assumes "bits \<le> 8 * length xs"
  shows "mask_bytes (xs @ [x]) bits = mask_bytes xs bits @ [0]"
proof (cases "bits mod 8 > 0")
  case True
  moreover have "8 * (bits div 8) + bits mod 8 = bits" by simp
  ultimately have lt: "bits div 8 < length xs" using assms by linarith
  then obtain d where d: "length xs - bits div 8 = Suc d" "length xs - Suc (bits div 8) = d" by (metis Suc_diff_Suc)
  show ?thesis using True lt by (simp add: mask_bytes_def Let_def nth_append d replicate_append_same)
next
  case False
  then have "bits div 8 \<le> length xs" using assms by simp
  then show ?thesis using False by (simp add: mask_bytes_def Let_def Suc_diff_le replicate_append_same)
qed

lemma length_ip_octets [simp]: "length (ip_octets n v) = n"
  by (simp add: ip_octets_def)

lemma ip_octets_Suc: "ip_octets (Suc n) v = ip_octets n (v div 256) @ [of_nat (v mod 256)]"
  by (simp add: ip_octets_def)

lemma div_times_256:
  fixes v :: nat
  assumes "8 \<le> k"
  shows "(v div 2 ^ k * 2 ^ k) div 256 = v div 256 div 2 ^ (k - 8) * 2 ^ (k - 8)" "(v div 2 ^ k * 2 ^ k) mod 256 = 0"
proof -
  have k: "(2 :: nat) ^ k = 256 * 2 ^ (k - 8)" using assms power_add [of "2 :: nat" 8 "k - 8"] by simp
  show "(v div 2 ^ k * 2 ^ k) mod 256 = 0" unfolding k by simp
  show "(v div 2 ^ k * 2 ^ k) div 256 = v div 256 div 2 ^ (k - 8) * 2 ^ (k - 8)"
    unfolding k by (simp add: div_mult2_eq mult.left_commute mult.commute)
qed

lemma div_times_low:
  fixes v :: nat
  assumes "k < 8"
  shows "(v div 2 ^ k * 2 ^ k) div 256 = v div 256" "(v div 2 ^ k * 2 ^ k) mod 256 = v mod 256 div 2 ^ k * 2 ^ k"
proof -
  have p: "(256 :: nat) = 2 ^ k * 2 ^ (8 - k)" using assms power_add [of "2 :: nat" k "8 - k"] by simp
  have "v div 2 ^ k div 2 ^ (8 - k) = v div 256" unfolding p by (simp add: div_mult2_eq)
  then show "(v div 2 ^ k * 2 ^ k) div 256 = v div 256" unfolding p by (simp add: mult.commute)
  have "(v div 2 ^ k * 2 ^ k) mod (2 ^ k * 2 ^ (8 - k)) = (v div 2 ^ k) mod 2 ^ (8 - k) * 2 ^ k"
    using mult_mod_right [of "2 ^ k" "v div 2 ^ k" "2 ^ (8 - k)"] by (simp only: mult.commute)
  moreover have "v mod (2 ^ k * 2 ^ (8 - k)) div 2 ^ k = (v div 2 ^ k) mod 2 ^ (8 - k)"
    by (simp add: mod_mult2_eq)
  ultimately show "(v div 2 ^ k * 2 ^ k) mod 256 = v mod 256 div 2 ^ k * 2 ^ k" unfolding p by simp
qed

lemma mask_bytes_octets:
  assumes "bits \<le> 8 * n"
  shows "mask_bytes (ip_octets n v) bits = ip_octets n (v div 2 ^ (8 * n - bits) * 2 ^ (8 * n - bits))"
  using assms
proof (induction n arbitrary: v)
  case 0
  then show ?case by (simp add: mask_bytes_def ip_octets_def)
next
  case (Suc n)
  show ?case
  proof (cases "bits \<le> 8 * n")
    case True
    have "mask_bytes (ip_octets (Suc n) v) bits = mask_bytes (ip_octets n (v div 256)) bits @ [0]"
      using True by (simp add: ip_octets_Suc mask_bytes_snoc)
    also have "\<dots> = ip_octets n (v div 256 div 2 ^ (8 * n - bits) * 2 ^ (8 * n - bits)) @ [0]" using Suc.IH [OF True] by simp
    also have "\<dots> = ip_octets (Suc n) (v div 2 ^ (8 * Suc n - bits) * 2 ^ (8 * Suc n - bits))"
      using div_times_256 [of "8 * Suc n - bits" v] True by (simp add: ip_octets_Suc)
    finally show ?thesis .
  next
    case False
    define k where "k = 8 * Suc n - bits"
    have k: "k < 8" "8 * Suc n - bits = k" using False by (auto simp: k_def)
    show ?thesis
    proof (cases "k = 0")
      case True
      then have "bits = 8 * Suc n" using Suc.prems k_def by simp
      then show ?thesis by (simp add: mask_bytes_def)
    next
      case False
      then obtain r where r: "bits = 8 * n + r" "0 < r" "r < 8" "8 - r = k"
        using k by (intro that [of "8 - k"]) (auto simp: k_def)
      have "mask_bytes (ip_octets (Suc n) v) bits = ip_octets n (v div 256) @ [of_nat (v mod 256) AND push_bit k 0xFF]"
        using r by (simp add: ip_octets_Suc mask_bytes_def Let_def nth_append)
      moreover have "of_nat (v mod 256) AND push_bit k 0xFF = (of_nat ((v div 2 ^ k * 2 ^ k) mod 256) :: u8)"
      proof -
        have "unat (of_nat (v mod 256) AND push_bit k 0xFF :: u8) = v mod 256 div 2 ^ k * 2 ^ k"
          by (simp add: and_high_mask unat_of_nat_small)
        also have "\<dots> = (v div 2 ^ k * 2 ^ k) mod 256" by (simp only: div_times_low [OF k(1)])
        also have "\<dots> = unat (of_nat ((v div 2 ^ k * 2 ^ k) mod 256) :: u8)"
          by (rule unat_of_nat_small [symmetric]) simp
        finally show ?thesis by (simp only: unsigned_word_eqI)
      qed
      ultimately show ?thesis using k by (simp add: ip_octets_Suc div_times_low)
    qed
  qed
qed

lemma octets_value_ip_octets: "v < 256 ^ n \<Longrightarrow> octets_value (ip_octets n v) = v"
proof -
  assume v: "v < 256 ^ n"
  have "map (unat \<circ> (of_nat :: nat \<Rightarrow> u8)) (be_digits 256 n v) = be_digits 256 n v"
    by (rule map_idI) (auto simp: unat_of_nat_small dest: be_digits_bound [rotated])
  then show ?thesis using v be_value_digits by (simp add: octets_value_def ip_octets_def)
qed

lemma masked_key:
  assumes "bits \<le> 8 * n" "v < 256 ^ n"
  shows "octets_value (mask_bytes (ip_octets n v) bits) = v div 2 ^ (8 * n - bits) * 2 ^ (8 * n - bits)"
proof -
  have "v div 2 ^ (8 * n - bits) * 2 ^ (8 * n - bits) < 256 ^ n"
    using assms(2) by (rule le_less_trans [OF div_times_less_eq_dividend])
  then show ?thesis by (simp add: mask_bytes_octets [OF assms(1)] octets_value_ip_octets)
qed

text \<open>
  Two addresses are counted together exactly when they are of one family and agree on the configured
  prefix, so a host cannot escape the limit by moving within its prefix, nor exhaust another's.
\<close>

theorem subnet_key_prefix:
  "subnet_key (V4 a) v4 v6 = subnet_key (V4 b) v4 v6 \<longleftrightarrow> unat a div 2 ^ (32 - min (unat v4) 32) = unat b div 2 ^ (32 - min (unat v4) 32)"
  "subnet_key (V6 c) v4 v6 = subnet_key (V6 d) v4 v6 \<longleftrightarrow> unat c div 2 ^ (128 - min (unat v6) 128) = unat d div 2 ^ (128 - min (unat v6) 128)"
  "subnet_key (V4 a) v4 v6 \<noteq> subnet_key (V6 c) v4 v6"
proof -
  have inj: "(of_nat x :: 'w::len word) = of_nat y \<longleftrightarrow> x = y" if "x < 2 ^ LENGTH('w)" "y < 2 ^ LENGTH('w)" for x y
    using that by (metis unat_of_nat_small)
  have lt4: "unat z < 256 ^ 4" for z :: u32 using unsigned_less [of z, where ?'a = nat] by simp
  have lt16: "unat z < 256 ^ 16" for z :: u128 using unsigned_less [of z, where ?'a = nat] by simp
  have s4: "unat z div m * m < 2 ^ LENGTH(32)" for z :: u32 and m
    using le_less_trans [OF div_times_less_eq_dividend unsigned_less] by blast
  have s16: "unat z div m * m < 2 ^ LENGTH(128)" for z :: u128 and m
    using le_less_trans [OF div_times_less_eq_dividend unsigned_less] by blast
  have k4: "octets_value (mask_bytes (ip_octets 4 (unat z)) (min (unat v4) 32))
      = unat z div 2 ^ (32 - min (unat v4) 32) * 2 ^ (32 - min (unat v4) 32)" for z :: u32
    using masked_key [of "min (unat v4) 32" 4 "unat z"] lt4 [of z] by simp
  have k16: "octets_value (mask_bytes (ip_octets 16 (unat z)) (min (unat v6) 128))
      = unat z div 2 ^ (128 - min (unat v6) 128) * 2 ^ (128 - min (unat v6) 128)" for z :: u128
    using masked_key [of "min (unat v6) 128" 16 "unat z"] lt16 [of z] by simp
  show "subnet_key (V4 a) v4 v6 = subnet_key (V4 b) v4 v6 \<longleftrightarrow> unat a div 2 ^ (32 - min (unat v4) 32) = unat b div 2 ^ (32 - min (unat v4) 32)"
    unfolding subnet_key.simps ip_addr.inject k4 inj [OF s4 s4] by simp
  show "subnet_key (V6 c) v4 v6 = subnet_key (V6 d) v4 v6 \<longleftrightarrow> unat c div 2 ^ (128 - min (unat v6) 128) = unat d div 2 ^ (128 - min (unat v6) 128)"
    unfolding subnet_key.simps ip_addr.inject k16 inj [OF s16 s16] by simp
qed simp

end
