(* ===== verification/Guard.thy ===== *)
theory Guard
  imports Ipaddr
begin

text \<open>
  The guard over connections that never ask anything: \<open>crates/sift-dns/src/probe.rs\<close>.  Instants and
  durations are nanoseconds and the clock is an argument.  A strike count is a natural number: it is
  reset with every window, so the \<open>u32\<close> of the code would need four billion connections to wrap.
\<close>

section \<open>The guard\<close>

record guard_config =
  gc_strikes :: nat
  gc_window :: nat
  gc_penalty :: nat
  gc_exempt_local :: bool
  gc_allowlist :: "ip_addr list"


record guard_mark =
  mk_strikes :: nat
  mk_first :: nat
  mk_until :: "nat option"

record guard =
  gd_cfg :: guard_config
  gd_marks :: "(ip_addr \<times> guard_mark) list"

definition GUARD_SWEEP_AT :: nat where "GUARD_SWEEP_AT = 16384"

definition guard_new :: "guard_config \<Rightarrow> guard" where
  "guard_new c = \<lparr>gd_cfg = c, gd_marks = []\<rparr>"

definition guard_set_config :: "guard_config \<Rightarrow> guard \<Rightarrow> guard" where
  "guard_set_config c g = g\<lparr>gd_cfg := c\<rparr>"

text \<open>\<open>is_loopback\<close>, \<open>is_private\<close> and \<open>is_link_local\<close> of \<open>Ipv4Addr\<close>.\<close>

definition v4_local :: "u32 \<Rightarrow> bool" where
  "v4_local a \<longleftrightarrow> drop_bit 24 a = 127
     \<or> (drop_bit 24 a = 10 \<or> drop_bit 20 a = 0xAC1 \<or> drop_bit 16 a = 0xC0A8)
     \<or> drop_bit 16 a = 0xA9FE"

fun guard_is_local :: "ip_addr \<Rightarrow> bool" where
  "guard_is_local (V4 a) \<longleftrightarrow> v4_local a \<or> a = 0"
| "guard_is_local (V6 a) \<longleftrightarrow>
     a = 1 \<or> a = 0 \<or> drop_bit 120 a AND 0xFE = 0xFC
       \<or> (drop_bit 120 a = 0xFE \<and> drop_bit 112 a AND 0xC0 = 0x80)
       \<or> (drop_bit 32 a = 0xFFFF \<and> v4_local (ucast a))"

definition exempt :: "guard \<Rightarrow> ip_addr \<Rightarrow> bool" where
  "exempt g ip \<longleftrightarrow> gc_strikes (gd_cfg g) = 0 \<or> ip \<in> set (gc_allowlist (gd_cfg g))
     \<or> (gc_exempt_local (gd_cfg g) \<and> guard_is_local ip)"

definition admits :: "nat \<Rightarrow> ip_addr \<Rightarrow> guard \<Rightarrow> bool \<times> guard" where
  "admits now ip g =
     (if exempt g ip then (True, g)
      else case map_of (gd_marks g) ip of
        None \<Rightarrow> (True, g)
      | Some m \<Rightarrow>
          (case mk_until m of
             Some t \<Rightarrow> if now < t then (False, g) else (True, g\<lparr>gd_marks := al_remove ip (gd_marks g)\<rparr>)
           | None \<Rightarrow> (True, g)))"

definition guard_served :: "ip_addr \<Rightarrow> guard \<Rightarrow> guard" where
  "guard_served ip g = (if exempt g ip then g else g\<lparr>gd_marks := al_remove ip (gd_marks g)\<rparr>)"

definition still_out :: "nat \<Rightarrow> guard_mark \<Rightarrow> bool" where
  "still_out now m = (case mk_until m of None \<Rightarrow> False | Some t \<Rightarrow> now < t)"

definition strike :: "guard_config \<Rightarrow> nat \<Rightarrow> guard_mark \<Rightarrow> guard_mark" where
  "strike c now m =
     (if still_out now m then m
      else
        let m = (if now - mk_first m > gc_window c then \<lparr>mk_strikes = 0, mk_first = now, mk_until = None\<rparr> else m);
            m = m\<lparr>mk_strikes := mk_strikes m + 1\<rparr>
        in if mk_strikes m \<ge> gc_strikes c then m\<lparr>mk_until := Some (now + gc_penalty c)\<rparr> else m)"

definition guard_wasted :: "nat \<Rightarrow> ip_addr \<Rightarrow> guard \<Rightarrow> guard" where
  "guard_wasted now ip g =
     (if exempt g ip then g
      else
        let c = gd_cfg g;
            marks = (if length (gd_marks g) \<ge> GUARD_SWEEP_AT
                     then filter (\<lambda>(_, m). still_out now m \<or> now - mk_first m < gc_window c) (gd_marks g) else gd_marks g);
            m = (case map_of marks ip of Some m \<Rightarrow> m | None \<Rightarrow> \<lparr>mk_strikes = 0, mk_first = now, mk_until = None\<rparr>)
        in g\<lparr>gd_marks := al_insert ip (strike c now m) marks\<rparr>)"

definition guard_record :: "nat \<Rightarrow> ip_addr \<Rightarrow> nat \<Rightarrow> guard \<Rightarrow> guard" where
  "guard_record now ip served g = (if served = 0 then guard_wasted now ip g else guard_served ip g)"

definition guard_tracked :: "guard \<Rightarrow> nat" where
  "guard_tracked g = length (gd_marks g)"

definition guard_clear :: "guard \<Rightarrow> guard" where
  "guard_clear g = g\<lparr>gd_marks := []\<rparr>"

section \<open>Histories\<close>

text \<open>What happened to a guard, newest first.\<close>

datatype guard_event = Finished ip_addr nat | Asked ip_addr

fun guard_step :: "nat \<Rightarrow> guard_event \<Rightarrow> guard \<Rightarrow> guard" where
  "guard_step now (Finished ip served) g = guard_record now ip served g"
| "guard_step now (Asked ip) g = snd (admits now ip g)"

fun guard_after :: "guard_config \<Rightarrow> (nat \<times> guard_event) list \<Rightarrow> guard" where
  "guard_after c [] = guard_new c"
| "guard_after c ((t, e) # h) = guard_step t e (guard_after c h)"






lemma guard_step_cfg [simp]: "gd_cfg (guard_step t e g) = gd_cfg g"
  by (cases e) (auto simp: guard_record_def guard_wasted_def guard_served_def admits_def Let_def split: option.splits)

lemma guard_after_cfg [simp]: "gd_cfg (guard_after c h) = c"
  by (induction c h rule: guard_after.induct) (auto simp: guard_new_def)




lemma exempt_marks [simp]: "exempt (g\<lparr>gd_marks := ms\<rparr>) ip = exempt g ip"
  by (simp add: exempt_def)












text \<open>A refused source is let in again once its penalty is over, and starts afresh.\<close>

theorem guard_penalty_ends:
  assumes "map_of (gd_marks g) ip = Some m" "mk_until m = Some u" "u \<le> now" "distinct (map fst (gd_marks g))" "\<not> exempt g ip"
  shows "fst (admits now ip g) \<and> map_of (gd_marks (snd (admits now ip g))) ip = None"
  using assms by (simp add: admits_def)

end
