(* ===== verification/Auth_Store.thy ===== *)
theory Auth_Store
  imports Auth Bolt_Roundtrip
begin

text \<open>
  The file behind the sessions.  In \<open>Auth\<close> the session store holds the pairs of its bucket in place of
  the file; here \<open>persist\<close> and \<open>load\<close> of \<open>crates/sift-api/src/auth.rs\<close> write and open the bolt image
  itself, and \<open>session_file_back\<close> shows that the two agree: going through the file changes nothing the
  store reads back.
\<close>

definition SESSIONS_BUCKET :: "u8 list" where
  "SESSIONS_BUCKET = map (\<lambda>c. of_nat (of_char c)) ''sessions-2''"

definition session_bucket :: "(str \<times> session) list \<Rightarrow> bucket_data" where
  "session_bucket m =
     foldl (\<lambda>bk e. case token_bytes (fst e) of None \<Rightarrow> bk | Some key \<Rightarrow> bt_insert key (encode_session (snd e)) bk) [] m"

definition session_file :: "sessions \<Rightarrow> (u8 list, bolt_error) rust_result" where
  "session_file s = build_bolt [(SESSIONS_BUCKET, session_bucket (ss_by_token s))] DEFAULT_PAGE_SIZE"

text \<open>As in \<open>walk_db\<close>, the first argument is the depth to which pages are followed.\<close>

definition load_session_file :: "nat \<Rightarrow> nat \<Rightarrow> u8 list \<Rightarrow> (str \<times> session) list option" where
  "load_session_file depth now d =
     (case from_bytes d of
        Ok db \<Rightarrow>
          (case db_buckets depth db of
             Some (Ok bs) \<Rightarrow> map_option (load_sessions now) (map_of bs SESSIONS_BUCKET)
           | _ \<Rightarrow> None)
      | _ \<Rightarrow> None)"

lemma session_bucket_snoc:
  "session_bucket (m @ [e]) =
     (case token_bytes (fst e) of None \<Rightarrow> session_bucket m | Some key \<Rightarrow> bt_insert key (encode_session (snd e)) (session_bucket m))"
  unfolding session_bucket_def foldl_append foldl.simps ..

lemma bucket_same_pairs: "map_of (session_bucket m) k = map_of (stored_sessions m) k"
proof (induction m rule: rev_induct)
  case (snoc e m)
  then show ?case
    by (cases "token_bytes (fst e)")
      (auto simp: session_bucket_snoc stored_sessions_def store_step_def map_of_bt_insert)
qed (simp add: session_bucket_def stored_sessions_def)

lemma session_bucket_distinct: "distinct (map fst (session_bucket m))"
proof -
  have keys: "fst ` set (bt_insert k v m) = insert k (fst ` set m)" for k v and m :: bucket_data
    by (induction k v m rule: bt_insert.induct) auto
  have "distinct (map fst (bt_insert k v m)) \<and> sorted_wrt (<) (map fst (bt_insert k v m))"
    if "sorted_wrt (<) (map fst m)" for k v and m :: bucket_data
    using that by (induction k v m rule: bt_insert.induct) (auto simp: keys strict_sorted_iff)
  then have "sorted_wrt (<) (map fst (session_bucket m))"
    by (induction m rule: rev_induct) (auto simp: session_bucket_snoc session_bucket_def split: option.splits)
  then show ?thesis using strict_sorted_iff by blast
qed

theorem session_file_back:
  assumes "bolt_fits DEFAULT_PAGE_SIZE [(SESSIONS_BUCKET, session_bucket (ss_by_token s))]" "ss_file s \<noteq> None"
  shows "\<exists>img loaded. session_file s = Ok img \<and> load_session_file (Suc n) now img = Some loaded \<and>
    map_of loaded = map_of (ss_by_token (sessions_open now (ss_file (persist True s))))"
proof -
  let ?b = "session_bucket (ss_by_token s)" and ?a = "stored_sessions (ss_by_token s)"
  obtain img db where img: "session_file s = Ok img" "from_bytes img = Ok db"
      "db_buckets (Suc n) db = Some (Ok [(SESSIONS_BUCKET, ?b)])"
    using build_bolt_eq [OF assms(1)] bolt_read_back [OF assms(1), of n] unfolding session_file_def by blast
  have da: "distinct (map fst ?a)" using distinct_stored [of "[]"] by (simp add: stored_sessions_def)
  have "map_of (load_sessions now ?b) tok = map_of (load_sessions now ?a) tok" for tok
  proof (cases "tok \<in> range hex")
    case True
    then show ?thesis
      using map_of_loaded [OF session_bucket_distinct] map_of_loaded [OF da]
      by (auto simp: load_sessions_def bucket_same_pairs)
  next
    case False
    then show ?thesis using load_sessions_ok by (metis map_of_eq_None_iff subsetD)
  qed
  moreover have "ss_by_token (sessions_open now (ss_file (persist True s))) = load_sessions now ?a"
    using assms(2) by (auto simp: sessions_open_def persist_def)
  ultimately show ?thesis using img by (auto simp: load_session_file_def)
qed

end
