(* ===== verification/Spec2Isabelle.thy ===== *)
theory Spec2Isabelle
  imports Bytesize Matching Auth Pool Stats_Store Log_Api Ratelimit Guard Auth_Store
begin

text \<open>
  Sift is a filtering DNS server: a request is decoded, checked against the access settings, the
  filter lists and the rewrites of the configuration, answered from the cache or by an upstream, shaped to
  the request and observed by a query log and hourly statistics, all of it managed over HTTP.  This
  development models the parts of it that decide something (the Rust crates under \<open>crates/\<close>), in
  definitions that follow the code function by function, and proves what makes each part correct.

  \<^bold>\<open>How the parts interact\<close>

  \<open>Resolver.resolve\<close> is the request path of \<open>sift-dns/src/resolver.rs\<close>.  It asks \<open>Blocked\<close> (access list),
  \<open>Clients\<close> (who is asking, with which settings), \<open>Rewrite\<close>, \<open>Engine\<close> (filter lists, with \<open>Services\<close> and
  \<open>Schedule\<close> for the blocked services and safe search) and \<open>Ddr\<close> in the order of the code; what is left goes
  to \<open>Cache\<close>, to \<open>Pending\<close> (one exchange for many identical requests), to a pool and through \<open>Dns64\<close>, and
  every answer is shaped and cut by \<open>Message\<close>.  A pool is modelled in \<open>Pool\<close>, on its own: the resolver sees
  only what a pool answers.  \<open>Recorder.observe\<close> turns the outcome into an entry of \<open>Querylog\<close>, a count in
  \<open>Stats\<close>, an addition to \<open>Ipset\<close> and a request to \<open>Discovery\<close>.  \<open>Stats_Store\<close> and \<open>Auth_Store\<close> write the
  statistics and the sessions through \<open>Gob\<close> and \<open>Bolt\<close> and read them back.  \<open>Auth\<close> is the gate in front of
  the HTTP interface, and \<open>Log_Api\<close> its endpoints on the log and the statistics.  \<open>Ratelimit\<close> and \<open>Guard\<close>
  stand before the datagram and the stream listeners.

  \<^bold>\<open>Theories and sources\<close>

  \<^item> \<open>Prelude\<close>, \<open>Rust_Str\<close>, \<open>Rust_Result\<close>, \<open>Utf8\<close>, \<open>Ipaddr\<close>: what the sources use of Rust itself.  A machine
    integer is a word where its width matters, a \<open>str\<close> is its UTF-8 bytes, a \<open>Result\<close> is a value, an error
    or a panic, an \<open>IpAddr\<close> has the parser and printer of the standard library.
  \<^item> \<open>Name\<close>, \<open>Bytesize\<close>, \<open>Duration\<close>, \<open>Reason\<close>, \<open>Schedule\<close>: \<open>sift-core\<close> (\<open>name.rs\<close>, \<open>bytesize.rs\<close>,
    \<open>duration.rs\<close>, \<open>reason.rs\<close>, \<open>schedule.rs\<close>).
  \<^item> \<open>Pattern\<close>, \<open>Lazy_Regex\<close>, \<open>Rule\<close>, \<open>Probe\<close>, \<open>Index_Contract\<close>, \<open>Domidx\<close>, \<open>Shortcut\<close>, \<open>Engine\<close>, \<open>Matching\<close>,
    \<open>Services\<close>: \<open>sift-filter\<close> (\<open>pattern.rs\<close>, \<open>rule.rs\<close>, \<open>domidx.rs\<close>, \<open>shortcut.rs\<close>, \<open>engine.rs\<close>, \<open>services.rs\<close>,
    \<open>safesearch.rs\<close>).  The locale \<open>built_index\<close> is what the engine relies on in an index and is interpreted on
    both; \<open>priority_order\<close> is what it relies on in the order of rules.
  \<^item> \<open>Message\<close>, \<open>Cache\<close>, \<open>Pending\<close>, \<open>Dns64\<close>, \<open>Rewrite\<close>, \<open>Ddr\<close>, \<open>Clients\<close>, \<open>Blocked\<close>, \<open>Resolver\<close>, \<open>Addr\<close>, \<open>Pool\<close>,
    \<open>Ratelimit\<close>, \<open>Guard\<close>: \<open>sift-dns\<close> (\<open>msg.rs\<close> and \<open>edns.rs\<close>, then the files of those names; \<open>refresh.rs\<close> is in
    \<open>Resolver\<close>, \<open>probe.rs\<close> is \<open>Guard\<close>).  In \<open>Cache\<close> the locales \<open>shard_step\<close>, \<open>keyed_step\<close> and \<open>shrinking_step\<close>
    are the contracts of the operations on one shard.
  \<^item> \<open>Gob\<close>, \<open>Bolt\<close>, \<open>Bolt_Roundtrip\<close>: \<open>sift-gob\<close> and \<open>sift-bolt\<close>; in \<open>Gob\<close> the locales \<open>reader\<close> and \<open>codec\<close> are
    the contracts of a decoding function and of a pair that round-trips.
  \<^item> \<open>Stats\<close>, \<open>Stats_Store\<close>, \<open>Querylog\<close>: \<open>sift-stats\<close> and \<open>sift-querylog\<close>.
  \<^item> \<open>Auth\<close>, \<open>Auth_Store\<close>, \<open>Log_Api\<close>: \<open>sift-api\<close> (\<open>auth.rs\<close>, the gate of \<open>routes.rs\<close>, login and logout of
    \<open>handlers/misc.rs\<close>, \<open>handlers/logs.rs\<close>).
  \<^item> \<open>Ipset\<close>, \<open>Discovery\<close>, \<open>Recorder\<close>: \<open>sift\<close> (\<open>ipset.rs\<close>, \<open>discovery.rs\<close>, \<open>wiring.rs\<close>).

  State behind a lock is a record that the operations return updated; a hash map is an association list
  with distinct keys and a \<open>BTreeMap\<close> one in the order of its keys.  Where operations of several tasks may
  interleave, the steps are those the locks and channels leave atomic: the steps of a leader and its
  followers in \<open>Pending\<close>, the awaits of a request in \<open>Resolver\<close> (\<open>w_meanwhile\<close> is what others did), the
  claim, snapshot and store of the task that saves the statistics in \<open>Stats\<close>.

  \<^bold>\<open>What is shown\<close>

  \<^item> Filtering (\<open>Matching\<close>, \<open>Domidx\<close>, \<open>Shortcut\<close>, \<open>Lazy_Regex\<close>, \<open>Name\<close>, \<open>Rewrite\<close>): the compiled engine answers as a
    search through all rules without an index, given that no shortcut hides a rule in force and no two
    domains share a hash; the two indexes answer what they promise, compiling expressions lazily and
    evicting them is not visible, and the glob matcher and the rewrite table decide as documented.
  \<^item> Requests (\<open>Resolver\<close>, \<open>Message\<close>): a filtered query sends nothing upstream; which pool a query goes to and
    what it reveals of the client; what every response satisfies, how it is cut to a datagram and what a
    blocked query is answered; and what becomes of a claimed refresh.
  \<^item> State shared by requests (\<open>Cache\<close>, \<open>Pending\<close>): the cache keeps to its budget, returns what was stored last
    and hands out a refresh once; identical requests share one exchange and no follower is left waiting.
  \<^item> Upstreams and clients (\<open>Pool\<close>, \<open>Clients\<close>, \<open>Ratelimit\<close>, \<open>Guard\<close>): which upstreams serve a name, when a query is
    answered and by whom; how a client is recognised and named; how many datagrams a subnet gets through,
    and which connections are refused.
  \<^item> Records (\<open>Stats\<close>, \<open>Stats_Store\<close>, \<open>Querylog\<close>, \<open>Recorder\<close>, \<open>Ipset\<close>): the statistics of an hour, their report, their
    top lists and when they have to be saved; what the statistics and the log read back after a restart;
    reading the log backwards; what ignored or anonymised clients leave behind; what is in the ipsets.
  \<^item> Files (\<open>Bolt_Roundtrip\<close>, \<open>Gob\<close>): the database round trip and that reading returns; the decoder on cut and
    on arbitrary bytes.
  \<^item> Administration (\<open>Auth\<close>, \<open>Auth_Store\<close>): who passes the gate, when a client is throttled, and which sessions
    come back after a restart.

  Lemmas beside them show where the code does not do what it says, such as \<open>shortcut_of_alternation\<close>,
  \<open>colliding_domains_reported\<close>, \<open>bolt_self_branch_file\<close>, \<open>overflow_end_wraps\<close>, \<open>stats_clock_back\<close>,
  \<open>failed_save_unmarks\<close>, \<open>gob_capacity_panic\<close>, \<open>failed_flush_drops_batch\<close> and \<open>read_repeats_entries\<close>.

  \<^bold>\<open>Parameters and their hypotheses\<close>

  Code that is not in the repository is an argument: the \<open>hickory_proto\<close> crate (the record \<open>hickory\<close>, with
  \<open>subnet_laws\<close> and the length of a truncated message where they are needed), the \<open>regex\<close> crate (\<open>rx_new\<close>,
  \<open>rx_match\<close>), \<open>jiff\<close>, \<open>bcrypt\<close>, base64 and \<open>serde_json\<close> (\<open>json_ok\<close>: a line written is read back), the \<open>ipset\<close>
  command (\<open>ipset_sound\<close>), the rounding of \<open>f64\<close> (\<open>f64_rounding\<close>), the network, the order in which tasks run
  (\<open>pool_world_ok\<close>), the clock, random bytes and whether the disk took a write.  The domain hash of the engine
  is modelled, and that the domains of a set have different hashes is a hypothesis where it is needed.

  \<^bold>\<open>Loops, depth and widths\<close>

  A loop that is not structural is a \<open>function\<close> with its measure or a \<open>partial_function\<close> whose \<open>None\<close> is a run
  that does not return, and the theorems show that a value is returned.  The one recursion without a limit
  in the code, the walk of a bolt file, takes the depth of its calls: the number of pages of the file is
  enough unless a branch page leads back to itself, and depth one is enough for every file the program
  writes (\<open>walk_depth\<close> and \<open>bolt_read_back\<close> in \<open>Bolt_Roundtrip\<close>).  A \<open>usize\<close> has 64 bits.

  \<^bold>\<open>What is not modelled\<close>

  Sockets, TLS, QUIC and HTTP (\<open>conn.rs\<close>, \<open>tls.rs\<close>, \<open>doq.rs\<close>, \<open>doh.rs\<close>, \<open>http3.rs\<close>, \<open>https.rs\<close>, the loops of
  \<open>server.rs\<close>), the web interface and the other handlers, the YAML configuration and its migrations, the
  download and the metadata of filter lists, and the command line, the service manager, the updater and
  logging: they are input and output, data, or calls of libraries, and carry none of the properties above.
  Error texts are kept as the data they format or left out.
\<close>

end
